(* ===== verification/Py_Values.thy ===== *)
theory Py_Values
  imports Main "HOL-Library.AList" "HOL-Library.Word" "HOL-Library.Char_ord"
    "HOL-Library.List_Lexorder" "HOL-Library.Multiset"
begin

text \<open>
  The prelude of the development: the part of Python that the Mindees sources rely on.

  \<^item> \<open>pyval\<close> is a value as \<open>json.loads\<close> builds it. The fields of a transaction or block
    that came over the wire are such values: neither \<open>decode_tx\<close> nor the \<open>dataclass\<close> checks
    their types, so the checks (and the \<open>TypeError\<close>s) of the ledger code are part of the model.
  \<^item> \<open>perror\<close> and \<open>'a res\<close>: an exception is a value, \<open>rbind\<close> is the sequencing of statements
    that may raise. For messages built with an f-string the constant part is kept.
  \<^item> A \<open>dict\<close> is an association list in insertion order, as Python keeps it: \<open>dget\<close> is
    \<open>d.get(k, default)\<close>, \<open>AList.update\<close> is \<open>d[k] = v\<close> (it overwrites in place or appends),
    \<open>AList.delete\<close> is \<open>del d[k]\<close>, \<open>dsum\<close> is \<open>sum(d.values())\<close>. A \<open>set\<close> is a list without
    repetitions (\<open>List.insert\<close>).
\<close>

section \<open>Shared collections of facts\<close>

named_theorems res_simps \<open>how results of statements that may raise decompose\<close>
named_theorems dict_simps \<open>lookups and sums of updated dictionaries\<close>

section \<open>Values\<close>

type_synonym byte = "8 word"
type_synonym bytes = "8 word list"

text \<open>
  A float is not-a-number, an infinity (the flag is its sign), a signed zero, or
  \<open>\<plusminus> m \<sqdot> 2 ^ e\<close> with an odd mantissa \<open>m\<close>, which makes the representation of a value unique.
\<close>

datatype pyfloat = FNaN | FInf bool | FZero bool | FFin bool nat int

datatype pyval =
    PNone
  | PBool bool
  | PInt int
  | PFloat pyfloat
  | PStr string
  | PList "pyval list"
  | PDict "(string \<times> pyval) list"

datatype perror =
    ValidationError string
  | ValueError string
  | TypeError string
  | KeyError string
  | AttributeError string
  | OverflowError string
  | RecursionError string

type_synonym 'a res = "perror + 'a"

subsection \<open>Truth value, equality and order\<close>

fun truthy :: "pyval \<Rightarrow> bool" where
  "truthy PNone = False"
| "truthy (PBool b) = b"
| "truthy (PInt i) = (i \<noteq> 0)"
| "truthy (PFloat (FZero s)) = False"
| "truthy (PFloat f) = True"
| "truthy (PStr s) = (s \<noteq> [])"
| "truthy (PList xs) = (xs \<noteq> [])"
| "truthy (PDict d) = (d \<noteq> [])"

text \<open>
  \<open>True == 1 == 1.0\<close> holds in Python, also inside containers and as dictionary keys, and two
  dictionaries are equal whatever the order of their keys. \<open>norm\<close> picks one representative of
  each class of equal values.
\<close>

fun float_int :: "pyfloat \<Rightarrow> int option" where
  "float_int (FZero s) = Some 0"
| "float_int (FFin s m e) =
     (if 0 \<le> e then Some ((if s then -1 else 1) * int m * 2 ^ nat e) else None)"
| "float_int f = None"

primrec norm :: "pyval \<Rightarrow> pyval" where
  "norm PNone = PNone"
| "norm (PBool b) = PInt (if b then 1 else 0)"
| "norm (PInt i) = PInt i"
| "norm (PFloat f) = (case float_int f of Some i \<Rightarrow> PInt i | None \<Rightarrow> PFloat f)"
| "norm (PStr s) = PStr s"
| "norm (PList xs) = PList (map norm xs)"
| "norm (PDict d) = PDict (sort_key fst (map (map_prod id norm) d))"

text \<open>\<open>x == y\<close>; a not-a-number differs from everything, itself included.\<close>

definition py_eq :: "pyval \<Rightarrow> pyval \<Rightarrow> bool" where
  "py_eq x y \<longleftrightarrow> x \<noteq> PFloat FNaN \<and> norm x = norm y"

text \<open>
  \<open>x < y\<close>: numbers by value (an integer \<open>m\<close> and an exponent of two), strings and lists
  lexicographically, anything else raises \<open>TypeError\<close>.
\<close>

datatype pynum = NegInfty | Dyadic int int | PosInfty

fun float_num :: "pyfloat \<Rightarrow> pynum option" where
  "float_num FNaN = None"
| "float_num (FInf s) = Some (if s then NegInfty else PosInfty)"
| "float_num (FZero s) = Some (Dyadic 0 0)"
| "float_num (FFin s m e) = Some (Dyadic (if s then - int m else int m) e)"

fun pynum_less :: "pynum \<Rightarrow> pynum \<Rightarrow> bool" where
  "pynum_less (Dyadic a e) (Dyadic b f) =
     (let k = min e f in a * 2 ^ nat (e - k) < b * 2 ^ nat (f - k))"
| "pynum_less NegInfty y = (y \<noteq> NegInfty)"
| "pynum_less x PosInfty = (x \<noteq> PosInfty)"
| "pynum_less x y = False"

text \<open>The number a value is, if it is one: \<open>Some None\<close> stands for not-a-number.\<close>

fun py_num :: "pyval \<Rightarrow> pynum option option" where
  "py_num (PBool b) = Some (Some (Dyadic (if b then 1 else 0) 0))"
| "py_num (PInt i) = Some (Some (Dyadic i 0))"
| "py_num (PFloat f) = Some (float_num f)"
| "py_num v = None"

fun py_lt :: "pyval \<Rightarrow> pyval \<Rightarrow> bool res" where
  "py_lt (PStr s) (PStr t) = Inr (s < t)"
| "py_lt (PList []) (PList ys) = Inr (ys \<noteq> [])"
| "py_lt (PList (x # xs)) (PList []) = Inr False"
| "py_lt (PList (x # xs)) (PList (y # ys)) =
     (if norm x = norm y then py_lt (PList xs) (PList ys) else py_lt x y)"
| "py_lt x y =
     (case (py_num x, py_num y) of
        (Some (Some a), Some (Some b)) \<Rightarrow> Inr (pynum_less a b)
      | (Some _, Some _) \<Rightarrow> Inr False
      | _ \<Rightarrow> Inl (TypeError ''not supported between instances''))"

text \<open>A value used as a dictionary key: containers are unhashable.\<close>

fun hash_key :: "pyval \<Rightarrow> pyval res" where
  "hash_key (PList xs) = Inl (TypeError ''unhashable type: list'')"
| "hash_key (PDict d) = Inl (TypeError ''unhashable type: dict'')"
| "hash_key v = Inr (norm v)"

text \<open>Reading a value whose type has been checked before.\<close>

fun the_int :: "pyval \<Rightarrow> int" where
  "the_int (PInt i) = i"
| "the_int (PBool b) = (if b then 1 else 0)"
| "the_int v = 0"

fun the_str :: "pyval \<Rightarrow> string" where
  "the_str (PStr s) = s"
| "the_str v = []"

fun is_str :: "pyval \<Rightarrow> bool" where
  "is_str (PStr s) = True"
| "is_str v = False"

lemma is_str_iff: "is_str v \<longleftrightarrow> (\<exists>s. v = PStr s)"
  by (cases v) auto

lemma norm_eq_PStr [simp]: "norm v = PStr s \<longleftrightarrow> v = PStr s"
  by (cases v) (auto split: option.splits)

lemma py_eq_PStr [simp]: "py_eq v (PStr s) \<longleftrightarrow> v = PStr s" "py_eq (PStr s) v \<longleftrightarrow> v = PStr s"
  by (auto simp: py_eq_def dest: sym)

lemma py_eq_PInt [simp]: "py_eq (PInt i) (PInt j) \<longleftrightarrow> i = j"
  by (simp add: py_eq_def)

section \<open>Statements that may raise\<close>

definition rbind :: "'a res \<Rightarrow> ('a \<Rightarrow> 'b res) \<Rightarrow> 'b res" where
  "rbind m f = (case m of Inl e \<Rightarrow> Inl e | Inr x \<Rightarrow> f x)"

lemma rbind_simps [simp, res_simps]:
  "rbind (Inl e) f = Inl e"
  "rbind (Inr x) f = f x"
  by (simp_all add: rbind_def)

lemma rbind_eq_Inr [res_simps]:
  "rbind m f = Inr y \<longleftrightarrow> (\<exists>x. m = Inr x \<and> f x = Inr y)"
  by (cases m) auto

lemma rbind_eq_Inl [res_simps]:
  "rbind m f = Inl e \<longleftrightarrow> m = Inl e \<or> (\<exists>x. m = Inr x \<and> f x = Inl e)"
  by (cases m) auto

lemma rbind_assoc: "rbind (rbind m f) g = rbind m (\<lambda>x. rbind (f x) g)"
  by (cases m) auto

lemma if_raise_eq_Inr [res_simps]: "(if b then Inl e else m) = Inr y \<longleftrightarrow> \<not> b \<and> m = Inr y"
  by auto

primrec mapM :: "('a \<Rightarrow> 'b res) \<Rightarrow> 'a list \<Rightarrow> 'b list res" where
  "mapM f [] = Inr []"
| "mapM f (x # xs) = rbind (f x) (\<lambda>y. rbind (mapM f xs) (\<lambda>ys. Inr (y # ys)))"

lemma mapM_Inr: "(\<And>x. x \<in> set xs \<Longrightarrow> f x = Inr (g x)) \<Longrightarrow> mapM f xs = Inr (map g xs)"
  by (induction xs) auto

section \<open>Dictionaries in insertion order\<close>

definition dget :: "('k \<times> 'v) list \<Rightarrow> 'k \<Rightarrow> 'v \<Rightarrow> 'v" where
  "dget d k v = (case map_of d k of None \<Rightarrow> v | Some x \<Rightarrow> x)"

definition dhas :: "('k \<times> 'v) list \<Rightarrow> 'k \<Rightarrow> bool" where
  "dhas d k \<longleftrightarrow> k \<in> fst ` set d"

definition dsum :: "('k \<times> int) list \<Rightarrow> int" where
  "dsum d = sum_list (map snd d)"

definition wf_dict :: "('k \<times> 'v) list \<Rightarrow> bool" where
  "wf_dict d \<longleftrightarrow> distinct (map fst d)"

text \<open>\<open>d[k]\<close>, which raises on a missing key.\<close>

definition dlookup :: "('k \<times> 'v) list \<Rightarrow> 'k \<Rightarrow> 'v res" where
  "dlookup d k = (case map_of d k of None \<Rightarrow> Inl (KeyError ''missing key'') | Some v \<Rightarrow> Inr v)"

text \<open>\<open>d.setdefault(k, v)\<close>: an insertion only where the key is missing.\<close>

definition dsetdefault :: "('k \<times> 'v) list \<Rightarrow> 'k \<Rightarrow> 'v \<Rightarrow> ('k \<times> 'v) list" where
  "dsetdefault d k v = (if dhas d k then d else AList.update k v d)"

lemma dget_Nil [simp]: "dget [] k v = v"
  by (simp add: dget_def)

lemma dget_Cons [simp]: "dget ((k', x) # d) k v = (if k' = k then x else dget d k v)"
  by (simp add: dget_def)

lemma dget_update [simp, dict_simps]:
  "dget (AList.update k x d) k' v = (if k' = k then x else dget d k' v)"
  by (simp add: dget_def update_conv')

lemma dget_delete [simp, dict_simps]:
  "dget (AList.delete k d) k' v = (if k' = k then v else dget d k' v)"
  by (simp add: dget_def delete_conv')

lemma dget_not_dhas [simp]: "\<not> dhas d k \<Longrightarrow> dget d k v = v"
  by (induction d) (auto simp: dhas_def dget_def)

lemma dhas_Nil [simp]: "\<not> dhas [] k"
  by (simp add: dhas_def)

lemma dhas_iff_map_of: "dhas d k \<longleftrightarrow> map_of d k \<noteq> None"
  by (simp add: dhas_def map_of_eq_None_iff)

lemma dlookup_eq_Inr [res_simps]: "dlookup d k = Inr v \<longleftrightarrow> map_of d k = Some v"
  by (simp add: dlookup_def split: option.splits)

lemma dget_map_of: "map_of d k = Some x \<Longrightarrow> dget d k v = x"
  by (simp add: dget_def)

lemma dhas_update [simp, dict_simps]: "dhas (AList.update k x d) k' \<longleftrightarrow> k' = k \<or> dhas d k'"
  by (auto simp: dhas_iff_map_of update_conv')

lemma dhas_delete [simp, dict_simps]: "dhas (AList.delete k d) k' \<longleftrightarrow> k' \<noteq> k \<and> dhas d k'"
  by (auto simp: dhas_iff_map_of delete_conv')

lemma dget_setdefault [simp, dict_simps]:
  "dget (dsetdefault d k x) k' v = (if k' = k \<and> \<not> dhas d k then x else dget d k' v)"
  by (simp add: dsetdefault_def)

lemma dsum_Nil [simp]: "dsum [] = 0"
  by (simp add: dsum_def)

lemma dsum_Cons [simp]: "dsum (p # d) = snd p + dsum d"
  by (simp add: dsum_def)

lemma dsum_append [simp]: "dsum (d @ e) = dsum d + dsum e"
  by (simp add: dsum_def)

lemma dsum_update [simp, dict_simps]: "dsum (AList.update k x d) = dsum d - dget d k 0 + x"
  by (induction d) auto

lemma dsum_delete [dict_simps]: "wf_dict d \<Longrightarrow> dsum (AList.delete k d) = dsum d - dget d k 0"
  by (induction d) (auto simp: wf_dict_def dget_def map_of_eq_None_iff)

lemma length_update_new: "\<not> dhas d k \<Longrightarrow> length (AList.update k v d) = Suc (length d)"
  by (induction d) (auto simp: dhas_def)

lemma update_new: "\<not> dhas d k \<Longrightarrow> AList.update k v d = d @ [(k, v)]"
  by (induction d) (auto simp: dhas_def)

lemma fold_update_new:
  "distinct (map f vs) \<Longrightarrow> (\<And>v. v \<in> set vs \<Longrightarrow> f v \<notin> fst ` set d) \<Longrightarrow>
   fold (\<lambda>v. AList.update (f v) (h v)) vs d = d @ map (\<lambda>v. (f v, h v)) vs"
proof (induction vs arbitrary: d)
  case (Cons v vs)
  have new: "AList.update (f v) (h v) d = d @ [(f v, h v)]" using Cons.prems(2) [of v] by (intro update_new) (simp add: dhas_def)
  have "fold (\<lambda>v. AList.update (f v) (h v)) vs (d @ [(f v, h v)]) = (d @ [(f v, h v)]) @ map (\<lambda>v. (f v, h v)) vs"
    using Cons.prems by (intro Cons.IH) (auto, metis image_eqI)
  with new show ?case by simp
qed simp

lemma wf_dict_Nil [simp]: "wf_dict []"
  by (simp add: wf_dict_def)

lemma wf_dict_update [simp]: "wf_dict d \<Longrightarrow> wf_dict (AList.update k x d)"
  by (simp add: wf_dict_def distinct_update)

lemma wf_dict_delete [simp]: "wf_dict d \<Longrightarrow> wf_dict (AList.delete k d)"
  by (simp add: wf_dict_def distinct_delete)

lemma wf_dict_setdefault [simp]: "wf_dict d \<Longrightarrow> wf_dict (dsetdefault d k x)"
  by (simp add: dsetdefault_def)

text \<open>A property of every value of a dictionary.\<close>

definition dall :: "('v \<Rightarrow> bool) \<Rightarrow> ('k \<times> 'v) list \<Rightarrow> bool" where
  "dall P d \<longleftrightarrow> list_all (\<lambda>p. P (snd p)) d"

lemma dall_Nil [simp]: "dall P []"
  by (simp add: dall_def)

lemma dall_Cons [simp]: "dall P (p # d) \<longleftrightarrow> P (snd p) \<and> dall P d"
  by (simp add: dall_def)

lemma dall_update [intro]: "dall P d \<Longrightarrow> P x \<Longrightarrow> dall P (AList.update k x d)"
  by (induction d) auto

lemma dall_delete [intro]: "dall P d \<Longrightarrow> dall P (AList.delete k d)"
  by (induction d) auto

lemma dall_dget: "dall P d \<Longrightarrow> P v \<Longrightarrow> P (dget d k v)"
  by (induction d) auto

lemma dall_lookup: "dall P d \<Longrightarrow> map_of d k = Some x \<Longrightarrow> P x"
  by (induction d) (auto split: if_splits)

lemma dsum_nonneg: "dall (\<lambda>v. 0 \<le> v) d \<Longrightarrow> 0 \<le> dsum d"
  by (induction d) auto

lemma dget_le_dsum: "dall (\<lambda>v. 0 \<le> v) d \<Longrightarrow> dget d k 0 \<le> dsum d"
proof (induction d)
  case (Cons p d)
  then have "0 \<le> dsum d" by (simp add: dsum_nonneg)
  with Cons show ?case by (cases p) auto
qed simp

end
