(* ===== verification/Encoding.thy ===== *)
theory Encoding
  imports Py_Values
begin

text \<open>
  The deterministic helpers of \<open>core.py\<close>: hashing, the canonical JSON encoding, hexadecimal and
  Base58Check. Everything that is not code of the repository (the SHA-256 of \<open>hashlib\<close>, the
  \<open>cryptography\<close> package, the reading and printing of floats) is a field of the record
  \<open>env\<close>, an argument of the definitions that use it; no theorem fixes what it computes.

  Shown here: hexadecimal text reads back (\<open>fromhex_hex\<close>), and is read back from spellings
  that differ in case and white space too; Base58Check loses nothing (\<open>b58check_inj\<close>).
\<close>

section \<open>The environment\<close>

text \<open>
  \<^item> \<open>hashlib_sha256\<close>: \<open>hashlib.sha256(data).digest()\<close>.
  \<^item> \<open>float_repr\<close>, \<open>float_add1\<close>: \<open>repr(f)\<close> and \<open>f + 1\<close> on floats.
  \<^item> \<open>parse_float\<close>: \<open>float(s)\<close> of the text of a float literal.
  \<^item> \<open>decode_dss\<close>, \<open>encode_dss\<close>: the DER codec of \<open>cryptography\<close>; \<open>None\<close> is a \<open>ValueError\<close>.
  \<^item> \<open>point_ok\<close>: \<open>from_encoded_point\<close> accepts the bytes; \<open>ecdsa_verify\<close>: \<open>pub.verify\<close> does not
    raise \<open>InvalidSignature\<close> (public key, message, signature).
  \<^item> \<open>derive_ok\<close>, \<open>public_bytes\<close>, \<open>ecdsa_sign\<close>: \<open>derive_private_key\<close> accepts the secret, its
    compressed public point, and an ECDSA signature under it, whose last argument is the random
    nonce that ECDSA draws.
  \<^item> \<open>json_room\<close>, \<open>call_room\<close>: the recursion limit of the interpreter, as the number of brackets that
    \<open>json.loads\<close> can have open in a line from a peer, and of nested calls of \<open>_drain_orphans\<close>.
\<close>

record env =
  hashlib_sha256 :: "bytes \<Rightarrow> bytes"
  float_repr :: "pyfloat \<Rightarrow> string"
  float_add1 :: "pyfloat \<Rightarrow> pyfloat"
  parse_float :: "string \<Rightarrow> pyfloat"
  decode_dss :: "bytes \<Rightarrow> (int \<times> int) option"
  encode_dss :: "int \<Rightarrow> int \<Rightarrow> bytes"
  point_ok :: "bytes \<Rightarrow> bool"
  ecdsa_verify :: "bytes \<Rightarrow> bytes \<Rightarrow> bytes \<Rightarrow> bool"
  derive_ok :: "int \<Rightarrow> bool"
  public_bytes :: "int \<Rightarrow> bytes"
  ecdsa_sign :: "int \<Rightarrow> bytes \<Rightarrow> nat \<Rightarrow> bytes"
  json_room :: nat
  call_room :: nat

section \<open>Bytes and numbers\<close>

definition encode_str :: "string \<Rightarrow> bytes" where
  "encode_str s = map (\<lambda>c. of_nat (of_char c)) s"

definition sha256 :: "env \<Rightarrow> bytes \<Rightarrow> bytes" where
  "sha256 E data = hashlib_sha256 E data"

definition double_sha256 :: "env \<Rightarrow> bytes \<Rightarrow> bytes" where
  "double_sha256 E data = sha256 E (sha256 E data)"

text \<open>\<open>int.from_bytes(b, "big")\<close> and \<open>n.to_bytes(8, "big")\<close>.\<close>

definition from_bytes :: "bytes \<Rightarrow> nat" where
  "from_bytes bs = foldl (\<lambda>a b. a * 256 + unat b) 0 bs"

definition to_bytes8 :: "int \<Rightarrow> bytes res" where
  "to_bytes8 i =
     (if i < 0 \<or> 2 ^ 64 \<le> i then Inl (OverflowError ''int too big to convert'')
      else Inr (map (\<lambda>k. of_int (i div 256 ^ k)) [7, 6, 5, 4, 3, 2, 1, 0]))"

section \<open>Hexadecimal text\<close>

definition hex_digits :: string where
  "hex_digits = ''0123456789abcdef''"

definition hex_byte :: "byte \<Rightarrow> string" where
  "hex_byte b = [hex_digits ! (unat b div 16), hex_digits ! (unat b mod 16)]"

text \<open>\<open>b.hex()\<close>\<close>

definition hex :: "bytes \<Rightarrow> string" where
  "hex bs = concat (map hex_byte bs)"

definition hex_value :: "char \<Rightarrow> nat option" where
  "hex_value c =
     (let n = (of_char c :: nat)
      in if 48 \<le> n \<and> n \<le> 57 then Some (n - 48)
         else if 97 \<le> n \<and> n \<le> 102 then Some (n - 87)
         else if 65 \<le> n \<and> n \<le> 70 then Some (n - 55)
         else None)"

definition is_space :: "char \<Rightarrow> bool" where
  "is_space c \<longleftrightarrow> (let n = (of_char c :: nat) in n = 32 \<or> 9 \<le> n \<and> n \<le> 13)"

text \<open>
  \<open>bytes.fromhex(s)\<close>: white space is skipped before each pair of digits, of either case;
  \<open>None\<close> is its \<open>ValueError\<close>.
\<close>

fun fromhex :: "string \<Rightarrow> bytes option" where
  "fromhex [] = Some []"
| "fromhex [c] = (if is_space c then Some [] else None)"
| "fromhex (c # d # s) =
     (if is_space c then fromhex (d # s)
      else (case (hex_value c, hex_value d) of
              (Some h, Some l) \<Rightarrow> map_option (Cons (of_nat (16 * h + l))) (fromhex s)
            | _ \<Rightarrow> None))"

section \<open>Canonical JSON\<close>

definition digit_char :: "nat \<Rightarrow> char" where
  "digit_char n = char_of (48 + n)"

fun show_nat :: "nat \<Rightarrow> string" where
  "show_nat n = (if n < 10 then [digit_char n] else show_nat (n div 10) @ [digit_char (n mod 10)])"

declare show_nat.simps [simp del]

definition show_int :: "int \<Rightarrow> string" where
  "show_int i = (if i < 0 then CHR ''-'' # show_nat (nat (- i)) else show_nat (nat i))"

text \<open>
  \<open>json.dumps(obj, sort_keys=True, separators=(",", ":"))\<close>. Strings are printed in ASCII:
  everything outside the printable range is escaped.
\<close>

definition json_char :: "char \<Rightarrow> string" where
  "json_char c =
     (let n = (of_char c :: nat)
      in if n = 34 then [CHR 0x5C, CHR 0x22]
         else if n = 92 then [CHR 0x5C, CHR 0x5C]
         else if n = 10 then [CHR 0x5C, CHR ''n'']
         else if n = 13 then [CHR 0x5C, CHR ''r'']
         else if n = 9 then [CHR 0x5C, CHR ''t'']
         else if n = 12 then [CHR 0x5C, CHR ''f'']
         else if n = 8 then [CHR 0x5C, CHR ''b'']
         else if 32 \<le> n \<and> n \<le> 126 then [c]
         else [CHR 0x5C, CHR ''u'', CHR ''0'', CHR ''0'',
               hex_digits ! (n div 16), hex_digits ! (n mod 16)])"

definition json_string :: "string \<Rightarrow> string" where
  "json_string s = CHR 0x22 # concat (map json_char s) @ [CHR 0x22]"

fun json_float :: "env \<Rightarrow> pyfloat \<Rightarrow> string" where
  "json_float E FNaN = ''NaN''"
| "json_float E (FInf s) = (if s then ''-Infinity'' else ''Infinity'')"
| "json_float E f = float_repr E f"

fun join :: "string list \<Rightarrow> string" where
  "join [] = []"
| "join [s] = s"
| "join (s # t # ss) = s @ CHR '','' # join (t # ss)"

primrec json_dumps :: "env \<Rightarrow> pyval \<Rightarrow> string" where
  "json_dumps E PNone = ''null''"
| "json_dumps E (PBool b) = (if b then ''true'' else ''false'')"
| "json_dumps E (PInt i) = show_int i"
| "json_dumps E (PFloat f) = json_float E f"
| "json_dumps E (PStr s) = json_string s"
| "json_dumps E (PList xs) = CHR ''['' # join (map (json_dumps E) xs) @ '']''"
| "json_dumps E (PDict d) =
     CHR ''{'' # join (map (\<lambda>(k, t). json_string k @ CHR '':'' # t)
       (sort_key fst (map (map_prod id (json_dumps E)) d))) @ ''}''"

definition canonical :: "env \<Rightarrow> pyval \<Rightarrow> bytes" where
  "canonical E obj = encode_str (json_dumps E obj)"

section \<open>Base58Check\<close>

definition B58 :: string where
  "B58 = ''123456789ABCDEFGHJKLMNPQRSTUVWXYZabcdefghijkmnopqrstuvwxyz''"

fun b58_loop :: "nat \<Rightarrow> string \<Rightarrow> string" where
  "b58_loop n out = (if 0 < n then b58_loop (n div 58) (B58 ! (n mod 58) # out) else out)"

declare b58_loop.simps [simp del]

fun b58_zeros :: "bytes \<Rightarrow> string \<Rightarrow> string" where
  "b58_zeros [] out = out"
| "b58_zeros (b # bs) out = (if b = 0 then b58_zeros bs (CHR ''1'' # out) else out)"

definition b58check :: "env \<Rightarrow> bytes \<Rightarrow> string" where
  "b58check E payload =
     (let raw = payload @ take 4 (double_sha256 E payload)
      in b58_zeros raw (b58_loop (from_bytes raw) []))"

section \<open>Hexadecimal text reads back\<close>

lemma hex_value_digit: "n < 16 \<Longrightarrow> hex_value (hex_digits ! n) = Some n"
proof -
  have "\<forall>n \<in> {..<16}. hex_value (hex_digits ! n) = Some n"
    by code_simp
  then show "n < 16 \<Longrightarrow> hex_value (hex_digits ! n) = Some n" by simp
qed

lemma not_space_digit: "n < 16 \<Longrightarrow> \<not> is_space (hex_digits ! n)"
proof -
  have "\<forall>n \<in> {..<16}. \<not> is_space (hex_digits ! n)"
    by code_simp
  then show "n < 16 \<Longrightarrow> \<not> is_space (hex_digits ! n)" by simp
qed

lemma unat_byte_less [simp]: "unat (b :: byte) < 256"
  using unsigned_less [where ?'a = nat and w = b] by simp

lemma fromhex_hex_byte:
  "fromhex (hex_byte b @ s) = map_option (Cons b) (fromhex s)"
proof -
  have "unat b div 16 < 16" "unat b mod 16 < 16"
    using unat_byte_less [of b] by (auto simp del: unat_byte_less)
  then show ?thesis
    by (simp add: hex_byte_def hex_value_digit not_space_digit option.map_comp comp_def)
qed

lemma hex_simps [simp]: "hex [] = []" "hex (b # bs) = hex_byte b @ hex bs"
  by (simp_all add: hex_def)

theorem fromhex_hex [simp]: "fromhex (hex bs) = Some bs"
  by (induction bs) (simp_all add: fromhex_hex_byte)

lemma hex_inj: "hex bs = hex cs \<Longrightarrow> bs = cs"
  by (metis fromhex_hex option.inject)

lemma fromhex_space: "is_space c \<Longrightarrow> fromhex (c # s) = fromhex s"
  by (cases s) auto

section \<open>Digits\<close>

definition of_digits :: "nat \<Rightarrow> nat list \<Rightarrow> nat" where
  "of_digits b ds = foldl (\<lambda>a d. a * b + d) 0 ds"

lemma foldl_digits: "foldl (\<lambda>a d. a * b + d) x ds = x * b ^ length ds + of_digits b ds"
proof (induction ds arbitrary: x)
  case (Cons d ds)
  have "foldl (\<lambda>a d. a * b + d) (x * b + d) ds = (x * b + d) * b ^ length ds + of_digits b ds"
    by (rule Cons.IH)
  moreover have "of_digits b (d # ds) = d * b ^ length ds + of_digits b ds"
    using Cons.IH [of d] by (simp add: of_digits_def)
  ultimately show ?case by (simp add: algebra_simps)
qed (simp add: of_digits_def)

lemma of_digits_Cons: "of_digits b (d # ds) = d * b ^ length ds + of_digits b ds"
  using foldl_digits [of b d ds] by (simp add: of_digits_def)

lemma of_digits_Nil [simp]: "of_digits b [] = 0"
  by (simp add: of_digits_def)

lemma of_digits_append: "of_digits b (ds @ es) = of_digits b ds * b ^ length es + of_digits b es"
  by (induction ds) (simp_all add: of_digits_Cons power_add algebra_simps)

lemma of_digits_less: "\<forall>d \<in> set ds. d < b \<Longrightarrow> of_digits b ds < b ^ length ds"
proof (induction ds)
  case (Cons d ds)
  then have "of_digits b ds < b ^ length ds" "Suc d \<le> b" by auto
  moreover have "Suc d * b ^ length ds \<le> b * b ^ length ds"
    using \<open>Suc d \<le> b\<close> by (rule mult_le_mono1)
  ultimately show ?case by (simp add: of_digits_Cons)
qed simp

lemma of_digits_ge: "0 < d \<Longrightarrow> b ^ length ds \<le> of_digits b (d # ds)"
  by (simp add: of_digits_Cons trans_le_add1)

lemma of_digits_inj:
  assumes "\<forall>d \<in> set ds. d < b" "\<forall>d \<in> set es. d < b"
    and "length ds = length es" "of_digits b ds = of_digits b es"
  shows "ds = es"
  using assms(3,1,2,4)
proof (induction ds es rule: list_induct2)
  case (Cons d ds e es)
  let ?B = "b ^ length es"
  have lt: "of_digits b ds < ?B" "of_digits b es < ?B"
    using Cons.prems Cons.hyps of_digits_less [of ds b] of_digits_less [of es b] by auto
  have eq: "d * ?B + of_digits b ds = e * ?B + of_digits b es"
    using Cons.prems(3) Cons.hyps by (simp add: of_digits_Cons)
  have div: "(x * ?B + y) div ?B = x" if "y < ?B" for x y
    using that by (metis add.commute div_less div_mult_self1 add_0 gr_implies_not0)
  have "d = (d * ?B + of_digits b ds) div ?B" using lt by (simp only: div)
  also have "\<dots> = e" unfolding eq using lt by (simp only: div)
  finally have "d = e" .
  with eq Cons show ?case by simp
qed simp

text \<open>Without a leading zero the value determines the digits.\<close>

definition no_lead0 :: "nat list \<Rightarrow> bool" where
  "no_lead0 ds \<longleftrightarrow> (ds \<noteq> [] \<longrightarrow> hd ds \<noteq> 0)"

lemma of_digits_length:
  assumes "\<forall>d \<in> set ds. d < b" "\<forall>d \<in> set es. d < b" "no_lead0 es"
    and "of_digits b ds = of_digits b es" "1 < b"
  shows "length es \<le> length ds"
proof (cases es)
  case (Cons e es')
  with assms(3) have "b ^ length es' \<le> of_digits b es"
    using of_digits_ge [of e b es'] by (simp add: no_lead0_def)
  also have "\<dots> < b ^ length ds"
    using of_digits_less [OF assms(1)] assms(4) by simp
  finally have "length es' < length ds"
    using assms(5) by simp
  then show ?thesis using Cons by simp
qed simp

lemma of_digits_inj_no_lead0:
  assumes "\<forall>d \<in> set ds. d < b" "\<forall>d \<in> set es. d < b" "no_lead0 ds" "no_lead0 es"
    and "of_digits b ds = of_digits b es" "1 < b"
  shows "ds = es"
  using assms of_digits_length [of ds b es] of_digits_length [of es b ds]
  by (intro of_digits_inj [of ds b es]) auto

section \<open>Base58Check loses nothing\<close>

fun b58_digits :: "nat \<Rightarrow> nat list \<Rightarrow> nat list" where
  "b58_digits n out = (if 0 < n then b58_digits (n div 58) (n mod 58 # out) else out)"

declare b58_digits.simps [simp del]

lemma b58_0 [simp]: "b58_loop 0 out = out" "b58_digits 0 ds = ds"
  by (simp_all add: b58_loop.simps [of 0] b58_digits.simps [of 0])

lemma b58_loop_digits:
  "b58_loop n (map ((!) B58) out) = map ((!) B58) (b58_digits n out)"
proof (induction n out rule: b58_digits.induct)
  case (1 n out)
  show ?case
  proof (cases "0 < n")
    case True
    then show ?thesis
      using 1 by (subst b58_loop.simps, subst b58_digits.simps) simp
  qed simp
qed

lemma b58_digits_bound:
  "\<forall>d \<in> set out. d < 58 \<Longrightarrow> \<forall>d \<in> set (b58_digits n out). d < 58"
proof (induction n out rule: b58_digits.induct)
  case (1 n out)
  show ?case
  proof (cases "0 < n")
    case True
    have "\<forall>d \<in> set (n mod 58 # out). d < 58"
      using "1.prems" by simp
    with True have "\<forall>d \<in> set (b58_digits (n div 58) (n mod 58 # out)). d < 58"
      by (rule "1.IH")
    with True show ?thesis
      by (subst b58_digits.simps) (simp only: if_True)
  qed (use "1.prems" in simp)
qed

lemma b58_digits_value:
  "of_digits 58 (b58_digits n out) = n * 58 ^ length out + of_digits 58 out"
proof (induction n out rule: b58_digits.induct)
  case (1 n out)
  show ?case
  proof (cases "0 < n")
    case True
    have "n div 58 * 58 ^ Suc (length out) + n mod 58 * 58 ^ length out
        = (n div 58 * 58 + n mod 58) * 58 ^ length out"
      by (simp only: power_Suc add_mult_distrib mult.assoc)
    also have "\<dots> = n * 58 ^ length out"
      by simp
    finally show ?thesis
      using True 1 by (simp add: b58_digits.simps [of n] of_digits_Cons)
  qed simp
qed

lemma b58_digits_lead:
  "0 < n \<or> no_lead0 out \<Longrightarrow> no_lead0 (b58_digits n out)"
proof (induction n out rule: b58_digits.induct)
  case (1 n out)
  show ?case
  proof (cases "0 < n")
    case True
    then have "0 < n div 58 \<or> no_lead0 (n mod 58 # out)"
      by (auto simp: no_lead0_def)
    with True 1 show ?thesis
      by (simp add: b58_digits.simps [of n])
  qed (use "1.prems" in simp)
qed

lemma b58_digits_Nil:
  "\<forall>d \<in> set (b58_digits n []). d < 58" "of_digits 58 (b58_digits n []) = n"
  "no_lead0 (b58_digits n [])"
  using b58_digits_bound [of "[]" n] b58_digits_value [of n "[]"]
    b58_digits_lead [of n "[]"] by (simp_all add: no_lead0_def)

lemma B58_nth_inj: "m < 58 \<Longrightarrow> n < 58 \<Longrightarrow> B58 ! m = B58 ! n \<Longrightarrow> m = n"
proof -
  have "distinct B58" "length B58 = 58" by (simp_all add: B58_def)
  then show "m < 58 \<Longrightarrow> n < 58 \<Longrightarrow> B58 ! m = B58 ! n \<Longrightarrow> m = n"
    by (simp add: nth_eq_iff_index_eq)
qed

lemma map_B58_inj:
  assumes "\<forall>d \<in> set ds. d < 58" "\<forall>d \<in> set es. d < 58" "map ((!) B58) ds = map ((!) B58) es"
  shows "ds = es"
proof -
  have "inj_on ((!) B58) {..<58}"
    by (auto intro!: inj_onI B58_nth_inj)
  then have "inj_on ((!) B58) (set ds \<union> set es)"
    by (rule inj_on_subset) (use assms in auto)
  with assms(3) show ?thesis by (rule map_inj_on)
qed

lemma B58_0: "B58 ! 0 = CHR ''1''"
  by (simp add: B58_def)

text \<open>The text is a run of \<open>1\<close>s, one per leading zero byte, and the digits of the number.\<close>

lemma b58_zeros_eq:
  "b58_zeros raw out = replicate (length (takeWhile (\<lambda>b. b = 0) raw)) (CHR ''1'') @ out"
  by (induction raw arbitrary: out) (simp_all add: replicate_app_Cons_same)

lemma b58_text:
  "b58_zeros raw (b58_loop (from_bytes raw) []) =
   map ((!) B58) (replicate (length (takeWhile (\<lambda>b. b = 0) raw)) 0 @ b58_digits (from_bytes raw) [])"
  using b58_loop_digits [of "from_bytes raw" "[]"] by (simp add: b58_zeros_eq B58_0)

lemma replicate_zero_prefix:
  assumes "replicate m 0 @ ds = replicate n 0 @ es" "no_lead0 ds" "no_lead0 es"
  shows "m = n \<and> ds = es"
  using assms(1)
proof (induction m arbitrary: n)
  case 0
  then show ?case using assms(2) by (cases n) (auto simp: no_lead0_def)
next
  case (Suc m)
  then show ?case using assms(3) by (cases n) (auto simp: no_lead0_def)
qed

lemma from_bytes_digits: "from_bytes bs = of_digits 256 (map unat bs)"
  by (simp add: from_bytes_def of_digits_def foldl_map)

lemma from_bytes_zeros:
  "from_bytes bs = of_digits 256 (map unat (dropWhile (\<lambda>b. b = 0) bs))"
  by (induction bs) (auto simp: from_bytes_digits of_digits_Cons)

lemma map_unat_inj: "map unat bs = map unat (cs :: bytes) \<Longrightarrow> bs = cs"
  by (rule map_injective) (auto simp: inj_on_def word_unat_eq_iff)

lemma raw_inj:
  assumes "from_bytes bs = from_bytes cs"
    and "length (takeWhile (\<lambda>b. b = 0) bs) = length (takeWhile (\<lambda>b. b = 0) cs)"
  shows "bs = cs"
proof -
  let ?z = "\<lambda>b :: byte. b = 0"
  have lead: "no_lead0 (map unat (dropWhile ?z xs))" for xs
    by (induction xs) (auto simp: no_lead0_def word_unat_eq_iff)
  have "map unat (dropWhile ?z bs) = map unat (dropWhile ?z cs)"
    using assms(1) lead
    by (intro of_digits_inj_no_lead0 [where b = 256]) (auto simp: from_bytes_zeros)
  then have "dropWhile ?z bs = dropWhile ?z cs"
    by (rule map_unat_inj)
  moreover have "takeWhile ?z xs = replicate (length (takeWhile ?z xs)) 0" for xs
    by (induction xs) auto
  ultimately show ?thesis
    using assms(2) by (metis takeWhile_dropWhile_id)
qed

lemma b58_text_inj:
  assumes "b58_zeros r (b58_loop (from_bytes r) []) = b58_zeros s (b58_loop (from_bytes s) [])"
  shows "r = s"
proof -
  let ?n = "\<lambda>r. length (takeWhile (\<lambda>b. b = 0) (r :: bytes))"
  have "replicate (?n r) 0 @ b58_digits (from_bytes r) []
      = replicate (?n s) 0 @ b58_digits (from_bytes s) []"
    using assms b58_digits_Nil(1) unfolding b58_text
    by (intro map_B58_inj) auto
  from replicate_zero_prefix [OF this b58_digits_Nil(3) b58_digits_Nil(3)]
  have "?n r = ?n s" "from_bytes r = from_bytes s"
    using b58_digits_Nil(2) by metis+
  then show ?thesis by (intro raw_inj)
qed

lemma b58check_inj:
  assumes "\<And>data. length (hashlib_sha256 E data) = 32"
    and "b58check E p = b58check E q"
  shows "p = q"
proof -
  have "p @ take 4 (double_sha256 E p) = q @ take 4 (double_sha256 E q)"
    using assms(2) by (simp add: b58check_def Let_def b58_text_inj)
  moreover have "length (take 4 (double_sha256 E x)) = 4" for x
    using assms(1) by (simp add: double_sha256_def sha256_def)
  ultimately show ?thesis by simp
qed

end
