(* ===== verification/Json.thy ===== *)
theory Json
  imports Encoding
begin

text \<open>
  \<open>json.loads\<close>, as the scanner of Python's \<open>json\<close> package reads text: strings with their escapes,
  integers of any length, the three constants beyond the standard, objects in which a later key
  overwrites. What a float literal means is the argument \<open>pf\<close> (\<open>parse_float\<close>): it may raise.

  The scanner calls itself for every bracket that is open, and a text with more of them than the stack of
  the interpreter has room for raises \<open>RecursionError\<close>; \<open>json_loads\<close> is the reading of text the program
  wrote or bounded itself, where this is left out.

  Shown: the fuel of the scanner is enough; whatever \<open>json.dumps\<close> prints, with any separators and
  with or without sorted keys, reads back (\<open>json_loads_print\<close>).

  A \<open>\u\<close> escape above \<open>\u00ff\<close> has no value here, for characters have eight bits.
\<close>

section \<open>The scanner\<close>

abbreviation expecting :: "'a res" where
  "expecting \<equiv> Inl (ValueError ''JSONDecodeError'')"

definition json_space :: "char \<Rightarrow> bool" where
  "json_space c \<longleftrightarrow> c = CHR '' '' \<or> c = CHR 0x09 \<or> c = CHR 0x0A \<or> c = CHR 0x0D"

definition skip_space :: "string \<Rightarrow> string" where
  "skip_space s = dropWhile json_space s"

definition is_digit :: "char \<Rightarrow> bool" where
  "is_digit c \<longleftrightarrow> (let n = (of_char c :: nat) in 48 \<le> n \<and> n \<le> 57)"

definition digits_value :: "string \<Rightarrow> nat" where
  "digits_value s = of_digits 10 (map (\<lambda>c. of_char c - 48) s)"

definition escape_char :: "char \<Rightarrow> char option" where
  "escape_char c =
     (if c = CHR 0x22 \<or> c = CHR 0x5C \<or> c = CHR ''/'' then Some c
      else if c = CHR ''b'' then Some (CHR 0x08)
      else if c = CHR ''f'' then Some (CHR 0x0C)
      else if c = CHR ''n'' then Some (CHR 0x0A)
      else if c = CHR ''r'' then Some (CHR 0x0D)
      else if c = CHR ''t'' then Some (CHR 0x09)
      else None)"

definition hex4 :: "char \<Rightarrow> char \<Rightarrow> char \<Rightarrow> char \<Rightarrow> nat option" where
  "hex4 a b c d =
     (case (hex_value a, hex_value b, hex_value c, hex_value d) of
        (Some i, Some j, Some k, Some l) \<Rightarrow> Some (4096 * i + 256 * j + 16 * k + l)
      | _ \<Rightarrow> None)"

text \<open>Changing what was read, keeping what is left.\<close>

definition emit :: "('a \<Rightarrow> 'b) \<Rightarrow> ('a \<times> string) res \<Rightarrow> ('b \<times> string) res" where
  "emit f p = rbind p (\<lambda>(x, r). Inr (f x, r))"

text \<open>What stands behind the mark \<open>c\<close>, when it comes next.\<close>

definition after_mark :: "char \<Rightarrow> string \<Rightarrow> string option" where
  "after_mark c s = (case skip_space s of [] \<Rightarrow> None | d # t \<Rightarrow> if d = c then Some t else None)"

text \<open>The character an escape stands for, behind its backslash.\<close>

definition scan_escape :: "string \<Rightarrow> (char \<times> string) option" where
  "scan_escape s =
     (case s of
        [] \<Rightarrow> None
      | e # t \<Rightarrow>
          if e = CHR ''u'' then
            (case t of
               h1 # h2 # h3 # h4 # r \<Rightarrow>
                 (case hex4 h1 h2 h3 h4 of
                    None \<Rightarrow> None
                  | Some n \<Rightarrow> if n < 256 then Some (char_of n, r) else None)
             | _ \<Rightarrow> None)
          else map_option (\<lambda>d. (d, t)) (escape_char e))"

lemma scan_escape_shorter: "scan_escape s = Some (d, t) \<Longrightarrow> length t < length s"
  by (auto simp: scan_escape_def split: list.splits if_splits option.splits)

text \<open>The rest of a string, behind its opening quote.\<close>

function scan_string :: "string \<Rightarrow> (string \<times> string) res" where
  "scan_string [] = expecting"
| "scan_string (c # s) =
     (if c = CHR 0x22 then Inr ([], s)
      else if c = CHR 0x5C then
        (case scan_escape s of
           None \<Rightarrow> expecting
         | Some (d, t) \<Rightarrow> emit (Cons d) (scan_string t))
      else if of_char c < (32 :: nat) then expecting
      else emit (Cons c) (scan_string s))"
  by pat_completeness auto

termination
  by (relation "measure length") (auto dest: scan_escape_shorter)

text \<open>A number: sign, whole part without leading zeros, fraction and exponent where they are complete.\<close>

definition scan_sign :: "string \<Rightarrow> string" where
  "scan_sign s = (case s of c # t \<Rightarrow> if c = CHR ''-'' then [c] else [] | [] \<Rightarrow> [])"

definition scan_whole :: "string \<Rightarrow> string" where
  "scan_whole s = (case s of c # t \<Rightarrow> if c = CHR ''0'' then [c] else takeWhile is_digit s | [] \<Rightarrow> [])"

definition scan_fraction :: "string \<Rightarrow> string" where
  "scan_fraction s =
     (case s of
        c # t \<Rightarrow> if c = CHR ''.'' \<and> takeWhile is_digit t \<noteq> [] then c # takeWhile is_digit t else []
      | [] \<Rightarrow> [])"

definition scan_exponent :: "string \<Rightarrow> string" where
  "scan_exponent s =
     (case s of
        c # t \<Rightarrow>
          (let sg = (case t of d # u \<Rightarrow> if d = CHR ''+'' \<or> d = CHR ''-'' then [d] else [] | [] \<Rightarrow> []);
               ds = takeWhile is_digit (drop (length sg) t)
           in if (c = CHR ''e'' \<or> c = CHR ''E'') \<and> ds \<noteq> [] then c # sg @ ds else [])
      | [] \<Rightarrow> [])"

definition scan_number :: "(string \<Rightarrow> pyval res) \<Rightarrow> string \<Rightarrow> (pyval \<times> string) res" where
  "scan_number pf s =
     (let sg = scan_sign s; s1 = drop (length sg) s;
          whole = scan_whole s1; s2 = drop (length whole) s1;
          frac = scan_fraction s2; s3 = drop (length frac) s2;
          ex = scan_exponent s3; s4 = drop (length ex) s3
      in if whole = [] then expecting
         else if frac = [] \<and> ex = []
         then Inr (PInt (if sg = [] then int (digits_value whole) else - int (digits_value whole)), s4)
         else rbind (pf (sg @ whole @ frac @ ex)) (\<lambda>v. Inr (v, s4)))"

definition starts_with :: "string \<Rightarrow> string \<Rightarrow> bool" where
  "starts_with p s \<longleftrightarrow> take (length p) s = p"

text \<open>Constants and numbers.\<close>

definition scan_word :: "(string \<Rightarrow> pyval res) \<Rightarrow> string \<Rightarrow> (pyval \<times> string) res" where
  "scan_word pf s =
     (if starts_with ''null'' s then Inr (PNone, drop 4 s)
      else if starts_with ''true'' s then Inr (PBool True, drop 4 s)
      else if starts_with ''false'' s then Inr (PBool False, drop 5 s)
      else if starts_with ''NaN'' s then Inr (PFloat FNaN, drop 3 s)
      else if starts_with ''Infinity'' s then Inr (PFloat (FInf False), drop 8 s)
      else if starts_with ''-Infinity'' s then Inr (PFloat (FInf True), drop 9 s)
      else scan_number pf s)"

text \<open>A key with its colon.\<close>

definition scan_key :: "string \<Rightarrow> (string \<times> string) res" where
  "scan_key s =
     (case s of
        [] \<Rightarrow> expecting
      | q # t \<Rightarrow>
          if q = CHR 0x22
          then rbind (scan_string t) (\<lambda>(k, u).
            (case after_mark (CHR '':'') u of None \<Rightarrow> expecting | Some w \<Rightarrow> Inr (k, skip_space w)))
          else expecting)"

text \<open>A value, the rest of an array from one of its items on, the rest of an object from one of its
  keys on. The fuel \<open>n\<close> bounds the depth of the calls here; \<open>k\<close> is how many more brackets the stack of the
  interpreter lets open: the scanner enters one call for each.\<close>

abbreviation too_deep :: "'a res" where
  "too_deep \<equiv> Inl (RecursionError ''maximum recursion depth exceeded'')"

fun scan_value :: "(string \<Rightarrow> pyval res) \<Rightarrow> nat \<Rightarrow> nat \<Rightarrow> string \<Rightarrow> (pyval \<times> string) res"
and scan_items :: "(string \<Rightarrow> pyval res) \<Rightarrow> nat \<Rightarrow> nat \<Rightarrow> string \<Rightarrow> (pyval list \<times> string) res"
and scan_members :: "(string \<Rightarrow> pyval res) \<Rightarrow> nat \<Rightarrow> nat \<Rightarrow> (string \<times> pyval) list \<Rightarrow> string \<Rightarrow>
      ((string \<times> pyval) list \<times> string) res" where
  "scan_value pf k 0 s = expecting"
| "scan_value pf k (Suc n) s =
     (case s of
        [] \<Rightarrow> expecting
      | c # t \<Rightarrow>
          if c = CHR 0x22 then emit PStr (scan_string t)
          else if c = CHR ''{'' then
            (if k = 0 then too_deep
             else case after_mark (CHR ''}'') t of
               Some u \<Rightarrow> Inr (PDict [], u)
             | None \<Rightarrow> emit PDict (scan_members pf (k - 1) n [] (skip_space t)))
          else if c = CHR ''['' then
            (if k = 0 then too_deep
             else case after_mark (CHR '']'') t of
               Some u \<Rightarrow> Inr (PList [], u)
             | None \<Rightarrow> emit PList (scan_items pf (k - 1) n (skip_space t)))
          else scan_word pf s)"
| "scan_items pf k 0 s = expecting"
| "scan_items pf k (Suc n) s =
     rbind (scan_value pf k n s) (\<lambda>(v, r).
       (case after_mark (CHR '']'') r of
          Some t \<Rightarrow> Inr ([v], t)
        | None \<Rightarrow>
            (case after_mark (CHR '','') r of
               Some t \<Rightarrow> emit (Cons v) (scan_items pf k n (skip_space t))
             | None \<Rightarrow> expecting)))"
| "scan_members pf k 0 d s = expecting"
| "scan_members pf k (Suc n) d s =
     rbind (scan_key s) (\<lambda>(i, u).
     rbind (scan_value pf k n u) (\<lambda>(v, r).
       (case after_mark (CHR ''}'') r of
          Some t \<Rightarrow> Inr (AList.update i v d, t)
        | None \<Rightarrow>
            (case after_mark (CHR '','') r of
               Some t \<Rightarrow> scan_members pf k n (AList.update i v d) (skip_space t)
             | None \<Rightarrow> expecting))))"

definition json_scan :: "(string \<Rightarrow> pyval res) \<Rightarrow> nat \<Rightarrow> string \<Rightarrow> pyval res" where
  "json_scan pf k s =
     (let t = skip_space s
      in rbind (scan_value pf k (2 * length t + 2) t) (\<lambda>(v, r). if skip_space r = [] then Inr v else expecting))"

text \<open>With a stack for every bracket the text can have.\<close>

definition json_read :: "(string \<Rightarrow> pyval res) \<Rightarrow> string \<Rightarrow> pyval res" where
  "json_read pf s = json_scan pf (length s) s"

text \<open>\<open>json.loads(s)\<close>; \<open>None\<close> is its \<open>ValueError\<close>.\<close>

definition float_hook :: "env \<Rightarrow> string \<Rightarrow> pyval res" where
  "float_hook E t = Inr (PFloat (parse_float E t))"

definition json_loads :: "env \<Rightarrow> string \<Rightarrow> pyval option" where
  "json_loads E s = (case json_read (float_hook E) s of Inl e \<Rightarrow> None | Inr v \<Rightarrow> Some v)"

text \<open>\<open>json.loads(s)\<close> on the stack that is left, for text from outside.\<close>

definition json_within :: "env \<Rightarrow> string \<Rightarrow> pyval res" where
  "json_within E = json_scan (float_hook E) (json_room E)"

section \<open>The fuel is enough\<close>

lemma emit_eq_Inr: "emit f p = Inr (y, r) \<longleftrightarrow> (\<exists>x. p = Inr (x, r) \<and> y = f x)"
  by (auto simp: emit_def rbind_eq_Inr)

lemma emit_Inr [simp]: "emit f (Inr (x, r)) = Inr (f x, r)"
  by (simp add: emit_def)

lemma skip_space_length: "length (skip_space s) \<le> length s"
  by (simp add: skip_space_def length_dropWhile_le)

lemma after_mark_shorter: "after_mark c s = Some t \<Longrightarrow> length t < length s"
  using skip_space_length [of s] by (auto simp: after_mark_def split: list.splits if_splits)

lemma scan_string_shorter: "scan_string s = Inr (x, r) \<Longrightarrow> length r < length s"
proof (induction s arbitrary: x rule: scan_string.induct)
  case IH: (2 c s)
  from IH(3) consider "r = s" | d t x' where "scan_escape s = Some (d, t)" "c = CHR 0x5C" "scan_string t = Inr (x', r)"
    | x' where "c \<noteq> CHR 0x5C" "c \<noteq> CHR 0x22" "\<not> of_char c < (32 :: nat)" "scan_string s = Inr (x', r)"
    by (auto simp: emit_eq_Inr split: if_splits option.splits)
  then show ?case
  proof cases
    case (2 d t x')
    with IH(1) [of "(d, t)" d t x'] scan_escape_shorter [OF 2(1)] show ?thesis by simp
  next
    case (3 x')
    with IH(2) [of x'] show ?thesis by simp
  qed simp
qed simp

lemma scan_whole_Nil [simp]: "scan_whole [] = []"
  by (simp add: scan_whole_def)

lemma scan_number_shorter:
  assumes "scan_number pf s = Inr (v, r)" shows "length r < length s"
proof -
  let ?s1 = "drop (length (scan_sign s)) s"
  have "scan_whole ?s1 \<noteq> []" "length r \<le> length ?s1 - length (scan_whole ?s1)"
    using assms by (auto simp: scan_number_def Let_def rbind_eq_Inr split: if_splits)
  then show ?thesis
    by (cases "?s1 = []") (simp, metis (no_types, lifting) diff_le_self diff_less dual_order.strict_trans1 leD leI
      length_drop length_greater_0_conv linorder_not_less order_trans)
qed

lemma scan_word_shorter: "scan_word pf s = Inr (v, r) \<Longrightarrow> length r < length s"
proof (cases s)
  case (Cons c t)
  assume "scan_word pf s = Inr (v, r)"
  then show ?thesis unfolding scan_word_def
    by (simp split: if_splits) (auto simp: Cons dest!: scan_number_shorter)
qed (auto simp: scan_word_def starts_with_def dest!: scan_number_shorter)

lemma scan_key_shorter:
  assumes "scan_key s = Inr (k, r)" shows "length r < length s"
proof -
  obtain t u w where "s = CHR 0x22 # t" "scan_string t = Inr (k, u)" "after_mark (CHR '':'') u = Some w" "r = skip_space w"
    using assms by (auto simp: scan_key_def rbind_eq_Inr split: list.splits if_splits option.splits)
  with scan_string_shorter [of t k u] after_mark_shorter [of "CHR '':''" u w] skip_space_length [of w] show ?thesis
    by simp
qed

lemma scan_shorter:
  "scan_value pf k n s = Inr (v, r) \<Longrightarrow> length r < length s"
  "scan_items pf k n s = Inr (vs, r) \<Longrightarrow> length r < length s"
  "scan_members pf k n d s = Inr (d', r) \<Longrightarrow> length r < length s"
proof (induction n arbitrary: k s v r vs d d')
  case (Suc n)
  have skip: "length r < length (skip_space t) \<Longrightarrow> length r < length t" for t r :: string
    using skip_space_length less_le_trans by blast
  {
    case 1
    then obtain c t where s: "s = c # t" by (cases s) auto
    from 1 show ?case unfolding s
      by (auto simp: emit_eq_Inr split: if_splits option.splits dest!: scan_string_shorter after_mark_shorter
          scan_word_shorter Suc.IH skip)
  next
    case 2
    then obtain v r1 where r1: "length r1 < length s" and
      "(case after_mark (CHR '']'') r1 of Some t \<Rightarrow> Inr ([v], t)
        | None \<Rightarrow> (case after_mark (CHR '','') r1 of
               Some t \<Rightarrow> emit (Cons v) (scan_items pf k n (skip_space t))
             | None \<Rightarrow> expecting)) = Inr (vs, r)"
      by (auto simp: rbind_eq_Inr dest: Suc.IH)
    then have "length r < length r1"
      by (auto simp: emit_eq_Inr split: option.splits dest!: after_mark_shorter Suc.IH skip)
    with r1 show ?case by simp
  next
    case 3
    then obtain i u v r1 where u: "scan_key s = Inr (i, u)" "scan_value pf k n u = Inr (v, r1)" and
      rest: "(case after_mark (CHR ''}'') r1 of
          Some t \<Rightarrow> Inr (AList.update i v d, t)
        | None \<Rightarrow>
            (case after_mark (CHR '','') r1 of
               Some t \<Rightarrow> scan_members pf k n (AList.update i v d) (skip_space t)
             | None \<Rightarrow> expecting)) = Inr (d', r)"
      by (auto simp: rbind_eq_Inr)
    from rest have "length r < length r1"
      by (auto split: option.splits dest!: after_mark_shorter Suc.IH skip)
    with Suc.IH(1) [OF u(2)] scan_key_shorter [OF u(1)] show ?case by simp
  }
qed simp_all

text \<open>More fuel, and more stack than brackets, change nothing.\<close>

lemma scan_fuel:
  "2 * length s < n \<Longrightarrow> 2 * length s < m \<Longrightarrow> k = l \<or> length s \<le> k \<and> length s \<le> l \<Longrightarrow> scan_value pf k n s = scan_value pf l m s"
  "2 * length s + 1 < n \<Longrightarrow> 2 * length s + 1 < m \<Longrightarrow> k = l \<or> length s \<le> k \<and> length s \<le> l \<Longrightarrow>
    scan_items pf k n s = scan_items pf l m s"
  "2 * length s + 1 < n \<Longrightarrow> 2 * length s + 1 < m \<Longrightarrow> k = l \<or> length s \<le> k \<and> length s \<le> l \<Longrightarrow>
    scan_members pf k n d s = scan_members pf l m d s"
proof (induction n arbitrary: k l s m d)
  case (Suc n)
  note sp = skip_space_length
  {
    case 1
    then obtain m' where m: "m = Suc m'" by (cases m) auto
    show ?case
    proof (cases s)
      case (Cons c t)
      have kl: "k - 1 = l - 1 \<or> length (skip_space t) \<le> k - 1 \<and> length (skip_space t) \<le> l - 1" and z: "k = 0 \<longleftrightarrow> l = 0"
        using 1(3) sp [of t] by (auto simp: Cons)
      show ?thesis
        using Suc.IH(2) [of "skip_space t" m' "k - 1" "l - 1"] Suc.IH(3) [of "skip_space t" m' "k - 1" "l - 1"] 1 m sp [of t] kl z
        by (simp add: Cons split: option.split)
    qed (simp add: m)
  next
    case 2
    then obtain m' where m: "m = Suc m'" by (cases m) auto
    have eq: "scan_value pf k n s = scan_value pf l m' s" using 2 m by (intro Suc.IH(1)) simp_all
    show ?case
    proof (cases "scan_value pf l m' s")
      case (Inr vr)
      then obtain v r where v: "scan_value pf l m' s = Inr (v, r)" by (cases vr) simp
      have "scan_items pf k n (skip_space t) = scan_items pf l m' (skip_space t)" if "after_mark c r = Some t" for t c
        using scan_shorter(1) [OF v] after_mark_shorter [OF that] 2 m sp [of t] by (intro Suc.IH(2)) auto
      then show ?thesis by (simp add: m eq v split: option.split)
    qed (simp add: m eq)
  next
    case 3
    then obtain m' where m: "m = Suc m'" by (cases m) auto
    show ?case
    proof (cases "scan_key s")
      case (Inr ku)
      then obtain i u where i: "scan_key s = Inr (i, u)" by (cases ku) simp
      have eq: "scan_value pf k n u = scan_value pf l m' u"
        using scan_key_shorter [OF i] 3 m by (intro Suc.IH(1)) auto
      show ?thesis
      proof (cases "scan_value pf l m' u")
        case (Inr vr)
        then obtain v r where v: "scan_value pf l m' u = Inr (v, r)" by (cases vr) simp
        have "scan_members pf k n d (skip_space t) = scan_members pf l m' d (skip_space t)" if "after_mark c r = Some t" for t c d
          using scan_key_shorter [OF i] scan_shorter(1) [OF v] after_mark_shorter [OF that] 3 m sp [of t]
          by (intro Suc.IH(3)) auto
        then show ?thesis by (simp add: m i eq v split: option.split)
      qed (simp add: m i eq)
    qed (simp add: m)
  }
qed simp_all

lemma json_scan_fuel:
  assumes "2 * length s < n"
  shows "json_scan pf k s = rbind (scan_value pf k n (skip_space s)) (\<lambda>(v, r). if skip_space r = [] then Inr v else expecting)"
  using scan_fuel(1) [of "skip_space s" "2 * length (skip_space s) + 2" n k k] assms skip_space_length [of s]
  by (simp add: json_scan_def Let_def)

lemma json_read_room: "length s \<le> k \<Longrightarrow> json_read pf s = json_scan pf k s"
  using scan_fuel(1) [of "skip_space s" "2 * length (skip_space s) + 2" "2 * length (skip_space s) + 2" "length s" k] skip_space_length [of s]
  by (simp add: json_read_def json_scan_def Let_def)

text \<open>One bracket too many.\<close>

lemma scan_deep: "k < m \<Longrightarrow> 2 * k < n \<Longrightarrow> scan_value pf k n (replicate m (CHR ''['') @ s) = too_deep"
proof (induction k arbitrary: m n)
  case 0
  then show ?case by (cases m; cases n) simp_all
next
  case (Suc k)
  then obtain m' n' where m: "m = Suc (Suc m')" "n = Suc (Suc n')" by (cases m; cases n; cases "m - 1"; cases "n - 1") auto
  have "scan_value pf k n' (replicate (Suc m') (CHR ''['') @ s) = too_deep" using Suc m by (intro Suc.IH) simp_all
  then show ?case by (simp add: m after_mark_def skip_space_def json_space_def emit_def)
qed

section \<open>What is printed reads back\<close>

text \<open>The two printers of \<open>json.dumps\<close> used by the program, with any white space in the separators.\<close>

fun join_with :: "string \<Rightarrow> string list \<Rightarrow> string" where
  "join_with sep [] = []"
| "join_with sep [s] = s"
| "join_with sep (s # t # ss) = s @ sep @ join_with sep (t # ss)"

primrec json_print :: "env \<Rightarrow> bool \<Rightarrow> string \<Rightarrow> pyval \<Rightarrow> string" where
  "json_print E srt w PNone = ''null''"
| "json_print E srt w (PBool b) = (if b then ''true'' else ''false'')"
| "json_print E srt w (PInt i) = show_int i"
| "json_print E srt w (PFloat f) = json_float E f"
| "json_print E srt w (PStr s) = json_string s"
| "json_print E srt w (PList xs) = CHR ''['' # join_with (CHR '','' # w) (map (json_print E srt w) xs) @ '']''"
| "json_print E srt w (PDict d) =
     CHR ''{'' # join_with (CHR '','' # w) (map (\<lambda>(k, t). json_string k @ CHR '':'' # w @ t)
       (let kts = map (map_prod id (json_print E srt w)) d
        in if srt then sort_key fst kts else kts)) @ ''}''"

text \<open>The value that reads back: the entries of dictionaries in the order they were printed.\<close>

primrec in_order :: "bool \<Rightarrow> pyval \<Rightarrow> pyval" where
  "in_order srt PNone = PNone"
| "in_order srt (PBool b) = PBool b"
| "in_order srt (PInt i) = PInt i"
| "in_order srt (PFloat f) = PFloat f"
| "in_order srt (PStr s) = PStr s"
| "in_order srt (PList xs) = PList (map (in_order srt) xs)"
| "in_order srt (PDict d) =
     PDict (let d' = map (map_prod id (in_order srt)) d in if srt then sort_key fst d' else d')"

text \<open>Values that can be printed and read: keys are not repeated, and a float is read as it was printed.
  With an argument \<open>pf\<close> that only raises, these are the values without a finite float.\<close>

primrec json_ok :: "(string \<Rightarrow> pyval res) \<Rightarrow> env \<Rightarrow> pyval \<Rightarrow> bool" where
  "json_ok pf E PNone = True"
| "json_ok pf E (PBool b) = True"
| "json_ok pf E (PInt i) = True"
| "json_ok pf E (PFloat f) = (case f of FNaN \<Rightarrow> True | FInf s \<Rightarrow> True
     | _ \<Rightarrow> scan_number pf (float_repr E f) = Inr (PFloat f, []))"
| "json_ok pf E (PStr s) = True"
| "json_ok pf E (PList xs) = list_all id (map (json_ok pf E) xs)"
| "json_ok pf E (PDict d) = (distinct (map fst d) \<and> list_all snd (map (map_prod id (json_ok pf E)) d))"

text \<open>How many brackets are open at once.\<close>

primrec nesting :: "pyval \<Rightarrow> nat" where
  "nesting PNone = 0"
| "nesting (PBool b) = 0"
| "nesting (PInt i) = 0"
| "nesting (PFloat f) = 0"
| "nesting (PStr s) = 0"
| "nesting (PList xs) = Suc (foldr max (map nesting xs) 0)"
| "nesting (PDict d) = Suc (foldr max (map snd (map (map_prod id nesting) d)) 0)"

lemma foldr_max_le: "foldr max ns 0 \<le> K \<longleftrightarrow> (\<forall>n \<in> set ns. n \<le> (K :: nat))"
  by (induction ns) auto

subsection \<open>Strings\<close>

lemma scan_string_plain:
  "32 \<le> (of_char c :: nat) \<Longrightarrow> c \<noteq> CHR 0x22 \<Longrightarrow> c \<noteq> CHR 0x5C \<Longrightarrow> scan_string (c # t) = emit (Cons c) (scan_string t)"
  by simp

lemma scan_string_escape:
  "scan_escape s = Some (d, t) \<Longrightarrow> scan_string (CHR 0x5C # s) = emit (Cons d) (scan_string t)"
  by simp

lemma scan_string_json_char: "scan_string (json_char c @ t) = emit (Cons c) (scan_string t)"
proof -
  let ?n = "of_char c :: nat"
  have chr: "?n = k \<Longrightarrow> c = char_of k" for k by auto
  have hexes: "hex4 (CHR ''0'') (CHR ''0'') (hex_digits ! (?n div 16)) (hex_digits ! (?n mod 16)) = Some ?n"
  proof -
    have "?n div 16 < 16" by (rule less_mult_imp_div_less) simp
    moreover have "hex_value (CHR ''0'') = Some 0" by (simp add: hex_value_def)
    ultimately show ?thesis by (simp add: hex4_def hex_value_digit)
  qed
  consider "?n = 34" | "?n = 92" | "?n = 10" | "?n = 13" | "?n = 9" | "?n = 12" | "?n = 8"
    | "32 \<le> ?n" "?n \<le> 126" "?n \<noteq> 34" "?n \<noteq> 92"
    | "?n < 32 \<or> 126 < ?n" "?n \<notin> {34, 92, 10, 13, 9, 12, 8}" by fastforce
  then show ?thesis
  proof cases
    case 8
    then have "c \<noteq> CHR 0x22" "c \<noteq> CHR 0x5C" by auto
    with 8 show ?thesis by (auto simp: json_char_def intro!: scan_string_plain)
  next
    case 9
    then have "json_char c @ t = CHR 0x5C # CHR ''u'' # CHR ''0'' # CHR ''0'' #
        hex_digits ! (?n div 16) # hex_digits ! (?n mod 16) # t"
      by (auto simp: json_char_def Let_def)
    then show ?thesis
      by (simp only:) (rule scan_string_escape, simp add: scan_escape_def hexes)
  qed (drule chr, simp add: json_char_def scan_escape_def escape_char_def char_of_def bit_0)+
qed

lemma scan_string_chars: "scan_string (concat (map json_char s) @ CHR 0x22 # r) = Inr (s, r)"
  by (induction s) (simp_all add: scan_string_json_char)

lemma json_string_quote: "json_string s @ r = CHR 0x22 # concat (map json_char s) @ CHR 0x22 # r"
  by (simp add: json_string_def)

subsection \<open>Numbers\<close>

text \<open>What may stand behind a number without being read as a part of it.\<close>

definition number_ends :: "string \<Rightarrow> bool" where
  "number_ends r \<longleftrightarrow> (case r of [] \<Rightarrow> True
     | c # t \<Rightarrow> \<not> is_digit c \<and> c \<noteq> CHR ''.'' \<and> c \<noteq> CHR ''e'' \<and> c \<noteq> CHR ''E'' \<and>
         c \<noteq> CHR ''+'' \<and> c \<noteq> CHR ''-'')"

lemma takeWhile_ends: "number_ends r \<Longrightarrow> takeWhile is_digit r = []"
  by (cases r) (simp_all add: number_ends_def)

lemma takeWhile_digits: "list_all is_digit ds \<Longrightarrow> number_ends r \<Longrightarrow> takeWhile is_digit (ds @ r) = ds"
  by (induction ds) (simp_all add: takeWhile_ends)

lemma scan_fraction_ends: "number_ends r \<Longrightarrow> scan_fraction r = []" "number_ends r \<Longrightarrow> scan_exponent r = []"
  by (cases r; simp add: number_ends_def scan_fraction_def scan_exponent_def Let_def)+

lemma digit_char_facts:
  assumes "n < 10"
  shows "is_digit (digit_char n)" "of_char (digit_char n) - 48 = n" "digit_char n \<noteq> CHR ''-''"
    "digit_char n = CHR ''0'' \<longleftrightarrow> n = 0"
proof -
  have "\<forall>n \<in> {..<10}. is_digit (digit_char n) \<and> of_char (digit_char n) - 48 = n \<and>
      digit_char n \<noteq> CHR ''-'' \<and> (digit_char n = CHR ''0'' \<longleftrightarrow> n = 0)"
    by code_simp
  with assms show "is_digit (digit_char n)" "of_char (digit_char n) - 48 = n" "digit_char n \<noteq> CHR ''-''"
    "digit_char n = CHR ''0'' \<longleftrightarrow> n = 0" by auto
qed

lemma show_nat_facts:
  "list_all is_digit (show_nat n) \<and> digits_value (show_nat n) = n \<and> show_nat n \<noteq> [] \<and>
   hd (show_nat n) \<noteq> CHR ''-'' \<and> (hd (show_nat n) = CHR ''0'' \<longrightarrow> show_nat n = ''0'')"
proof (induction n rule: show_nat.induct)
  case (1 n)
  show ?case
  proof (cases "n < 10")
    case True
    then show ?thesis
      by (subst (1 2 3 4 5 6) show_nat.simps) (auto simp: digit_char_facts digits_value_def of_digits_Cons)
  next
    case False
    have "show_nat (n div 10) = ''0'' \<Longrightarrow> False"
      using 1 False by (auto simp: digits_value_def of_digits_Cons)
    with 1 False show ?thesis
      by (subst (1 2 3 4 5 6) show_nat.simps)
        (auto simp: digit_char_facts digits_value_def of_digits_append of_digits_Cons)
  qed
qed

lemma scan_show_int:
  assumes "number_ends r" shows "scan_number pf (show_int i @ r) = Inr (PInt i, r)"
proof -
  have whole: "scan_whole (show_nat n @ r) = show_nat n" for n
  proof (cases "show_nat n")
    case (Cons c t)
    then show ?thesis using show_nat_facts [of n] takeWhile_digits [of "show_nat n" r] assms
      by (auto simp: scan_whole_def)
  qed (use show_nat_facts [of n] in simp)
  have sign: "scan_sign (show_nat n @ r) = []" for n
    using show_nat_facts [of n] by (cases "show_nat n") (auto simp: scan_sign_def)
  show ?thesis
    using show_nat_facts whole scan_fraction_ends [OF assms]
    by (auto simp: scan_number_def Let_def show_int_def sign scan_sign_def [of "CHR ''-'' # _"])
qed

lemma takeWhile_more: "number_ends r \<Longrightarrow> takeWhile is_digit (t @ r) = takeWhile is_digit t"
  by (induction t) (simp_all add: takeWhile_ends)

lemma scan_fraction_more: "number_ends r \<Longrightarrow> scan_fraction (s @ r) = scan_fraction s"
  by (cases s) (simp add: scan_fraction_ends, simp add: scan_fraction_def, simp add: takeWhile_more scan_fraction_def)

lemma scan_exponent_more:
  assumes "number_ends r" shows "scan_exponent (s @ r) = scan_exponent s"
proof (cases s)
  case (Cons c t)
  show ?thesis
  proof (cases t)
    case Nil
    with Cons assms show ?thesis
      by (cases r) (auto simp: scan_exponent_def number_ends_def)
  qed (simp add: Cons scan_exponent_def Let_def takeWhile_more [OF assms] takeWhile_more [OF assms, of "_ # _", simplified])
qed (simp add: scan_fraction_ends [OF assms], simp add: scan_exponent_def)

lemma scan_number_more:
  assumes "scan_number pf s = Inr (v, [])" "number_ends r"
  shows "scan_number pf (s @ r) = Inr (v, r)"
proof -
  define sg where "sg = scan_sign s"
  define s1 where "s1 = drop (length sg) s"
  define wh where "wh = scan_whole s1"
  define s2 where "s2 = drop (length wh) s1"
  define fr where "fr = scan_fraction s2"
  define s3 where "s3 = drop (length fr) s2"
  define ex where "ex = scan_exponent s3"
  note defs = sg_def s1_def wh_def s2_def fr_def s3_def ex_def
  have num: "wh \<noteq> []" and rest: "drop (length ex) s3 = []"
    using assms(1) by (auto simp: scan_number_def Let_def defs rbind_eq_Inr split: if_splits)
  have s1: "s1 \<noteq> []" using num by (auto simp: wh_def)
  have sign: "scan_sign (s @ r) = sg" "length sg \<le> length s"
    using s1 by (cases s; auto simp: sg_def s1_def scan_sign_def)+
  have whole: "scan_whole (s1 @ r) = wh" "length wh \<le> length s1"
    using s1 by (cases s1; auto simp: wh_def scan_whole_def takeWhile_more [OF assms(2)] length_takeWhile_le le_SucI
      takeWhile_more [OF assms(2), of "_ # _", simplified])+
  have frac: "scan_fraction (s2 @ r) = fr" "length fr \<le> length s2"
    by (simp_all add: fr_def scan_fraction_more [OF assms(2)])
      (auto simp: scan_fraction_def length_takeWhile_le split: list.split)
  have ex: "scan_exponent (s3 @ r) = ex" by (simp add: ex_def scan_exponent_more [OF assms(2)])
  have exl: "length ex \<le> length s3"
    by (auto simp: ex_def scan_exponent_def Let_def length_takeWhile_le le_SucI split: list.split)
  have "length s3 \<le> length ex" using rest by simp
  then have d: "drop (length sg) (s @ r) = s1 @ r" "drop (length wh) (s1 @ r) = s2 @ r"
    "drop (length fr) (s2 @ r) = s3 @ r" "drop (length ex) (s3 @ r) = r"
    using sign(2) whole(2) frac(2) exl by (simp_all add: s1_def s2_def s3_def)
  show ?thesis
    using assms(1) unfolding scan_number_def Let_def sign(1) d whole(1) frac(1) ex
    unfolding defs [symmetric] rest by (auto simp: rbind_eq_Inr split: if_splits)
qed

lemma scan_number_start:
  assumes "scan_number pf s = Inr x"
  shows "scan_word pf s = scan_number pf s"
    "\<exists>c t. s = c # t \<and> \<not> json_space c \<and> c \<notin> {CHR '']'', CHR ''['', CHR ''{'', CHR 0x22}"
proof -
  obtain c t where s: "s = c # t" using assms by (cases s) (auto simp: scan_number_def scan_sign_def)
  have c: "c = CHR ''-'' \<and> (\<exists>d u. t = d # u \<and> is_digit d) \<or> c \<noteq> CHR ''-'' \<and> is_digit c"
    using assms unfolding s
    by (cases t) (auto simp: scan_number_def scan_sign_def scan_whole_def Let_def is_digit_def split: if_splits)
  have letters: "\<not> is_digit (CHR ''n'')" "\<not> is_digit (CHR ''t'')" "\<not> is_digit (CHR ''f'')" "\<not> is_digit (CHR ''N'')"
    "\<not> is_digit (CHR ''I'')" "\<not> is_digit (CHR '' '')" "\<not> is_digit (CHR 0x09)" "\<not> is_digit (CHR 0x0A)" "\<not> is_digit (CHR 0x0D)"
    "\<not> is_digit (CHR '']'')" "\<not> is_digit (CHR ''['')" "\<not> is_digit (CHR ''{'')" "\<not> is_digit (CHR 0x22)"
    by code_simp+
  then show "scan_word pf s = scan_number pf s"
    using c by (auto simp: s scan_word_def starts_with_def)
  show "\<exists>c t. s = c # t \<and> \<not> json_space c \<and> c \<notin> {CHR '']'', CHR ''['', CHR ''{'', CHR 0x22}"
    using c letters by (auto simp: s json_space_def)
qed

lemma scan_value_number:
  assumes "scan_number pf (s @ r) = Inr x" "0 < n"
  shows "scan_value pf k n (s @ r) = Inr x"
proof -
  obtain n' where "n = Suc n'" using assms(2) by (cases n) auto
  with scan_number_start [OF assms(1)] assms(1) show ?thesis by auto
qed

subsection \<open>Values\<close>

text \<open>A text that is scanned as a value whatever follows, provided it does not continue a number, with \<open>K\<close>
  brackets at most; and one that starts as a value does.\<close>

definition reads_as :: "(string \<Rightarrow> pyval res) \<Rightarrow> nat \<Rightarrow> string \<Rightarrow> pyval \<Rightarrow> bool" where
  "reads_as pf K s v \<longleftrightarrow> (\<forall>r. number_ends r \<longrightarrow> (\<exists>N. \<forall>n \<ge> N. \<forall>k \<ge> K. scan_value pf k n (s @ r) = Inr (v, r)))"

lemma reads_asD: "reads_as pf K s v \<Longrightarrow> number_ends r \<Longrightarrow> \<exists>N. \<forall>n \<ge> N. \<forall>k \<ge> K. scan_value pf k n (s @ r) = Inr (v, r)"
  by (simp add: reads_as_def)

definition solid :: "string \<Rightarrow> bool" where
  "solid s \<longleftrightarrow> (\<exists>c t. s = c # t \<and> \<not> json_space c \<and> c \<noteq> CHR '']'')"

lemma solid_Cons [simp]: "solid (c # t) \<longleftrightarrow> \<not> json_space c \<and> c \<noteq> CHR '']''"
  by (simp add: solid_def)

lemma json_space_literal [simp]:
  "\<not> json_space (CHR 0x22)" "\<not> json_space (CHR '','')" "\<not> json_space (CHR '':'')" "\<not> json_space (CHR ''}'')"
  "\<not> json_space (CHR '']'')" "\<not> json_space (CHR ''{'')" "\<not> json_space (CHR ''['')" "\<not> json_space (CHR ''n'')"
  "\<not> json_space (CHR ''t'')" "\<not> json_space (CHR ''f'')" "\<not> json_space (CHR ''N'')" "\<not> json_space (CHR ''I'')"
  "\<not> json_space (CHR ''-'')"
  by (simp_all add: json_space_def)

lemma skip_solid: "solid s \<Longrightarrow> list_all json_space w \<Longrightarrow> skip_space (w @ s @ r) = s @ r"
  by (induction w) (auto simp: solid_def skip_space_def)

lemma skip_mark: "\<not> json_space c \<Longrightarrow> skip_space (c # t) = c # t"
  by (simp add: skip_space_def)

lemma after_mark_hit: "\<not> json_space c \<Longrightarrow> after_mark c (c # t) = Some t"
  by (simp add: after_mark_def skip_mark)

lemma after_mark_miss: "\<not> json_space d \<Longrightarrow> d \<noteq> c \<Longrightarrow> after_mark c (d # t) = None"
  by (simp add: after_mark_def skip_mark)

lemma number_ends_mark: "number_ends (CHR '','' # t)" "number_ends (CHR '']'' # t)" "number_ends (CHR ''}'' # t)"
  by (simp_all add: number_ends_def is_digit_def)

lemma solid_join: "solid s \<Longrightarrow> solid (s @ t)"
  by (auto simp: solid_def)

lemma scan_items_print:
  assumes "list_all json_space w"
  shows "list_all2 (\<lambda>s v. reads_as pf K s v \<and> solid s) ss vs \<Longrightarrow> ss \<noteq> [] \<Longrightarrow>
    \<exists>N. \<forall>n \<ge> N. \<forall>k \<ge> K. scan_items pf k n (join_with (CHR '','' # w) ss @ CHR '']'' # r) = Inr (vs, r)"
proof (induction ss arbitrary: vs)
  case (Cons s ss)
  then obtain v vs' where vs: "vs = v # vs'" and s: "reads_as pf K s v" "solid s"
    and rest: "list_all2 (\<lambda>s v. reads_as pf K s v \<and> solid s) ss vs'"
    by (auto simp: list_all2_Cons1)
  show ?case
  proof (cases ss)
    case Nil
    obtain N where N: "\<forall>n \<ge> N. \<forall>k \<ge> K. scan_value pf k n (s @ CHR '']'' # r) = Inr (v, CHR '']'' # r)"
      using reads_asD [OF s(1)] number_ends_mark by blast
    have "scan_items pf k n (s @ CHR '']'' # r) = Inr ([v], r)" if "n \<ge> Suc N" "k \<ge> K" for n k
      using that N by (cases n) (simp_all add: after_mark_hit)
    with Nil rest vs show ?thesis by auto
  next
    case (Cons s2 ss2)
    let ?t = "join_with (CHR '','' # w) ss @ CHR '']'' # r"
    obtain M where M: "\<forall>n \<ge> M. \<forall>k \<ge> K. scan_items pf k n ?t = Inr (vs', r)"
      using Cons.IH [OF rest] Cons by auto
    have "solid s2" using rest Cons by (auto simp: list_all2_Cons1)
    then have "solid (join_with (CHR '','' # w) ss)" using Cons by (cases ss2) (simp_all add: solid_join)
    then have skip: "skip_space (w @ ?t) = ?t" using assms by (rule skip_solid)
    obtain N where N: "\<forall>n \<ge> N. \<forall>k \<ge> K. scan_value pf k n (s @ CHR '','' # w @ ?t) = Inr (v, CHR '','' # w @ ?t)"
      using reads_asD [OF s(1)] number_ends_mark by blast
    have "scan_items pf k n (s @ CHR '','' # w @ ?t) = Inr (vs, r)" if "n \<ge> Suc (max M N)" "k \<ge> K" for n k
      using that N M by (cases n) (simp_all add: after_mark_hit after_mark_miss skip vs)
    with Cons show ?thesis by (intro exI [of _ "Suc (max M N)"]) simp
  qed
qed simp

lemma update_new_key: "k \<notin> fst ` set d \<Longrightarrow> AList.update k v d = d @ [(k, v)]"
  by (induction d) auto

lemma scan_key_print:
  assumes "solid s" "list_all json_space w"
  shows "scan_key (json_string k @ CHR '':'' # w @ s @ r) = Inr (k, s @ r)"
  using skip_solid [OF assms]
  by (simp add: scan_key_def json_string_quote scan_string_chars after_mark_hit)

lemma scan_members_print:
  assumes "list_all json_space w"
  shows "list_all2 (\<lambda>(k, s) (k', v). k = k' \<and> reads_as pf K s v \<and> solid s) kss kvs \<Longrightarrow> kss \<noteq> [] \<Longrightarrow>
    distinct (map fst (d @ kvs)) \<Longrightarrow>
    \<exists>N. \<forall>n \<ge> N. \<forall>j \<ge> K. scan_members pf j n d
      (join_with (CHR '','' # w) (map (\<lambda>(k, s). json_string k @ CHR '':'' # w @ s) kss) @ CHR ''}'' # r) =
      Inr (d @ kvs, r)"
proof (induction kss arbitrary: kvs d)
  case (Cons ks kss)
  then obtain k s v kvs' where kvs: "kvs = (k, v) # kvs'" "ks = (k, s)" and s: "reads_as pf K s v" "solid s"
    and rest: "list_all2 (\<lambda>(k, s) (k', v). k = k' \<and> reads_as pf K s v \<and> solid s) kss kvs'"
    by (cases ks) (auto simp: list_all2_Cons1)
  let ?pr = "map (\<lambda>(k, s). json_string k @ CHR '':'' # w @ s)"
  have upd: "AList.update k v d = d @ [(k, v)]"
    using Cons.prems(3) by (auto simp: kvs intro!: update_new_key)
  note key = scan_key_print [OF s(2) assms]
  show ?case
  proof (cases kss)
    case Nil
    obtain N where N: "\<forall>n \<ge> N. \<forall>j \<ge> K. scan_value pf j n (s @ CHR ''}'' # r) = Inr (v, CHR ''}'' # r)"
      using reads_asD [OF s(1)] number_ends_mark by blast
    have "scan_members pf j n d (json_string k @ CHR '':'' # w @ s @ CHR ''}'' # r) = Inr (d @ [(k, v)], r)"
      if "n \<ge> Suc N" "j \<ge> K" for n j
      using that N by (cases n) (simp_all add: key upd after_mark_hit)
    with Nil rest kvs show ?thesis by auto
  next
    case Cons2: (Cons ks2 kss2)
    let ?t = "join_with (CHR '','' # w) (?pr kss) @ CHR ''}'' # r"
    obtain M where M: "\<forall>n \<ge> M. \<forall>j \<ge> K. scan_members pf j n (d @ [(k, v)]) ?t = Inr ((d @ [(k, v)]) @ kvs', r)"
      using Cons.IH [OF rest, of "d @ [(k, v)]"] Cons.prems(3) Cons2 by (auto simp: kvs)
    have "solid (join_with (CHR '','' # w) (?pr kss))"
      using Cons2 by (cases ks2; cases kss2) (simp_all add: json_string_def)
    then have skip: "skip_space (w @ ?t) = ?t" using assms by (rule skip_solid)
    obtain N where N: "\<forall>n \<ge> N. \<forall>j \<ge> K. scan_value pf j n (s @ CHR '','' # w @ ?t) = Inr (v, CHR '','' # w @ ?t)"
      using reads_asD [OF s(1)] number_ends_mark by blast
    have "scan_members pf j n d (json_string k @ CHR '':'' # w @ s @ CHR '','' # w @ ?t) = Inr (d @ kvs, r)"
      if "n \<ge> Suc (max M N)" "j \<ge> K" for n j
      using that N M by (cases n) (simp_all add: key upd after_mark_hit after_mark_miss skip kvs)
    with Cons2 show ?thesis by (intro exI [of _ "Suc (max M N)"]) (simp add: kvs)
  qed
qed simp

lemma insort_map: "insort_key fst (map_prod id f x) (map (map_prod id f) xs) = map (map_prod id f) (insort_key fst x xs)"
  by (induction xs) auto

lemma sort_map: "sort_key fst (map (map_prod id f) xs) = map (map_prod id f) (sort_key fst xs)"
  by (induction xs) (simp_all add: insort_map [unfolded id_def] id_def)

lemma print_solid: "json_ok pf E v \<Longrightarrow> solid (json_print E srt w v)"
proof (induction v)
  case (PInt i)
  show ?case
    using scan_number_start(2) [OF scan_show_int [of "[]" pf i]]
    by (auto simp: number_ends_def solid_def)
next
  case (PFloat f)
  then show ?case
    by (cases f) (auto simp: solid_def dest!: scan_number_start(2))
qed (auto simp: json_string_def)

lemma reads_word: "(\<And>r. scan_word pf (s @ r) = Inr (v, r)) \<Longrightarrow> s \<noteq> [] \<Longrightarrow> hd s \<notin> {CHR 0x22, CHR ''{'', CHR ''[''} \<Longrightarrow> reads_as pf K s v"
  unfolding reads_as_def
proof (intro allI impI)
  fix r assume w: "\<And>r. scan_word pf (s @ r) = Inr (v, r)" "s \<noteq> []" "hd s \<notin> {CHR 0x22, CHR ''{'', CHR ''[''}"
  have "scan_value pf k n (s @ r) = Inr (v, r)" if "n \<ge> 1" for n k
    using that w(2,3) w(1) [of r] by (cases n; cases s) simp_all
  then show "\<exists>N. \<forall>n \<ge> N. \<forall>k \<ge> K. scan_value pf k n (s @ r) = Inr (v, r)" by blast
qed

lemma reads_number: "(\<And>r. number_ends r \<Longrightarrow> scan_number pf (s @ r) = Inr (v, r)) \<Longrightarrow> reads_as pf K s v"
  unfolding reads_as_def by (metis scan_value_number less_eq_Suc_le)

lemma reads_bracket:
  assumes "\<And>r. \<exists>N. \<forall>n \<ge> N. \<forall>k \<ge> K. scan_value pf k (Suc n) (s @ r) = Inr (v, r)"
  shows "reads_as pf K s v"
  unfolding reads_as_def
proof (intro allI impI)
  fix r
  obtain N where "\<forall>n \<ge> N. \<forall>k \<ge> K. scan_value pf k (Suc n) (s @ r) = Inr (v, r)" using assms by blast
  then show "\<exists>N. \<forall>n \<ge> N. \<forall>k \<ge> K. scan_value pf k n (s @ r) = Inr (v, r)"
    by (metis Suc_le_D Suc_le_mono)
qed

lemma print_reads:
  assumes "list_all json_space w"
  shows "json_ok pf E v \<Longrightarrow> nesting v \<le> K \<Longrightarrow> reads_as pf K (json_print E srt w v) (in_order srt v)"
proof (induction v arbitrary: K)
  case (PInt i)
  then show ?case by (auto intro!: reads_number scan_show_int)
next
  case (PFloat f)
  have "reads_as pf K ''NaN'' (PFloat FNaN)" "reads_as pf K ''Infinity'' (PFloat (FInf False))"
    "reads_as pf K ''-Infinity'' (PFloat (FInf True))"
    by (auto intro!: reads_word simp: scan_word_def starts_with_def)
  with PFloat show ?case
    by (cases f) (auto intro!: reads_number scan_number_more)
next
  case (PStr s)
  show ?case
    by (auto intro!: reads_bracket simp: json_string_quote scan_string_chars)
next
  case (PList xs)
  obtain K' where K: "K = Suc K'" using PList.prems(2) by (cases K) auto
  show ?case
  proof (cases "xs = []")
    case False
    let ?ss = "map (json_print E srt w) xs"
    have all: "list_all2 (\<lambda>s v. reads_as pf K' s v \<and> solid s) ?ss (map (in_order srt) xs)"
      using PList by (auto simp: list_all2_map1 list_all2_map2 list_all2_same list_all_iff print_solid K foldr_max_le)
    then have sol: "solid (join_with (CHR '','' # w) ?ss)"
      using False by (cases xs; cases "tl xs") (auto simp: solid_join)
    have am: "after_mark (CHR '']'') (join_with (CHR '','' # w) ?ss @ t) = None" for t
      using skip_solid [OF sol, of "[]" t] sol by (auto simp: after_mark_def solid_def)
    show ?thesis
    proof (rule reads_bracket)
      fix r
      from scan_items_print [OF assms all] False obtain N where
        "\<forall>n \<ge> N. \<forall>k \<ge> K'. scan_items pf k n (join_with (CHR '','' # w) ?ss @ CHR '']'' # r) = Inr (map (in_order srt) xs, r)"
        by auto
      then show "\<exists>N. \<forall>n \<ge> N. \<forall>k \<ge> K. scan_value pf k (Suc n) (json_print E srt w (PList xs) @ r) = Inr (in_order srt (PList xs), r)"
        using am skip_solid [OF sol, of "[]"] by (intro exI [of _ N]) (simp add: K)
    qed
  qed (auto intro!: reads_bracket simp: after_mark_hit K)
next
  case (PDict d)
  obtain K' where K: "K = Suc K'" using PDict.prems(2) by (cases K) auto
  show ?case
  proof (cases "d = []")
    case False
    define d' where "d' = (if srt then sort_key fst d else d)"
    let ?kss = "map (map_prod id (json_print E srt w)) d'" and ?kvs = "map (map_prod id (in_order srt)) d'"
    let ?pr = "map (\<lambda>(k, s). json_string k @ CHR '':'' # w @ s) ?kss"
    have set: "set d' = set d" by (simp add: d'_def)
    then have ne: "d' \<noteq> []" using False by auto
    have "distinct (map fst d')"
      using PDict.prems by (auto simp: d'_def distinct_map)
    then have dist: "distinct (map fst ([] @ ?kvs))" by (simp add: comp_def)
    have "reads_as pf K' (json_print E srt w v) (in_order srt v) \<and> solid (json_print E srt w v)"
      if "(k, v) \<in> set d'" for k v
    proof -
      have "nesting v \<le> K'" using that PDict.prems(2) unfolding set by (force simp: K foldr_max_le)
      then show ?thesis
        using that PDict.IH [of "(k, v)" v] PDict.prems unfolding set
        by (auto simp: list_all_iff print_solid snds.simps)
    qed
    then have all: "list_all2 (\<lambda>(k, s) (k', v). k = k' \<and> reads_as pf K' s v \<and> solid s) ?kss ?kvs"
      by (auto simp: list_all2_map1 list_all2_map2 list_all2_same)
    have sol: "solid (join_with (CHR '','' # w) ?pr)" and miss: "after_mark (CHR ''}'') (join_with (CHR '','' # w) ?pr @ t) = None" for t
      using ne by (cases d'; cases "tl d'"; auto simp: json_string_def after_mark_miss)+
    have shown: "json_print E srt w (PDict d) = CHR ''{'' # join_with (CHR '','' # w) ?pr @ ''}''"
      "in_order srt (PDict d) = PDict ?kvs"
      by (simp_all add: d'_def sort_map)
    show ?thesis
    proof (rule reads_bracket)
      fix r
      from scan_members_print [OF assms all _ dist] ne obtain N where
        "\<forall>n \<ge> N. \<forall>k \<ge> K'. scan_members pf k n [] (join_with (CHR '','' # w) ?pr @ CHR ''}'' # r) = Inr (?kvs, r)"
        by auto
      then show "\<exists>N. \<forall>n \<ge> N. \<forall>k \<ge> K. scan_value pf k (Suc n) (json_print E srt w (PDict d) @ r) = Inr (in_order srt (PDict d), r)"
        unfolding shown using miss skip_solid [OF sol, of "[]"] by (intro exI [of _ N]) (simp add: K)
    qed
  qed (auto intro!: reads_bracket simp: after_mark_hit K)
qed (auto intro!: reads_word simp: scan_word_def starts_with_def)

text \<open>White space may stand behind it.\<close>

lemma json_scan_print:
  assumes "list_all json_space w" "json_ok pf E v" "nesting v \<le> k" "list_all json_space r"
  shows "json_scan pf k (json_print E srt w v @ r) = Inr (in_order srt v)"
proof -
  let ?s = "json_print E srt w v"
  have "number_ends r" using assms(4) by (cases r) (auto simp: number_ends_def json_space_def is_digit_def)
  then obtain N where N: "\<forall>n \<ge> N. scan_value pf k n (?s @ r) = Inr (in_order srt v, r)"
    using reads_asD [OF print_reads [OF assms(1-3)]] le_refl by blast
  have "skip_space (?s @ r) = ?s @ r" "skip_space r = []"
    using skip_solid [OF print_solid [OF assms(2)], of "[]" srt w r] assms(4)
    by (auto simp: skip_space_def list_all_iff)
  with N json_scan_fuel [of "?s @ r" "max N (Suc (2 * length (?s @ r)))" pf k] show ?thesis by simp
qed

theorem json_read_print:
  assumes "list_all json_space w" "json_ok pf E v" "list_all json_space r"
  shows "json_read pf (json_print E srt w v @ r) = Inr (in_order srt v)"
  using json_scan_print [OF assms(1,2) _ assms(3), of "max (length (json_print E srt w v @ r)) (nesting v)" srt]
    json_read_room [of "json_print E srt w v @ r" "max (length (json_print E srt w v @ r)) (nesting v)" pf] by simp

lemma join_with_comma: "join_with '','' ss = join ss"
  by (induction ss rule: join.induct) simp_all

lemma json_dumps_print: "json_dumps E v = json_print E True [] v"
proof (induction v)
  case (PList xs)
  then have "map (json_dumps E) xs = map (json_print E True []) xs" by simp
  then show ?case by (simp add: join_with_comma del: map_eq_conv)
next
  case (PDict d)
  then have "map (map_prod id (json_dumps E)) d = map (map_prod id (json_print E True [])) d"
    by (auto simp: snds.simps)
  then show ?case by (simp add: join_with_comma del: map_eq_conv)
qed simp_all

abbreviation jsonable :: "env \<Rightarrow> pyval \<Rightarrow> bool" where
  "jsonable E \<equiv> json_ok (float_hook E) E"

theorem json_loads_dumps: "jsonable E v \<Longrightarrow> json_loads E (json_dumps E v) = Some (in_order True v)"
  using json_read_print [of "[]" "float_hook E" E v "[]" True] by (simp add: json_loads_def json_dumps_print)

end
