(* ===== verification/Core.thy ===== *)
theory Core
  imports Json
begin

text \<open>
  The ledger of \<open>core.py\<close>: keys and signatures, transactions, blocks, and the block-applying
  template \<open>Blockchain._apply\<close> with the hooks that the proof-of-stake chain overrides.

  A method that mutates \<open>self\<close> is a function from the state to the new state. \<open>_apply\<close> works on
  copies (the record \<open>work\<close>) and commits them after the last statement that can raise, so an
  exception leaves the state as it was: the model returns the error and no state.

  The hooks are a record of functions (\<open>hooks\<close>); \<open>base_hooks\<close> are the methods of
  \<open>Blockchain\<close> itself. The state of a subclass extends the record \<open>blockchain\<close>.
\<close>

section \<open>Monetary constants and reserved recipients\<close>

definition SECP256K1_N :: int where
  "SECP256K1_N = 0xFFFFFFFFFFFFFFFFFFFFFFFFFFFFFFFEBAAEDCE6AF48A03BBFD25E8CD0364141"

definition HALF_N :: int where
  "HALF_N = SECP256K1_N div 2"

definition COIN :: int where
  "COIN = 10 ^ 8"

definition MAX_SUPPLY :: int where
  "MAX_SUPPLY = 1000000"

definition MAX_SUPPLY_UNITS :: int where
  "MAX_SUPPLY_UNITS = MAX_SUPPLY * COIN"

definition STAKE_SENTINEL :: string where
  "STAKE_SENTINEL = ''__MINDEES_STAKE__''"

definition UNSTAKE_SENTINEL :: string where
  "UNSTAKE_SENTINEL = ''__MINDEES_UNSTAKE__''"

definition SLASH_SENTINEL :: string where
  "SLASH_SENTINEL = ''__MINDEES_SLASH__''"

definition VOTE_SENTINEL :: string where
  "VOTE_SENTINEL = ''__MINDEES_VOTE__''"

lemma sentinels_distinct [simp]:
  "STAKE_SENTINEL \<noteq> UNSTAKE_SENTINEL" "UNSTAKE_SENTINEL \<noteq> STAKE_SENTINEL"
  "STAKE_SENTINEL \<noteq> SLASH_SENTINEL" "SLASH_SENTINEL \<noteq> STAKE_SENTINEL"
  "STAKE_SENTINEL \<noteq> VOTE_SENTINEL" "VOTE_SENTINEL \<noteq> STAKE_SENTINEL"
  "UNSTAKE_SENTINEL \<noteq> SLASH_SENTINEL" "SLASH_SENTINEL \<noteq> UNSTAKE_SENTINEL"
  "UNSTAKE_SENTINEL \<noteq> VOTE_SENTINEL" "VOTE_SENTINEL \<noteq> UNSTAKE_SENTINEL"
  "SLASH_SENTINEL \<noteq> VOTE_SENTINEL" "VOTE_SENTINEL \<noteq> SLASH_SENTINEL"
  by (simp_all add: STAKE_SENTINEL_def UNSTAKE_SENTINEL_def SLASH_SENTINEL_def VOTE_SENTINEL_def)

fun is_units :: "pyval \<Rightarrow> bool" where
  "is_units (PInt i) = (0 \<le> i)"
| "is_units v = False"

lemma is_units_iff: "is_units v \<longleftrightarrow> (\<exists>i. v = PInt i \<and> 0 \<le> i)"
  by (cases v) auto

section \<open>Wallet\<close>

record wallet =
  secret :: int

definition from_secret :: "env \<Rightarrow> int \<Rightarrow> wallet res" where
  "from_secret E s =
     (if \<not> (1 \<le> s \<and> s < 2 ^ 256) then Inl (ValueError ''secret out of range'')
      else if \<not> derive_ok E s then Inl (ValueError ''private_value must be a positive integer'')
      else Inr \<lparr>secret = s\<rparr>)"

definition public_key_bytes :: "env \<Rightarrow> wallet \<Rightarrow> bytes" where
  "public_key_bytes E w = public_bytes E (secret w)"

definition public_key_hex :: "env \<Rightarrow> wallet \<Rightarrow> string" where
  "public_key_hex E w = hex (public_key_bytes E w)"

definition address_from_public_key :: "env \<Rightarrow> bytes \<Rightarrow> string" where
  "address_from_public_key E pub = b58check E (0 # take 20 (sha256 E pub))"

definition address :: "env \<Rightarrow> wallet \<Rightarrow> string" where
  "address E w = address_from_public_key E (public_key_bytes E w)"

text \<open>\<open>Wallet.sign\<close>; the last argument is the randomness that ECDSA draws.\<close>

definition wallet_sign :: "env \<Rightarrow> wallet \<Rightarrow> bytes \<Rightarrow> nat \<Rightarrow> bytes res" where
  "wallet_sign E w message k =
     (let sig = ecdsa_sign E (secret w) message k
      in case decode_dss E sig of
           None \<Rightarrow> Inl (ValueError ''not a DER signature'')
         | Some (r, s) \<Rightarrow>
             if HALF_N < s then Inr (encode_dss E r (SECP256K1_N - s)) else Inr sig)"

definition verify_signature :: "env \<Rightarrow> bytes \<Rightarrow> bytes \<Rightarrow> bytes \<Rightarrow> bool" where
  "verify_signature E pub message sig =
     (case decode_dss E sig of
        None \<Rightarrow> False
      | Some (r, s) \<Rightarrow>
          if \<not> (1 \<le> r \<and> r < SECP256K1_N \<and> 1 \<le> s \<and> s \<le> HALF_N) then False
          else if \<not> point_ok E pub then False
          else ecdsa_verify E pub message sig)"

section \<open>Transactions\<close>

record transaction =
  sender :: pyval
  recipient :: pyval
  amount :: pyval
  fee :: pyval
  nonce :: pyval
  public_key :: pyval
  signature :: pyval
  evidence :: pyval

definition signing_payload :: "env \<Rightarrow> transaction \<Rightarrow> bytes" where
  "signing_payload E tx =
     canonical E (PDict
       [(''sender'', sender tx), (''recipient'', recipient tx), (''amount'', amount tx),
        (''fee'', fee tx), (''nonce'', nonce tx), (''public_key'', public_key tx),
        (''evidence'', evidence tx)])"

definition sign_tx :: "env \<Rightarrow> wallet \<Rightarrow> nat \<Rightarrow> transaction \<Rightarrow> transaction res" where
  "sign_tx E w k tx =
     (if \<not> py_eq (PStr (address E w)) (sender tx)
      then Inl (ValidationError ''wallet does not own sender address'')
      else let tx' = tx\<lparr>public_key := PStr (public_key_hex E w)\<rparr>
           in rbind (wallet_sign E w (signing_payload E tx') k)
                (\<lambda>sig. Inr (tx'\<lparr>signature := PStr (hex sig)\<rparr>)))"

definition txid :: "env \<Rightarrow> transaction \<Rightarrow> string" where
  "txid E tx =
     hex (sha256 E (canonical E (PDict
       [(''sender'', sender tx), (''recipient'', recipient tx), (''amount'', amount tx),
        (''fee'', fee tx), (''nonce'', nonce tx), (''public_key'', public_key tx),
        (''signature'', signature tx), (''evidence'', evidence tx)])))"

text \<open>\<open>bytes.fromhex\<close> on a field that may hold anything.\<close>

fun fromhex_val :: "pyval \<Rightarrow> bytes res" where
  "fromhex_val (PStr s) =
     (case fromhex s of None \<Rightarrow> Inl (ValueError ''non-hexadecimal number'') | Some bs \<Rightarrow> Inr bs)"
| "fromhex_val v = Inl (TypeError ''fromhex() argument must be str'')"

text \<open>
  \<open>Transaction.is_valid\<close>. The two \<open>fromhex\<close> calls stand in a \<open>try\<close> that catches \<open>ValueError\<close>
  only; a field that is not a string raises \<open>TypeError\<close> out of the method.
\<close>

definition is_valid :: "env \<Rightarrow> transaction \<Rightarrow> bool res" where
  "is_valid E tx =
     (if \<not> (is_units (amount tx) \<and> is_units (fee tx) \<and> is_units (nonce tx)) then Inr False
      else if (if recipient tx = PStr SLASH_SENTINEL \<or> recipient tx = PStr VOTE_SENTINEL
               then the_int (amount tx) \<noteq> 0 \<or> \<not> truthy (evidence tx)
               else the_int (amount tx) \<le> 0)
      then Inr False
      else if \<not> is_str (evidence tx) \<or> \<not> truthy (public_key tx) \<or> \<not> truthy (signature tx)
      then Inr False
      else case rbind (fromhex_val (public_key tx)) (\<lambda>pub.
                rbind (fromhex_val (signature tx)) (\<lambda>sig. Inr (pub, sig))) of
             Inl (ValueError m) \<Rightarrow> Inr False
           | Inl e \<Rightarrow> Inl e
           | Inr (pub, sig) \<Rightarrow>
               if \<not> py_eq (PStr (address_from_public_key E pub)) (sender tx) then Inr False
               else Inr (verify_signature E pub (signing_payload E tx) sig))"

section \<open>Blocks\<close>

text \<open>One round of pairwise hashing; the last node of an odd layer is paired with itself.\<close>

fun merkle_layer :: "env \<Rightarrow> bytes list \<Rightarrow> bytes list" where
  "merkle_layer E [] = []"
| "merkle_layer E [x] = [sha256 E (x @ x)]"
| "merkle_layer E (x # y # xs) = sha256 E (x @ y) # merkle_layer E xs"

lemma length_merkle_layer: "length (merkle_layer E xs) = (length xs + 1) div 2"
  by (induction E xs rule: merkle_layer.induct) auto

function merkle_loop :: "env \<Rightarrow> bytes list \<Rightarrow> bytes list" where
  "merkle_loop E layer = (if 1 < length layer then merkle_loop E (merkle_layer E layer) else layer)"
  by pat_completeness auto
termination
  by (relation "measure (\<lambda>(E, layer). length layer)") (auto simp: length_merkle_layer)

declare merkle_loop.simps [simp del]

lemma merkle_loop_cases [simp, code]:
  "merkle_loop E [] = []"
  "merkle_loop E [x] = [x]"
  "merkle_loop E (x # y # xs) = merkle_loop E (merkle_layer E (x # y # xs))"
  by (simp_all add: merkle_loop.simps [of E "_ # _"] merkle_loop.simps [of E "[]"])

definition merkle_root :: "env \<Rightarrow> string list \<Rightarrow> string res" where
  "merkle_root E txids =
     (if txids = [] then Inr (hex (sha256 E []))
      else rbind (mapM (\<lambda>t. fromhex_val (PStr t)) txids)
             (\<lambda>layer. Inr (hex (hd (merkle_loop E layer)))))"

record block =
  index :: pyval
  previous_hash :: pyval
  timestamp :: pyval
  transactions :: "transaction list"
  validator :: pyval
  block_nonce :: pyval
  block_merkle_root :: pyval
  proposer_pubkey :: pyval
  validator_sig :: pyval

text \<open>The \<open>Block(...)\<close> constructor with \<open>__post_init__\<close>: a falsy Merkle root is computed.\<close>

definition new_block ::
  "env \<Rightarrow> pyval \<Rightarrow> pyval \<Rightarrow> pyval \<Rightarrow> transaction list \<Rightarrow> pyval \<Rightarrow> pyval \<Rightarrow> pyval \<Rightarrow> pyval \<Rightarrow> pyval
   \<Rightarrow> block res" where
  "new_block E idx prev ts txs val non root pubkey sig =
     (let b = \<lparr>index = idx, previous_hash = prev, timestamp = ts, transactions = txs,
               validator = val, block_nonce = non, block_merkle_root = root,
               proposer_pubkey = pubkey, validator_sig = sig\<rparr>
      in if truthy root then Inr b
         else rbind (merkle_root E (map (txid E) txs))
                (\<lambda>r. Inr (b\<lparr>block_merkle_root := PStr r\<rparr>)))"

definition header :: "block \<Rightarrow> pyval" where
  "header b = PDict
     [(''index'', index b), (''previous_hash'', previous_hash b), (''timestamp'', timestamp b),
      (''merkle_root'', block_merkle_root b), (''validator'', validator b),
      (''nonce'', block_nonce b)]"

definition block_hash :: "env \<Rightarrow> block \<Rightarrow> string" where
  "block_hash E b = hex (sha256 E (canonical E (header b)))"

section \<open>The chain\<close>

type_synonym ledger = "(pyval \<times> int) list"

record blockchain =
  balances :: ledger
  nonces :: ledger
  chain :: "block list"

definition GENESIS_PREV :: string where
  "GENESIS_PREV = replicate 64 (CHR ''0'')"

text \<open>\<open>Blockchain.__init__\<close>; the allocations are addresses with values of any type.\<close>

definition blockchain_init :: "env \<Rightarrow> (string \<times> pyval) list \<Rightarrow> pyval \<Rightarrow> blockchain res" where
  "blockchain_init E allocations ts =
     (if \<not> dall is_units allocations
      then Inl (ValidationError ''genesis allocations must be non-negative integers'')
      else let amounts = map (map_prod PStr the_int) allocations
      in if dsum amounts \<noteq> MAX_SUPPLY_UNITS
      then Inl (ValidationError ''genesis must allocate exactly'')
      else if \<not> dall (\<lambda>v. 0 \<le> v) amounts
      then Inl (ValidationError ''negative genesis allocation'')
      else rbind (new_block E (PInt 0) (PStr GENESIS_PREV) ts [] (PStr ''genesis'') (PInt 0)
                    (PStr []) (PStr []) (PStr []))
             (\<lambda>genesis. Inr \<lparr>balances = amounts,
                             nonces = map (\<lambda>p. (fst p, 0)) amounts,
                             chain = [genesis]\<rparr>))"

definition base_total_supply :: "'b blockchain_scheme \<Rightarrow> int" where
  "base_total_supply st = dsum (balances st)"

definition balance_of :: "'b blockchain_scheme \<Rightarrow> pyval \<Rightarrow> int" where
  "balance_of st a = dget (balances st) a 0"

definition head :: "'b blockchain_scheme \<Rightarrow> block" where
  "head st = last (chain st)"

text \<open>\<open>i + 1\<close> on the index of a block.\<close>

fun py_succ :: "env \<Rightarrow> pyval \<Rightarrow> pyval res" where
  "py_succ E (PInt i) = Inr (PInt (i + 1))"
| "py_succ E (PBool b) = Inr (PInt ((if b then 1 else 0) + 1))"
| "py_succ E (PFloat f) = Inr (PFloat (float_add1 E f))"
| "py_succ E v = Inl (TypeError ''unsupported operand'')"

subsection \<open>The template \<open>_apply\<close> and its hooks\<close>

record 'aux work =
  w_balances :: ledger
  w_nonces :: ledger
  w_aux :: 'aux

record ('st, 'aux) hooks =
  check_proposer :: "'st \<Rightarrow> block \<Rightarrow> unit res"
  snapshot_aux :: "'st \<Rightarrow> 'aux"
  apply_block_pre :: "'st \<Rightarrow> block \<Rightarrow> 'aux work \<Rightarrow> 'aux work res"
  apply_tx :: "'st \<Rightarrow> transaction \<Rightarrow> block \<Rightarrow> 'aux work \<Rightarrow> 'aux work res"
  check_supply :: "'aux work \<Rightarrow> unit res"
  commit_aux :: "'aux \<Rightarrow> 'st \<Rightarrow> 'st"

text \<open>The loop over the transactions of a block, with the ids \<open>seen\<close> so far.\<close>

fun apply_txs ::
  "env \<Rightarrow> ('st, 'aux) hooks \<Rightarrow> 'st \<Rightarrow> block \<Rightarrow> string list \<Rightarrow> 'aux work \<Rightarrow> transaction list
   \<Rightarrow> 'aux work res" where
  "apply_txs E H st b seen w [] = Inr w"
| "apply_txs E H st b seen w (tx # txs) =
     (if txid E tx \<in> set seen then Inl (ValidationError ''duplicate transaction in block'')
      else rbind (is_valid E tx) (\<lambda>ok.
        if \<not> ok then Inl (ValidationError ''invalid signature/shape for tx'')
        else if dget (w_nonces w) (sender tx) 0 \<noteq> the_int (nonce tx)
        then Inl (ValidationError ''bad nonce for'')
        else rbind (apply_tx H st tx b w) (\<lambda>w'.
          apply_txs E H st b (txid E tx # seen) w' txs)))"

text \<open>The copies \<open>_apply\<close> works on, and its final assignments to \<open>self\<close>.\<close>

definition start_work ::
  "('b blockchain_scheme, 'aux) hooks \<Rightarrow> 'b blockchain_scheme \<Rightarrow> 'aux work" where
  "start_work H st =
     \<lparr>w_balances = balances st, w_nonces = nonces st, w_aux = snapshot_aux H st\<rparr>"

definition commit_work ::
  "('b blockchain_scheme, 'aux) hooks \<Rightarrow> 'aux work \<Rightarrow> 'b blockchain_scheme \<Rightarrow> 'b blockchain_scheme"
where
  "commit_work H w st =
     commit_aux H (w_aux w) (st\<lparr>balances := w_balances w, nonces := w_nonces w\<rparr>)"

definition apply_block ::
  "env \<Rightarrow> ('b blockchain_scheme, 'aux) hooks \<Rightarrow> 'b blockchain_scheme \<Rightarrow> block
   \<Rightarrow> 'b blockchain_scheme res" where
  "apply_block E H st b =
     (if \<not> py_eq (previous_hash b) (PStr (block_hash E (head st)))
      then Inl (ValidationError ''previous_hash mismatch'')
      else rbind (py_succ E (index (head st))) (\<lambda>next_index.
      if \<not> py_eq (index b) next_index
      then Inl (ValidationError ''non-sequential block index'')
      else rbind (merkle_root E (map (txid E) (transactions b))) (\<lambda>root.
      if \<not> py_eq (block_merkle_root b) (PStr root)
      then Inl (ValidationError ''merkle root mismatch'')
      else rbind (check_proposer H st b) (\<lambda>_.
      rbind (apply_block_pre H st b (start_work H st)) (\<lambda>w1.
      rbind (apply_txs E H st b [] w1 (transactions b)) (\<lambda>w2.
      rbind (check_supply H w2) (\<lambda>_.
      Inr (commit_work H w2 st))))))))"

definition submit_block ::
  "env \<Rightarrow> ('b blockchain_scheme, 'aux) hooks \<Rightarrow> 'b blockchain_scheme \<Rightarrow> block
   \<Rightarrow> 'b blockchain_scheme res" where
  "submit_block E H st b =
     rbind (apply_block E H st b) (\<lambda>st'. Inr (st'\<lparr>chain := chain st' @ [b]\<rparr>))"

subsection \<open>The hooks of \<open>Blockchain\<close> itself\<close>

definition base_check_proposer :: "'st \<Rightarrow> block \<Rightarrow> unit res" where
  "base_check_proposer st b = Inr ()"

text \<open>\<open>balances[block.validator] = balances.get(block.validator, 0) + fee\<close>\<close>

definition credit_validator :: "block \<Rightarrow> int \<Rightarrow> ledger \<Rightarrow> ledger res" where
  "credit_validator b f bal =
     rbind (hash_key (validator b)) (\<lambda>v. Inr (AList.update v (dget bal v 0 + f) bal))"

definition base_apply_tx :: "'st \<Rightarrow> transaction \<Rightarrow> block \<Rightarrow> 'aux work \<Rightarrow> 'aux work res" where
  "base_apply_tx st tx b w =
     (let bal = w_balances w;
          cost = the_int (amount tx) + the_int (fee tx)
      in if dget bal (sender tx) 0 < cost then Inl (ValidationError ''insufficient funds for'')
         else let bal1 = AList.update (sender tx) (dget bal (sender tx) 0 - cost) bal
         in rbind (hash_key (recipient tx)) (\<lambda>r.
            let bal2 = AList.update r (dget bal1 r 0 + the_int (amount tx)) bal1
            in rbind (credit_validator b (the_int (fee tx)) bal2) (\<lambda>bal3.
            let non1 = AList.update (sender tx) (the_int (nonce tx) + 1) (w_nonces w)
            in Inr (w\<lparr>w_balances := bal3,
                       w_nonces := dsetdefault non1 r (dget non1 r 0)\<rparr>))))"

definition base_check_supply :: "'aux work \<Rightarrow> unit res" where
  "base_check_supply w =
     (if dsum (w_balances w) \<noteq> MAX_SUPPLY_UNITS
      then Inl (ValidationError ''supply conservation violated'') else Inr ())"

definition base_hooks :: "('st, unit) hooks" where
  "base_hooks = \<lparr>check_proposer = base_check_proposer,
                 snapshot_aux = (\<lambda>_. ()),
                 apply_block_pre = (\<lambda>_ _ w. Inr w),
                 apply_tx = base_apply_tx,
                 check_supply = base_check_supply,
                 commit_aux = (\<lambda>_ st. st)\<rparr>"

text \<open>\<open>Blockchain.add_block\<close>: build the next block and submit it.\<close>

definition base_add_block ::
  "env \<Rightarrow> blockchain \<Rightarrow> transaction list \<Rightarrow> pyval \<Rightarrow> pyval \<Rightarrow> pyval \<Rightarrow> blockchain res" where
  "base_add_block E st txs val ts non =
     rbind (py_succ E (index (head st))) (\<lambda>i.
     rbind (new_block E i (PStr (block_hash E (head st))) ts txs val non
              (PStr []) (PStr []) (PStr [])) (\<lambda>b.
     submit_block E base_hooks st b))"

fun valid_links :: "env \<Rightarrow> block list \<Rightarrow> bool res" where
  "valid_links E (a # b # bs) =
     (if \<not> py_eq (previous_hash b) (PStr (block_hash E a)) then Inr False
      else rbind (py_succ E (index a)) (\<lambda>i.
        if \<not> py_eq (index b) i then Inr False else valid_links E (b # bs)))"
| "valid_links E bs = Inr True"

definition is_valid_chain :: "env \<Rightarrow> 'b blockchain_scheme \<Rightarrow> bool res" where
  "is_valid_chain E st = valid_links E (chain st)"

end
