(* ===== verification/Wire.thy ===== *)
theory Wire
  imports Core
begin

text \<open>
  The wire codec of \<open>network.py\<close>: transactions and blocks as JSON objects. Decoding checks that
  the fields are there, not what they hold; what comes back is judged by the ledger.
\<close>

text \<open>\<open>d[k]\<close> on a JSON object.\<close>

definition jfield :: "(string \<times> pyval) list \<Rightarrow> string \<Rightarrow> pyval res" where
  "jfield d k = (case map_of d k of None \<Rightarrow> Inl (KeyError k) | Some v \<Rightarrow> Inr v)"

text \<open>\<open>try: ... except (KeyError, TypeError) as exc: raise ValidationError(...)\<close>\<close>

fun malformed :: "string \<Rightarrow> 'a res \<Rightarrow> 'a res" where
  "malformed msg (Inl (KeyError k)) = Inl (ValidationError msg)"
| "malformed msg (Inl (TypeError t)) = Inl (ValidationError msg)"
| "malformed msg r = r"

definition encode_tx :: "transaction \<Rightarrow> pyval" where
  "encode_tx tx = PDict
     [(''sender'', sender tx), (''recipient'', recipient tx), (''amount'', amount tx),
      (''fee'', fee tx), (''nonce'', nonce tx), (''public_key'', public_key tx),
      (''signature'', signature tx), (''evidence'', evidence tx)]"

fun decode_tx :: "pyval \<Rightarrow> transaction res" where
  "decode_tx (PDict d) = malformed ''malformed transaction''
     (rbind (jfield d ''sender'') (\<lambda>s.
      rbind (jfield d ''recipient'') (\<lambda>r.
      rbind (jfield d ''amount'') (\<lambda>a.
      rbind (jfield d ''fee'') (\<lambda>f.
      rbind (jfield d ''nonce'') (\<lambda>n.
      rbind (jfield d ''public_key'') (\<lambda>p.
      rbind (jfield d ''signature'') (\<lambda>g.
      rbind (jfield d ''evidence'') (\<lambda>e.
        Inr \<lparr>sender = s, recipient = r, amount = a, fee = f, nonce = n,
             public_key = p, signature = g, evidence = e\<rparr>)))))))))"
| "decode_tx v = Inl (ValidationError ''transaction must be an object'')"

definition encode_block :: "block \<Rightarrow> pyval" where
  "encode_block b = PDict
     [(''index'', index b), (''previous_hash'', previous_hash b), (''timestamp'', timestamp b),
      (''transactions'', PList (map encode_tx (transactions b))), (''validator'', validator b),
      (''nonce'', block_nonce b), (''merkle_root'', block_merkle_root b),
      (''proposer_pubkey'', proposer_pubkey b), (''validator_sig'', validator_sig b)]"

fun decode_block :: "env \<Rightarrow> pyval \<Rightarrow> block res" where
  "decode_block E (PDict d) =
     (case map_of d ''transactions'' of
        Some (PList txs) \<Rightarrow> malformed ''malformed block''
          (rbind (jfield d ''index'') (\<lambda>i.
           rbind (jfield d ''previous_hash'') (\<lambda>p.
           rbind (jfield d ''timestamp'') (\<lambda>t.
           rbind (mapM decode_tx txs) (\<lambda>ts.
           rbind (jfield d ''validator'') (\<lambda>v.
           rbind (jfield d ''merkle_root'') (\<lambda>m.
             new_block E i p t ts v (dget d ''nonce'' (PInt 0)) m
               (dget d ''proposer_pubkey'' (PStr [])) (dget d ''validator_sig'' (PStr [])))))))))
      | _ \<Rightarrow> Inl (ValidationError ''block.transactions must be a list''))"
| "decode_block E v = Inl (ValidationError ''block must be an object'')"

section \<open>Decoding gives back what was encoded\<close>

lemma decode_encode_tx [simp]: "decode_tx (encode_tx tx) = Inr tx"
  by (simp add: encode_tx_def jfield_def)

lemma mapM_decode_encode_tx [simp]: "mapM decode_tx (map encode_tx txs) = Inr txs"
  by (induction txs) auto

lemma decode_encode_block:
  "truthy (block_merkle_root b) \<Longrightarrow> decode_block E (encode_block b) = Inr b"
  by (simp add: encode_block_def jfield_def new_block_def)

lemma malformed_error:
  "malformed msg r = Inl e \<Longrightarrow> (\<And>e. r = Inl e \<Longrightarrow> P e) \<Longrightarrow>
   P (ValidationError msg) \<Longrightarrow> P e"
  by (induction msg r rule: malformed.induct) auto

text \<open>A decoder raises nothing but \<open>ValidationError\<close>, whatever JSON value it is given.\<close>

definition only_validation :: "'a res \<Rightarrow> bool" where
  "only_validation r \<longleftrightarrow> (case r of Inl (ValidationError m) \<Rightarrow> True | Inl e \<Rightarrow> False | Inr x \<Rightarrow> True)"

lemma merkle_root_total: "\<exists>r. merkle_root E (map (txid E) txs) = Inr r"
proof -
  have "mapM (\<lambda>t. fromhex_val (PStr t)) (map (txid E) txs) =
    Inr (map (\<lambda>t. the (fromhex t)) (map (txid E) txs))"
    by (rule mapM_Inr) (auto simp: txid_def)
  then show ?thesis by (simp add: merkle_root_def)
qed

lemma only_validation_simps [simp]:
  "only_validation (Inr x)" "only_validation (Inl (ValidationError m))"
  by (simp_all add: only_validation_def)

lemma only_validation_malformed:
  "(\<And>e. r = Inl e \<Longrightarrow> (\<exists>m. e = ValidationError m) \<or> (\<exists>m. e = KeyError m)) \<Longrightarrow> only_validation (malformed msg r)"
  by (induction msg r rule: malformed.induct) auto

lemma jfield_error: "jfield d k = Inl e \<Longrightarrow> \<exists>m. e = KeyError m"
  by (auto simp: jfield_def split: option.splits)

lemma decode_tx_errors: "only_validation (decode_tx v)"
proof (cases v)
  case (PDict d)
  show ?thesis
    unfolding PDict decode_tx.simps
    by (rule only_validation_malformed) (auto simp: rbind_eq_Inl dest: jfield_error)
qed simp_all

lemma mapM_decode_errors: "mapM decode_tx vs = Inl e \<Longrightarrow> \<exists>m. e = ValidationError m"
proof (induction vs)
  case (Cons v vs)
  have "\<exists>m. e = ValidationError m" if "decode_tx v = Inl e" for e
    using decode_tx_errors [of v] that by (auto simp: only_validation_def split: perror.splits)
  with Cons show ?case by (auto simp: rbind_eq_Inl)
qed simp

lemma new_block_total: "\<exists>b. new_block E i p t txs v n m k s = Inr b"
  using merkle_root_total [of E txs] by (auto simp: new_block_def Let_def)

lemma decode_block_errors: "only_validation (decode_block E v)"
proof (cases v)
  case (PDict d)
  show ?thesis
  proof (cases "map_of d ''transactions''")
    case (Some t)
    show ?thesis
    proof (cases t)
      case (PList txs)
      have "new_block E i p ts xs v n m k s \<noteq> Inl e" for i p ts xs v n m k s e
        using new_block_total [of E i p ts xs v n m k s] by auto
      then show ?thesis
        unfolding \<open>v = PDict d\<close> decode_block.simps Some PList option.case pyval.case
        by (intro only_validation_malformed) (auto simp: rbind_eq_Inl dest: jfield_error mapM_decode_errors)
    qed (simp_all add: \<open>v = PDict d\<close> Some)
  qed (simp add: \<open>v = PDict d\<close>)
qed simp_all

end
