(* ===== verification/Vesting.thy ===== *)
theory Vesting
  imports Py_Values
begin

text \<open>
  The release schedule of \<open>vesting.py\<close>, two pure functions of a grant and a block height, and the
  facts the ledger and the genesis policy rely on: the locked part stays between nothing and the
  whole grant, it never grows with the height, all of it is locked before the cliff and nothing
  after the end of the schedule.
\<close>

definition vested :: "int \<Rightarrow> int \<Rightarrow> int \<Rightarrow> int \<Rightarrow> int \<Rightarrow> int" where
  "vested tot start cliff duration height =
     (if duration \<le> 0 then tot
      else if height < start + cliff then 0
      else if start + duration \<le> height then tot
      else tot * (height - start) div duration)"

definition locked :: "int \<Rightarrow> int \<Rightarrow> int \<Rightarrow> int \<Rightarrow> int \<Rightarrow> int" where
  "locked tot start cliff duration height =
     tot - vested tot start cliff duration height"

lemma linear_part_bounds:
  assumes "0 \<le> tot" "0 \<le> (x::int)" "x \<le> duration" "0 < duration"
  shows "0 \<le> tot * x div duration" "tot * x div duration \<le> tot"
proof -
  show "0 \<le> tot * x div duration"
    using assms by (simp add: pos_imp_zdiv_nonneg_iff)
  have "tot * x div duration \<le> tot * duration div duration"
    using assms by (intro zdiv_mono1 mult_left_mono) auto
  then show "tot * x div duration \<le> tot" using assms by simp
qed

lemma vested_bounds:
  assumes "0 \<le> tot" "0 \<le> cliff"
  shows "0 \<le> vested tot start cliff duration height"
    and "vested tot start cliff duration height \<le> tot"
  using assms linear_part_bounds [of tot "height - start" duration]
  by (auto simp: vested_def)

lemma vested_mono:
  assumes "0 \<le> tot" "0 \<le> cliff" "h \<le> h'"
  shows "vested tot start cliff duration h \<le> vested tot start cliff duration h'"
proof -
  have "tot * (h - start) div duration \<le> tot * (h' - start) div duration" if "0 < duration"
    using assms that by (intro zdiv_mono1 mult_left_mono) auto
  then show ?thesis
    using assms linear_part_bounds [of tot "h - start" duration]
      linear_part_bounds [of tot "h' - start" duration]
    by (auto simp: vested_def)
qed

lemma locked_nonneg: "0 \<le> tot \<Longrightarrow> 0 \<le> cliff \<Longrightarrow> 0 \<le> locked tot start cliff duration h"
  by (simp add: locked_def vested_bounds)

lemma locked_antimono:
  "0 \<le> tot \<Longrightarrow> 0 \<le> cliff \<Longrightarrow> h \<le> h' \<Longrightarrow>
   locked tot start cliff duration h' \<le> locked tot start cliff duration h"
  by (simp add: locked_def vested_mono)

end
