(* ===== verification/Consensus.thy ===== *)
theory Consensus
  imports Wire Vesting
begin

text \<open>
  The proof-of-stake chain of \<open>consensus.py\<close>: validator election, staking and delayed unstaking,
  slashing, vesting enforcement and the Casper-FFG finality votes, as the hooks \<open>pos_hooks\<close> of the
  block-applying template.

  The mutable attributes that \<open>_snapshot_aux\<close> copies and \<open>_commit_aux\<close> assigns form the record
  \<open>pos_aux\<close>; the deep copies of the source are what values are in HOL. \<open>justified_parent\<close> is the
  entry that \<open>_apply_block_pre\<close> adds to the copy. The attributes fixed at genesis
  (\<open>vesting\<close>, \<open>unbonding_blocks\<close>, \<open>treasury_address\<close>, \<open>epoch\<close>) are fields of
  \<open>pos_chain\<close>. Once a transaction is valid its sender is a string, once a block's proposer is
  checked its validator is a string and its index an integer: \<open>the_str\<close>, \<open>the_int\<close> read them.
\<close>

section \<open>Constants and helpers\<close>

definition DEFAULT_EPOCH :: int where
  "DEFAULT_EPOCH = 32"

definition FFG_NUM :: int where
  "FFG_NUM = 2"

definition FFG_DEN :: int where
  "FFG_DEN = 3"

definition REPORTER_BPS :: int where
  "REPORTER_BPS = 500"

definition hexbytes :: "pyval \<Rightarrow> bytes res" where
  "hexbytes v =
     (case fromhex_val v of Inl e \<Rightarrow> Inl (ValidationError ''malformed hex field'') | Inr b \<Rightarrow> Inr b)"

fun load_json :: "env \<Rightarrow> pyval \<Rightarrow> (string \<times> pyval) list res" where
  "load_json E (PStr s) =
     (case json_loads E s of
        None \<Rightarrow> Inl (ValidationError ''malformed evidence json'')
      | Some (PDict d) \<Rightarrow> Inr d
      | Some v \<Rightarrow> Inl (ValidationError ''evidence must be a JSON object''))"
| "load_json E v = Inl (ValidationError ''malformed evidence json'')"

section \<open>Election\<close>

text \<open>The loop over the sorted validators; after it the last validator is returned.\<close>

fun pick_validator :: "(string \<times> int) list \<Rightarrow> int \<Rightarrow> int \<Rightarrow> string \<Rightarrow> string list \<Rightarrow> string" where
  "pick_validator stakes pick cumulative final [] = final"
| "pick_validator stakes pick cumulative final (a # as) =
     (let cumulative' = cumulative + dget stakes a 0
      in if pick < cumulative' then a else pick_validator stakes pick cumulative' final as)"

definition active_validators :: "(string \<times> int) list \<Rightarrow> string list" where
  "active_validators stakes = sort (map fst (filter (\<lambda>p. 0 < snd p) stakes))"

definition elect_validator :: "(string \<times> int) list \<Rightarrow> bytes \<Rightarrow> string res" where
  "elect_validator stakes seed =
     (let validators = active_validators stakes;
          tot = sum_list (map (\<lambda>a. dget stakes a 0) validators)
      in if tot = 0 then Inl (ValidationError ''no active validators'')
         else Inr (pick_validator stakes (int (from_bytes seed) mod tot) 0 (last validators) validators))"

section \<open>State\<close>

text \<open>
  The key under which an offense is recorded: the pair of offender and height for two blocks, a
  digest for two votes.
\<close>

datatype offense = BlockOffense string pyval | VoteOffense string

type_synonym stake_map = "(string \<times> int) list"
type_synonym unbonding_map = "(string \<times> (int \<times> int \<times> int) list) list"

record pos_aux =
  stakes :: stake_map
  unbonding :: unbonding_map
  slashed :: "offense list"
  slashed_addrs :: "string list"
  ffg_stake :: "(string \<times> stake_map) list"
  ffg_height :: "(string \<times> int) list"
  ffg_votes :: "((string \<times> string) \<times> string list) list"
  ffg_seen_target :: "((string \<times> int) \<times> (string \<times> string)) list"
  justified :: "string list"
  justified_parent :: "string list"
  finalized :: "string \<times> int"

record pos_chain = blockchain +
  pos :: pos_aux
  vesting :: "(string \<times> (int \<times> int \<times> int \<times> int)) list"
  unbonding_blocks :: int
  treasury_address :: "string option"
  epoch :: int

type_synonym pos_work = "pos_aux work"

subsection \<open>Genesis\<close>

fun init_stakes ::
  "(string \<times> pyval) list \<Rightarrow> ledger \<Rightarrow> stake_map \<Rightarrow> (ledger \<times> stake_map) res" where
  "init_stakes [] bal stk = Inr (bal, stk)"
| "init_stakes ((a, amt) # rest) bal stk =
     (if \<not> is_units amt \<or> the_int amt = 0
      then Inl (ValidationError ''initial stake must be a positive integer'')
      else if dget bal (PStr a) 0 < the_int amt
      then Inl (ValidationError ''initial stake exceeds genesis balance'')
      else rbind (dlookup bal (PStr a)) (\<lambda>x.
             init_stakes rest (AList.update (PStr a) (x - the_int amt) bal)
               (AList.update a (dget stk a 0 + the_int amt) stk)))"

fun init_vesting ::
  "(string \<times> pyval list) list \<Rightarrow> ledger \<Rightarrow> stake_map
   \<Rightarrow> (string \<times> (int \<times> int \<times> int \<times> int)) list res" where
  "init_vesting [] bal stk = Inr []"
| "init_vesting ((a, grant) # rest) bal stk =
     (if length grant \<noteq> 4 \<or> \<not> list_all is_units grant
      then Inl (ValidationError ''vesting grant must be 4 non-negative integers'')
      else if dget bal (PStr a) 0 + dget stk a 0 < the_int (grant ! 0)
      then Inl (ValidationError ''vesting grant exceeds its genesis holding'')
      else rbind (init_vesting rest bal stk) (\<lambda>v.
             Inr ((a, (the_int (grant ! 0), the_int (grant ! 1), the_int (grant ! 2),
                       the_int (grant ! 3))) # v)))"

definition pos_init ::
  "env \<Rightarrow> (string \<times> pyval) list \<Rightarrow> (string \<times> pyval) list \<Rightarrow> pyval \<Rightarrow> (string \<times> pyval list) list
   \<Rightarrow> int \<Rightarrow> string option \<Rightarrow> int \<Rightarrow> pos_chain res" where
  "pos_init E allocations initial_stakes ts grants ub treasury ep =
     rbind (blockchain_init E allocations ts) (\<lambda>base.
     rbind (init_stakes initial_stakes (balances base) []) (\<lambda>(bal, stk).
     rbind (init_vesting grants bal stk) (\<lambda>vest.
     let bal' = (case treasury of None \<Rightarrow> bal | Some t \<Rightarrow> dsetdefault bal (PStr t) 0);
         g = block_hash E (head base)
     in if ep \<le> 0 then Inl (ValidationError ''epoch must be positive'')
     else Inr \<lparr>balances = bal', nonces = nonces base, chain = chain base,
               pos = \<lparr>stakes = stk, unbonding = [], slashed = [], slashed_addrs = [],
                      ffg_stake = [(g, stk)], ffg_height = [(g, 0)], ffg_votes = [],
                      ffg_seen_target = [], justified = [g], justified_parent = [],
                      finalized = (g, 0)\<rparr>,
               vesting = vest, unbonding_blocks = ub, treasury_address = treasury,
               epoch = ep\<rparr>)))"

subsection \<open>Queries\<close>

definition unbonding_sum :: "(int \<times> int \<times> int) list \<Rightarrow> int" where
  "unbonding_sum q = sum_list (map fst q)"

definition unbonding_grand_total :: "unbonding_map \<Rightarrow> int" where
  "unbonding_grand_total u = sum_list (map (\<lambda>p. unbonding_sum (snd p)) u)"

definition unbonding_total :: "unbonding_map \<Rightarrow> string \<Rightarrow> int" where
  "unbonding_total u a = unbonding_sum (dget u a [])"

definition pos_total_supply :: "pos_chain \<Rightarrow> int" where
  "pos_total_supply st =
     dsum (balances st) + dsum (stakes (pos st)) + unbonding_grand_total (unbonding (pos st))"

definition stake_of :: "pos_chain \<Rightarrow> string \<Rightarrow> int" where
  "stake_of st a = dget (stakes (pos st)) a 0"

definition unbonding_of :: "pos_chain \<Rightarrow> string \<Rightarrow> int" where
  "unbonding_of st a = unbonding_total (unbonding (pos st)) a"

definition finalized_checkpoint :: "pos_chain \<Rightarrow> string \<times> int" where
  "finalized_checkpoint st = finalized (pos st)"

definition is_justified :: "pos_chain \<Rightarrow> string \<Rightarrow> bool" where
  "is_justified st h \<longleftrightarrow> h \<in> set (justified (pos st))"

definition locked_of :: "pos_chain \<Rightarrow> string \<Rightarrow> int option \<Rightarrow> int" where
  "locked_of st a height =
     (case map_of (vesting st) a of
        None \<Rightarrow> 0
      | Some (tot, start, cliff, duration) \<Rightarrow>
          locked tot start cliff duration
            (case height of None \<Rightarrow> the_int (index (head st)) | Some h \<Rightarrow> h))"

definition spendable_of :: "pos_chain \<Rightarrow> string \<Rightarrow> int" where
  "spendable_of st a =
     (let bal = dget (balances st) (PStr a) 0;
          lock = locked_of st a None
      in if lock \<le> 0 then bal
         else let holding = bal + dget (stakes (pos st)) a 0 + unbonding_total (unbonding (pos st)) a
              in max 0 (min bal (holding - lock)))"

fun index_bytes :: "pyval \<Rightarrow> bytes res" where
  "index_bytes (PInt i) = to_bytes8 i"
| "index_bytes (PBool b) = to_bytes8 (if b then 1 else 0)"
| "index_bytes v = Inl (AttributeError ''object has no attribute to_bytes'')"

definition seed :: "env \<Rightarrow> pyval \<Rightarrow> pyval \<Rightarrow> bytes res" where
  "seed E prev_hash idx =
     rbind (fromhex_val prev_hash) (\<lambda>p. rbind (index_bytes idx) (\<lambda>i. Inr (sha256 E (p @ i))))"

definition elect :: "env \<Rightarrow> pos_chain \<Rightarrow> pyval \<Rightarrow> pyval \<Rightarrow> string res" where
  "elect E st prev_hash idx =
     rbind (seed E prev_hash idx) (\<lambda>s. elect_validator (stakes (pos st)) s)"

definition next_validator :: "env \<Rightarrow> pos_chain \<Rightarrow> string res" where
  "next_validator E st =
     rbind (py_succ E (index (head st))) (\<lambda>i. elect E st (PStr (block_hash E (head st))) i)"

section \<open>Evidence of faults\<close>

definition check_sealed :: "env \<Rightarrow> block \<Rightarrow> unit res" where
  "check_sealed E b =
     (if \<not> truthy (proposer_pubkey b) \<or> \<not> truthy (validator_sig b)
      then Inl (ValidationError ''evidence: block is not self-authenticating'')
      else rbind (hexbytes (proposer_pubkey b)) (\<lambda>pub.
      if \<not> py_eq (PStr (address_from_public_key E pub)) (validator b)
      then Inl (ValidationError ''evidence: proposer pubkey does not match validator'')
      else rbind (fromhex_val (PStr (block_hash E b))) (\<lambda>h.
      rbind (hexbytes (validator_sig b)) (\<lambda>sig.
      if \<not> verify_signature E pub h sig
      then Inl (ValidationError ''evidence: invalid validator signature'') else Inr ()))))"

definition verify_equivocation :: "env \<Rightarrow> block \<Rightarrow> block \<Rightarrow> (pyval \<times> pyval) res" where
  "verify_equivocation E b1 b2 =
     (if \<not> py_eq (index b1) (index b2)
      then Inl (ValidationError ''evidence: blocks are at different heights'')
      else if \<not> py_eq (previous_hash b1) (previous_hash b2)
      then Inl (ValidationError ''evidence: blocks have different parents (not equivocation)'')
      else if \<not> py_eq (validator b1) (validator b2)
      then Inl (ValidationError ''evidence: blocks have different validators'')
      else if block_hash E b1 = block_hash E b2
      then Inl (ValidationError ''evidence: the two blocks are identical'')
      else rbind (check_sealed E b1) (\<lambda>_. rbind (check_sealed E b2) (\<lambda>_.
             Inr (validator b1, index b1))))"

record link =
  link_s :: pyval
  link_sh :: pyval
  link_t :: pyval
  link_th :: pyval

definition vote_link :: "string \<Rightarrow> (string \<times> pyval) list \<Rightarrow> link res" where
  "vote_link msg d =
     (case rbind (jfield d ''s'') (\<lambda>s. rbind (jfield d ''sh'') (\<lambda>sh.
           rbind (jfield d ''t'') (\<lambda>t. rbind (jfield d ''th'') (\<lambda>th.
             Inr \<lparr>link_s = s, link_sh = sh, link_t = t, link_th = th\<rparr>)))) of
        Inl e \<Rightarrow> Inl (ValidationError msg)
      | Inr l \<Rightarrow> Inr l)"

text \<open>\<open>x and y\<close>, where evaluating \<open>x\<close> or \<open>y\<close> may raise.\<close>

definition and_then :: "bool res \<Rightarrow> bool res \<Rightarrow> bool res" where
  "and_then m n = rbind m (\<lambda>x. if x then n else Inr False)"

definition or_else :: "bool res \<Rightarrow> bool res \<Rightarrow> bool res" where
  "or_else m n = rbind m (\<lambda>x. if x then Inr True else n)"

definition double_vote :: "link \<Rightarrow> link \<Rightarrow> bool" where
  "double_vote la lb \<longleftrightarrow> py_eq (link_th la) (link_th lb) \<and>
     (\<not> py_eq (link_t la) (link_t lb) \<or> \<not> py_eq (link_s la) (link_s lb))"

definition surround_vote :: "link \<Rightarrow> link \<Rightarrow> bool res" where
  "surround_vote la lb =
     or_else (and_then (py_lt (link_sh la) (link_sh lb)) (py_lt (link_th lb) (link_th la)))
             (and_then (py_lt (link_sh lb) (link_sh la)) (py_lt (link_th la) (link_th lb)))"

definition verify_vote_fault :: "env \<Rightarrow> transaction \<Rightarrow> transaction \<Rightarrow> (pyval \<times> string) res" where
  "verify_vote_fault E tx_a tx_b =
     rbind (or_else (rbind (is_valid E tx_a) (\<lambda>v. Inr (\<not> v)))
                    (rbind (is_valid E tx_b) (\<lambda>v. Inr (\<not> v)))) (\<lambda>bad.
     if bad then Inl (ValidationError ''vote-fault: a vote tx is invalid'')
     else if recipient tx_a \<noteq> PStr VOTE_SENTINEL \<or> recipient tx_b \<noteq> PStr VOTE_SENTINEL
     then Inl (ValidationError ''vote-fault: not finality votes'')
     else if \<not> py_eq (sender tx_a) (sender tx_b)
     then Inl (ValidationError ''vote-fault: votes are from different voters'')
     else rbind (load_json E (evidence tx_a)) (\<lambda>da.
          rbind (load_json E (evidence tx_b)) (\<lambda>db.
          rbind (vote_link ''vote-fault: link missing field'' da) (\<lambda>la.
          rbind (vote_link ''vote-fault: link missing field'' db) (\<lambda>lb.
          rbind (surround_vote la lb) (\<lambda>surround.
          if \<not> (double_vote la lb \<or> surround)
          then Inl (ValidationError ''vote-fault: votes are neither a double nor a surround'')
          else Inr (sender tx_a,
                    hex (sha256 E (canonical E (PList (map PStr
                      (sort [txid E tx_a, txid E tx_b]))))))))))))"

section \<open>The hooks\<close>

definition pos_check_proposer :: "env \<Rightarrow> pos_chain \<Rightarrow> block \<Rightarrow> unit res" where
  "pos_check_proposer E st b =
     rbind (elect E st (previous_hash b) (index b)) (\<lambda>expected.
     if \<not> py_eq (validator b) (PStr expected)
     then Inl (ValidationError ''wrong proposer'')
     else if \<not> truthy (proposer_pubkey b) \<or> \<not> truthy (validator_sig b)
     then Inl (ValidationError ''missing validator block signature'')
     else rbind (hexbytes (proposer_pubkey b)) (\<lambda>pub.
     if \<not> py_eq (PStr (address_from_public_key E pub)) (validator b)
     then Inl (ValidationError ''proposer pubkey does not match validator address'')
     else rbind (fromhex_val (PStr (block_hash E b))) (\<lambda>h.
     rbind (hexbytes (validator_sig b)) (\<lambda>sig.
     if \<not> verify_signature E pub h sig
     then Inl (ValidationError ''invalid validator block signature'')
     else Inr ()))))"

definition pos_snapshot_aux :: "pos_chain \<Rightarrow> pos_aux" where
  "pos_snapshot_aux st = (pos st)\<lparr>justified_parent := []\<rparr>"

definition pos_commit_aux :: "pos_aux \<Rightarrow> pos_chain \<Rightarrow> pos_chain" where
  "pos_commit_aux aux st = st\<lparr>pos := aux\<lparr>justified_parent := []\<rparr>\<rparr>"

definition pos_check_supply :: "pos_work \<Rightarrow> unit res" where
  "pos_check_supply w =
     (let tot = dsum (w_balances w) + dsum (stakes (w_aux w))
                + unbonding_grand_total (unbonding (w_aux w))
      in if tot \<noteq> MAX_SUPPLY_UNITS
         then Inl (ValidationError ''supply conservation violated'') else Inr ())"

text \<open>Maturing: the entries of one address, then of all addresses.\<close>

fun mature_entries ::
  "int \<Rightarrow> string \<Rightarrow> (int \<times> int \<times> int) list \<Rightarrow> ledger \<Rightarrow> ledger \<times> (int \<times> int \<times> int) list" where
  "mature_entries h a [] bal = (bal, [])"
| "mature_entries h a ((amt, bond_h, release_h) # q) bal =
     (if release_h \<le> h
      then mature_entries h a q (AList.update (PStr a) (dget bal (PStr a) 0 + amt) bal)
      else (let (bal', q') = mature_entries h a q bal in (bal', (amt, bond_h, release_h) # q')))"

fun mature :: "int \<Rightarrow> unbonding_map \<Rightarrow> ledger \<Rightarrow> ledger \<times> unbonding_map" where
  "mature h [] bal = (bal, [])"
| "mature h ((a, q) # u) bal =
     (let (bal1, q') = mature_entries h a q bal;
          (bal2, u') = mature h u bal1
      in (bal2, if q' \<noteq> [] then (a, q') # u' else u'))"

definition pos_apply_block_pre ::
  "env \<Rightarrow> pos_chain \<Rightarrow> block \<Rightarrow> pos_work \<Rightarrow> pos_work res" where
  "pos_apply_block_pre E st b w =
     (let h = the_int (index b);
          aux = w_aux w;
          (bal, unb) = mature h (unbonding aux) (w_balances w);
          aux1 = aux\<lparr>unbonding := unb, justified_parent := justified aux\<rparr>;
          aux2 = (if h mod epoch st = 0
                  then aux1\<lparr>ffg_stake := AList.update (block_hash E b) (stakes aux1) (ffg_stake aux1),
                            ffg_height := AList.update (block_hash E b) h (ffg_height aux1)\<rparr>
                  else aux1)
      in Inr (w\<lparr>w_balances := bal, w_aux := aux2\<rparr>))"

definition enforce_vesting ::
  "pos_chain \<Rightarrow> string \<Rightarrow> int \<Rightarrow> pos_work \<Rightarrow> unit res" where
  "enforce_vesting st a h w =
     (case map_of (vesting st) a of
        None \<Rightarrow> Inr ()
      | Some (tot, start, cliff, duration) \<Rightarrow>
          let lock = locked tot start cliff duration h
          in if lock \<le> 0 then Inr ()
             else if dget (w_balances w) (PStr a) 0 + dget (stakes (w_aux w)) a 0
                     + unbonding_total (unbonding (w_aux w)) a < lock
             then Inl (ValidationError ''vesting: must retain units until vested'')
             else Inr ())"

definition apply_stake :: "pos_chain \<Rightarrow> transaction \<Rightarrow> block \<Rightarrow> pos_work \<Rightarrow> pos_work res" where
  "apply_stake st tx b w =
     (let bal = w_balances w; aux = w_aux w; a = the_str (sender tx);
          cost = the_int (amount tx) + the_int (fee tx)
      in if dget bal (sender tx) 0 < cost
         then Inl (ValidationError ''insufficient funds to stake for'')
         else rbind (dlookup bal (sender tx)) (\<lambda>x.
              let bal1 = AList.update (sender tx) (x - cost) bal
              in rbind (credit_validator b (the_int (fee tx)) bal1) (\<lambda>bal2.
              Inr (w\<lparr>w_balances := bal2,
                     w_nonces := AList.update (sender tx) (the_int (nonce tx) + 1) (w_nonces w),
                     w_aux := aux\<lparr>stakes := AList.update a
                       (dget (stakes aux) a 0 + the_int (amount tx)) (stakes aux)\<rparr>\<rparr>))))"

definition apply_unstake :: "pos_chain \<Rightarrow> transaction \<Rightarrow> block \<Rightarrow> pos_work \<Rightarrow> pos_work res" where
  "apply_unstake st tx b w =
     (let bal = w_balances w; aux = w_aux w; a = the_str (sender tx); h = the_int (index b)
      in if dget bal (sender tx) 0 < the_int (fee tx)
         then Inl (ValidationError ''insufficient funds for unstake fee for'')
         else if dget (stakes aux) a 0 < the_int (amount tx)
         then Inl (ValidationError ''insufficient stake to withdraw for'')
         else rbind (dlookup bal (sender tx)) (\<lambda>x.
              rbind (dlookup (stakes aux) a) (\<lambda>s.
              let bal1 = AList.update (sender tx) (x - the_int (fee tx)) bal;
                  stk1 = AList.update a (s - the_int (amount tx)) (stakes aux);
                  delayed = 0 < unbonding_blocks st;
                  unb1 = (if delayed
                          then AList.update a (dget (unbonding aux) a [] @
                                 [(the_int (amount tx), h, h + unbonding_blocks st)]) (unbonding aux)
                          else unbonding aux);
                  bal2 = (if delayed then bal1
                          else AList.update (sender tx)
                                 (dget bal1 (sender tx) 0 + the_int (amount tx)) bal1)
              in rbind (credit_validator b (the_int (fee tx)) bal2) (\<lambda>bal3.
                 if dget stk1 a 0 = 0 \<and> length stk1 \<le> 1
                 then Inl (ValidationError ''cannot unstake the last active validator'')
                 else let stk2 = (if dget stk1 a 0 = 0 then AList.delete a stk1 else stk1)
                 in Inr (w\<lparr>w_balances := bal3,
                           w_nonces := AList.update (sender tx) (the_int (nonce tx) + 1) (w_nonces w),
                           w_aux := aux\<lparr>stakes := stk2, unbonding := unb1\<rparr>\<rparr>)))))"

text \<open>The voters' stake and the quorum bar of \<open>_apply_vote\<close>.\<close>

definition voted_stake :: "stake_map \<Rightarrow> string list \<Rightarrow> string list \<Rightarrow> int" where
  "voted_stake snapshot out voters =
     sum_list (map (\<lambda>v. dget snapshot v 0) (filter (\<lambda>v. v \<notin> set out) voters))"

definition quorum_stake :: "stake_map \<Rightarrow> string list \<Rightarrow> int" where
  "quorum_stake snapshot out = dsum (filter (\<lambda>p. fst p \<notin> set out) snapshot)"

definition supermajority :: "stake_map \<Rightarrow> string list \<Rightarrow> string list \<Rightarrow> bool" where
  "supermajority snapshot out voters \<longleftrightarrow>
     0 < quorum_stake snapshot out \<and>
     FFG_NUM * quorum_stake snapshot out \<le> FFG_DEN * voted_stake snapshot out voters"

text \<open>The checks of \<open>_apply_vote\<close> on a link, up to the fee.\<close>

definition check_vote ::
  "pos_chain \<Rightarrow> pos_aux \<Rightarrow> string \<Rightarrow> link \<Rightarrow> (string \<times> int \<times> string \<times> int) res" where
  "check_vote st aux voter l =
     (if \<not> (is_str (link_s l) \<and> is_str (link_t l) \<and> is_units (link_sh l) \<and> is_units (link_th l))
      then Inl (ValidationError ''vote link fields have wrong types'')
      else let s = the_str (link_s l); t = the_str (link_t l);
               sh = the_int (link_sh l); th = the_int (link_th l)
      in if sh mod epoch st \<noteq> 0 \<or> th mod epoch st \<noteq> 0 \<or> th \<le> sh
      then Inl (ValidationError ''vote: source/target are not ordered epoch boundaries'')
      else if \<not> dhas (ffg_stake aux) s \<or> \<not> dhas (ffg_stake aux) t
      then Inl (ValidationError ''vote: source/target is not a checkpoint on this branch'')
      else rbind (dlookup (ffg_height aux) s) (\<lambda>hs. rbind (dlookup (ffg_height aux) t) (\<lambda>ht.
      if hs \<noteq> sh \<or> ht \<noteq> th
      then Inl (ValidationError ''vote: link heights do not match the checkpoints'')
      else if s \<notin> set (justified_parent aux)
      then Inl (ValidationError ''vote: source checkpoint is not justified'')
      else if voter \<in> set (slashed_addrs aux)
      then Inl (ValidationError ''vote: slashed validators cannot vote'')
      else if dget (dget (ffg_stake aux) s []) voter 0 \<le> 0
      then Inl (ValidationError ''vote: voter has no stake at the source checkpoint'')
      else if dget (ffg_seen_target aux) (voter, th) (s, t) \<noteq> (s, t)
      then Inl (ValidationError ''vote: conflicting vote already cast for this target height'')
      else Inr (s, sh, t, th))))"

text \<open>Recording a checked vote, and justifying and finalizing where it makes a supermajority.\<close>

definition record_vote :: "pos_chain \<Rightarrow> string \<Rightarrow> string \<times> int \<times> string \<times> int \<Rightarrow> pos_aux \<Rightarrow> pos_aux" where
  "record_vote st voter = (\<lambda>(s, sh, t, th) aux.
     let voters = List.insert voter (dget (ffg_votes aux) (s, t) []);
         aux1 = aux\<lparr>ffg_votes := AList.update (s, t) voters (ffg_votes aux),
                    ffg_seen_target := AList.update (voter, th) (s, t) (ffg_seen_target aux)\<rparr>
     in if supermajority (dget (ffg_stake aux) s []) (slashed_addrs aux) voters
        then aux1\<lparr>justified := List.insert t (justified aux1),
                  finalized := (if th = sh + epoch st \<and> snd (finalized aux1) < sh
                                then (s, sh) else finalized aux1)\<rparr>
        else aux1)"

definition apply_vote :: "env \<Rightarrow> pos_chain \<Rightarrow> transaction \<Rightarrow> block \<Rightarrow> pos_work \<Rightarrow> pos_work res" where
  "apply_vote E st tx b w =
     rbind (load_json E (evidence tx)) (\<lambda>d.
     rbind (vote_link ''vote link missing field'' d) (\<lambda>l.
     let bal = w_balances w; voter = the_str (sender tx)
     in rbind (check_vote st (w_aux w) voter l) (\<lambda>v.
        if dget bal (sender tx) 0 < the_int (fee tx)
        then Inl (ValidationError ''vote: insufficient funds for fee for'')
        else rbind (dlookup bal (sender tx)) (\<lambda>x.
             rbind (credit_validator b (the_int (fee tx))
                      (AList.update (sender tx) (x - the_int (fee tx)) bal)) (\<lambda>bal2.
             Inr (w\<lparr>w_balances := bal2,
                    w_nonces := AList.update (sender tx) (the_int (nonce tx) + 1) (w_nonces w),
                    w_aux := record_vote st voter v (w_aux w)\<rparr>))))))"

text \<open>The offender and the key of the offense that the evidence of a slash transaction proves.\<close>

definition slash_evidence :: "env \<Rightarrow> (string \<times> pyval) list \<Rightarrow> (pyval \<times> offense) res" where
  "slash_evidence E d =
     (if dget d ''kind'' PNone = PStr ''vote''
      then rbind (jfield d ''a'') (\<lambda>va. rbind (decode_tx va) (\<lambda>tx_a.
           rbind (jfield d ''b'') (\<lambda>vb. rbind (decode_tx vb) (\<lambda>tx_b.
           rbind (verify_vote_fault E tx_a tx_b) (\<lambda>(offender, digest).
           Inr (offender, VoteOffense digest))))))
      else rbind (jfield d ''a'') (\<lambda>va. rbind (decode_block E va) (\<lambda>b1.
           rbind (jfield d ''b'') (\<lambda>vb. rbind (decode_block E vb) (\<lambda>b2.
           rbind (verify_equivocation E b1 b2) (\<lambda>(offender, height).
           rbind (hash_key height) (\<lambda>k.
           Inr (offender, BlockOffense (the_str offender) k))))))))"

definition apply_slash :: "env \<Rightarrow> pos_chain \<Rightarrow> transaction \<Rightarrow> block \<Rightarrow> pos_work \<Rightarrow> pos_work res" where
  "apply_slash E st tx b w =
     (if \<not> truthy (evidence tx) then Inl (ValidationError ''slash tx carries no evidence'')
      else case treasury_address st of
        None \<Rightarrow> Inl (ValidationError ''chain has no treasury address for slashing'')
      | Some treasury \<Rightarrow>
          rbind (load_json E (evidence tx)) (\<lambda>d.
          rbind (slash_evidence E d) (\<lambda>(off, key).
          let bal = w_balances w; aux = w_aux w; offender = the_str off
          in if key \<in> set (slashed aux) then Inl (ValidationError ''offense already slashed'')
          else if dget bal (sender tx) 0 < the_int (fee tx)
          then Inl (ValidationError ''insufficient funds for slash fee for'')
          else rbind (dlookup bal (sender tx)) (\<lambda>x.
          rbind (credit_validator b (the_int (fee tx))
                   (AList.update (sender tx) (x - the_int (fee tx)) bal)) (\<lambda>bal2.
          let bonded = dget (stakes aux) offender 0 + unbonding_total (unbonding aux) offender;
              reporter_share = bonded * REPORTER_BPS div 10000;
              treasury_share = bonded - reporter_share;
              beneficiary = (if sender tx \<noteq> off then sender tx else PStr treasury);
              bal3 = AList.update beneficiary (dget bal2 beneficiary 0 + reporter_share) bal2;
              bal4 = AList.update (PStr treasury)
                       (dget bal3 (PStr treasury) 0 + treasury_share) bal3
          in Inr (w\<lparr>w_balances := bal4,
                    w_nonces := AList.update (sender tx) (the_int (nonce tx) + 1) (w_nonces w),
                    w_aux := aux\<lparr>stakes := AList.delete offender (stakes aux),
                                  unbonding := AList.delete offender (unbonding aux),
                                  slashed_addrs := List.insert offender (slashed_addrs aux),
                                  slashed := List.insert key (slashed aux)\<rparr>\<rparr>))))))"

definition pos_apply_tx :: "env \<Rightarrow> pos_chain \<Rightarrow> transaction \<Rightarrow> block \<Rightarrow> pos_work \<Rightarrow> pos_work res" where
  "pos_apply_tx E st tx b w =
     (if recipient tx = PStr SLASH_SENTINEL then apply_slash E st tx b w
      else if recipient tx = PStr VOTE_SENTINEL then apply_vote E st tx b w
      else rbind (if recipient tx = PStr STAKE_SENTINEL then apply_stake st tx b w
                  else if recipient tx = PStr UNSTAKE_SENTINEL then apply_unstake st tx b w
                  else base_apply_tx st tx b w) (\<lambda>w'.
           rbind (enforce_vesting st (the_str (sender tx)) (the_int (index b)) w') (\<lambda>_. Inr w')))"

definition pos_hooks :: "env \<Rightarrow> (pos_chain, pos_aux) hooks" where
  "pos_hooks E = \<lparr>check_proposer = pos_check_proposer E,
                  snapshot_aux = pos_snapshot_aux,
                  apply_block_pre = pos_apply_block_pre E,
                  apply_tx = pos_apply_tx E,
                  check_supply = pos_check_supply,
                  commit_aux = pos_commit_aux\<rparr>"

section \<open>Producing blocks and transactions\<close>

definition seal_block ::
  "env \<Rightarrow> pyval \<Rightarrow> pyval \<Rightarrow> wallet \<Rightarrow> transaction list \<Rightarrow> pyval \<Rightarrow> pyval \<Rightarrow> nat \<Rightarrow> block res" where
  "seal_block E prev_hash idx w txs ts non k =
     rbind (new_block E idx prev_hash ts txs (PStr (address E w)) non
              (PStr []) (PStr []) (PStr [])) (\<lambda>b.
     let b' = b\<lparr>proposer_pubkey := PStr (public_key_hex E w)\<rparr>
     in rbind (fromhex_val (PStr (block_hash E b'))) (\<lambda>h.
        rbind (wallet_sign E w h k) (\<lambda>sig.
        Inr (b'\<lparr>validator_sig := PStr (hex sig)\<rparr>))))"

definition pos_add_block ::
  "env \<Rightarrow> pos_chain \<Rightarrow> transaction list \<Rightarrow> wallet \<Rightarrow> pyval \<Rightarrow> pyval \<Rightarrow> nat \<Rightarrow> pos_chain res" where
  "pos_add_block E st txs w ts non k =
     rbind (py_succ E (index (head st))) (\<lambda>i.
     rbind (seal_block E (PStr (block_hash E (head st))) i w txs ts non k) (\<lambda>b.
     submit_block E (pos_hooks E) st b))"

definition new_tx :: "string \<Rightarrow> string \<Rightarrow> int \<Rightarrow> int \<Rightarrow> int \<Rightarrow> string \<Rightarrow> transaction" where
  "new_tx from to amt f n ev =
     \<lparr>sender = PStr from, recipient = PStr to, amount = PInt amt, fee = PInt f, nonce = PInt n,
      public_key = PStr [], signature = PStr [], evidence = PStr ev\<rparr>"

definition slash_tx :: "env \<Rightarrow> wallet \<Rightarrow> block \<Rightarrow> block \<Rightarrow> int \<Rightarrow> int \<Rightarrow> nat \<Rightarrow> transaction res" where
  "slash_tx E reporter b1 b2 n f k =
     sign_tx E reporter k (new_tx (address E reporter) SLASH_SENTINEL 0 f n
       (json_dumps E (PDict [(''kind'', PStr ''block''), (''a'', encode_block b1),
                             (''b'', encode_block b2)])))"

definition vote_tx ::
  "env \<Rightarrow> wallet \<Rightarrow> string \<Rightarrow> int \<Rightarrow> string \<Rightarrow> int \<Rightarrow> int \<Rightarrow> int \<Rightarrow> nat \<Rightarrow> transaction res" where
  "vote_tx E voter s sh t th n f k =
     sign_tx E voter k (new_tx (address E voter) VOTE_SENTINEL 0 f n
       (json_dumps E (PDict [(''s'', PStr s), (''sh'', PInt sh), (''t'', PStr t), (''th'', PInt th)])))"

definition vote_slash_tx ::
  "env \<Rightarrow> wallet \<Rightarrow> transaction \<Rightarrow> transaction \<Rightarrow> int \<Rightarrow> int \<Rightarrow> nat \<Rightarrow> transaction res" where
  "vote_slash_tx E reporter vote_a vote_b n f k =
     sign_tx E reporter k (new_tx (address E reporter) SLASH_SENTINEL 0 f n
       (json_dumps E (PDict [(''kind'', PStr ''vote''), (''a'', encode_tx vote_a),
                             (''b'', encode_tx vote_b)])))"

definition stake_tx :: "env \<Rightarrow> wallet \<Rightarrow> int \<Rightarrow> int \<Rightarrow> int \<Rightarrow> nat \<Rightarrow> transaction res" where
  "stake_tx E w amt f n k = sign_tx E w k (new_tx (address E w) STAKE_SENTINEL amt f n [])"

definition unstake_tx :: "env \<Rightarrow> wallet \<Rightarrow> int \<Rightarrow> int \<Rightarrow> int \<Rightarrow> nat \<Rightarrow> transaction res" where
  "unstake_tx E w amt f n k = sign_tx E w k (new_tx (address E w) UNSTAKE_SENTINEL amt f n [])"

end
