(* ===== verification/Ledger.thy ===== *)
theory Ledger
  imports Core
begin

text \<open>
  What every chain built from the template of \<open>core.py\<close> keeps, proved once for any hooks that obey
  the contract \<open>ledger_hooks\<close>: the supply, the invariant of the working copies, the per-sender
  sequence of nonces (so no transaction is ever applied twice), and the hash links. The hooks of
  \<open>Blockchain\<close> itself are the first instance of the contract.
\<close>

section \<open>Valid transactions\<close>

lemma is_validE:
  assumes "is_valid E tx = Inr True"
  obtains a f n ev pub sig where
    "amount tx = PInt a" "0 \<le> a" "fee tx = PInt f" "0 \<le> f" "nonce tx = PInt n" "0 \<le> n"
    "evidence tx = PStr ev"
    "fromhex_val (public_key tx) = Inr pub" "fromhex_val (signature tx) = Inr sig"
    "sender tx = PStr (address_from_public_key E pub)"
    "verify_signature E pub (signing_payload E tx) sig"
    "recipient tx = PStr SLASH_SENTINEL \<or> recipient tx = PStr VOTE_SENTINEL \<Longrightarrow> a = 0 \<and> ev \<noteq> []"
    "recipient tx \<noteq> PStr SLASH_SENTINEL \<Longrightarrow> recipient tx \<noteq> PStr VOTE_SENTINEL \<Longrightarrow> 0 < a"
  using assms
  by (auto simp: is_valid_def is_units_iff is_str_iff rbind_eq_Inr split: if_splits sum.splits perror.splits
      prod.splits)

lemma is_valid_sender: "is_valid E tx = Inr True \<Longrightarrow> \<exists>a. sender tx = PStr a"
  by (erule is_validE) blast

lemma is_valid_nonneg:
  assumes "is_valid E tx = Inr True"
  shows "0 \<le> the_int (amount tx)" "0 \<le> the_int (fee tx)"
  using assms by (auto elim!: is_validE)

lemma hash_key_PStr [simp]: "hash_key (PStr s) = Inr (PStr s)"
  by simp

section \<open>Reaching a state\<close>

text \<open>The transactions of a chain in order, and the nonces one sender used in them.\<close>

definition history :: "'b blockchain_scheme \<Rightarrow> transaction list" where
  "history st = concat (map transactions (chain st))"

definition sender_nonces :: "pyval \<Rightarrow> transaction list \<Rightarrow> int list" where
  "sender_nonces a txs = map (\<lambda>tx. the_int (nonce tx)) (filter (\<lambda>tx. sender tx = a) txs)"

definition nonces_counted :: "'b blockchain_scheme \<Rightarrow> bool" where
  "nonces_counted st \<longleftrightarrow> (\<forall>a. 0 \<le> dget (nonces st) a 0 \<and>
     sender_nonces a (history st) = [0 .. dget (nonces st) a 0 - 1])"

lemma sender_nonces_simps [simp]:
  "sender_nonces a [] = []"
  "sender_nonces a (tx # txs) =
     (if sender tx = a then the_int (nonce tx) # sender_nonces a txs else sender_nonces a txs)"
  "sender_nonces a (txs @ txs') = sender_nonces a txs @ sender_nonces a txs'"
  by (simp_all add: sender_nonces_def)

lemma in_sender_nonces:
  "tx \<in> set txs \<Longrightarrow> the_int (nonce tx) \<in> set (sender_nonces (sender tx) txs)"
  by (auto simp: sender_nonces_def)

lemma distinct_sender_nonces:
  "(\<And>a. distinct (sender_nonces a txs)) \<Longrightarrow>
   distinct (map (\<lambda>tx. (sender tx, the_int (nonce tx))) txs)"
proof (induction txs)
  case (Cons tx txs)
  from Cons.prems have d: "distinct (sender_nonces a txs)" for a
    by (metis distinct.simps(2) sender_nonces_simps(2))
  have "the_int (nonce tx) \<notin> set (sender_nonces (sender tx) txs)"
    using Cons.prems [of "sender tx"] by simp
  then have "(sender tx, the_int (nonce tx)) \<notin> (\<lambda>tx. (sender tx, the_int (nonce tx))) ` set txs"
    using in_sender_nonces by force
  with Cons.IH [OF d] show ?case by simp
qed simp

lemma nonces_counted_distinct:
  "nonces_counted st \<Longrightarrow> distinct (map (\<lambda>tx. (sender tx, the_int (nonce tx))) (history st))"
  by (rule distinct_sender_nonces) (simp add: nonces_counted_def)

inductive reaches ::
  "env \<Rightarrow> ('b blockchain_scheme, 'aux) hooks \<Rightarrow> 'b blockchain_scheme \<Rightarrow> 'b blockchain_scheme \<Rightarrow> bool"
  for E H st where
  reaches_start: "reaches E H st st"
| reaches_step: "reaches E H st st' \<Longrightarrow> submit_block E H st' b = Inr st'' \<Longrightarrow> reaches E H st st''"

text \<open>What an accepted block has passed.\<close>

lemma apply_block_Inr:
  "apply_block E H st b = Inr st' \<longleftrightarrow>
   (\<exists>i r w1 w2.
      previous_hash b = PStr (block_hash E (head st)) \<and>
      py_succ E (index (head st)) = Inr i \<and> py_eq (index b) i \<and>
      merkle_root E (map (txid E) (transactions b)) = Inr r \<and> block_merkle_root b = PStr r \<and>
      check_proposer H st b = Inr () \<and>
      apply_block_pre H st b (start_work H st) = Inr w1 \<and>
      apply_txs E H st b [] w1 (transactions b) = Inr w2 \<and>
      check_supply H w2 = Inr () \<and>
      st' = commit_work H w2 st)"
  by (auto simp: apply_block_def rbind_eq_Inr)

lemma submit_block_Inr:
  "submit_block E H st b = Inr st' \<longleftrightarrow>
   (\<exists>st1. apply_block E H st b = Inr st1 \<and> st' = st1\<lparr>chain := chain st1 @ [b]\<rparr>)"
  by (auto simp: submit_block_def rbind_eq_Inr)

lemma upto_join: "l \<le> m \<Longrightarrow> m \<le> n \<Longrightarrow> [l .. m - 1] @ [m .. n - 1] = [l .. n - (1 :: int)]"
  by (cases "m = n") (auto simp: upto_split1 [of l m "n - 1"])

lemma valid_links_snoc:
  "cs \<noteq> [] \<Longrightarrow> valid_links E cs = Inr True \<Longrightarrow>
   previous_hash b = PStr (block_hash E (last cs)) \<Longrightarrow>
   py_succ E (index (last cs)) = Inr i \<Longrightarrow> py_eq (index b) i \<Longrightarrow>
   valid_links E (cs @ [b]) = Inr True"
  by (induction E cs rule: valid_links.induct) (auto simp: rbind_eq_Inr split: if_splits)

section \<open>The contract of the hooks\<close>

text \<open>
  \<open>winv\<close> is what the working copies satisfy, \<open>wtotal\<close> the money in them. The provider promises
  that the pre-block hook and every valid transaction keep both, that a transaction advances the
  nonce of its sender and no other, that the supply check compares the total with the cap, and
  that committing stores the working copies and nothing else of the base state.
\<close>

locale ledger_hooks =
  fixes E :: env
    and H :: "('b blockchain_scheme, 'aux) hooks"
    and winv :: "'b blockchain_scheme \<Rightarrow> 'aux work \<Rightarrow> bool"
    and wtotal :: "'aux work \<Rightarrow> int"
  assumes pre_keeps: "winv st w \<Longrightarrow> apply_block_pre H st b w = Inr w' \<Longrightarrow>
      winv st w' \<and> wtotal w' = wtotal w"
    and pre_nonces: "apply_block_pre H st b w = Inr w' \<Longrightarrow> w_nonces w' = w_nonces w"
    and tx_keeps: "winv st w \<Longrightarrow> is_valid E tx = Inr True \<Longrightarrow> apply_tx H st tx b w = Inr w' \<Longrightarrow>
      winv st w' \<and> wtotal w' = wtotal w"
    and tx_nonces: "is_valid E tx = Inr True \<Longrightarrow> apply_tx H st tx b w = Inr w' \<Longrightarrow>
      dget (w_nonces w') a 0 = (if a = sender tx then the_int (nonce tx) + 1 else dget (w_nonces w) a 0)"
    and supply_check: "check_supply H w = Inr () \<longleftrightarrow> wtotal w = MAX_SUPPLY_UNITS"
    and commit_base: "balances (commit_aux H x st) = balances st"
      "nonces (commit_aux H x st) = nonces st" "chain (commit_aux H x st) = chain st"
    and commit_keeps: "winv st w \<Longrightarrow> st' = (commit_work H w st)\<lparr>chain := c\<rparr> \<Longrightarrow>
      winv st' (start_work H st') \<and> wtotal (start_work H st') = wtotal w"
begin

lemma apply_txs_keeps:
  "apply_txs E H st b seen w txs = Inr w' \<Longrightarrow> winv st w \<Longrightarrow> winv st w' \<and> wtotal w' = wtotal w"
proof (induction txs arbitrary: seen w)
  case (Cons tx txs)
  then obtain w1 where "is_valid E tx = Inr True" and "apply_tx H st tx b w = Inr w1"
    and rest: "apply_txs E H st b (txid E tx # seen) w1 txs = Inr w'"
    by (auto simp: rbind_eq_Inr split: if_splits)
  with Cons.prems(2) have "winv st w1 \<and> wtotal w1 = wtotal w"
    by (intro tx_keeps)
  with Cons.IH [OF rest] show ?case by simp
qed simp

text \<open>The run-time supply check compares a total that cannot have changed.\<close>

lemma supply_check_redundant:
  assumes "winv st (start_work H st)" "wtotal (start_work H st) = MAX_SUPPLY_UNITS"
  shows "apply_block E H st b = apply_block E (H\<lparr>check_supply := \<lambda>_. Inr ()\<rparr>) st b"
proof -
  let ?H = "H\<lparr>check_supply := \<lambda>_. Inr ()\<rparr>"
  have txs: "apply_txs E ?H s b seen w txs = apply_txs E H s b seen w txs" for s seen w txs
    by (induction txs arbitrary: seen w) (simp_all cong: if_cong)
  have "check_supply H w2 = Inr ()"
    if "apply_block_pre H st b (start_work H st) = Inr w1"
      "apply_txs E H st b [] w1 (transactions b) = Inr w2" for w1 w2
    using pre_keeps [OF assms(1) that(1)] apply_txs_keeps [OF that(2)] assms(2)
    by (simp add: supply_check)
  then show ?thesis
    by (auto simp: apply_block_def txs start_work_def commit_work_def rbind_def
        split: sum.splits)
qed

lemma submit_block_keeps:
  assumes "submit_block E H st b = Inr st'" "winv st (start_work H st)"
  shows "winv st' (start_work H st') \<and> wtotal (start_work H st') = wtotal (start_work H st)"
proof -
  from assms(1) obtain w1 w2 where w1: "apply_block_pre H st b (start_work H st) = Inr w1"
    and w2: "apply_txs E H st b [] w1 (transactions b) = Inr w2"
    and st': "st' = (commit_work H w2 st)\<lparr>chain := chain (commit_work H w2 st) @ [b]\<rparr>"
    by (auto simp: submit_block_Inr apply_block_Inr)
  from pre_keeps [OF assms(2) w1] apply_txs_keeps [OF w2]
  have "winv st w2" "wtotal w2 = wtotal (start_work H st)" by simp_all
  with commit_keeps [OF _ st'] show ?thesis by simp
qed

lemma reaches_keeps:
  assumes "reaches E H st st'" "winv st (start_work H st)"
  shows "winv st' (start_work H st') \<and> wtotal (start_work H st') = wtotal (start_work H st)"
  using assms(1)
proof (induction rule: reaches.induct)
  case reaches_start
  show ?case using assms(2) by simp
next
  case (reaches_step st' b st'')
  then show ?case using submit_block_keeps [of st' b st''] by simp
qed

text \<open>The transactions of one sender carry consecutive nonces.\<close>

lemma apply_txs_nonces:
  "apply_txs E H st b seen w txs = Inr w' \<Longrightarrow>
   sender_nonces a txs = [dget (w_nonces w) a 0 .. dget (w_nonces w') a 0 - 1]
   \<and> dget (w_nonces w) a 0 \<le> dget (w_nonces w') a 0"
proof (induction txs arbitrary: seen w)
  case (Cons tx txs)
  then obtain w1 where v: "is_valid E tx = Inr True" and w1: "apply_tx H st tx b w = Inr w1"
    and n: "dget (w_nonces w) (sender tx) 0 = the_int (nonce tx)"
    and rest: "apply_txs E H st b (txid E tx # seen) w1 txs = Inr w'"
    by (auto simp: rbind_eq_Inr split: if_splits)
  show ?case
    using Cons.IH [OF rest] tx_nonces [OF v w1, of a] n
    by (auto simp: upto_rec1 split: if_splits)
qed simp

lemma submit_block_nonces:
  assumes "submit_block E H st b = Inr st'" "nonces_counted st"
  shows "nonces_counted st'"
proof -
  from assms(1) obtain w1 w2 where w1: "apply_block_pre H st b (start_work H st) = Inr w1"
    and w2: "apply_txs E H st b [] w1 (transactions b) = Inr w2"
    and st': "st' = (commit_work H w2 st)\<lparr>chain := chain (commit_work H w2 st) @ [b]\<rparr>"
    by (auto simp: submit_block_Inr apply_block_Inr)
  have "w_nonces w1 = nonces st"
    using pre_nonces [OF w1] by (simp add: start_work_def)
  moreover have "history st' = history st @ transactions b" "nonces st' = w_nonces w2"
    by (simp_all add: st' commit_work_def commit_base history_def)
  ultimately show ?thesis
    using apply_txs_nonces [OF w2] assms(2)
    by (auto simp: nonces_counted_def upto_join intro: order_trans)
qed

lemma reaches_nonces:
  "reaches E H st st' \<Longrightarrow> nonces_counted st \<Longrightarrow> nonces_counted st'"
  by (induction rule: reaches.induct) (auto intro: submit_block_nonces)

text \<open>The blocks stay hash-linked.\<close>

lemma submit_block_chain:
  assumes "submit_block E H st b = Inr st'"
  shows "chain st' = chain st @ [b]"
  using assms by (auto simp: submit_block_Inr apply_block_Inr commit_work_def commit_base)

lemma reaches_links:
  "reaches E H st st' \<Longrightarrow> chain st \<noteq> [] \<and> valid_links E (chain st) = Inr True \<Longrightarrow>
   chain st' \<noteq> [] \<and> valid_links E (chain st') = Inr True"
proof (induction rule: reaches.induct)
  case (reaches_step st' b st'')
  then obtain i where "previous_hash b = PStr (block_hash E (last (chain st')))"
    and "py_succ E (index (last (chain st'))) = Inr i" "py_eq (index b) i"
    by (auto simp: submit_block_Inr apply_block_Inr head_def)
  with reaches_step show ?case
    by (simp add: submit_block_chain [OF reaches_step.hyps(2)] valid_links_snoc)
qed simp

end

section \<open>The hooks of \<open>Blockchain\<close> obey the contract\<close>

lemma credit_validator_Inr:
  "credit_validator b f bal = Inr bal' \<longleftrightarrow>
   (\<exists>v. hash_key (validator b) = Inr v \<and> bal' = AList.update v (dget bal v 0 + f) bal)"
  by (auto simp: credit_validator_def rbind_eq_Inr)

lemma base_apply_tx_Inr:
  assumes "base_apply_tx st tx b w = Inr w'"
  obtains r v bal1 bal2 where
    "the_int (amount tx) + the_int (fee tx) \<le> dget (w_balances w) (sender tx) 0"
    "hash_key (recipient tx) = Inr r" "hash_key (validator b) = Inr v"
    "bal1 = AList.update (sender tx) (dget (w_balances w) (sender tx) 0
              - (the_int (amount tx) + the_int (fee tx))) (w_balances w)"
    "bal2 = AList.update r (dget bal1 r 0 + the_int (amount tx)) bal1"
    "w_balances w' = AList.update v (dget bal2 v 0 + the_int (fee tx)) bal2"
    "\<And>a. dget (w_nonces w') a 0 =
       (if a = sender tx then the_int (nonce tx) + 1 else dget (w_nonces w) a 0)"
    "w_aux w' = w_aux w"
  using assms
  by (fastforce simp: base_apply_tx_def Let_def rbind_eq_Inr credit_validator_Inr split: if_splits)

lemma base_apply_tx_total:
  "base_apply_tx st tx b w = Inr w' \<Longrightarrow> dsum (w_balances w') = dsum (w_balances w)"
  by (erule base_apply_tx_Inr) simp

lemma base_apply_tx_nonneg:
  assumes "base_apply_tx st tx b w = Inr w'" "dall (\<lambda>v. 0 \<le> v) (w_balances w)"
    "0 \<le> the_int (amount tx)" "0 \<le> the_int (fee tx)"
  shows "dall (\<lambda>v. 0 \<le> v) (w_balances w')"
  using assms(1)
proof (rule base_apply_tx_Inr)
  fix r v bal1 bal2
  assume 1: "the_int (amount tx) + the_int (fee tx) \<le> dget (w_balances w) (sender tx) 0"
    "bal1 = AList.update (sender tx) (dget (w_balances w) (sender tx) 0
              - (the_int (amount tx) + the_int (fee tx))) (w_balances w)"
    and 2: "bal2 = AList.update r (dget bal1 r 0 + the_int (amount tx)) bal1"
    and 3: "w_balances w' = AList.update v (dget bal2 v 0 + the_int (fee tx)) bal2"
  have "dall (\<lambda>v. 0 \<le> v) bal1" using 1 assms(2) by (auto intro: dall_update)
  moreover from this have "dall (\<lambda>v. 0 \<le> v) bal2"
    using 2 assms(3) dall_dget [of "\<lambda>v. 0 \<le> v" bal1] by (auto intro!: dall_update)
  moreover from this show "dall (\<lambda>v. 0 \<le> v) (w_balances w')"
    using 3 assms(4) dall_dget [of "\<lambda>v. 0 \<le> v" bal2] by (auto intro!: dall_update)
qed

interpretation base: ledger_hooks E "base_hooks :: (blockchain, unit) hooks"
  "\<lambda>st w. dall (\<lambda>v. 0 \<le> v) (w_balances w)" "\<lambda>w. dsum (w_balances w)"
proof (unfold_locales, goal_cases)
  case (3 st w tx b w')
  then have w': "base_apply_tx st tx b w = Inr w'" by (simp add: base_hooks_def)
  show ?case
    using base_apply_tx_total [OF w'] base_apply_tx_nonneg [OF w' 3(1)] is_valid_nonneg [OF 3(2)]
    by simp
next
  case (4 tx st b w w' a)
  then show ?case
    by (auto simp: base_hooks_def elim!: base_apply_tx_Inr)
qed (auto simp: base_hooks_def base_check_supply_def start_work_def commit_work_def split: if_splits)

end
