(* ===== verification/Stake_Ledger.thy ===== *)
theory Stake_Ledger
  imports Consensus Ledger
begin

text \<open>
  Money in the proof-of-stake chain: coins are liquid, staked or unbonding, and every hook only
  moves them between the three. The invariant of the working copies (\<open>pos_winv\<close>) says that no
  balance is negative, that every recorded stake and every unbonding entry is positive, and that
  whoever stakes has a ledger entry. With it the hooks of \<open>consensus.py\<close> obey the contract
  \<open>ledger_hooks\<close>, so all that was proved about the template holds for them.
\<close>

section \<open>Money being unbonded\<close>

lemma unbonding_sum_simps [simp]:
  "unbonding_sum [] = 0" "unbonding_sum (e # q) = fst e + unbonding_sum q"
  "unbonding_sum (q @ q') = unbonding_sum q + unbonding_sum q'"
  by (simp_all add: unbonding_sum_def)

lemma grand_total_simps [simp]:
  "unbonding_grand_total [] = 0"
  "unbonding_grand_total (p # u) = unbonding_sum (snd p) + unbonding_grand_total u"
  by (simp_all add: unbonding_grand_total_def)

lemma grand_total_update:
  "unbonding_grand_total (AList.update a q u) =
   unbonding_grand_total u - unbonding_total u a + unbonding_sum q"
  by (induction u) (auto simp: unbonding_total_def)

lemma grand_total_delete:
  "wf_dict u \<Longrightarrow>
   unbonding_grand_total (AList.delete a u) = unbonding_grand_total u - unbonding_total u a"
  by (induction u) (auto simp: unbonding_total_def wf_dict_def dget_def map_of_eq_None_iff)

definition positive_entries :: "(int \<times> int \<times> int) list \<Rightarrow> bool" where
  "positive_entries q \<longleftrightarrow> list_all (\<lambda>e. 0 < fst e) q"

lemma positive_entries_simps [simp]:
  "positive_entries []"
  "positive_entries (e # q) \<longleftrightarrow> 0 < fst e \<and> positive_entries q"
  "positive_entries (q @ q') \<longleftrightarrow> positive_entries q \<and> positive_entries q'"
  by (simp_all add: positive_entries_def)

lemma unbonding_sum_nonneg: "positive_entries q \<Longrightarrow> 0 \<le> unbonding_sum q"
  by (induction q) auto

lemma unbonding_total_nonneg: "dall positive_entries u \<Longrightarrow> 0 \<le> unbonding_total u a"
  by (simp add: unbonding_total_def unbonding_sum_nonneg dall_dget)

lemma grand_total_nonneg: "dall positive_entries u \<Longrightarrow> 0 \<le> unbonding_grand_total u"
  by (induction u) (auto simp: unbonding_sum_nonneg)

subsection \<open>Maturing\<close>

lemma mature_entries_eq:
  "mature_entries h a q bal = (bal', q') \<Longrightarrow>
   q' = filter (\<lambda>e. h < snd (snd e)) q \<and>
   dsum bal' + unbonding_sum q' = dsum bal + unbonding_sum q \<and>
   (\<forall>x. dget bal' x 0 = dget bal x 0 + (if x = PStr a then unbonding_sum q - unbonding_sum q' else 0)) \<and>
   (\<forall>x. dhas bal x \<longrightarrow> dhas bal' x)"
  by (induction h a q bal arbitrary: q' rule: mature_entries.induct)
    (auto split: if_splits prod.splits)

lemma mature_entries_nonneg:
  "mature_entries h a q bal = (bal', q') \<Longrightarrow> positive_entries q \<Longrightarrow> dall (\<lambda>v. 0 \<le> v) bal \<Longrightarrow>
   dall (\<lambda>v. 0 \<le> v) bal'"
proof (induction h a q bal arbitrary: q' rule: mature_entries.induct)
  case (2 h a amt bond_h release_h q bal)
  have "0 \<le> dget bal (PStr a) 0"
    using dall_dget [OF "2.prems"(3)] by simp
  then have upd: "dall (\<lambda>v. 0 \<le> v) (AList.update (PStr a) (dget bal (PStr a) 0 + amt) bal)"
    using "2.prems"(2) by (intro dall_update [OF "2.prems"(3)]) simp
  show ?case
  proof (cases "release_h \<le> h")
    case True
    with "2.prems"(1,2) show ?thesis by (intro "2.IH"(1) [OF True _ _ upd]) simp_all
  next
    case False
    with "2.prems"(1) obtain q1 where "mature_entries h a q bal = (bal', q1)"
      by (auto split: prod.splits)
    with "2.prems"(2,3) False show ?thesis by (intro "2.IH"(2)) simp_all
  qed
qed simp

lemma positive_entries_filter: "positive_entries q \<Longrightarrow> positive_entries (filter P q)"
  by (induction q) auto

lemma mature_keeps:
  "mature h u bal = (bal', u') \<Longrightarrow> dall positive_entries u \<Longrightarrow> dall (\<lambda>v. 0 \<le> v) bal \<Longrightarrow>
   dsum bal' + unbonding_grand_total u' = dsum bal + unbonding_grand_total u \<and>
   dall (\<lambda>v. 0 \<le> v) bal' \<and> dall positive_entries u' \<and>
   fst ` set u' \<subseteq> fst ` set u \<and> (wf_dict u \<longrightarrow> wf_dict u') \<and> (\<forall>x. dhas bal x \<longrightarrow> dhas bal' x)"
proof (induction h u bal arbitrary: bal' u' rule: mature.induct)
  case (2 h a q u bal)
  obtain bal1 q' where q': "mature_entries h a q bal = (bal1, q')" by fastforce
  obtain u1 where u1: "mature h u bal1 = (bal', u1)"
    and u': "u' = (if q' \<noteq> [] then (a, q') # u1 else u1)"
    using "2.prems"(1) q' by (auto split: prod.splits)
  have "dall (\<lambda>v. 0 \<le> v) bal1"
    using mature_entries_nonneg [OF q'] "2.prems"(2,3) by simp
  with "2.IH" [OF q' [symmetric] refl u1] "2.prems"(2)
    mature_entries_eq [OF q'] positive_entries_filter [of q]
  show ?case
    by (auto simp: u' wf_dict_def)
qed simp

text \<open>An address that has nothing unbonding keeps its balance.\<close>

lemma mature_keys: "mature h u bal = (bal', u') \<Longrightarrow> dhas u' a \<Longrightarrow> dhas u a"
proof (induction h u bal arbitrary: bal' u' rule: mature.induct)
  case (2 h c q u bal)
  obtain bal1 q' where q': "mature_entries h c q bal = (bal1, q')" by fastforce
  obtain u1 where "mature h u bal1 = (bal', u1)"
    and "u' = (if q' \<noteq> [] then (c, q') # u1 else u1)"
    using "2.prems"(1) q' by (auto split: prod.splits)
  with "2.IH" [OF q' [symmetric] refl] "2.prems"(2) show ?case
    by (auto simp: dhas_def split: if_splits)
qed simp

lemma mature_balance:
  "mature h u bal = (bal', u') \<Longrightarrow> wf_dict u \<Longrightarrow>
   dget bal' (PStr a) 0 + unbonding_total u' a = dget bal (PStr a) 0 + unbonding_total u a"
proof (induction h u bal arbitrary: bal' u' rule: mature.induct)
  case (2 h c q u bal)
  obtain bal1 q' where q': "mature_entries h c q bal = (bal1, q')" by fastforce
  obtain u1 where u1: "mature h u bal1 = (bal', u1)"
    and u': "u' = (if q' \<noteq> [] then (c, q') # u1 else u1)"
    using "2.prems"(1) q' by (auto split: prod.splits)
  have "wf_dict u" using "2.prems"(2) by (simp add: wf_dict_def)
  have "\<not> dhas u c" "\<not> dhas u1 c"
    using "2.prems"(2) mature_keys [OF u1] by (auto simp: wf_dict_def dhas_def)
  with "2.IH" [OF q' [symmetric] refl u1 \<open>wf_dict u\<close>] mature_entries_eq [OF q']
  show ?case
    by (auto simp: u' unbonding_total_def)
qed simp

section \<open>The invariant of the working copies\<close>

definition pos_winv :: "pos_work \<Rightarrow> bool" where
  "pos_winv w \<longleftrightarrow>
     dall (\<lambda>v. 0 \<le> v) (w_balances w) \<and>
     wf_dict (stakes (w_aux w)) \<and> dall (\<lambda>v. 0 < v) (stakes (w_aux w)) \<and>
     wf_dict (unbonding (w_aux w)) \<and> dall positive_entries (unbonding (w_aux w)) \<and>
     (\<forall>a. dhas (stakes (w_aux w)) a \<longrightarrow> dhas (w_balances w) (PStr a)) \<and>
     (\<forall>h m a. map_of (ffg_stake (w_aux w)) h = Some m \<longrightarrow> dhas m a \<longrightarrow> dhas (w_balances w) (PStr a))"

definition pos_wtotal :: "pos_work \<Rightarrow> int" where
  "pos_wtotal w =
     dsum (w_balances w) + dsum (stakes (w_aux w)) + unbonding_grand_total (unbonding (w_aux w))"

lemma pos_pre_keeps:
  assumes "pos_apply_block_pre E st b w = Inr w'" "pos_winv w"
  shows "pos_winv w' \<and> pos_wtotal w' = pos_wtotal w"
proof -
  obtain bal unb where m: "mature (the_int (index b)) (unbonding (w_aux w)) (w_balances w) = (bal, unb)"
    by fastforce
  have w': "w_balances w' = bal" "stakes (w_aux w') = stakes (w_aux w)" "unbonding (w_aux w') = unb"
    "\<And>h x. map_of (ffg_stake (w_aux w')) h = Some x \<Longrightarrow>
        x = stakes (w_aux w) \<or> map_of (ffg_stake (w_aux w)) h = Some x"
    using assms(1)
    by (auto simp: pos_apply_block_pre_def Let_def m update_conv' split: if_splits)
  show ?thesis
    using mature_keeps [OF m] assms(2) w'(4)
    unfolding pos_winv_def pos_wtotal_def w'(1-3) by (fastforce simp: w'(1-3))
qed


lemma winv_sender:
  assumes "pos_winv w"
  shows "dall (\<lambda>v. 0 \<le> v) (w_balances w)"
  using assms by (simp add: pos_winv_def)

section \<open>Operations\<close>

text \<open>Every handler first takes the sender's cost and pays the fee to the block's validator.\<close>

lemma pay_keeps:
  assumes "credit_validator b f (AList.update s (x - c) bal) = Inr bal'" "map_of bal s = Some x"
    and "c \<le> x" "0 \<le> f" "dall (\<lambda>v. 0 \<le> v) bal"
  shows "dall (\<lambda>v. 0 \<le> v) bal'" "dsum bal' = dsum bal - c + f" "\<And>a. dhas bal a \<Longrightarrow> dhas bal' a"
proof -
  let ?bal1 = "AList.update s (x - c) bal"
  obtain v where bal': "bal' = AList.update v (dget ?bal1 v 0 + f) ?bal1"
    using assms(1) by (auto simp: credit_validator_Inr)
  have nonneg: "dall (\<lambda>v. 0 \<le> v) ?bal1"
    using assms(3) by (intro dall_update [OF assms(5)]) simp
  have "0 \<le> dget ?bal1 v 0"
    using dall_dget [OF nonneg, of 0 v] by (simp del: dget_update)
  then show "dall (\<lambda>v. 0 \<le> v) bal'"
    unfolding bal' using assms(4) by (intro dall_update [OF nonneg]) (simp del: dget_update)
  show "dsum bal' = dsum bal - c + f"
    unfolding bal' using assms(2) by (simp add: dget_map_of)
  show "dhas bal' a" if "dhas bal a" for a
    unfolding bal' using that by simp
qed

lemma apply_stake_Inr:
  assumes "apply_stake st tx b w = Inr w'"
  obtains x bal where
    "map_of (w_balances w) (sender tx) = Some x" "the_int (amount tx) + the_int (fee tx) \<le> x"
    "credit_validator b (the_int (fee tx))
       (AList.update (sender tx) (x - (the_int (amount tx) + the_int (fee tx))) (w_balances w)) = Inr bal"
    "w' = w\<lparr>w_balances := bal,
            w_nonces := AList.update (sender tx) (the_int (nonce tx) + 1) (w_nonces w),
            w_aux := (w_aux w)\<lparr>stakes := AList.update (the_str (sender tx))
              (dget (stakes (w_aux w)) (the_str (sender tx)) 0 + the_int (amount tx))
              (stakes (w_aux w))\<rparr>\<rparr>"
  using assms
  by (fastforce simp: apply_stake_def Let_def rbind_eq_Inr dlookup_eq_Inr dget_map_of split: if_splits)

lemma apply_stake_keeps:
  assumes "apply_stake st tx b w = Inr w'" "pos_winv w" "is_valid E tx = Inr True"
    and "recipient tx = PStr STAKE_SENTINEL"
  shows "pos_winv w' \<and> pos_wtotal w' = pos_wtotal w"
proof -
  obtain x bal where x: "map_of (w_balances w) (sender tx) = Some x"
      "the_int (amount tx) + the_int (fee tx) \<le> x"
    and bal: "credit_validator b (the_int (fee tx))
       (AList.update (sender tx) (x - (the_int (amount tx) + the_int (fee tx))) (w_balances w)) = Inr bal"
    and w': "w' = w\<lparr>w_balances := bal,
            w_nonces := AList.update (sender tx) (the_int (nonce tx) + 1) (w_nonces w),
            w_aux := (w_aux w)\<lparr>stakes := AList.update (the_str (sender tx))
              (dget (stakes (w_aux w)) (the_str (sender tx)) 0 + the_int (amount tx))
              (stakes (w_aux w))\<rparr>\<rparr>"
    using assms(1) by (rule apply_stake_Inr)
  have tx: "0 < the_int (amount tx)" "0 \<le> the_int (fee tx)" "sender tx = PStr (the_str (sender tx))"
    using assms(3,4) by (auto elim!: is_validE)
  have sent: "dhas (w_balances w) (PStr (the_str (sender tx)))"
    using x(1) tx(3) by (metis dhas_iff_map_of option.distinct(1))
  have inv: "dall (\<lambda>v. 0 < v) (stakes (w_aux w))" "wf_dict (stakes (w_aux w))"
    using assms(2) by (simp_all add: pos_winv_def)
  have "0 \<le> dget (stakes (w_aux w)) (the_str (sender tx)) 0"
    using inv(1) by (intro dall_dget [of "\<lambda>v. 0 \<le> v"]) (auto simp: dall_def list_all_iff less_imp_le)
  with tx(1) have "dall (\<lambda>v. 0 < v) (AList.update (the_str (sender tx))
      (dget (stakes (w_aux w)) (the_str (sender tx)) 0 + the_int (amount tx)) (stakes (w_aux w)))"
    by (intro dall_update [OF inv(1)]) simp
  with pay_keeps [OF bal x tx(2) winv_sender [OF assms(2)]] assms(2) sent show ?thesis
    unfolding w' pos_winv_def pos_wtotal_def by auto
qed


lemma apply_unstake_Inr:
  assumes "apply_unstake st tx b w = Inr w'"
  obtains x s bal where
    "map_of (w_balances w) (sender tx) = Some x" "the_int (fee tx) \<le> x"
    "map_of (stakes (w_aux w)) (the_str (sender tx)) = Some s" "the_int (amount tx) \<le> s"
    "s = the_int (amount tx) \<Longrightarrow> 1 < length (stakes (w_aux w))"
    "credit_validator b (the_int (fee tx))
       (AList.update (sender tx) (x - (the_int (fee tx) -
          (if 0 < unbonding_blocks st then 0 else the_int (amount tx)))) (w_balances w)) = Inr bal"
    "w' = w\<lparr>w_balances := bal,
            w_nonces := AList.update (sender tx) (the_int (nonce tx) + 1) (w_nonces w),
            w_aux := (w_aux w)\<lparr>
              stakes := (if s = the_int (amount tx)
                then AList.delete (the_str (sender tx)) (stakes (w_aux w))
                else AList.update (the_str (sender tx)) (s - the_int (amount tx)) (stakes (w_aux w))),
              unbonding := (if 0 < unbonding_blocks st
                then AList.update (the_str (sender tx))
                       (dget (unbonding (w_aux w)) (the_str (sender tx)) [] @
                        [(the_int (amount tx), the_int (index b),
                          the_int (index b) + unbonding_blocks st)]) (unbonding (w_aux w))
                else unbonding (w_aux w))\<rparr>\<rparr>"
proof -
  let ?a = "the_str (sender tx)"
  let ?c = "the_int (fee tx) - (if 0 < unbonding_blocks st then 0 else the_int (amount tx))"
  have len: "length (AList.update k v d) = length d"
    if "map_of d k = Some v'" for k :: string and v v' :: int and d
    using that by (induction d) (auto split: if_splits)
  from assms obtain x s where
    x: "map_of (w_balances w) (sender tx) = Some x" "the_int (fee tx) \<le> x"
      "map_of (stakes (w_aux w)) ?a = Some s" "the_int (amount tx) \<le> s"
    by (auto simp: apply_unstake_def Let_def rbind_eq_Inr dlookup_eq_Inr dget_map_of split: if_splits)
  from assms obtain bal where
    bal: "credit_validator b (the_int (fee tx)) (AList.update (sender tx) (x - ?c) (w_balances w)) = Inr bal"
    by (auto simp: apply_unstake_def Let_def rbind_eq_Inr dlookup_eq_Inr x dget_map_of algebra_simps
        split: if_splits)
  have last: "1 < length (stakes (w_aux w))" if "s = the_int (amount tx)"
    using assms that x bal
    by (auto simp: apply_unstake_def Let_def rbind_eq_Inr dlookup_eq_Inr dget_map_of len split: if_splits)
  show ?thesis
    by (rule that [OF x last bal])
      (use assms x bal in \<open>auto simp: apply_unstake_def Let_def rbind_eq_Inr dlookup_eq_Inr dget_map_of
        delete_update_same algebra_simps split: if_splits\<close>)
qed

lemma apply_unstake_keeps:
  assumes "apply_unstake st tx b w = Inr w'" "pos_winv w" "is_valid E tx = Inr True"
    and "recipient tx = PStr UNSTAKE_SENTINEL"
  shows "pos_winv w' \<and> pos_wtotal w' = pos_wtotal w"
  using assms(1)
proof (rule apply_unstake_Inr)
  fix x s bal
  let ?a = "the_str (sender tx)" and ?amt = "the_int (amount tx)"
  let ?stk = "if s = ?amt then AList.delete ?a (stakes (w_aux w))
     else AList.update ?a (s - ?amt) (stakes (w_aux w))"
  let ?unb = "if 0 < unbonding_blocks st
     then AList.update ?a (dget (unbonding (w_aux w)) ?a [] @
            [(?amt, the_int (index b), the_int (index b) + unbonding_blocks st)]) (unbonding (w_aux w))
     else unbonding (w_aux w)"
  assume x: "map_of (w_balances w) (sender tx) = Some x" "the_int (fee tx) \<le> x"
    and s: "map_of (stakes (w_aux w)) ?a = Some s" "?amt \<le> s"
    and bal: "credit_validator b (the_int (fee tx)) (AList.update (sender tx) (x - (the_int (fee tx) -
          (if 0 < unbonding_blocks st then 0 else ?amt))) (w_balances w)) = Inr bal"
    and w': "w' = w\<lparr>w_balances := bal,
            w_nonces := AList.update (sender tx) (the_int (nonce tx) + 1) (w_nonces w),
            w_aux := (w_aux w)\<lparr>stakes := ?stk, unbonding := ?unb\<rparr>\<rparr>"
  have tx: "0 < ?amt" "0 \<le> the_int (fee tx)"
    using assms(3,4) by (auto elim!: is_validE)
  note inv = assms(2) [unfolded pos_winv_def]
  have cost: "the_int (fee tx) - (if 0 < unbonding_blocks st then 0 else ?amt) \<le> x"
    using x(2) tx(1) by simp
  have stk: "wf_dict ?stk" "dsum ?stk = dsum (stakes (w_aux w)) - ?amt" "dall (\<lambda>v. 0 < v) ?stk"
    using inv s dall_update [of "\<lambda>v. 0 < v" "stakes (w_aux w)" "s - ?amt" ?a]
    by (simp_all add: dsum_delete dget_map_of dall_delete)
  have "dall positive_entries (unbonding (w_aux w))" using inv by simp
  then have "positive_entries (dget (unbonding (w_aux w)) ?a [])" by (simp add: dall_dget)
  with inv tx(1) have unb: "wf_dict ?unb" "dall positive_entries ?unb"
      "unbonding_grand_total ?unb = unbonding_grand_total (unbonding (w_aux w)) +
         (if 0 < unbonding_blocks st then ?amt else 0)"
    by (auto simp: grand_total_update unbonding_total_def intro!: dall_update)
  have stk_dom: "dhas ?stk a \<Longrightarrow> dhas (stakes (w_aux w)) a" for a
    using s(1) by (auto simp: dhas_iff_map_of update_conv' delete_conv' split: if_splits)
  show ?thesis
    using pay_keeps [OF bal x(1) cost tx(2) winv_sender [OF assms(2)]] inv stk unb stk_dom
    unfolding w' pos_winv_def pos_wtotal_def by auto
qed

lemma record_vote_frame [simp]:
  "stakes (record_vote st a v aux) = stakes aux"
  "unbonding (record_vote st a v aux) = unbonding aux"
  "slashed (record_vote st a v aux) = slashed aux"
  "slashed_addrs (record_vote st a v aux) = slashed_addrs aux"
  "ffg_stake (record_vote st a v aux) = ffg_stake aux"
  "ffg_height (record_vote st a v aux) = ffg_height aux"
  "justified_parent (record_vote st a v aux) = justified_parent aux"
  by (simp_all add: record_vote_def Let_def split: prod.splits)

lemma apply_vote_Inr:
  assumes "apply_vote E st tx b w = Inr w'"
  obtains d l v x bal where
    "load_json E (evidence tx) = Inr d" "vote_link ''vote link missing field'' d = Inr l"
    "check_vote st (w_aux w) (the_str (sender tx)) l = Inr v"
    "map_of (w_balances w) (sender tx) = Some x" "the_int (fee tx) \<le> x"
    "credit_validator b (the_int (fee tx))
       (AList.update (sender tx) (x - the_int (fee tx)) (w_balances w)) = Inr bal"
    "w' = w\<lparr>w_balances := bal,
            w_nonces := AList.update (sender tx) (the_int (nonce tx) + 1) (w_nonces w),
            w_aux := record_vote st (the_str (sender tx)) v (w_aux w)\<rparr>"
  using assms
  by (fastforce simp: apply_vote_def Let_def rbind_eq_Inr dlookup_eq_Inr dget_map_of split: if_splits)

lemma apply_vote_keeps:
  assumes "apply_vote E st tx b w = Inr w'" "pos_winv w" "is_valid E tx = Inr True"
  shows "pos_winv w' \<and> pos_wtotal w' = pos_wtotal w"
  using assms(1)
proof (rule apply_vote_Inr)
  fix v x bal
  assume x: "map_of (w_balances w) (sender tx) = Some x" "the_int (fee tx) \<le> x"
    and bal: "credit_validator b (the_int (fee tx))
       (AList.update (sender tx) (x - the_int (fee tx)) (w_balances w)) = Inr bal"
    and w': "w' = w\<lparr>w_balances := bal,
            w_nonces := AList.update (sender tx) (the_int (nonce tx) + 1) (w_nonces w),
            w_aux := record_vote st (the_str (sender tx)) v (w_aux w)\<rparr>"
  show ?thesis
    using pay_keeps [OF bal x is_valid_nonneg(2) [OF assms(3)] winv_sender [OF assms(2)]] assms(2)
    unfolding w' pos_winv_def pos_wtotal_def by simp
qed

text \<open>What a slash takes from the offender, and how it is shared.\<close>

definition bonded :: "pos_aux \<Rightarrow> string \<Rightarrow> int" where
  "bonded aux a = dget (stakes aux) a 0 + unbonding_total (unbonding aux) a"

definition reporter_cut :: "int \<Rightarrow> int" where
  "reporter_cut x = x * REPORTER_BPS div 10000"

lemma reporter_cut_bounds: "0 \<le> x \<Longrightarrow> 0 \<le> reporter_cut x \<and> reporter_cut x \<le> x"
  by (simp add: reporter_cut_def REPORTER_BPS_def, arith)

lemma apply_slash_Inr:
  assumes "apply_slash E st tx b w = Inr w'"
  obtains t d off key x bal bal3 ben where
    "treasury_address st = Some t"
    "load_json E (evidence tx) = Inr d" "slash_evidence E d = Inr (off, key)"
    "key \<notin> set (slashed (w_aux w))"
    "map_of (w_balances w) (sender tx) = Some x" "the_int (fee tx) \<le> x"
    "credit_validator b (the_int (fee tx))
       (AList.update (sender tx) (x - the_int (fee tx)) (w_balances w)) = Inr bal"
    "ben = (if sender tx \<noteq> off then sender tx else PStr t)"
    "bal3 = AList.update ben (dget bal ben 0 + reporter_cut (bonded (w_aux w) (the_str off))) bal"
    "w' = w\<lparr>w_balances := AList.update (PStr t) (dget bal3 (PStr t) 0 +
              (bonded (w_aux w) (the_str off) - reporter_cut (bonded (w_aux w) (the_str off)))) bal3,
            w_nonces := AList.update (sender tx) (the_int (nonce tx) + 1) (w_nonces w),
            w_aux := (w_aux w)\<lparr>stakes := AList.delete (the_str off) (stakes (w_aux w)),
                               unbonding := AList.delete (the_str off) (unbonding (w_aux w)),
                               slashed_addrs := List.insert (the_str off) (slashed_addrs (w_aux w)),
                               slashed := List.insert key (slashed (w_aux w))\<rparr>\<rparr>"
proof -
  from assms obtain t where t: "treasury_address st = Some t"
    by (auto simp: apply_slash_def split: if_splits option.splits)
  from assms obtain d off key where d: "load_json E (evidence tx) = Inr d"
      "slash_evidence E d = Inr (off, key)" "key \<notin> set (slashed (w_aux w))"
    by (auto simp: apply_slash_def t rbind_eq_Inr Let_def split: if_splits)
  from assms obtain x where x: "map_of (w_balances w) (sender tx) = Some x" "the_int (fee tx) \<le> x"
    by (auto simp: apply_slash_def t d rbind_eq_Inr Let_def dlookup_eq_Inr dget_map_of split: if_splits)
  from assms obtain bal where bal: "credit_validator b (the_int (fee tx))
       (AList.update (sender tx) (x - the_int (fee tx)) (w_balances w)) = Inr bal"
    by (auto simp: apply_slash_def t d x rbind_eq_Inr Let_def dlookup_eq_Inr dget_map_of split: if_splits)
  show ?thesis
    by (rule that [OF t d x bal refl refl])
      (use assms in \<open>auto simp add: apply_slash_def t d x bal Let_def dlookup_def dget_map_of
        bonded_def reporter_cut_def simp del: update_last dget_update split: if_split_asm\<close>)
qed

lemma bonded_nonneg: "pos_winv w \<Longrightarrow> 0 \<le> bonded (w_aux w) a"
proof -
  assume w: "pos_winv w"
  then have "dall (\<lambda>v. 0 \<le> v) (stakes (w_aux w))"
    by (auto simp: pos_winv_def dall_def list_all_iff less_imp_le)
  then have "0 \<le> dget (stakes (w_aux w)) a 0"
    by (intro dall_dget [of "\<lambda>v. 0 \<le> v"]) simp_all
  with w unbonding_total_nonneg show ?thesis by (simp add: bonded_def pos_winv_def)
qed

lemma apply_slash_keeps:
  assumes "apply_slash E st tx b w = Inr w'" "pos_winv w" "is_valid E tx = Inr True"
  shows "pos_winv w' \<and> pos_wtotal w' = pos_wtotal w"
  using assms(1)
proof (rule apply_slash_Inr)
  fix t off key x bal bal3 ben
  let ?o = "the_str off" and ?x = "bonded (w_aux w) (the_str off)"
  let ?bal4 = "AList.update (PStr t) (dget bal3 (PStr t) 0 + (?x - reporter_cut ?x)) bal3"
  assume x: "map_of (w_balances w) (sender tx) = Some x" "the_int (fee tx) \<le> x"
    and bal: "credit_validator b (the_int (fee tx))
       (AList.update (sender tx) (x - the_int (fee tx)) (w_balances w)) = Inr bal"
    and bal3: "bal3 = AList.update ben (dget bal ben 0 + reporter_cut ?x) bal"
    and w': "w' = w\<lparr>w_balances := ?bal4,
            w_nonces := AList.update (sender tx) (the_int (nonce tx) + 1) (w_nonces w),
            w_aux := (w_aux w)\<lparr>stakes := AList.delete ?o (stakes (w_aux w)),
                               unbonding := AList.delete ?o (unbonding (w_aux w)),
                               slashed_addrs := List.insert ?o (slashed_addrs (w_aux w)),
                               slashed := List.insert key (slashed (w_aux w))\<rparr>\<rparr>"
  note pay = pay_keeps [OF bal x is_valid_nonneg(2) [OF assms(3)] winv_sender [OF assms(2)]]
  note cut = reporter_cut_bounds [OF bonded_nonneg [OF assms(2)], of ?o]
  note inv = assms(2) [unfolded pos_winv_def]
  have "0 \<le> dget bal ben 0" using dall_dget [OF pay(1), of 0 ben] by simp
  with cut have bal3_ok: "dall (\<lambda>v. 0 \<le> v) bal3"
    unfolding bal3 by (intro dall_update [OF pay(1)]) simp
  have "0 \<le> dget bal3 (PStr t) 0" using dall_dget [OF bal3_ok, of 0 "PStr t"] by simp
  with cut have "dall (\<lambda>v. 0 \<le> v) ?bal4"
    by (intro dall_update [OF bal3_ok]) simp
  moreover have "dsum ?bal4 = dsum (w_balances w) + ?x"
    using pay(2) by (simp add: bal3)
  moreover have "dhas (w_balances w) a \<Longrightarrow> dhas ?bal4 a" for a
    using pay(3) [of a] by (simp add: bal3)
  moreover have "pos_wtotal w' = dsum ?bal4 + (dsum (stakes (w_aux w)) - dget (stakes (w_aux w)) ?o 0)
      + (unbonding_grand_total (unbonding (w_aux w)) - unbonding_total (unbonding (w_aux w)) ?o)"
    using inv by (simp add: w' pos_wtotal_def dsum_delete grand_total_delete del: dsum_update)
  ultimately show ?thesis
    using inv unfolding pos_winv_def
    by (simp add: w' pos_wtotal_def bonded_def dall_delete del: dsum_update dhas_update)
qed

section \<open>The hooks of \<open>consensus.py\<close> obey the contract\<close>

lemma pos_apply_tx_Inr:
  assumes "pos_apply_tx E st tx b w = Inr w'"
  obtains (slash) "recipient tx = PStr SLASH_SENTINEL" "apply_slash E st tx b w = Inr w'"
    | (vote) "recipient tx = PStr VOTE_SENTINEL" "apply_vote E st tx b w = Inr w'"
    | (stake) "recipient tx = PStr STAKE_SENTINEL" "apply_stake st tx b w = Inr w'"
        "enforce_vesting st (the_str (sender tx)) (the_int (index b)) w' = Inr ()"
    | (unstake) "recipient tx = PStr UNSTAKE_SENTINEL" "apply_unstake st tx b w = Inr w'"
        "enforce_vesting st (the_str (sender tx)) (the_int (index b)) w' = Inr ()"
    | (transfer) "recipient tx \<notin> PStr ` {SLASH_SENTINEL, VOTE_SENTINEL, STAKE_SENTINEL, UNSTAKE_SENTINEL}"
        "base_apply_tx st tx b w = Inr w'"
        "enforce_vesting st (the_str (sender tx)) (the_int (index b)) w' = Inr ()"
  using assms by (auto simp: pos_apply_tx_def rbind_eq_Inr split: if_splits)

lemma pos_apply_tx_keeps:
  assumes "pos_apply_tx E st tx b w = Inr w'" "pos_winv w" "is_valid E tx = Inr True"
  shows "pos_winv w' \<and> pos_wtotal w' = pos_wtotal w"
  using assms(1)
proof (cases rule: pos_apply_tx_Inr)
  case transfer
  then have "w_aux w' = w_aux w" "\<And>a. dhas (w_balances w) a \<Longrightarrow> dhas (w_balances w') a"
    by (auto elim!: base_apply_tx_Inr)
  with base_apply_tx_total [OF transfer(2)] is_valid_nonneg [OF assms(3)]
    base_apply_tx_nonneg [OF transfer(2) winv_sender [OF assms(2)]] assms(2)
  show ?thesis by (simp add: pos_winv_def pos_wtotal_def)
qed (simp_all add: assms apply_slash_keeps [OF _ assms(2,3)] apply_vote_keeps [OF _ assms(2,3)]
    apply_stake_keeps [OF _ assms(2,3)] apply_unstake_keeps [OF _ assms(2,3)])

lemma pos_apply_tx_nonces:
  assumes "pos_apply_tx E st tx b w = Inr w'"
  shows "dget (w_nonces w') a 0 =
    (if a = sender tx then the_int (nonce tx) + 1 else dget (w_nonces w) a 0)"
  using assms
  by (cases rule: pos_apply_tx_Inr)
    (auto elim!: apply_slash_Inr apply_vote_Inr apply_stake_Inr apply_unstake_Inr base_apply_tx_Inr)

interpretation pos: ledger_hooks E "pos_hooks E" "\<lambda>st w. pos_winv w" pos_wtotal
proof (unfold_locales, goal_cases)
  case 1 then show ?case using pos_pre_keeps by (auto simp: pos_hooks_def)
next
  case 2 then show ?case
    by (auto simp: pos_hooks_def pos_apply_block_pre_def Let_def split: prod.splits)
next
  case 3 then show ?case using pos_apply_tx_keeps by (auto simp: pos_hooks_def)
next
  case 4 then show ?case using pos_apply_tx_nonces by (auto simp: pos_hooks_def)
next
  case (9 st w st' c)
  then show ?case
    by (simp add: pos_hooks_def start_work_def commit_work_def pos_snapshot_aux_def
        pos_commit_aux_def pos_winv_def pos_wtotal_def)
qed (auto simp: pos_hooks_def pos_check_supply_def Let_def pos_wtotal_def pos_commit_aux_def split: if_splits)

end
