(* ===== verification/Genesis.thy ===== *)
theory Genesis
  imports Stake_Ledger
begin

text \<open>
  The states a proof-of-stake chain can be in: built by \<open>PoSBlockchain.__init__\<close> and extended by
  accepted blocks. Genesis establishes the invariant of \<open>Stake_Ledger\<close> and issues the whole
  supply, so every state reached from it keeps both.
\<close>

text \<open>The constructor arguments as one tuple, \<open>ProofOfStakeChain(*args)\<close>.\<close>

type_synonym genesis_args =
  "(string \<times> pyval) list \<times> (string \<times> pyval) list \<times> pyval \<times> (string \<times> pyval list) list
   \<times> int \<times> string option \<times> int"

definition new_chain :: "env \<Rightarrow> genesis_args \<Rightarrow> pos_chain res" where
  "new_chain E = (\<lambda>(al, is, ts, gr, ub, tr, ep). pos_init E al is ts gr ub tr ep)"

lemma init_stakes_keeps:
  "init_stakes is bal stk = Inr (bal', stk') \<Longrightarrow>
   dall (\<lambda>v. 0 \<le> v) bal \<Longrightarrow> wf_dict stk \<Longrightarrow> dall (\<lambda>v. 0 < v) stk \<Longrightarrow>
   (\<And>a. dhas stk a \<Longrightarrow> dhas bal (PStr a)) \<Longrightarrow>
   dsum bal' + dsum stk' = dsum bal + dsum stk \<and> dall (\<lambda>v. 0 \<le> v) bal' \<and> wf_dict stk' \<and>
   dall (\<lambda>v. 0 < v) stk' \<and> (\<forall>a. dhas stk' a \<longrightarrow> dhas bal' (PStr a))"
proof (induction "is" bal stk rule: init_stakes.induct)
  case (2 a amt rest bal stk)
  from "2.prems"(1) obtain x where x: "map_of bal (PStr a) = Some x" "the_int amt \<le> x"
      "is_units amt" "the_int amt \<noteq> 0"
    and rest: "init_stakes rest (AList.update (PStr a) (x - the_int amt) bal)
               (AList.update a (dget stk a 0 + the_int amt) stk) = Inr (bal', stk')"
    by (auto simp: rbind_eq_Inr dlookup_eq_Inr dget_map_of split: if_splits)
  have pos: "0 < the_int amt" using x(3,4) by (auto simp: is_units_iff)
  have "0 \<le> dget stk a 0"
    using "2.prems"(4) by (intro dall_dget [of "\<lambda>v. 0 \<le> v"]) (auto simp: dall_def list_all_iff less_imp_le)
  with pos have s: "dall (\<lambda>v. 0 < v) (AList.update a (dget stk a 0 + the_int amt) stk)"
    by (intro dall_update [OF "2.prems"(4)]) simp
  have b: "dall (\<lambda>v. 0 \<le> v) (AList.update (PStr a) (x - the_int amt) bal)"
    using x(2) by (intro dall_update [OF "2.prems"(2)]) simp
  have "\<not> (\<not> is_units amt \<or> the_int amt = 0)" "\<not> dget bal (PStr a) 0 < the_int amt"
    using x by (auto simp: dget_map_of)
  from "2.IH" [OF this rest b wf_dict_update [OF "2.prems"(3)] s] "2.prems"(5) x(1)
  show ?case by (auto simp: dget_map_of)
qed auto

lemma genesis_block:
  assumes "blockchain_init E al ts = Inr base"
  shows "dsum (balances base) = MAX_SUPPLY_UNITS" "dall (\<lambda>v. 0 \<le> v) (balances base)"
    "dall (\<lambda>v. v = 0) (nonces base)"
    "\<exists>g. chain base = [g] \<and> transactions g = [] \<and> index g = PInt 0"
  using assms
  by (fastforce simp: blockchain_init_def rbind_eq_Inr new_block_def Let_def dall_def list_all_iff
      split: if_splits)+

lemma pos_init_Inr:
  assumes "pos_init E al is ts gr ub tr ep = Inr st"
  obtains base bal stk g where
    "blockchain_init E al ts = Inr base" "init_stakes is (balances base) [] = Inr (bal, stk)"
    "init_vesting gr bal stk = Inr (vesting st)" "0 < ep" "chain base = [g]"
    "balances st = (case tr of None \<Rightarrow> bal | Some t \<Rightarrow> dsetdefault bal (PStr t) 0)"
    "nonces st = nonces base" "chain st = chain base"
    "pos st = \<lparr>stakes = stk, unbonding = [], slashed = [], slashed_addrs = [],
               ffg_stake = [(block_hash E g, stk)], ffg_height = [(block_hash E g, 0)],
               ffg_votes = [], ffg_seen_target = [], justified = [block_hash E g],
               justified_parent = [], finalized = (block_hash E g, 0)\<rparr>"
    "unbonding_blocks st = ub" "treasury_address st = tr" "epoch st = ep"
proof -
  from assms obtain base bal stk where b: "blockchain_init E al ts = Inr base"
      "init_stakes is (balances base) [] = Inr (bal, stk)"
    by (auto simp: pos_init_def rbind_eq_Inr)
  from genesis_block(4) [OF b(1)] obtain g where "chain base = [g]" by blast
  with assms b that show ?thesis
    by (auto simp: pos_init_def rbind_eq_Inr Let_def head_def split: if_splits)
qed

lemma genesis_keeps:
  assumes "pos_init E al is ts gr ub tr ep = Inr st"
  shows "pos_winv (start_work (pos_hooks E) st)"
    "pos_wtotal (start_work (pos_hooks E) st) = MAX_SUPPLY_UNITS"
  using assms
proof -
  from assms obtain base bal stk g where b: "blockchain_init E al ts = Inr base"
      "init_stakes is (balances base) [] = Inr (bal, stk)"
    and st: "balances st = (case tr of None \<Rightarrow> bal | Some t \<Rightarrow> dsetdefault bal (PStr t) 0)"
      "pos st = \<lparr>stakes = stk, unbonding = [], slashed = [], slashed_addrs = [],
               ffg_stake = [(block_hash E g, stk)], ffg_height = [(block_hash E g, 0)],
               ffg_votes = [], ffg_seen_target = [], justified = [block_hash E g],
               justified_parent = [], finalized = (block_hash E g, 0)\<rparr>"
    by (rule pos_init_Inr)
  note init = init_stakes_keeps [OF b(2) genesis_block(2) [OF b(1)]]
  have bal: "dsum (balances st) = dsum bal" "\<And>a. dhas bal a \<Longrightarrow> dhas (balances st) a"
      "dall (\<lambda>v. 0 \<le> v) (balances st)"
    using init dall_update [of "\<lambda>v. 0 \<le> v" bal 0]
    by (auto simp: st(1) dsetdefault_def split: option.splits)
  show "pos_winv (start_work (pos_hooks E) st)"
    using init bal by (auto simp: pos_winv_def start_work_def pos_hooks_def pos_snapshot_aux_def st(2)
        split: if_splits)
  show "pos_wtotal (start_work (pos_hooks E) st) = MAX_SUPPLY_UNITS"
    using init bal(1) genesis_block(1) [OF b(1)]
    by (auto simp: pos_wtotal_def start_work_def pos_hooks_def pos_snapshot_aux_def st(2))
qed

text \<open>A state of a chain that was built by the constructor and then fed blocks.\<close>

definition pos_reachable :: "env \<Rightarrow> pos_chain \<Rightarrow> pos_chain \<Rightarrow> bool" where
  "pos_reachable E g st \<longleftrightarrow>
     (\<exists>al is ts gr ub tr ep. pos_init E al is ts gr ub tr ep = Inr g) \<and> reaches E (pos_hooks E) g st"

lemma pos_reachable_genesis: "pos_init E al is ts gr ub tr ep = Inr g \<Longrightarrow> pos_reachable E g g"
  unfolding pos_reachable_def using reaches_start by blast

lemma new_chain_reachable: "new_chain E ga = Inr g \<Longrightarrow> pos_reachable E g g"
  by (cases ga) (auto simp: new_chain_def intro: pos_reachable_genesis)

lemma pos_reachable_step:
  "pos_reachable E g st \<Longrightarrow> submit_block E (pos_hooks E) st b = Inr st' \<Longrightarrow> pos_reachable E g st'"
  by (auto simp: pos_reachable_def intro: reaches_step)

lemma pos_reachable_induct [consumes 1, case_names genesis step]:
  assumes "pos_reachable E g st"
    and "\<And>al is ts gr ub tr ep. pos_init E al is ts gr ub tr ep = Inr g \<Longrightarrow> P g"
    and "\<And>st b st'. pos_reachable E g st \<Longrightarrow> P st \<Longrightarrow> submit_block E (pos_hooks E) st b = Inr st' \<Longrightarrow> P st'"
  shows "P st"
proof -
  from assms(1) obtain al "is" ts gr ub tr ep where g: "pos_init E al is ts gr ub tr ep = Inr g"
    and r: "reaches E (pos_hooks E) g st"
    by (auto simp: pos_reachable_def)
  from r show ?thesis
  proof (induction rule: reaches.induct)
    case reaches_start
    show ?case by (rule assms(2) [OF g])
  next
    case (reaches_step st' b st'')
    with g assms(3) [of st' b st''] show ?case unfolding pos_reachable_def by blast
  qed
qed

text \<open>The invariant in terms of the state rather than of the working copies.\<close>

definition pos_inv :: "pos_chain \<Rightarrow> bool" where
  "pos_inv st \<longleftrightarrow>
     dall (\<lambda>v. 0 \<le> v) (balances st) \<and>
     wf_dict (stakes (pos st)) \<and> dall (\<lambda>v. 0 < v) (stakes (pos st)) \<and>
     wf_dict (unbonding (pos st)) \<and> dall positive_entries (unbonding (pos st)) \<and>
     (\<forall>a. dhas (stakes (pos st)) a \<longrightarrow> dhas (balances st) (PStr a)) \<and>
     (\<forall>h m a. map_of (ffg_stake (pos st)) h = Some m \<longrightarrow> dhas m a \<longrightarrow> dhas (balances st) (PStr a))"

lemma pos_winv_start: "pos_winv (start_work (pos_hooks E) st) \<longleftrightarrow> pos_inv st"
  by (simp add: pos_winv_def pos_inv_def start_work_def pos_hooks_def pos_snapshot_aux_def)

lemma pos_wtotal_start: "pos_wtotal (start_work (pos_hooks E) st) = pos_total_supply st"
  by (simp add: pos_wtotal_def pos_total_supply_def start_work_def pos_hooks_def pos_snapshot_aux_def)

lemma reachable_inv:
  assumes "pos_reachable E g st"
  shows "pos_inv st \<and> pos_total_supply st = MAX_SUPPLY_UNITS"
proof -
  from assms obtain al "is" ts gr ub tr ep where g: "pos_init E al is ts gr ub tr ep = Inr g"
    and r: "reaches E (pos_hooks E) g st"
    by (auto simp: pos_reachable_def)
  from pos.reaches_keeps [OF r genesis_keeps(1) [OF g]] genesis_keeps(2) [OF g]
  show ?thesis by (simp add: pos_winv_start pos_wtotal_start)
qed

lemma reachable_nonces: "pos_reachable E g st \<Longrightarrow> nonces_counted st"
proof (induction rule: pos_reachable_induct)
  case (genesis al "is" ts gr ub tr ep)
  then obtain base b where "blockchain_init E al ts = Inr base" "nonces g = nonces base"
    "chain g = chain base" "chain base = [b]" by (rule pos_init_Inr)
  with genesis_block(3,4) [of E al ts base] dall_dget [of "\<lambda>v. v = 0" "nonces g" 0]
  show ?case by (auto simp: nonces_counted_def history_def)
qed (rule pos.submit_block_nonces)

lemma reachable_links:
  assumes "pos_reachable E g st"
  shows "chain st \<noteq> []" "valid_links E (chain st) = Inr True"
proof -
  from assms obtain al "is" ts gr ub tr ep where g: "pos_init E al is ts gr ub tr ep = Inr g"
    and r: "reaches E (pos_hooks E) g st"
    by (auto simp: pos_reachable_def)
  from g obtain b where "chain g = [b]" by (rule pos_init_Inr) auto
  with pos.reaches_links [OF r] show "chain st \<noteq> []" "valid_links E (chain st) = Inr True"
    by simp_all
qed

text \<open>Only valid transactions get on a chain.\<close>

lemma apply_txs_valid: "apply_txs E H st b seen w txs = Inr w' \<Longrightarrow> tx \<in> set txs \<Longrightarrow> is_valid E tx = Inr True"
  by (induction txs arbitrary: seen w) (auto simp: rbind_eq_Inr split: if_splits)

lemma reachable_txs_valid: "pos_reachable E g st \<Longrightarrow> tx \<in> set (history st) \<Longrightarrow> is_valid E tx = Inr True"
proof (induction rule: pos_reachable_induct)
  case (genesis al "is" ts gr ub tr ep)
  then obtain base b where "blockchain_init E al ts = Inr base" "chain g = chain base" "chain base = [b]"
    by (metis pos_init_Inr)
  with genesis genesis_block(3,4) [of E al ts base] show ?case by (auto simp: history_def)
next
  case (step st b st')
  then obtain w1 w2 where "apply_txs E (pos_hooks E) st b [] w1 (transactions b) = Inr w2"
    by (auto simp: submit_block_Inr apply_block_Inr)
  with step pos.submit_block_chain [of E st b st'] apply_txs_valid show ?case by (auto simp: history_def)
qed

end
