(* ===== verification/Finality.thy ===== *)
theory Finality
  imports Genesis
begin

text \<open>
  The finality votes of \<open>consensus.py\<close>. Checkpoints are blocks of the chain at multiples of the
  epoch; a vote is counted for a link between two of them; a supermajority of the stake at the
  source justifies the target and may finalize the source. Shown: heights are what they should be,
  every checkpoint, justified hash and finalized pair names a block of this chain, finality only
  advances, a justified target had its two thirds, and two supermajorities over one snapshot share
  at least a third of it.
\<close>

section \<open>Heights\<close>

text \<open>An index that \<open>int.to_bytes\<close> takes: an integer, or a Boolean, which Python counts as one.\<close>

definition int_index :: "pyval \<Rightarrow> bool" where
  "int_index v \<longleftrightarrow> (\<exists>i. v = PInt i) \<or> (\<exists>b. v = PBool b)"

lemma index_bytes_int: "index_bytes v = Inr bs \<Longrightarrow> int_index v"
  by (cases v) (auto simp: int_index_def)

lemma py_succ_int: "int_index v \<Longrightarrow> py_succ E v = Inr (PInt (the_int v + 1))"
  by (auto simp: int_index_def)

lemma py_eq_int: "int_index v \<Longrightarrow> py_eq v (PInt i) \<longleftrightarrow> the_int v = i"
  by (auto simp: int_index_def py_eq_def)

lemma pos_check_proposer_Inr:
  assumes "pos_check_proposer E st b = Inr ()"
  obtains expected pub h sig where
    "elect E st (previous_hash b) (index b) = Inr expected" "validator b = PStr expected"
    "fromhex_val (proposer_pubkey b) = Inr pub" "expected = address_from_public_key E pub"
    "fromhex (block_hash E b) = Some h" "fromhex_val (validator_sig b) = Inr sig"
    "verify_signature E pub h sig"
proof -
  from assms obtain expected pub h sig where
    1: "elect E st (previous_hash b) (index b) = Inr expected" "validator b = PStr expected"
      "hexbytes (proposer_pubkey b) = Inr pub" "expected = address_from_public_key E pub"
      "fromhex (block_hash E b) = Some h" "hexbytes (validator_sig b) = Inr sig"
      "verify_signature E pub h sig"
    by (auto simp: pos_check_proposer_def rbind_eq_Inr split: if_splits option.splits)
  then show ?thesis
    by (intro that) (auto simp: hexbytes_def split: sum.splits)
qed

lemma accepted_index:
  assumes "submit_block E (pos_hooks E) st b = Inr st'" "int_index (index (head st))"
  shows "int_index (index b)" "the_int (index b) = the_int (index (head st)) + 1"
proof -
  from assms(1) obtain i where i: "py_succ E (index (head st)) = Inr i" "py_eq (index b) i"
    and p: "pos_check_proposer E st b = Inr ()"
    by (auto simp: submit_block_Inr apply_block_Inr pos_hooks_def)
  from p obtain expected where "elect E st (previous_hash b) (index b) = Inr expected"
    by (rule pos_check_proposer_Inr)
  then show "int_index (index b)"
    by (auto simp: elect_def seed_def rbind_eq_Inr intro: index_bytes_int)
  with i assms(2) show "the_int (index b) = the_int (index (head st)) + 1"
    by (auto simp: py_succ_int py_eq_int)
qed

definition heights_ok :: "block list \<Rightarrow> bool" where
  "heights_ok ch \<longleftrightarrow> ch \<noteq> [] \<and>
     (\<forall>n < length ch. int_index (index (ch ! n)) \<and> the_int (index (ch ! n)) = int n)"

lemma heights_ok_last:
  "heights_ok ch \<Longrightarrow> int_index (index (last ch)) \<and> the_int (index (last ch)) = int (length ch) - 1"
  by (auto simp: heights_ok_def last_conv_nth of_nat_diff Suc_leI)

lemma heights_ok_snoc:
  "heights_ok ch \<Longrightarrow> int_index (index b) \<Longrightarrow> the_int (index b) = int (length ch) \<Longrightarrow> heights_ok (ch @ [b])"
  by (auto simp: heights_ok_def nth_append less_Suc_eq)

lemma submit_block_heights:
  assumes "submit_block E (pos_hooks E) st b = Inr st'" "heights_ok (chain st)"
  shows "heights_ok (chain st')" "the_int (index b) = int (length (chain st))" "int_index (index b)"
proof -
  note last = heights_ok_last [OF assms(2), folded head_def]
  show b: "the_int (index b) = int (length (chain st))" "int_index (index b)"
    using accepted_index [OF assms(1)] last by simp_all
  show "heights_ok (chain st')"
    using pos.submit_block_chain [OF assms(1)] heights_ok_snoc [OF assms(2) b(2,1)] by simp
qed

lemma reachable_heights: "pos_reachable E g st \<Longrightarrow> heights_ok (chain st)"
proof (induction rule: pos_reachable_induct)
  case (genesis al "is" ts gr ub tr ep)
  then obtain base where "blockchain_init E al ts = Inr base" "chain g = chain base"
    by (rule pos_init_Inr)
  with genesis_block(4) [of E al ts base] show ?case
    by (auto simp: heights_ok_def int_index_def)
qed (rule submit_block_heights(1))

section \<open>Checkpoints, justification and finality name blocks of the chain\<close>

definition on_chain :: "env \<Rightarrow> block list \<Rightarrow> string \<Rightarrow> int \<Rightarrow> bool" where
  "on_chain E ch h n \<longleftrightarrow> 0 \<le> n \<and> nat n < length ch \<and> block_hash E (ch ! nat n) = h"

lemma on_chain_snoc: "on_chain E ch h n \<Longrightarrow> on_chain E (ch @ [b]) h n"
  by (auto simp: on_chain_def nth_append)

definition ffg_inv :: "env \<Rightarrow> int \<Rightarrow> block list \<Rightarrow> pos_aux \<Rightarrow> bool" where
  "ffg_inv E ep ch aux \<longleftrightarrow>
     (\<forall>h. dhas (ffg_stake aux) h = dhas (ffg_height aux) h) \<and>
     (\<forall>h n. map_of (ffg_height aux) h = Some n \<longrightarrow> on_chain E ch h n \<and> n mod ep = 0) \<and>
     (\<forall>h \<in> set (justified aux) \<union> set (justified_parent aux). dhas (ffg_height aux) h) \<and>
     set (justified_parent aux) \<subseteq> set (justified aux) \<and>
     on_chain E ch (fst (finalized aux)) (snd (finalized aux)) \<and>
     fst (finalized aux) \<in> set (justified aux)"

lemma check_vote_Inr:
  assumes "check_vote st aux voter l = Inr v"
  obtains s sh t th where "v = (s, sh, t, th)" "l = \<lparr>link_s = PStr s, link_sh = PInt sh, link_t = PStr t, link_th = PInt th\<rparr>"
    "sh < th" "dhas (ffg_stake aux) s" "dhas (ffg_stake aux) t"
    "map_of (ffg_height aux) s = Some sh" "map_of (ffg_height aux) t = Some th"
    "s \<in> set (justified_parent aux)" "voter \<notin> set (slashed_addrs aux)"
    "0 < dget (dget (ffg_stake aux) s []) voter 0"
    "dget (ffg_seen_target aux) (voter, th) (s, t) = (s, t)"
    "sh mod epoch st = 0" "th mod epoch st = 0"
  using assms
  by (cases l) (auto simp: check_vote_def Let_def rbind_eq_Inr dlookup_eq_Inr is_str_iff is_units_iff
      split: if_splits)

lemma record_vote_cases:
  "justified (record_vote st voter (s, sh, t, th) aux) = justified aux \<and>
   finalized (record_vote st voter (s, sh, t, th) aux) = finalized aux \<or>
   supermajority (dget (ffg_stake aux) s []) (slashed_addrs aux)
     (List.insert voter (dget (ffg_votes aux) (s, t) [])) \<and>
   justified (record_vote st voter (s, sh, t, th) aux) = List.insert t (justified aux) \<and>
   finalized (record_vote st voter (s, sh, t, th) aux) =
     (if th = sh + epoch st \<and> snd (finalized aux) < sh then (s, sh) else finalized aux)"
  by (simp add: record_vote_def Let_def)

lemma ffg_inv_cong:
  "ffg_stake aux' = ffg_stake aux \<Longrightarrow> ffg_height aux' = ffg_height aux \<Longrightarrow> justified aux' = justified aux \<Longrightarrow>
   justified_parent aux' = justified_parent aux \<Longrightarrow> finalized aux' = finalized aux \<Longrightarrow>
   ffg_inv E ep ch aux' = ffg_inv E ep ch aux"
  by (simp add: ffg_inv_def)

lemma record_vote_ffg:
  assumes "ffg_inv E (epoch st) ch aux" "check_vote st aux voter l = Inr v"
  shows "ffg_inv E (epoch st) ch (record_vote st voter v aux)"
    "snd (finalized aux) \<le> snd (finalized (record_vote st voter v aux))"
proof -
  from assms(2) obtain s sh t th where v: "v = (s, sh, t, th)"
    and c: "dhas (ffg_stake aux) s" "dhas (ffg_stake aux) t" "map_of (ffg_height aux) s = Some sh"
      "s \<in> set (justified_parent aux)"
    by (rule check_vote_Inr)
  have s: "on_chain E ch s sh" "s \<in> set (justified aux)" "dhas (ffg_height aux) t"
    using assms(1) c by (auto simp: ffg_inv_def)
  show "ffg_inv E (epoch st) ch (record_vote st voter v aux)"
    using record_vote_cases [of st voter s sh t th aux]
  proof (elim disjE conjE)
    let ?aux = "record_vote st voter (s, sh, t, th) aux"
    assume "justified ?aux = justified aux" "finalized ?aux = finalized aux"
    then have "ffg_inv E (epoch st) ch ?aux = ffg_inv E (epoch st) ch aux"
      by (intro ffg_inv_cong) simp_all
    with assms(1) show ?thesis by (simp add: v)
  next
    let ?aux = "record_vote st voter (s, sh, t, th) aux"
    assume "justified ?aux = List.insert t (justified aux)" "finalized ?aux =
       (if th = sh + epoch st \<and> snd (finalized aux) < sh then (s, sh) else finalized aux)"
    with assms(1) s show ?thesis by (auto simp: v ffg_inv_def)
  qed
  show "snd (finalized aux) \<le> snd (finalized (record_vote st voter v aux))"
    using record_vote_cases [of st voter s sh t th aux] by (auto simp: v)
qed

text \<open>Only votes touch the finality state.\<close>

lemma pos_apply_tx_ffg:
  assumes "pos_apply_tx E st tx b w = Inr w'"
  obtains (vote) l v where "recipient tx = PStr VOTE_SENTINEL"
      "check_vote st (w_aux w) (the_str (sender tx)) l = Inr v"
      "w_aux w' = record_vote st (the_str (sender tx)) v (w_aux w)"
    | (other) "recipient tx \<noteq> PStr VOTE_SENTINEL"
      "ffg_stake (w_aux w') = ffg_stake (w_aux w)" "ffg_height (w_aux w') = ffg_height (w_aux w)"
      "ffg_votes (w_aux w') = ffg_votes (w_aux w)" "ffg_seen_target (w_aux w') = ffg_seen_target (w_aux w)"
      "justified (w_aux w') = justified (w_aux w)"
      "justified_parent (w_aux w') = justified_parent (w_aux w)" "finalized (w_aux w') = finalized (w_aux w)"
  using assms
proof (cases rule: pos_apply_tx_Inr)
  case vote
  from vote(2) show ?thesis by (rule apply_vote_Inr) (use vote(1) that(1) in auto)
qed (auto elim!: apply_slash_Inr apply_stake_Inr apply_unstake_Inr base_apply_tx_Inr intro!: that(2))

text \<open>The invariant while a block is applied, the block counted as the last of the chain.\<close>

lemma pos_pre_ffg:
  assumes "pos_apply_block_pre E st b w = Inr w1" "ffg_inv E (epoch st) (chain st) (w_aux w)"
    and "the_int (index b) = int (length (chain st))"
  shows "ffg_inv E (epoch st) (chain st @ [b]) (w_aux w1)" "finalized (w_aux w1) = finalized (w_aux w)"
proof -
  obtain bal unb where m: "mature (the_int (index b)) (unbonding (w_aux w)) (w_balances w) = (bal, unb)"
    by fastforce
  have new: "on_chain E (chain st @ [b]) (block_hash E b) (int (length (chain st)))"
    by (simp add: on_chain_def)
  show "finalized (w_aux w1) = finalized (w_aux w)"
    using assms(1) by (auto simp: pos_apply_block_pre_def Let_def m split: if_splits)
  show "ffg_inv E (epoch st) (chain st @ [b]) (w_aux w1)"
    using assms new
    by (auto simp: pos_apply_block_pre_def Let_def m [unfolded assms(3)] ffg_inv_def on_chain_snoc
        update_conv' split: if_splits)
qed

lemma apply_txs_ffg:
  "apply_txs E (pos_hooks E) st b seen w txs = Inr w' \<Longrightarrow> ffg_inv E (epoch st) ch (w_aux w) \<Longrightarrow>
   ffg_inv E (epoch st) ch (w_aux w') \<and> snd (finalized (w_aux w)) \<le> snd (finalized (w_aux w'))"
proof (induction txs arbitrary: seen w)
  case (Cons tx txs)
  then obtain w1 where w1: "pos_apply_tx E st tx b w = Inr w1"
    and rest: "apply_txs E (pos_hooks E) st b (txid E tx # seen) w1 txs = Inr w'"
    by (auto simp: rbind_eq_Inr pos_hooks_def split: if_splits)
  have "ffg_inv E (epoch st) ch (w_aux w1) \<and> snd (finalized (w_aux w)) \<le> snd (finalized (w_aux w1))"
    using w1
  proof (cases rule: pos_apply_tx_ffg)
    case (vote l v)
    with record_vote_ffg [OF Cons.prems(2) vote(2)] show ?thesis by simp
  next
    case other
    then have "ffg_inv E (epoch st) ch (w_aux w1) = ffg_inv E (epoch st) ch (w_aux w)"
      by (intro ffg_inv_cong)
    with other Cons.prems(2) show ?thesis by simp
  qed
  with Cons.IH [OF rest] show ?case by auto
qed simp

lemma pos_submit_Inr:
  assumes "submit_block E (pos_hooks E) st b = Inr st'"
  obtains w1 w2 where "pos_check_proposer E st b = Inr ()"
    "pos_apply_block_pre E st b (start_work (pos_hooks E) st) = Inr w1"
    "apply_txs E (pos_hooks E) st b [] w1 (transactions b) = Inr w2"
    "st' = st\<lparr>balances := w_balances w2, nonces := w_nonces w2, chain := chain st @ [b],
              pos := (w_aux w2)\<lparr>justified_parent := []\<rparr>\<rparr>"
  using assms
  by (auto simp: submit_block_Inr apply_block_Inr pos_hooks_def commit_work_def pos_commit_aux_def)

lemma submit_block_ffg:
  assumes "submit_block E (pos_hooks E) st b = Inr st'" "heights_ok (chain st)"
    and "ffg_inv E (epoch st) (chain st) (pos st)"
  shows "ffg_inv E (epoch st') (chain st') (pos st')"
    "snd (finalized_checkpoint st) \<le> snd (finalized_checkpoint st')"
proof -
  from assms(1) obtain w1 w2 where
    w1: "pos_apply_block_pre E st b (start_work (pos_hooks E) st) = Inr w1"
    and w2: "apply_txs E (pos_hooks E) st b [] w1 (transactions b) = Inr w2"
    and st': "st' = st\<lparr>balances := w_balances w2, nonces := w_nonces w2, chain := chain st @ [b],
              pos := (w_aux w2)\<lparr>justified_parent := []\<rparr>\<rparr>"
    by (rule pos_submit_Inr)
  have "ffg_inv E (epoch st) (chain st) (w_aux (start_work (pos_hooks E) st))"
    using assms(3) by (auto simp: ffg_inv_def start_work_def pos_hooks_def pos_snapshot_aux_def)
  note pre = pos_pre_ffg [OF w1 this submit_block_heights(2) [OF assms(1,2)]]
  note txs = apply_txs_ffg [OF w2 pre(1)]
  show "ffg_inv E (epoch st') (chain st') (pos st')"
    using txs by (auto simp: st' ffg_inv_def)
  show "snd (finalized_checkpoint st) \<le> snd (finalized_checkpoint st')"
    using txs pre(2)
    by (simp add: st' finalized_checkpoint_def start_work_def pos_hooks_def pos_snapshot_aux_def)
qed

lemma reachable_ffg: "pos_reachable E g st \<Longrightarrow> ffg_inv E (epoch st) (chain st) (pos st)"
proof (induction rule: pos_reachable_induct)
  case (genesis al "is" ts gr ub tr ep)
  then obtain stk b where "chain g = [b]" and "pos g = \<lparr>stakes = stk, unbonding = [], slashed = [], slashed_addrs = [],
               ffg_stake = [(block_hash E b, stk)], ffg_height = [(block_hash E b, 0)],
               ffg_votes = [], ffg_seen_target = [], justified = [block_hash E b],
               justified_parent = [], finalized = (block_hash E b, 0)\<rparr>"
    by (rule pos_init_Inr) simp
  then show ?case by (simp add: ffg_inv_def on_chain_def dhas_def)
next
  case (step st b st')
  then show ?case using submit_block_ffg(1) reachable_heights by blast
qed

section \<open>Snapshots and quorums\<close>

text \<open>Every snapshot of the stakes is a dictionary of positive stakes.\<close>

definition snapshots_ok :: "pos_aux \<Rightarrow> bool" where
  "snapshots_ok aux \<longleftrightarrow>
     (\<forall>h m. map_of (ffg_stake aux) h = Some m \<longrightarrow> wf_dict m \<and> dall (\<lambda>v. 0 < v) m) \<and>
     (\<forall>k. distinct (dget (ffg_votes aux) k []))"

lemma record_vote_votes:
  "dget (ffg_votes (record_vote st voter (s, sh, t, th) aux)) k [] =
     (if k = (s, t) then List.insert voter (dget (ffg_votes aux) (s, t) []) else dget (ffg_votes aux) k [])"
  by (simp add: record_vote_def Let_def)

lemma apply_txs_snapshots:
  "apply_txs E (pos_hooks E) st b seen w txs = Inr w' \<Longrightarrow> snapshots_ok (w_aux w) \<Longrightarrow> snapshots_ok (w_aux w')"
proof (induction txs arbitrary: seen w)
  case (Cons tx txs)
  then obtain w1 where w1: "pos_apply_tx E st tx b w = Inr w1"
    and rest: "apply_txs E (pos_hooks E) st b (txid E tx # seen) w1 txs = Inr w'"
    by (auto simp: rbind_eq_Inr pos_hooks_def split: if_splits)
  from w1 have "snapshots_ok (w_aux w1)"
  proof (cases rule: pos_apply_tx_ffg)
    case (vote l v)
    obtain s sh t th where v: "v = (s, sh, t, th)" by (cases v)
    from Cons.prems(2) vote show ?thesis
      by (simp add: v snapshots_ok_def record_vote_votes del: dget_update)
  next
    case other
    with Cons.prems(2) show ?thesis by (simp add: snapshots_ok_def)
  qed
  with Cons.IH [OF rest] show ?case by simp
qed simp

lemma reachable_snapshots: "pos_reachable E g st \<Longrightarrow> snapshots_ok (pos st)"
proof (induction rule: pos_reachable_induct)
  case (genesis al "is" ts gr ub tr ep)
  then have "pos_inv g" using reachable_inv [OF pos_reachable_genesis] by blast
  moreover from genesis obtain stk b where "pos g = \<lparr>stakes = stk, unbonding = [], slashed = [], slashed_addrs = [],
               ffg_stake = [(block_hash E b, stk)], ffg_height = [(block_hash E b, 0)],
               ffg_votes = [], ffg_seen_target = [], justified = [block_hash E b],
               justified_parent = [], finalized = (block_hash E b, 0)\<rparr>"
    by (rule pos_init_Inr)
  ultimately show ?case by (simp add: pos_inv_def snapshots_ok_def split: if_splits)
next
  case (step st b st')
  from step(2) obtain w1 w2 where
    w1: "pos_apply_block_pre E st b (start_work (pos_hooks E) st) = Inr w1"
    and w2: "apply_txs E (pos_hooks E) st b [] w1 (transactions b) = Inr w2"
    and st': "st' = st\<lparr>balances := w_balances w2, nonces := w_nonces w2, chain := chain st @ [b],
              pos := (w_aux w2)\<lparr>justified_parent := []\<rparr>\<rparr>"
    by (rule pos_submit_Inr)
  have "wf_dict (stakes (pos st))" "dall (\<lambda>v. 0 < v) (stakes (pos st))"
    using reachable_inv [OF step(1)] by (simp_all add: pos_inv_def)
  with step(3) w1 have "snapshots_ok (w_aux w1)"
    by (auto simp: pos_apply_block_pre_def Let_def start_work_def pos_hooks_def pos_snapshot_aux_def
        snapshots_ok_def update_conv' split: if_splits prod.splits)
  from apply_txs_snapshots [OF w2 this] show ?case by (simp add: st' snapshots_ok_def)
qed

text \<open>
  The arithmetic behind accountable safety, for any weights: two sets that each hold two thirds
  of the weight share one third.
\<close>

locale weighted_quorum =
  fixes weight :: "'v \<Rightarrow> nat"
    and members :: "'v set"
  assumes finite_members: "finite members"
begin

lemma two_thirds_intersect:
  assumes "2 * sum weight members \<le> 3 * sum weight (A \<inter> members)"
    and "2 * sum weight members \<le> 3 * sum weight (B \<inter> members)"
  shows "sum weight members \<le> 3 * sum weight (A \<inter> B \<inter> members)"
proof -
  let ?A = "A \<inter> members" and ?B = "B \<inter> members"
  have fin: "finite ?A" "finite ?B" using finite_members by auto
  have "sum weight ?A + sum weight ?B = sum weight (?A \<union> ?B) + sum weight (?A \<inter> ?B)"
    by (rule sum.union_inter [OF fin, symmetric])
  moreover have "sum weight (?A \<union> ?B) \<le> sum weight members"
    by (rule sum_mono2) (auto simp: finite_members)
  moreover have "?A \<inter> ?B = A \<inter> B \<inter> members" by auto
  ultimately show ?thesis using assms by simp
qed

end

lemma finite_dhas: "finite {k. dhas d k \<and> P k}"
  by (rule finite_subset [of _ "fst ` set d"]) (auto simp: dhas_def)

interpretation ffg: weighted_quorum "\<lambda>v. nat (dget snapshot v 0)" "{v. dhas snapshot v \<and> v \<notin> set out}"
  by unfold_locales (rule finite_dhas)

lemma quorum_stake_sum:
  "wf_dict m \<Longrightarrow> dall (\<lambda>v. 0 < v) m \<Longrightarrow>
   quorum_stake m out = int (\<Sum>v\<in>{v. dhas m v \<and> v \<notin> set out}. nat (dget m v 0))"
proof (induction m)
  case (Cons p m)
  obtain a x where p: "p = (a, x)" by fastforce
  have new: "\<not> dhas m a" using Cons.prems(1) by (auto simp: p wf_dict_def dhas_def)
  have "(\<Sum>v\<in>{v. dhas m v \<and> v \<notin> set out}. nat (dget (p # m) v 0)) =
        (\<Sum>v\<in>{v. dhas m v \<and> v \<notin> set out}. nat (dget m v 0))"
    using new by (intro sum.cong) (auto simp: p)
  moreover have "{v. dhas (p # m) v \<and> v \<notin> set out} =
      (if a \<in> set out then {} else {a}) \<union> {v. dhas m v \<and> v \<notin> set out}"
    by (auto simp: p dhas_def)
  moreover have "a \<notin> {v. dhas m v \<and> v \<notin> set out}" using new by simp
  ultimately show ?case
    using Cons by (auto simp: p quorum_stake_def wf_dict_def finite_dhas simp del: of_nat_sum)
qed (simp add: quorum_stake_def)

lemma voted_stake_sum:
  assumes "dall (\<lambda>v. 0 < v) m" "distinct voters"
  shows "voted_stake m out voters =
    int (\<Sum>v\<in>set voters \<inter> {v. dhas m v \<and> v \<notin> set out}. nat (dget m v 0))"
proof -
  have "0 \<le> dget m v 0" for v
    using assms(1) by (intro dall_dget [of "\<lambda>v. 0 \<le> v"]) (auto simp: dall_def list_all_iff less_imp_le)
  then have "voted_stake m out voters = (\<Sum>v\<in>{v \<in> set voters. v \<notin> set out}. int (nat (dget m v 0)))"
    using assms(2) by (simp add: voted_stake_def sum_list_distinct_conv_sum_set)
  also have "\<dots> = (\<Sum>v\<in>set voters \<inter> {v. dhas m v \<and> v \<notin> set out}. int (nat (dget m v 0)))"
    by (rule sum.mono_neutral_right) (auto intro: ccontr [of "dhas m _"])
  finally show ?thesis by simp
qed

lemma quorums_intersect:
  assumes "wf_dict m" "dall (\<lambda>v. 0 < v) m" "distinct A" "distinct B"
    and "supermajority m out A" "supermajority m out B"
  shows "quorum_stake m out \<le> 3 * voted_stake m out (filter (\<lambda>v. v \<in> set B) A)"
proof -
  have "set (filter (\<lambda>v. v \<in> set B) A) = set A \<inter> set B" by auto
  with ffg.two_thirds_intersect [of m out "set A" "set B"] assms show ?thesis
    by (simp add: supermajority_def quorum_stake_sum voted_stake_sum FFG_NUM_def FFG_DEN_def
        del: of_nat_sum int_nat_eq)
qed

end
