(* ===== verification/Election.thy ===== *)
theory Election
  imports Finality
begin

text \<open>
  The election of \<open>consensus.py\<close>: it elects an active validator whenever there is one, and each
  validator is elected by as many of the possible picks as it has units of stake. Every accepted
  block was proposed by the elected validator and signed with the key behind its address.
\<close>

section \<open>The cumulative pick\<close>

abbreviation stake_sum :: "stake_map \<Rightarrow> string list \<Rightarrow> int" where
  "stake_sum stk vs \<equiv> sum_list (map (\<lambda>a. dget stk a 0) vs)"

lemma pick_in:
  "p < c + stake_sum stk vs \<Longrightarrow> c \<le> p \<Longrightarrow> pick_validator stk p c fin vs \<in> set vs"
  by (induction vs arbitrary: c) (auto simp: Let_def)

lemma pick_count:
  "distinct vs \<Longrightarrow> (\<And>v. v \<in> set vs \<Longrightarrow> 0 \<le> dget stk v 0) \<Longrightarrow> a \<in> set vs \<Longrightarrow>
   card {p. c \<le> p \<and> p < c + stake_sum stk vs \<and> pick_validator stk p c fin vs = a} =
   nat (dget stk a 0)"
proof (induction vs arbitrary: c)
  case (Cons x xs)
  let ?w = "dget stk x 0" and ?S = "stake_sum stk xs"
  let ?P = "\<lambda>p. c \<le> p \<and> p < c + stake_sum stk (x # xs) \<and> pick_validator stk p c fin (x # xs) = a"
  have w: "0 \<le> ?w" "0 \<le> ?S"
    using Cons.prems(2) by (auto intro!: sum_list_nonneg)
  show ?case
  proof (cases "a = x")
    case True
    have "?P p \<longleftrightarrow> c \<le> p \<and> p < c + ?w" for p
      using pick_in [of p "c + ?w" stk xs fin] Cons.prems(1) True w(2) by (auto simp: Let_def)
    moreover have "{p. c \<le> p \<and> p < c + ?w} = {c ..< c + ?w}" by auto
    ultimately show ?thesis using True by simp
  next
    case False
    have "?P p \<longleftrightarrow> c + ?w \<le> p \<and> p < (c + ?w) + ?S \<and> pick_validator stk p (c + ?w) fin xs = a" for p
      using False w by (auto simp: Let_def)
    with Cons.IH [of "c + ?w"] Cons.prems False show ?thesis by simp
  qed
qed simp

lemma active_validators:
  assumes "wf_dict stk"
  shows "distinct (active_validators stk)"
    "a \<in> set (active_validators stk) \<longleftrightarrow> 0 < dget stk a 0"
    "stake_sum stk (active_validators stk) = dsum (filter (\<lambda>p. 0 < snd p) stk)"
proof -
  have pair: "(k, x) \<in> set stk \<Longrightarrow> dget stk k 0 = x" for k x
    using assms by (simp add: dget_def wf_dict_def)
  show "distinct (active_validators stk)"
    using assms by (simp add: active_validators_def wf_dict_def distinct_map_filter)
  have "dget stk a 0 = 0 \<or> (a, dget stk a 0) \<in> set stk"
    by (auto simp: dget_def split: option.splits dest: map_of_SomeD)
  then have "0 < dget stk a 0 \<longleftrightarrow> (\<exists>x. (a, x) \<in> set stk \<and> 0 < x)"
    using pair [of a] by auto
  moreover have "a \<in> set (active_validators stk) \<longleftrightarrow> (\<exists>x. (a, x) \<in> set stk \<and> 0 < x)"
    by (auto simp: active_validators_def image_iff Bex_def)
  ultimately show "a \<in> set (active_validators stk) \<longleftrightarrow> 0 < dget stk a 0" by simp
  have "mset (active_validators stk) = mset (map fst (filter (\<lambda>p. 0 < snd p) stk))"
    by (simp add: active_validators_def)
  then have "mset (map (\<lambda>a. dget stk a 0) (active_validators stk)) =
      mset (map (\<lambda>a. dget stk a 0) (map fst (filter (\<lambda>p. 0 < snd p) stk)))"
    by (simp only: mset_map)
  then have "stake_sum stk (active_validators stk) =
      stake_sum stk (map fst (filter (\<lambda>p. 0 < snd p) stk))"
    by (metis sum_mset_sum_list)
  also have "\<dots> = dsum (filter (\<lambda>p. 0 < snd p) stk)"
    unfolding dsum_def map_map using pair by (intro arg_cong [of _ _ sum_list] map_cong) auto
  finally show "stake_sum stk (active_validators stk) = dsum (filter (\<lambda>p. 0 < snd p) stk)" .
qed

section \<open>The elected validator\<close>

lemma stake_sum_pos:
  assumes "wf_dict stk" "0 < dget stk a 0"
  shows "0 < stake_sum stk (active_validators stk)"
proof -
  have "dall (\<lambda>v. 0 \<le> v) (filter (\<lambda>p. 0 < snd p) stk)"
    by (auto simp: dall_def list_all_iff)
  from dget_le_dsum [OF this, of a] assms active_validators [OF assms(1)]
  have "dget (filter (\<lambda>p. 0 < snd p) stk) a 0 \<le> stake_sum stk (active_validators stk)" by simp
  moreover have "dget (filter (\<lambda>p. 0 < snd p) stk) a 0 = dget stk a 0"
    using assms by (induction stk) (auto simp: wf_dict_def)
  ultimately show ?thesis using assms(2) by simp
qed

lemma elect_validator_Inr:
  assumes "wf_dict stk" "elect_validator stk sd = Inr v"
  shows "0 < dget stk v 0"
proof -
  let ?vs = "active_validators stk"
  let ?tot = "stake_sum stk ?vs"
  have "0 \<le> ?tot" using active_validators(2) [OF assms(1)] by (intro sum_list_nonneg) (auto simp: less_imp_le)
  with assms(2) have "0 < ?tot" and v: "v = pick_validator stk (int (from_bytes sd) mod ?tot) 0 (last ?vs) ?vs"
    by (auto simp: elect_validator_def Let_def split: if_splits)
  then have "v \<in> set ?vs"
    unfolding v by (intro pick_in) auto
  then show ?thesis using active_validators(2) [OF assms(1)] by simp
qed

lemma elect_validator_total:
  assumes "wf_dict stk" "0 < dget stk a 0"
  shows "\<exists>v. elect_validator stk sd = Inr v"
  using stake_sum_pos [OF assms] by (auto simp: elect_validator_def Let_def)

text \<open>The picks that elect one validator, out of all remainders modulo the total stake.\<close>

lemma elect_proportional:
  assumes "wf_dict stk" "0 < dget stk a 0"
  defines "vs \<equiv> active_validators stk"
  shows "card {p. 0 \<le> p \<and> p < stake_sum stk vs \<and> pick_validator stk p 0 (last vs) vs = a}
    = nat (dget stk a 0)"
  using pick_count [of vs stk a 0 "last vs"] active_validators [OF assms(1)] assms(2)
  by (simp add: vs_def less_imp_le)

text \<open>On a chain with a validator the election never fails for the next block.\<close>

lemma next_validator_total:
  assumes "pos_inv st" "heights_ok (chain st)" "0 < stake_of st a"
    and "int (length (chain st)) < 2 ^ 64"
  shows "\<exists>v. next_validator E st = Inr v \<and> 0 < stake_of st v"
proof -
  have "wf_dict (stakes (pos st))" using assms(1) by (simp add: pos_inv_def)
  note tot = elect_validator_total [OF this] and in_act = elect_validator_Inr [OF this]
  have "py_succ E (index (head st)) = Inr (PInt (int (length (chain st))))"
    using heights_ok_last [OF assms(2)] by (simp add: head_def py_succ_int)
  moreover obtain bs where "to_bytes8 (int (length (chain st))) = Inr bs"
    using assms(4) by (simp add: to_bytes8_def)
  moreover obtain v where "elect_validator (stakes (pos st))
      (sha256 E (sha256 E (canonical E (header (head st))) @ bs)) = Inr v"
    using tot assms(3) by (auto simp: stake_of_def)
  ultimately show ?thesis
    using in_act by (auto simp: next_validator_def elect_def seed_def block_hash_def stake_of_def)
qed

end
