(* ===== verification/Stake_Rules.thy ===== *)
theory Stake_Rules
  imports Election
begin

text \<open>
  What each kind of transaction of \<open>consensus.py\<close> does to the coins of every address: staking and
  unstaking move them, unbonding releases them at its height, slashing takes all that the offender
  has bonded and shares it out, vesting keeps a grant from being sent away.
\<close>

section \<open>Coins of one address\<close>

definition holding :: "pos_work \<Rightarrow> string \<Rightarrow> int" where
  "holding w a = dget (w_balances w) (PStr a) 0 + bonded (w_aux w) a"

lemma pay_balance:
  assumes "credit_validator b f (AList.update s (x - c) bal) = Inr bal'" "map_of bal s = Some x"
  obtains v where "hash_key (validator b) = Inr v"
    "\<And>a. dget bal' a 0 = dget bal a 0 - (if a = s then c else 0) + (if a = v then f else 0)"
  using assms by (auto simp: credit_validator_Inr dget_map_of)

lemma winv_nonneg:
  assumes "pos_winv w"
  shows "0 \<le> dget (w_balances w) x 0" "0 \<le> dget (stakes (w_aux w)) a 0"
    "0 \<le> unbonding_total (unbonding (w_aux w)) a"
proof -
  show "0 \<le> dget (w_balances w) x 0"
    using dall_dget [OF winv_sender [OF assms]] by simp
  have "dall (\<lambda>v. 0 \<le> v) (stakes (w_aux w))"
    using assms by (auto simp: pos_winv_def dall_def list_all_iff less_imp_le)
  then show "0 \<le> dget (stakes (w_aux w)) a 0" by (rule dall_dget) simp
  show "0 \<le> unbonding_total (unbonding (w_aux w)) a"
    using assms by (intro unbonding_total_nonneg) (simp add: pos_winv_def)
qed

lemma holding_nonneg: "pos_winv w \<Longrightarrow> 0 \<le> holding w a"
  using winv_nonneg(1) [of w "PStr a"] winv_nonneg(2,3) [of w a] by (simp add: holding_def bonded_def)

lemma unbonding_total_update:
  "unbonding_total (AList.update a q u) c = (if c = a then unbonding_sum q else unbonding_total u c)"
  by (simp add: unbonding_total_def)

lemma unbonding_total_delete:
  "unbonding_total (AList.delete a u) c = (if c = a then 0 else unbonding_total u c)"
  by (simp add: unbonding_total_def)

text \<open>Staking and unstaking leave every holding as it is, but for the fee.\<close>

lemma apply_stake_holding:
  assumes "apply_stake st tx b w = Inr w'" "is_valid E tx = Inr True"
  obtains v where "hash_key (validator b) = Inr v"
    "\<And>a. holding w' a = holding w a - (if PStr a = sender tx then the_int (fee tx) else 0)
        + (if PStr a = v then the_int (fee tx) else 0)"
  using assms(1)
proof (rule apply_stake_Inr)
  fix x bal
  assume x: "map_of (w_balances w) (sender tx) = Some x"
    and bal: "credit_validator b (the_int (fee tx))
       (AList.update (sender tx) (x - (the_int (amount tx) + the_int (fee tx))) (w_balances w)) = Inr bal"
    and w': "w' = w\<lparr>w_balances := bal,
            w_nonces := AList.update (sender tx) (the_int (nonce tx) + 1) (w_nonces w),
            w_aux := (w_aux w)\<lparr>stakes := AList.update (the_str (sender tx))
              (dget (stakes (w_aux w)) (the_str (sender tx)) 0 + the_int (amount tx))
              (stakes (w_aux w))\<rparr>\<rparr>"
  obtain s where s: "sender tx = PStr s" using is_valid_sender [OF assms(2)] by blast
  show ?thesis
    by (rule pay_balance [OF bal x], rule that) (auto simp: w' holding_def bonded_def s)
qed

lemma apply_unstake_holding:
  assumes "apply_unstake st tx b w = Inr w'" "is_valid E tx = Inr True"
  obtains v where "hash_key (validator b) = Inr v"
    "\<And>a. holding w' a = holding w a - (if PStr a = sender tx then the_int (fee tx) else 0)
        + (if PStr a = v then the_int (fee tx) else 0)"
  using assms(1)
proof (rule apply_unstake_Inr)
  fix x s bal
  let ?a = "the_str (sender tx)" and ?amt = "the_int (amount tx)"
  assume x: "map_of (w_balances w) (sender tx) = Some x"
    and s: "map_of (stakes (w_aux w)) ?a = Some s"
    and bal: "credit_validator b (the_int (fee tx)) (AList.update (sender tx) (x - (the_int (fee tx) -
          (if 0 < unbonding_blocks st then 0 else ?amt))) (w_balances w)) = Inr bal"
    and w': "w' = w\<lparr>w_balances := bal,
            w_nonces := AList.update (sender tx) (the_int (nonce tx) + 1) (w_nonces w),
            w_aux := (w_aux w)\<lparr>
              stakes := (if s = ?amt then AList.delete ?a (stakes (w_aux w))
                else AList.update ?a (s - ?amt) (stakes (w_aux w))),
              unbonding := (if 0 < unbonding_blocks st
                then AList.update ?a (dget (unbonding (w_aux w)) ?a [] @
                        [(?amt, the_int (index b), the_int (index b) + unbonding_blocks st)])
                        (unbonding (w_aux w))
                else unbonding (w_aux w))\<rparr>\<rparr>"
  obtain c where c: "sender tx = PStr c" using is_valid_sender [OF assms(2)] by blast
  have stk: "dget (stakes (w_aux w')) a 0 = dget (stakes (w_aux w)) a 0 - (if a = c then ?amt else 0)" for a
    using s by (auto simp: w' c dget_map_of)
  have unb: "unbonding_total (unbonding (w_aux w')) a = unbonding_total (unbonding (w_aux w)) a
      + (if a = c \<and> 0 < unbonding_blocks st then ?amt else 0)" for a
    by (auto simp: w' c unbonding_total_update) (simp add: unbonding_total_def)
  obtain v where v: "hash_key (validator b) = Inr v"
    "\<And>a. dget bal a 0 = dget (w_balances w) a 0 - (if a = sender tx then the_int (fee tx) -
          (if 0 < unbonding_blocks st then 0 else ?amt) else 0) + (if a = v then the_int (fee tx) else 0)"
    using pay_balance [OF bal x] by blast
  have "w_balances w' = bal" by (simp add: w')
  then show ?thesis
    by (intro that [OF v(1)]) (auto simp: holding_def bonded_def stk unb v(2) c)
qed

lemma base_apply_tx_holding:
  assumes "base_apply_tx st tx b w = Inr w'"
  obtains r v where "hash_key (recipient tx) = Inr r" "hash_key (validator b) = Inr v"
    "\<And>a. holding w' a = holding w a
        - (if PStr a = sender tx then the_int (amount tx) + the_int (fee tx) else 0)
        + (if PStr a = r then the_int (amount tx) else 0) + (if PStr a = v then the_int (fee tx) else 0)"
  using assms
proof (rule base_apply_tx_Inr)
  fix r v bal1 bal2
  assume k: "hash_key (recipient tx) = Inr r" "hash_key (validator b) = Inr v"
    and bal: "bal1 = AList.update (sender tx) (dget (w_balances w) (sender tx) 0
              - (the_int (amount tx) + the_int (fee tx))) (w_balances w)"
      "bal2 = AList.update r (dget bal1 r 0 + the_int (amount tx)) bal1"
      "w_balances w' = AList.update v (dget bal2 v 0 + the_int (fee tx)) bal2"
    and aux: "w_aux w' = w_aux w"
  have "dget (w_balances w') x 0 = dget (w_balances w) x 0
        - (if x = sender tx then the_int (amount tx) + the_int (fee tx) else 0)
        + (if x = r then the_int (amount tx) else 0) + (if x = v then the_int (fee tx) else 0)" for x
    by (simp add: bal)
  then show ?thesis by (intro that [OF k]) (simp add: holding_def aux)
qed

lemma apply_vote_holding:
  assumes "apply_vote E st tx b w = Inr w'"
  obtains v where "hash_key (validator b) = Inr v"
    "\<And>a. holding w' a = holding w a - (if PStr a = sender tx then the_int (fee tx) else 0)
        + (if PStr a = v then the_int (fee tx) else 0)"
  using assms
proof (rule apply_vote_Inr)
  fix v x bal
  assume x: "map_of (w_balances w) (sender tx) = Some x"
    and bal: "credit_validator b (the_int (fee tx))
       (AList.update (sender tx) (x - the_int (fee tx)) (w_balances w)) = Inr bal"
    and w': "w' = w\<lparr>w_balances := bal,
            w_nonces := AList.update (sender tx) (the_int (nonce tx) + 1) (w_nonces w),
            w_aux := record_vote st (the_str (sender tx)) v (w_aux w)\<rparr>"
  show ?thesis
    by (rule pay_balance [OF bal x], rule that) (auto simp: w' holding_def bonded_def)
qed

section \<open>Slashing\<close>

lemma verify_equivocation_Inr:
  assumes "verify_equivocation E b1 b2 = Inr (off, h)"
  obtains pub1 pub2 sig1 sig2 h1 h2 where
    "off = validator b1" "h = index b1" "py_eq (index b1) (index b2)"
    "py_eq (previous_hash b1) (previous_hash b2)" "validator b2 = validator b1"
    "block_hash E b1 \<noteq> block_hash E b2"
    "validator b1 = PStr (address_from_public_key E pub1)"
    "validator b1 = PStr (address_from_public_key E pub2)"
    "fromhex (block_hash E b1) = Some h1" "fromhex (block_hash E b2) = Some h2"
    "fromhex_val (proposer_pubkey b1) = Inr pub1" "fromhex_val (validator_sig b1) = Inr sig1"
    "fromhex_val (proposer_pubkey b2) = Inr pub2" "fromhex_val (validator_sig b2) = Inr sig2"
    "verify_signature E pub1 h1 sig1" "verify_signature E pub2 h2 sig2"
proof -
  have sealed: "\<exists>pub sig h. validator b = PStr (address_from_public_key E pub) \<and>
      fromhex (block_hash E b) = Some h \<and> fromhex_val (proposer_pubkey b) = Inr pub \<and>
      fromhex_val (validator_sig b) = Inr sig \<and> verify_signature E pub h sig"
    if "check_sealed E b = Inr ()" for b
    using that by (auto simp: check_sealed_def rbind_eq_Inr hexbytes_def split: if_splits sum.splits option.splits)
  from assms have s: "check_sealed E b1 = Inr ()" "check_sealed E b2 = Inr ()"
    and rest: "off = validator b1" "h = index b1" "py_eq (index b1) (index b2)"
      "py_eq (previous_hash b1) (previous_hash b2)" "py_eq (validator b1) (validator b2)"
      "block_hash E b1 \<noteq> block_hash E b2"
    by (auto simp: verify_equivocation_def rbind_eq_Inr split: if_splits)
  from sealed [OF s(1)] obtain pub1 sig1 h1 where 1: "validator b1 = PStr (address_from_public_key E pub1)"
      "fromhex (block_hash E b1) = Some h1" "fromhex_val (proposer_pubkey b1) = Inr pub1"
      "fromhex_val (validator_sig b1) = Inr sig1" "verify_signature E pub1 h1 sig1" by blast
  from sealed [OF s(2)] obtain pub2 sig2 h2 where 2: "validator b2 = PStr (address_from_public_key E pub2)"
      "fromhex (block_hash E b2) = Some h2" "fromhex_val (proposer_pubkey b2) = Inr pub2"
      "fromhex_val (validator_sig b2) = Inr sig2" "verify_signature E pub2 h2 sig2" by blast
  have "validator b2 = validator b1" using rest(5) 1(1) by simp
  with 1 2 rest show ?thesis
    by (intro that [where ?pub1.0 = pub1 and ?pub2.0 = pub2 and ?sig1.0 = sig1 and ?sig2.0 = sig2
        and ?h1.0 = h1 and ?h2.0 = h2]) simp_all
qed

lemma slash_evidence_str:
  assumes "slash_evidence E d = Inr (off, key)"
  shows "off = PStr (the_str off)"
proof (cases "dget d ''kind'' PNone = PStr ''vote''")
  case True
  with assms obtain tx_a tx_b dig where "verify_vote_fault E tx_a tx_b = Inr (off, dig)"
    by (auto simp: slash_evidence_def rbind_eq_Inr)
  then have "is_valid E tx_a = Inr True" "off = sender tx_a"
    by (auto simp: verify_vote_fault_def or_else_def rbind_eq_Inr split: if_splits)
  with is_valid_sender show ?thesis by fastforce
next
  case False
  with assms obtain b1 b2 h where "verify_equivocation E b1 b2 = Inr (off, h)"
    by (auto simp: slash_evidence_def rbind_eq_Inr)
  then show ?thesis by (rule verify_equivocation_Inr) auto
qed

text \<open>The whole effect of an accepted slash on the ledger.\<close>

lemma apply_slash_effect:
  assumes "apply_slash E st tx b w = Inr w'"
  obtains t d off key v where
    "treasury_address st = Some t" "load_json E (evidence tx) = Inr d"
    "slash_evidence E d = Inr (PStr off, key)" "hash_key (validator b) = Inr v"
    "key \<notin> set (slashed (w_aux w))" "slashed (w_aux w') = key # slashed (w_aux w)"
    "off \<in> set (slashed_addrs (w_aux w'))"
    "\<And>a. bonded (w_aux w') a = (if a = off then 0 else bonded (w_aux w) a)"
    "\<And>a. dget (w_balances w') a 0 = dget (w_balances w) a 0
        - (if a = sender tx then the_int (fee tx) else 0) + (if a = v then the_int (fee tx) else 0)
        + (if a = (if sender tx \<noteq> PStr off then sender tx else PStr t)
           then reporter_cut (bonded (w_aux w) off) else 0)
        + (if a = PStr t then bonded (w_aux w) off - reporter_cut (bonded (w_aux w) off) else 0)"
  using assms
proof (rule apply_slash_Inr)
  fix t d off key x bal bal3 ben
  let ?o = "the_str off" and ?x = "bonded (w_aux w) (the_str off)"
  assume t: "treasury_address st = Some t" "load_json E (evidence tx) = Inr d"
    and ev: "slash_evidence E d = Inr (off, key)" and key: "key \<notin> set (slashed (w_aux w))"
    and x: "map_of (w_balances w) (sender tx) = Some x"
    and bal: "credit_validator b (the_int (fee tx))
       (AList.update (sender tx) (x - the_int (fee tx)) (w_balances w)) = Inr bal"
    and ben: "ben = (if sender tx \<noteq> off then sender tx else PStr t)"
    and bal3: "bal3 = AList.update ben (dget bal ben 0 + reporter_cut ?x) bal"
    and w': "w' = w\<lparr>w_balances := AList.update (PStr t) (dget bal3 (PStr t) 0 +
              (?x - reporter_cut ?x)) bal3,
            w_nonces := AList.update (sender tx) (the_int (nonce tx) + 1) (w_nonces w),
            w_aux := (w_aux w)\<lparr>stakes := AList.delete ?o (stakes (w_aux w)),
                               unbonding := AList.delete ?o (unbonding (w_aux w)),
                               slashed_addrs := List.insert ?o (slashed_addrs (w_aux w)),
                               slashed := List.insert key (slashed (w_aux w))\<rparr>\<rparr>"
  note off = slash_evidence_str [OF ev]
  obtain v where v: "hash_key (validator b) = Inr v"
    "\<And>a. dget bal a 0 = dget (w_balances w) a 0 - (if a = sender tx then the_int (fee tx) else 0)
       + (if a = v then the_int (fee tx) else 0)"
    using pay_balance [OF bal x] by blast
  have "dget (w_balances w') a 0 = dget bal a 0 + (if a = ben then reporter_cut ?x else 0)
      + (if a = PStr t then ?x - reporter_cut ?x else 0)" for a
    by (simp add: w' bal3)
  then have eq: "dget (w_balances w') a 0 = dget (w_balances w) a 0
        - (if a = sender tx then the_int (fee tx) else 0) + (if a = v then the_int (fee tx) else 0)
        + (if a = (if sender tx \<noteq> PStr ?o then sender tx else PStr t) then reporter_cut ?x else 0)
        + (if a = PStr t then ?x - reporter_cut ?x else 0)" for a
    using off by (simp only: v(2) ben)
  have "slash_evidence E d = Inr (PStr ?o, key)" using ev off by simp
  from that [OF t this v(1) key _ _ _ eq] show ?thesis
    using key by (simp add: w' bonded_def unbonding_total_delete)
qed

section \<open>Unbonding\<close>

lemma mature_queue:
  "mature h u bal = (bal', u') \<Longrightarrow> wf_dict u \<Longrightarrow>
   dget u' a [] = filter (\<lambda>e. h < snd (snd e)) (dget u a [])"
proof (induction h u bal arbitrary: bal' u' rule: mature.induct)
  case (2 h c q u bal)
  obtain bal1 q' where q': "mature_entries h c q bal = (bal1, q')" by fastforce
  obtain u1 where u1: "mature h u bal1 = (bal', u1)"
    and u': "u' = (if q' \<noteq> [] then (c, q') # u1 else u1)"
    using "2.prems"(1) q' by (auto split: prod.splits)
  have wf: "wf_dict u" using "2.prems"(2) by (simp add: wf_dict_def)
  have "\<not> dhas u c" "\<not> dhas u1 c"
    using "2.prems"(2) mature_keys [OF u1] by (auto simp: wf_dict_def dhas_def)
  with "2.IH" [OF q' [symmetric] refl u1 wf] mature_entries_eq [OF q']
  show ?case by (auto simp: u')
qed simp

lemma pos_pre_release:
  fixes a :: string
  assumes "pos_apply_block_pre E st b w = Inr w1" "wf_dict (unbonding (w_aux w))"
  defines "q \<equiv> dget (unbonding (w_aux w)) a []"
  shows "dget (unbonding (w_aux w1)) a [] = filter (\<lambda>e. the_int (index b) < snd (snd e)) q"
    "dget (w_balances w1) (PStr a) 0 = dget (w_balances w) (PStr a) 0
       + unbonding_sum (filter (\<lambda>e. snd (snd e) \<le> the_int (index b)) q)"
    "stakes (w_aux w1) = stakes (w_aux w)"
proof -
  obtain bal unb where m: "mature (the_int (index b)) (unbonding (w_aux w)) (w_balances w) = (bal, unb)"
    by fastforce
  have w1: "w_balances w1 = bal" "unbonding (w_aux w1) = unb" "stakes (w_aux w1) = stakes (w_aux w)"
    using assms(1) by (auto simp: pos_apply_block_pre_def Let_def m split: if_splits)
  note queue = mature_queue [OF m assms(2), of a, folded q_def]
  have split: "unbonding_sum xs = unbonding_sum (filter (\<lambda>e. snd (snd e) \<le> n) xs)
      + unbonding_sum (filter (\<lambda>e. n < snd (snd e)) xs)" for xs n
    by (induction xs) auto
  show "dget (unbonding (w_aux w1)) a [] = filter (\<lambda>e. the_int (index b) < snd (snd e)) q"
    by (simp add: w1 queue)
  show "stakes (w_aux w1) = stakes (w_aux w)" by (rule w1(3))
  show "dget (w_balances w1) (PStr a) 0 = dget (w_balances w) (PStr a) 0
       + unbonding_sum (filter (\<lambda>e. snd (snd e) \<le> the_int (index b)) q)"
    using mature_balance [OF m assms(2), of a] split [of q "the_int (index b)"] queue
    by (simp add: w1 unbonding_total_def q_def)
qed

text \<open>The last validator cannot leave: only a slash can empty the set of validators.\<close>

lemma apply_unstake_nonempty: "apply_unstake st tx b w = Inr w' \<Longrightarrow> wf_dict (stakes (w_aux w)) \<Longrightarrow> stakes (w_aux w') \<noteq> []"
proof (erule apply_unstake_Inr)
  fix s :: int
  let ?a = "the_str (sender tx)" and ?stk = "stakes (w_aux w)"
  have one: "length d \<le> 1" if "wf_dict d" "AList.delete k d = []" for k :: string and d :: stake_map
  proof -
    have "set (map fst d) \<subseteq> {k}"
      using that(2) by (induction d) (auto split: if_splits)
    moreover have "distinct (map fst d)" using that(1) by (simp add: wf_dict_def)
    ultimately have "card (set (map fst d)) \<le> 1" "card (set (map fst d)) = length d"
      by (metis card_mono finite.emptyI finite_insert is_singletonI is_singleton_altdef,
          metis distinct_card length_map)
    then show ?thesis by simp
  qed
  have upd: "AList.update k v d \<noteq> []" for k :: string and v :: int and d
    by (cases d) auto
  fix x bal
  assume "wf_dict ?stk" "s = the_int (amount tx) \<Longrightarrow> 1 < length ?stk"
    and "w' = w\<lparr>w_balances := bal,
            w_nonces := AList.update (sender tx) (the_int (nonce tx) + 1) (w_nonces w),
            w_aux := (w_aux w)\<lparr>
              stakes := (if s = the_int (amount tx) then AList.delete ?a ?stk
                else AList.update ?a (s - the_int (amount tx)) ?stk),
              unbonding := (if 0 < unbonding_blocks st
                then AList.update ?a (dget (unbonding (w_aux w)) ?a [] @
                        [(the_int (amount tx), the_int (index b), the_int (index b) + unbonding_blocks st)])
                        (unbonding (w_aux w))
                else unbonding (w_aux w))\<rparr>\<rparr>"
  then show "stakes (w_aux w') \<noteq> []"
    using one [of ?stk ?a] by (auto simp: upd)
qed

section \<open>Vesting\<close>

lemma enforce_vesting_Inr:
  "enforce_vesting st a h w = Inr () \<longleftrightarrow>
   (\<forall>tot s c d. map_of (vesting st) a = Some (tot, s, c, d) \<longrightarrow>
      locked tot s c d h \<le> 0 \<or> locked tot s c d h \<le> holding w a)"
  by (auto simp: enforce_vesting_def Let_def holding_def bonded_def split: option.splits)

text \<open>Slash evidence against an address.\<close>

definition slashes :: "env \<Rightarrow> transaction \<Rightarrow> string \<Rightarrow> bool" where
  "slashes E tx a \<longleftrightarrow> recipient tx = PStr SLASH_SENTINEL \<and>
     (\<exists>d key. load_json E (evidence tx) = Inr d \<and> slash_evidence E d = Inr (PStr a, key))"

text \<open>
  The two ways in which coins of an address leave without the vesting check: the fees of its own
  votes and reports, and a slash against it.
\<close>

definition unvested_exit :: "env \<Rightarrow> string \<Rightarrow> transaction \<Rightarrow> bool" where
  "unvested_exit E a tx \<longleftrightarrow>
     sender tx = PStr a \<and> (recipient tx = PStr VOTE_SENTINEL \<or> recipient tx = PStr SLASH_SENTINEL)
     \<or> slashes E tx a"

lemma holding_not_sender:
  assumes "pos_apply_tx E st tx b w = Inr w'" "is_valid E tx = Inr True" "pos_winv w"
    and "sender tx \<noteq> PStr a" "\<not> slashes E tx a"
  shows "holding w a \<le> holding w' a"
  using assms(1)
proof (cases rule: pos_apply_tx_Inr)
  note nonneg = is_valid_nonneg [OF assms(2)]
  case slash
  from slash(2) show ?thesis
  proof (rule apply_slash_effect)
    fix t d off key v
    assume e: "load_json E (evidence tx) = Inr d" "slash_evidence E d = Inr (PStr off, key)"
      "\<And>a. bonded (w_aux w') a = (if a = off then 0 else bonded (w_aux w) a)"
      "\<And>a. dget (w_balances w') a 0 = dget (w_balances w) a 0
        - (if a = sender tx then the_int (fee tx) else 0) + (if a = v then the_int (fee tx) else 0)
        + (if a = (if sender tx \<noteq> PStr off then sender tx else PStr t)
           then reporter_cut (bonded (w_aux w) off) else 0)
        + (if a = PStr t then bonded (w_aux w) off - reporter_cut (bonded (w_aux w) off) else 0)"
    have "off \<noteq> a" using assms(5) slash(1) e(1,2) by (auto simp: slashes_def)
    with reporter_cut_bounds [OF bonded_nonneg [OF assms(3)], of off] assms(4) nonneg
    show ?thesis by (simp add: holding_def e(3,4))
  qed
next
  case vote
  show ?thesis
    by (rule apply_vote_holding [OF vote(2)]) (use assms(4) is_valid_nonneg [OF assms(2)] in auto)
next
  case stake
  show ?thesis
    by (rule apply_stake_holding [OF stake(2) assms(2)]) (use assms(4) is_valid_nonneg [OF assms(2)] in auto)
next
  case unstake
  show ?thesis
    by (rule apply_unstake_holding [OF unstake(2) assms(2)]) (use assms(4) is_valid_nonneg [OF assms(2)] in auto)
next
  case transfer
  show ?thesis
    by (rule base_apply_tx_holding [OF transfer(2)]) (use assms(4) is_valid_nonneg [OF assms(2)] in auto)
qed

lemma vesting_kept:
  assumes "pos_apply_tx E st tx b w = Inr w'" "is_valid E tx = Inr True" "pos_winv w"
    and grant: "map_of (vesting st) a = Some (tot, s, c, d)"
    and kept: "locked tot s c d (the_int (index b)) \<le> holding w a"
    and exit: "\<not> unvested_exit E a tx"
  shows "locked tot s c d (the_int (index b)) \<le> holding w' a"
proof (cases "sender tx = PStr a")
  case True
  with assms(1) exit have "enforce_vesting st a (the_int (index b)) w' = Inr ()"
    by (cases rule: pos_apply_tx_Inr) (auto simp: unvested_exit_def)
  moreover have "0 \<le> holding w' a"
    using holding_nonneg pos_apply_tx_keeps [OF assms(1,3,2)] by blast
  ultimately show ?thesis using grant by (auto simp: enforce_vesting_Inr)
next
  case False
  with holding_not_sender [OF assms(1-3) False] exit kept show ?thesis by (simp add: unvested_exit_def)
qed

lemma apply_txs_vesting:
  "apply_txs E (pos_hooks E) st b seen w txs = Inr w' \<Longrightarrow> pos_winv w \<Longrightarrow>
   map_of (vesting st) a = Some (tot, s, c, d) \<Longrightarrow>
   locked tot s c d (the_int (index b)) \<le> holding w a \<Longrightarrow>
   (\<And>tx. tx \<in> set txs \<Longrightarrow> \<not> unvested_exit E a tx) \<Longrightarrow>
   locked tot s c d (the_int (index b)) \<le> holding w' a"
proof (induction txs arbitrary: seen w)
  case (Cons tx txs)
  then obtain w1 where valid: "is_valid E tx = Inr True" and w1: "pos_apply_tx E st tx b w = Inr w1"
    and rest: "apply_txs E (pos_hooks E) st b (txid E tx # seen) w1 txs = Inr w'"
    by (auto simp: rbind_eq_Inr pos_hooks_def split: if_splits)
  have "locked tot s c d (the_int (index b)) \<le> holding w1 a"
    using vesting_kept [OF w1 valid Cons.prems(2-4)] Cons.prems(5) by simp
  with Cons.prems pos_apply_tx_keeps [OF w1 Cons.prems(2) valid] show ?case
    by (intro Cons.IH [OF rest]) simp_all
qed simp

text \<open>Attributes that no block changes.\<close>

lemma submit_block_fixed:
  assumes "submit_block E (pos_hooks E) st b = Inr st'"
  shows "vesting st' = vesting st" "epoch st' = epoch st" "unbonding_blocks st' = unbonding_blocks st"
    "treasury_address st' = treasury_address st"
  using assms by (auto elim!: pos_submit_Inr)

definition grants_ok :: "pos_chain \<Rightarrow> bool" where
  "grants_ok st \<longleftrightarrow> (\<forall>a tot s c d. map_of (vesting st) a = Some (tot, s, c, d) \<longrightarrow>
     0 \<le> tot \<and> 0 \<le> s \<and> 0 \<le> c \<and> 0 \<le> d)"

lemma init_vesting_Inr:
  "init_vesting gr bal stk = Inr vest \<Longrightarrow> map_of vest a = Some (tot, s, c, d) \<Longrightarrow>
   0 \<le> tot \<and> 0 \<le> s \<and> 0 \<le> c \<and> 0 \<le> d \<and> tot \<le> dget bal (PStr a) 0 + dget stk a 0"
proof (induction gr arbitrary: vest)
  case (Cons p gr)
  obtain k g where p: "p = (k, g)" by fastforce
  from Cons.prems(1) obtain v where g: "length g = 4" "list_all is_units g"
    "the_int (g ! 0) \<le> dget bal (PStr k) 0 + dget stk k 0"
    and v: "init_vesting gr bal stk = Inr v"
      "vest = (k, (the_int (g ! 0), the_int (g ! 1), the_int (g ! 2), the_int (g ! 3))) # v"
    by (auto simp: p rbind_eq_Inr split: if_splits)
  have "is_units (g ! i)" if "i < 4" for i using g(1,2) that by (simp add: list_all_length)
  then have "0 \<le> the_int (g ! i)" if "i < 4" for i using that by (fastforce simp: is_units_iff)
  with g(3) Cons.IH [OF v(1)] Cons.prems(2) show ?case by (auto simp: v(2) split: if_splits)
qed simp

lemma genesis_grants:
  assumes "pos_init E al is ts gr ub tr ep = Inr g" "map_of (vesting g) a = Some (tot, s, c, d)"
  shows "0 \<le> tot \<and> 0 \<le> s \<and> 0 \<le> c \<and> 0 \<le> d"
    "tot \<le> dget (balances g) (PStr a) 0 + dget (stakes (pos g)) a 0"
proof -
  from assms(1) obtain bal stk where v: "init_vesting gr bal stk = Inr (vesting g)"
    and b: "balances g = (case tr of None \<Rightarrow> bal | Some t \<Rightarrow> dsetdefault bal (PStr t) 0)"
    and s: "stakes (pos g) = stk"
    by (rule pos_init_Inr) simp
  have "dget (balances g) (PStr a) 0 = dget bal (PStr a) 0"
    by (auto simp: b split: option.splits)
  with init_vesting_Inr [OF v assms(2)] s
  show "0 \<le> tot \<and> 0 \<le> s \<and> 0 \<le> c \<and> 0 \<le> d"
    "tot \<le> dget (balances g) (PStr a) 0 + dget (stakes (pos g)) a 0" by simp_all
qed

lemma reachable_grants: "pos_reachable E g st \<Longrightarrow> grants_ok st \<and> vesting st = vesting g"
proof (induction rule: pos_reachable_induct)
  case (genesis al "is" ts gr ub tr ep)
  then show ?case using genesis_grants(1) [OF genesis] unfolding grants_ok_def by blast
qed (simp add: grants_ok_def submit_block_fixed)

text \<open>The whole chain: the locked part of a grant is still there.\<close>

definition chain_holding :: "pos_chain \<Rightarrow> string \<Rightarrow> int" where
  "chain_holding st a = dget (balances st) (PStr a) 0 + stake_of st a + unbonding_of st a"

lemma chain_holding_start: "holding (start_work (pos_hooks E) st) a = chain_holding st a"
  by (simp add: holding_def chain_holding_def bonded_def start_work_def pos_hooks_def pos_snapshot_aux_def
      stake_of_def unbonding_of_def)

lemma submit_block_vesting:
  assumes "submit_block E (pos_hooks E) st b = Inr st'" "pos_inv st" "heights_ok (chain st)" "grants_ok st"
    and grant: "map_of (vesting st) a = Some (tot, s, c, d)"
    and kept: "locked tot s c d (the_int (index (head st))) \<le> chain_holding st a"
    and no_exit: "\<And>tx. tx \<in> set (transactions b) \<Longrightarrow> \<not> unvested_exit E a tx"
  shows "locked tot s c d (the_int (index b)) \<le> chain_holding st' a"
proof -
  let ?w = "start_work (pos_hooks E) st"
  from assms(1) obtain w1 w2 where
    w1: "pos_apply_block_pre E st b ?w = Inr w1"
    and w2: "apply_txs E (pos_hooks E) st b [] w1 (transactions b) = Inr w2"
    and st': "st' = st\<lparr>balances := w_balances w2, nonces := w_nonces w2, chain := chain st @ [b],
              pos := (w_aux w2)\<lparr>justified_parent := []\<rparr>\<rparr>"
    by (rule pos_submit_Inr)
  have inv: "pos_winv ?w" using assms(2) by (simp add: pos_winv_start)
  have "the_int (index (head st)) \<le> the_int (index b)"
    using accepted_index(2) [OF assms(1)] heights_ok_last [OF assms(3)] by (simp add: head_def)
  then have "locked tot s c d (the_int (index b)) \<le> locked tot s c d (the_int (index (head st)))"
    using assms(4) grant by (intro locked_antimono) (auto simp: grants_ok_def)
  moreover have "holding w1 a = holding ?w a"
  proof -
    obtain bal unb where m: "mature (the_int (index b)) (unbonding (w_aux ?w)) (w_balances ?w) = (bal, unb)"
      by fastforce
    moreover have "wf_dict (unbonding (w_aux ?w))" using inv by (simp add: pos_winv_def)
    ultimately show ?thesis
      using mature_balance [OF m, of a] w1
      by (auto simp: pos_apply_block_pre_def Let_def holding_def bonded_def split: if_splits)
  qed
  ultimately have "locked tot s c d (the_int (index b)) \<le> holding w1 a"
    using kept by (simp add: chain_holding_start)
  from apply_txs_vesting [OF w2 _ grant this no_exit] pos_pre_keeps [OF w1 inv]
  show ?thesis
    by (simp add: st' holding_def chain_holding_def bonded_def stake_of_def unbonding_of_def)
qed

lemma reachable_vesting:
  "pos_reachable E g st \<Longrightarrow> map_of (vesting st) a = Some (tot, s, c, d) \<Longrightarrow>
   (\<And>tx. tx \<in> set (history st) \<Longrightarrow> \<not> unvested_exit E a tx) \<Longrightarrow>
   locked tot s c d (the_int (index (head st))) \<le> chain_holding st a"
proof (induction rule: pos_reachable_induct)
  case (genesis al "is" ts gr ub tr ep)
  note gr = genesis_grants [OF genesis(1,2)]
  from genesis(1) have "unbonding (pos g) = []" by (rule pos_init_Inr) simp
  then have "chain_holding g a = dget (balances g) (PStr a) 0 + dget (stakes (pos g)) a 0"
    by (simp add: chain_holding_def stake_of_def unbonding_of_def unbonding_total_def)
  moreover have "0 \<le> vested tot s c d (the_int (index (head g)))"
    using gr(1) by (intro vested_bounds) auto
  ultimately show ?case using gr(2) by (simp add: locked_def)
next
  case (step st b st')
  have ch: "chain st' = chain st @ [b]" by (rule pos.submit_block_chain [OF step(2)])
  have grant: "map_of (vesting st) a = Some (tot, s, c, d)"
    using step.prems(1) submit_block_fixed(1) [OF step(2)] by simp
  have hist: "history st' = history st @ transactions b" by (simp add: history_def ch)
  have "locked tot s c d (the_int (index (head st))) \<le> chain_holding st a"
    by (rule step.IH [OF grant]) (simp add: step.prems(2) hist)
  then have "locked tot s c d (the_int (index b)) \<le> chain_holding st' a"
    using step.prems(2) reachable_inv [OF step(1)] reachable_heights [OF step(1)] reachable_grants [OF step(1)]
    by (intro submit_block_vesting [OF step(2) _ _ _ grant]) (auto simp: hist)
  then show ?case by (simp add: head_def ch)
qed

end
