(* ===== verification/Fork_Choice.thy ===== *)
theory Fork_Choice
  imports Stake_Rules
begin

text \<open>
  The block tree of \<open>forkchoice.py\<close>. Every accepted block is a node; the state at a node is what
  replaying its branch from genesis gives. The loops that walk up the tree take fuel and return
  \<open>None\<close> when it runs out; the fuel given is one more than the number of blocks, and on a tree
  that \<open>add_block\<close> built it never runs out. \<open>add_block\<close> returns the tree beside the result, for
  it may raise after it has changed the tree.

  Shown, for every tree built by \<open>add_block\<close>: the canonical chain kept incrementally is the one a
  replay gives, the head is the best of the branches that contain the finalized block, finality is
  never reverted, the trusted checkpoint is respected, and an error leaves the tree as it was; in
  particular the conflicting-finality error is never raised.
\<close>

section \<open>Model\<close>

record block_tree =
  genesis_args :: genesis_args
  canonical :: pos_chain
  genesis_hash :: string
  head_hash :: string
  ws_checkpoint :: "(string \<times> int) option"
  finalized_hash :: string
  finalized_height :: int
  blocks :: "(string \<times> block) list"
  parent :: "(string \<times> string) list"
  weight :: "(string \<times> int) list"
  height :: "(string \<times> int) list"

definition block_tree_init :: "env \<Rightarrow> genesis_args \<Rightarrow> (string \<times> int) option \<Rightarrow> block_tree res" where
  "block_tree_init E args checkpoint =
     rbind (new_chain E args) (\<lambda>c.
     let g = block_hash E (head c)
     in Inr \<lparr>genesis_args = args, canonical = c, genesis_hash = g, head_hash = g,
             ws_checkpoint = checkpoint, finalized_hash = g, finalized_height = 0,
             blocks = [], parent = [], weight = [(g, 0)], height = [(g, 0)]\<rparr>)"

text \<open>The walk of \<open>chain_at\<close> from a block to genesis; the last argument is the reversed path.\<close>

primrec path_to :: "nat \<Rightarrow> block_tree \<Rightarrow> string \<Rightarrow> string list \<Rightarrow> string list res option" where
  "path_to 0 t h path = None"
| "path_to (Suc n) t h path =
     (if h = genesis_hash t then Some (Inr path)
      else case map_of (parent t) h of
             None \<Rightarrow> Some (Inl (ValidationError ''unknown block''))
           | Some p \<Rightarrow> path_to n t p (h # path))"

primrec replay_path :: "env \<Rightarrow> block_tree \<Rightarrow> pos_chain \<Rightarrow> string list \<Rightarrow> pos_chain res" where
  "replay_path E t st [] = Inr st"
| "replay_path E t st (h # hs) =
     rbind (dlookup (blocks t) h) (\<lambda>b.
     rbind (submit_block E (pos_hooks E) st b) (\<lambda>st'. replay_path E t st' hs))"

definition tree_fuel :: "block_tree \<Rightarrow> nat" where
  "tree_fuel t = Suc (length (parent t))"

definition chain_at :: "env \<Rightarrow> block_tree \<Rightarrow> string \<Rightarrow> pos_chain res option" where
  "chain_at E t h =
     (case path_to (tree_fuel t) t h [] of
        None \<Rightarrow> None
      | Some r \<Rightarrow> Some (rbind r (\<lambda>path.
          rbind (new_chain E (genesis_args t)) (\<lambda>g. replay_path E t g path))))"

primrec descends_loop :: "nat \<Rightarrow> block_tree \<Rightarrow> string \<Rightarrow> bool option" where
  "descends_loop 0 t cur = None"
| "descends_loop (Suc n) t cur =
     (if finalized_height t < dget (height t) cur 0
      then (case map_of (parent t) cur of None \<Rightarrow> Some False | Some p \<Rightarrow> descends_loop n t p)
      else Some (cur = finalized_hash t))"

definition descends_from_finalized :: "block_tree \<Rightarrow> string \<Rightarrow> bool option" where
  "descends_from_finalized t h = descends_loop (tree_fuel t) t h"

definition better :: "block_tree \<Rightarrow> string \<Rightarrow> string \<Rightarrow> bool res" where
  "better t a b =
     rbind (dlookup (weight t) a) (\<lambda>wa. rbind (dlookup (weight t) b) (\<lambda>wb.
       Inr (if wa \<noteq> wb then wb < wa else a < b)))"

text \<open>The loop of \<open>_update_head\<close> over the keys of \<open>weight\<close>.\<close>

primrec best_leaf :: "block_tree \<Rightarrow> string list \<Rightarrow> string \<Rightarrow> string res option" where
  "best_leaf t [] best = Some (Inr best)"
| "best_leaf t (h # hs) best =
     (case descends_from_finalized t h of
        None \<Rightarrow> None
      | Some False \<Rightarrow> best_leaf t hs best
      | Some True \<Rightarrow>
          (case better t h best of
             Inl e \<Rightarrow> Some (Inl e)
           | Inr b \<Rightarrow> best_leaf t hs (if b then h else best)))"

definition update_head :: "env \<Rightarrow> block_tree \<Rightarrow> (block_tree \<times> unit res) option" where
  "update_head E t =
     (case best_leaf t (map fst (weight t)) (finalized_hash t) of
        None \<Rightarrow> None
      | Some (Inl e) \<Rightarrow> Some (t, Inl e)
      | Some (Inr best) \<Rightarrow>
          if best = head_hash t then Some (t, Inr ())
          else let t' = t\<lparr>head_hash := best\<rparr>
          in (case chain_at E t' best of
                None \<Rightarrow> None
              | Some (Inl e) \<Rightarrow> Some (t', Inl e)
              | Some (Inr c) \<Rightarrow> Some (t'\<lparr>canonical := c\<rparr>, Inr ())))"

text \<open>\<open>stake_of(block.validator)\<close>: the validator of a block may be any value.\<close>

definition stake_of_val :: "pos_chain \<Rightarrow> pyval \<Rightarrow> int res" where
  "stake_of_val st v =
     rbind (hash_key v) (\<lambda>k. Inr (case k of PStr a \<Rightarrow> stake_of st a | _ \<Rightarrow> 0))"

text \<open>The parent of a block, if the tree has it.\<close>

definition known_parent :: "block_tree \<Rightarrow> block \<Rightarrow> string res" where
  "known_parent t b =
     rbind (hash_key (previous_hash b)) (\<lambda>k.
       case k of PStr ph \<Rightarrow> (if dhas (weight t) ph then Inr ph
                             else Inl (ValidationError ''unknown parent (orphan block)''))
       | _ \<Rightarrow> Inl (ValidationError ''unknown parent (orphan block)''))"

text \<open>The finality guard and the weak-subjectivity check.\<close>

definition check_frontier :: "block_tree \<Rightarrow> string \<Rightarrow> string \<Rightarrow> int \<Rightarrow> unit res option" where
  "check_frontier t bh ph new_height =
     (if new_height \<le> finalized_height t \<and> bh \<noteq> finalized_hash t
      then Some (Inl (ValidationError ''block conflicts with the finalized prefix''))
      else case (if finalized_height t < new_height then descends_from_finalized t ph else Some True) of
        None \<Rightarrow> None
      | Some False \<Rightarrow> Some (Inl (ValidationError ''block does not descend from the finalized checkpoint''))
      | Some True \<Rightarrow>
          (case ws_checkpoint t of
             Some (ch, n) \<Rightarrow>
               if new_height = n \<and> bh \<noteq> ch
               then Some (Inl (ValidationError ''block conflicts with the weak-subjectivity checkpoint''))
               else Some (Inr ())
           | None \<Rightarrow> Some (Inr ())))"

text \<open>The proposer's stake at the parent, and the chain with the block applied.\<close>

definition validate_on :: "env \<Rightarrow> pos_chain \<Rightarrow> block \<Rightarrow> (int \<times> pos_chain) res" where
  "validate_on E st b =
     rbind (stake_of_val st (validator b)) (\<lambda>s.
     rbind (submit_block E (pos_hooks E) st b) (\<lambda>st'. Inr (s, st')))"

definition insert_block :: "block_tree \<Rightarrow> string \<Rightarrow> string \<Rightarrow> block \<Rightarrow> int \<Rightarrow> int \<Rightarrow> block_tree" where
  "insert_block t bh ph b new_height stake =
     t\<lparr>blocks := AList.update bh b (blocks t), parent := AList.update bh ph (parent t),
       height := AList.update bh new_height (height t),
       weight := AList.update bh (dget (weight t) ph 0 + stake) (weight t)\<rparr>"

definition advance_finality :: "env \<Rightarrow> pos_chain \<Rightarrow> block_tree \<Rightarrow> block_tree res" where
  "advance_finality E validated t =
     (let (fh, fhgt) = finalized_checkpoint validated; branch = chain validated
      in if finalized_height t < fhgt
         then if finalized_height t < int (length branch) \<and>
                 block_hash E (branch ! nat (finalized_height t)) \<noteq> finalized_hash t
              then Inl (ValidationError ''conflicting finality'')
              else Inr (t\<lparr>finalized_hash := fh, finalized_height := fhgt\<rparr>)
         else Inr t)"

text \<open>What \<open>add_block\<close> does once the block is validated.\<close>

definition store_block ::
  "env \<Rightarrow> block_tree \<Rightarrow> string \<Rightarrow> string \<Rightarrow> block \<Rightarrow> int \<Rightarrow> bool \<Rightarrow> int \<times> pos_chain
   \<Rightarrow> (block_tree \<times> bool res) option" where
  "store_block E t bh ph b new_height extends = (\<lambda>(stake, validated).
     let t1 = insert_block (if extends then t\<lparr>canonical := validated\<rparr> else t) bh ph b new_height stake
     in case advance_finality E validated t1 of
          Inl e \<Rightarrow> Some (t1, Inl e)
        | Inr t2 \<Rightarrow>
            if extends then Some (t2\<lparr>head_hash := bh\<rparr>, Inr True)
            else (case update_head E t2 of
                    None \<Rightarrow> None
                  | Some (t3, r) \<Rightarrow> Some (t3, rbind r (\<lambda>_. Inr True))))"

definition add_block :: "env \<Rightarrow> block_tree \<Rightarrow> block \<Rightarrow> (block_tree \<times> bool res) option" where
  "add_block E t b =
     (let bh = block_hash E b
      in if dhas (weight t) bh then Some (t, Inr False)
      else case rbind (known_parent t b) (\<lambda>ph. rbind (dlookup (height t) ph) (\<lambda>hp. Inr (ph, hp + 1))) of
        Inl e \<Rightarrow> Some (t, Inl e)
      | Inr (ph, new_height) \<Rightarrow>
          (case check_frontier t bh ph new_height of
             None \<Rightarrow> None
           | Some (Inl e) \<Rightarrow> Some (t, Inl e)
           | Some (Inr u) \<Rightarrow>
               let extends = (ph = head_hash t)
               in (case (if extends then Some (Inr (canonical t)) else chain_at E t ph) of
                     None \<Rightarrow> None
                   | Some r \<Rightarrow>
                       (case rbind r (\<lambda>st. validate_on E st b) of
                          Inl e \<Rightarrow> Some (t, Inl e)
                        | Inr sv \<Rightarrow> store_block E t bh ph b new_height extends sv))))"

section \<open>Replaying a branch\<close>

text \<open>The state at a node, as a relation that does not run.\<close>

inductive replay :: "env \<Rightarrow> block_tree \<Rightarrow> string \<Rightarrow> pos_chain \<Rightarrow> bool" for E t where
  replay_genesis: "new_chain E (genesis_args t) = Inr g \<Longrightarrow> replay E t (genesis_hash t) g"
| replay_step: "replay E t p st \<Longrightarrow> h \<noteq> genesis_hash t \<Longrightarrow> map_of (parent t) h = Some p \<Longrightarrow>
    map_of (blocks t) h = Some b \<Longrightarrow> submit_block E (pos_hooks E) st b = Inr st' \<Longrightarrow> replay E t h st'"

inductive_cases replayE: "replay E t h st"

lemma replay_det: "replay E t h st \<Longrightarrow> replay E t h st' \<Longrightarrow> st' = st"
proof (induction arbitrary: st' rule: replay.induct)
  case (replay_genesis g)
  from replay_genesis(2) show ?case
    by (rule replayE) (use replay_genesis(1) in auto)
next
  case (replay_step p st h b st1)
  from replay_step.prems replay_step.hyps
  obtain st0 where "replay E t p st0" "submit_block E (pos_hooks E) st0 b = Inr st'"
    by (auto elim: replayE)
  with replay_step.IH replay_step.hyps(5) show ?case by fastforce
qed

lemma replay_reachable: "replay E t h st \<Longrightarrow> \<exists>g. new_chain E (genesis_args t) = Inr g \<and> pos_reachable E g st"
  by (induction rule: replay.induct) (blast intro: new_chain_reachable pos_reachable_step)+

lemma replay_inv:
  assumes "replay E t h st"
  shows "pos_inv st" "heights_ok (chain st)" "ffg_inv E (epoch st) (chain st) (pos st)" "chain st \<noteq> []"
  using replay_reachable [OF assms] reachable_inv reachable_heights reachable_ffg reachable_links(1) by blast+

lemma replay_chain_at:
  "replay E t h st \<Longrightarrow> \<exists>p. (\<forall>n acc. length (chain st) \<le> n \<longrightarrow> path_to n t h acc = Some (Inr (p @ acc))) \<and>
     (\<forall>g. new_chain E (genesis_args t) = Inr g \<longrightarrow> replay_path E t g p = Inr st)"
proof (induction rule: replay.induct)
  case (replay_genesis g)
  have "chain g \<noteq> []" using replay_inv(4) [OF replay.replay_genesis [OF replay_genesis]] .
  then have "path_to n t (genesis_hash t) acc = Some (Inr acc)" if "length (chain g) \<le> n" for n acc
    using that by (cases n) auto
  then show ?case using replay_genesis by (intro exI [of _ "[]"]) simp
next
  case (replay_step p st h b st')
  then obtain pp where path: "\<And>n acc. length (chain st) \<le> n \<Longrightarrow> path_to n t p acc = Some (Inr (pp @ acc))"
    and rep: "\<And>g. new_chain E (genesis_args t) = Inr g \<Longrightarrow> replay_path E t g pp = Inr st" by blast
  have "length (chain st') = Suc (length (chain st))"
    using pos.submit_block_chain [OF replay_step(5)] by simp
  then have "path_to n t h acc = Some (Inr ((pp @ [h]) @ acc))" if "length (chain st') \<le> n" for n acc
    using that path replay_step(2,3) by (cases n) auto
  moreover have "replay_path E t g0 (xs @ [h]) = rbind (replay_path E t g0 xs) (\<lambda>st. replay_path E t st [h])" for g0 xs
    by (induction xs arbitrary: g0) (simp_all add: rbind_assoc)
  then have "replay_path E t g (pp @ [h]) = Inr st'" if "new_chain E (genesis_args t) = Inr g" for g
    using rep [OF that] replay_step(4,5) by (simp add: dlookup_def)
  ultimately show ?case by blast
qed

text \<open>Every prefix of a branch is the branch of its last block.\<close>

lemma replay_prefix:
  "replay E t h st \<Longrightarrow> (\<And>g. new_chain E (genesis_args t) = Inr g \<Longrightarrow> genesis_hash t = block_hash E (head g)) \<Longrightarrow>
   (\<And>h b. map_of (blocks t) h = Some b \<Longrightarrow> h = block_hash E b) \<Longrightarrow> k < length (chain st) \<Longrightarrow>
   \<exists>st0. replay E t (block_hash E (chain st ! k)) st0 \<and> chain st0 = take (Suc k) (chain st)"
proof (induction rule: replay.induct)
  case (replay_genesis g)
  then obtain b where g: "chain g = [b]"
    by (cases "genesis_args t") (auto simp: new_chain_def elim!: pos_init_Inr)
  with replay_genesis have "block_hash E (chain g ! k) = genesis_hash t" by (simp add: head_def)
  with replay.replay_genesis [OF replay_genesis(1)] g replay_genesis(4) show ?case by force
next
  case (replay_step p st h b st')
  have ch: "chain st' = chain st @ [b]" by (rule pos.submit_block_chain [OF replay_step(5)])
  show ?case
  proof (cases "k < length (chain st)")
    case True
    from replay_step.IH [OF replay_step.prems(1,2) True] True show ?thesis
      by (simp add: ch nth_append)
  next
    case False
    with replay_step.prems(3) have "k = length (chain st)" by (simp add: ch)
    moreover have "h = block_hash E b" by (rule replay_step.prems(2) [OF replay_step(4)])
    ultimately show ?thesis
      using replay.replay_step [OF replay_step(1-5)] by (auto simp: ch)
  qed
qed

text \<open>Adding a node under a fresh key leaves the other branches as they are.\<close>

lemma replay_mono:
  assumes "replay E t h st" "genesis_args t' = genesis_args t" "genesis_hash t' = genesis_hash t"
    and "\<And>h p. map_of (parent t) h = Some p \<Longrightarrow> map_of (parent t') h = Some p"
    and "\<And>h b. map_of (blocks t) h = Some b \<Longrightarrow> map_of (blocks t') h = Some b"
  shows "replay E t' h st"
  using assms(1)
proof (induction rule: replay.induct)
  case (replay_genesis g)
  with assms(2,3) show ?case using replay.replay_genesis [of E t' g] by simp
next
  case (replay_step p st h b st')
  with assms show ?case by (metis replay.replay_step)
qed

section \<open>The invariant of the tree\<close>

text \<open>\<open>preferred t a b\<close>: a wins against \<open>b\<close> or is \<open>b\<close>.\<close>

definition preferred :: "block_tree \<Rightarrow> string \<Rightarrow> string \<Rightarrow> bool" where
  "preferred t a b \<longleftrightarrow> dget (weight t) b 0 < dget (weight t) a 0 \<or>
     dget (weight t) a 0 = dget (weight t) b 0 \<and> a \<le> b"

text \<open>A node whose branch contains the finalized block.\<close>

definition eligible :: "env \<Rightarrow> block_tree \<Rightarrow> string \<Rightarrow> bool" where
  "eligible E t h \<longleftrightarrow> dhas (weight t) h \<and>
     (\<exists>st. replay E t h st \<and> on_chain E (chain st) (finalized_hash t) (finalized_height t))"

text \<open>The trusted checkpoint lets a block of this hash stand at this height.\<close>

definition ws_allows :: "block_tree \<Rightarrow> string \<Rightarrow> int \<Rightarrow> bool" where
  "ws_allows t bh n \<longleftrightarrow> (case ws_checkpoint t of None \<Rightarrow> True | Some (ch, m) \<Rightarrow> n = m \<longrightarrow> bh = ch)"

definition nodes_ok :: "env \<Rightarrow> block_tree \<Rightarrow> bool" where
  "nodes_ok E t \<longleftrightarrow>
     (\<exists>g. new_chain E (genesis_args t) = Inr g \<and> genesis_hash t = block_hash E (head g)) \<and>
     dhas (weight t) (genesis_hash t) \<and> (\<forall>h. dhas (weight t) h = dhas (height t) h) \<and>
     (\<forall>h p. map_of (parent t) h = Some p \<longrightarrow> dhas (weight t) h \<and> dhas (weight t) p) \<and>
     (\<forall>h b. map_of (blocks t) h = Some b \<longrightarrow> dhas (weight t) h \<and> h = block_hash E b) \<and>
     (\<forall>h. dhas (weight t) h \<longrightarrow> (\<exists>st. replay E t h st \<and> block_hash E (head st) = h \<and>
        dget (height t) h 0 = int (length (chain st)) - 1 \<and> length (chain st) \<le> tree_fuel t)) \<and>
     (\<forall>h. dhas (weight t) h \<longrightarrow> h \<noteq> genesis_hash t \<longrightarrow> ws_allows t h (dget (height t) h 0))"

definition frontier_ok :: "env \<Rightarrow> block_tree \<Rightarrow> bool" where
  "frontier_ok E t \<longleftrightarrow> dhas (weight t) (finalized_hash t) \<and> 0 \<le> finalized_height t \<and>
     dget (height t) (finalized_hash t) 0 = finalized_height t"

definition head_ok :: "env \<Rightarrow> block_tree \<Rightarrow> bool" where
  "head_ok E t \<longleftrightarrow> replay E t (head_hash t) (canonical t) \<and> eligible E t (head_hash t) \<and>
     (\<forall>h. eligible E t h \<longrightarrow> preferred t (head_hash t) h)"

definition tree_ok :: "env \<Rightarrow> block_tree \<Rightarrow> bool" where
  "tree_ok E t \<longleftrightarrow> nodes_ok E t \<and> frontier_ok E t \<and> head_ok E t"

lemma nodes_okD:
  assumes "nodes_ok E t" "dhas (weight t) h"
  obtains st where "replay E t h st" "block_hash E (head st) = h"
    "dget (height t) h 0 = int (length (chain st)) - 1" "length (chain st) \<le> tree_fuel t"
    "chain_at E t h = Some (Inr st)"
proof -
  from assms obtain st where st: "replay E t h st" "block_hash E (head st) = h"
    "dget (height t) h 0 = int (length (chain st)) - 1" "length (chain st) \<le> tree_fuel t"
    unfolding nodes_ok_def by blast
  from assms(1) obtain g where g: "new_chain E (genesis_args t) = Inr g" unfolding nodes_ok_def by blast
  from replay_chain_at [OF st(1)] obtain p where
    "path_to (tree_fuel t) t h [] = Some (Inr p)" "replay_path E t g p = Inr st"
    using st(4) g by force
  then have "chain_at E t h = Some (Inr st)" by (simp add: chain_at_def g)
  with st that show ?thesis by blast
qed

lemma nodes_ok_maps:
  assumes "nodes_ok E t"
  shows "dhas (weight t) (genesis_hash t)" "dhas (height t) h = dhas (weight t) h"
    "map_of (parent t) h = Some p \<Longrightarrow> dhas (weight t) h \<and> dhas (weight t) p"
    "map_of (blocks t) h = Some b \<Longrightarrow> dhas (weight t) h \<and> h = block_hash E b"
  using assms unfolding nodes_ok_def by blast+

lemma nodes_ok_ws: "nodes_ok E t \<Longrightarrow> dhas (weight t) h \<Longrightarrow> h \<noteq> genesis_hash t \<Longrightarrow> ws_allows t h (dget (height t) h 0)"
  unfolding nodes_ok_def by blast

lemma replay_dhas: "nodes_ok E t \<Longrightarrow> replay E t h st \<Longrightarrow> dhas (weight t) h"
  by (erule replayE) (auto simp: nodes_ok_def)

lemma node_facts:
  assumes "nodes_ok E t" "replay E t h st"
  shows "block_hash E (head st) = h" "dget (height t) h 0 = int (length (chain st)) - 1"
    "length (chain st) \<le> tree_fuel t" "chain_at E t h = Some (Inr st)"
proof -
  obtain st' where st': "replay E t h st'" "block_hash E (head st') = h"
    "dget (height t) h 0 = int (length (chain st')) - 1" "length (chain st') \<le> tree_fuel t"
    "chain_at E t h = Some (Inr st')"
    by (rule nodes_okD [OF assms(1) replay_dhas [OF assms]])
  moreover have "st' = st" by (rule replay_det [OF assms(2) st'(1)])
  ultimately show "block_hash E (head st) = h" "dget (height t) h 0 = int (length (chain st)) - 1"
    "length (chain st) \<le> tree_fuel t" "chain_at E t h = Some (Inr st)" by simp_all
qed

lemma node_prefix:
  assumes "nodes_ok E t" "replay E t h st" "on_chain E (chain st) a n"
  obtains st0 where "replay E t a st0" "chain st0 = take (Suc (nat n)) (chain st)"
proof -
  have "nat n < length (chain st)" "block_hash E (chain st ! nat n) = a"
    using assms(3) by (auto simp: on_chain_def)
  then show ?thesis
    using replay_prefix [OF assms(2), of "nat n"] assms(1) that by (force simp: nodes_ok_def)
qed

text \<open>The walk of \<open>_descends_from_finalized\<close> decides eligibility.\<close>

lemma descends_here:
  assumes "nodes_ok E t" "frontier_ok E t" "replay E t h st"
    and "\<not> finalized_height t < dget (height t) h 0"
  shows "h = finalized_hash t \<longleftrightarrow> on_chain E (chain st) (finalized_hash t) (finalized_height t)"
proof (cases "dget (height t) h 0 = finalized_height t")
  case True
  note facts = node_facts [OF assms(1,3)]
  have "chain st \<noteq> []" by (rule replay_inv(4) [OF assms(3)])
  moreover from this have "nat (finalized_height t) = length (chain st) - 1"
    using True facts(2) by (simp add: nat_diff_distrib)
  ultimately show ?thesis
    using True facts(1,2) assms(2)
    by (auto simp: frontier_ok_def on_chain_def head_def last_conv_nth Suc_leI)
next
  case False
  then have "h \<noteq> finalized_hash t" using assms(2) by (auto simp: frontier_ok_def)
  moreover have "\<not> on_chain E (chain st) (finalized_hash t) (finalized_height t)"
    using False assms(4) node_facts(2) [OF assms(1,3)] by (auto simp: on_chain_def)
  ultimately show ?thesis by simp
qed

lemma descends_loop_eq:
  "replay E t h st \<Longrightarrow> nodes_ok E t \<Longrightarrow> frontier_ok E t \<Longrightarrow> length (chain st) \<le> n \<Longrightarrow>
   descends_loop n t h = Some (on_chain E (chain st) (finalized_hash t) (finalized_height t))"
proof (induction arbitrary: n rule: replay.induct)
  case (replay_genesis g)
  note rep = replay.replay_genesis [OF replay_genesis(1)]
  have len: "dget (height t) (genesis_hash t) 0 = 0"
    using node_facts(2) [OF replay_genesis(2) rep] replay_genesis(1)
    by (cases "genesis_args t") (auto simp: new_chain_def elim!: pos_init_Inr)
  with descends_here [OF replay_genesis(2,3) rep] replay_genesis(3,4) replay_inv(4) [OF rep]
  show ?case by (cases n) (auto simp: frontier_ok_def)
next
  case (replay_step p st h b st')
  note rep = replay.replay_step [OF replay_step.hyps]
  have ch: "chain st' = chain st @ [b]" by (rule pos.submit_block_chain [OF replay_step.hyps(5)])
  with replay_step.prems(3) obtain m where n: "n = Suc m" "length (chain st) \<le> m" by (cases n) auto
  show ?case
  proof (cases "finalized_height t < dget (height t) h 0")
    case True
    then have "nat (finalized_height t) < length (chain st)"
      using node_facts(2) [OF replay_step.prems(1) rep] replay_step.prems(2)
      by (auto simp: ch frontier_ok_def)
    with True replay_step.IH [OF replay_step.prems(1,2) n(2)] replay_step.hyps(3) show ?thesis
      by (simp add: n ch on_chain_def nth_append)
  next
    case False
    with descends_here [OF replay_step.prems(1,2) rep] show ?thesis by (simp add: n)
  qed
qed

lemma descends_iff:
  assumes "nodes_ok E t" "frontier_ok E t" "dhas (weight t) h"
  shows "descends_from_finalized t h = Some (eligible E t h)"
proof -
  obtain st where st: "replay E t h st" "length (chain st) \<le> tree_fuel t"
    by (rule nodes_okD [OF assms(1,3)])
  then have "eligible E t h \<longleftrightarrow> on_chain E (chain st) (finalized_hash t) (finalized_height t)"
    unfolding eligible_def using assms(3) replay_det by blast
  with descends_loop_eq [OF st(1) assms(1,2) st(2)] show ?thesis
    by (simp add: descends_from_finalized_def)
qed

lemma finalized_eligible:
  assumes "nodes_ok E t" "frontier_ok E t"
  shows "eligible E t (finalized_hash t)"
proof -
  have h: "dhas (weight t) (finalized_hash t)" using assms(2) by (simp add: frontier_ok_def)
  obtain st where st: "replay E t (finalized_hash t) st" by (rule nodes_okD [OF assms(1) h])
  have "\<not> finalized_height t < dget (height t) (finalized_hash t) 0"
    using assms(2) by (simp add: frontier_ok_def)
  from descends_here [OF assms st this]
  have "on_chain E (chain st) (finalized_hash t) (finalized_height t)" by blast
  with st h show ?thesis unfolding eligible_def by blast
qed

section \<open>Choosing the head\<close>

lemma preferred_refl: "preferred t a a"
  by (simp add: preferred_def)

lemma preferred_trans: "preferred t a b \<Longrightarrow> preferred t b c \<Longrightarrow> preferred t a c"
  by (auto simp: preferred_def)

lemma better_eq:
  assumes "dhas (weight t) a" "dhas (weight t) b"
  shows "better t a b = Inr (\<not> preferred t b a)"
proof -
  obtain wa wb where "map_of (weight t) a = Some wa" "map_of (weight t) b = Some wb"
    using assms by (auto simp: dhas_iff_map_of)
  then show ?thesis by (auto simp: better_def dlookup_def preferred_def dget_map_of)
qed

lemma not_preferred: "\<not> preferred t b a \<Longrightarrow> preferred t a b"
  by (auto simp: preferred_def)

lemma best_leaf_spec:
  "nodes_ok E t \<Longrightarrow> frontier_ok E t \<Longrightarrow> (\<And>h. h \<in> set hs \<Longrightarrow> dhas (weight t) h) \<Longrightarrow> eligible E t best \<Longrightarrow>
   \<exists>r. best_leaf t hs best = Some (Inr r) \<and> eligible E t r \<and> preferred t r best \<and>
     (\<forall>h \<in> set hs. eligible E t h \<longrightarrow> preferred t r h)"
proof (induction hs arbitrary: best)
  case (Cons h hs)
  have h: "dhas (weight t) h" "descends_from_finalized t h = Some (eligible E t h)"
    using descends_iff [OF Cons.prems(1,2)] Cons.prems(3) by simp_all
  show ?case
  proof (cases "eligible E t h")
    case True
    let ?best = "if \<not> preferred t best h then h else best"
    have b: "better t h best = Inr (\<not> preferred t best h)"
      using h(1) Cons.prems(4) by (intro better_eq) (auto simp: eligible_def)
    have "eligible E t ?best" using True Cons.prems(4) by simp
    from Cons.IH [OF Cons.prems(1,2) _ this] Cons.prems(3) obtain r where
      r: "best_leaf t hs ?best = Some (Inr r)" "eligible E t r" "preferred t r ?best"
        "\<forall>h \<in> set hs. eligible E t h \<longrightarrow> preferred t r h" by auto
    have "preferred t ?best best" "preferred t ?best h"
      using not_preferred preferred_refl by auto
    with r(3) have "preferred t r best" "preferred t r h" by (blast intro: preferred_trans)+
    with r b h True show ?thesis by simp
  next
    case False
    with Cons.IH [OF Cons.prems(1,2) _ Cons.prems(4)] Cons.prems(3) h show ?thesis by auto
  qed
qed (simp add: preferred_refl)

text \<open>Head and canonical chain play no part in replaying.\<close>

lemma replay_head [simp]:
  "replay E (t\<lparr>head_hash := h\<rparr>) = replay E t" "replay E (t\<lparr>canonical := c\<rparr>) = replay E t"
  "replay E (t\<lparr>finalized_hash := h, finalized_height := n\<rparr>) = replay E t"
  by (intro ext iffI; erule replay_mono; simp)+

lemma chain_at_head [simp]:
  "chain_at E (t\<lparr>head_hash := h\<rparr>) = chain_at E t"
proof -
  have "path_to n (t\<lparr>head_hash := h\<rparr>) x acc = path_to n t x acc" for n x acc
    by (induction n arbitrary: x acc) (auto split: option.splits)
  moreover have "replay_path E (t\<lparr>head_hash := h\<rparr>) st p = replay_path E t st p" for st p
    by (induction p arbitrary: st) simp_all
  ultimately show ?thesis
    by (simp add: chain_at_def tree_fuel_def fun_eq_iff del: path_to.simps cong: option.case_cong)
qed

lemma ok_head [simp]:
  "nodes_ok E (t\<lparr>head_hash := h\<rparr>) = nodes_ok E t" "nodes_ok E (t\<lparr>canonical := c\<rparr>) = nodes_ok E t"
  "nodes_ok E (t\<lparr>finalized_hash := h, finalized_height := n\<rparr>) = nodes_ok E t"
  "frontier_ok E (t\<lparr>head_hash := h\<rparr>) = frontier_ok E t"
  "frontier_ok E (t\<lparr>canonical := c\<rparr>) = frontier_ok E t"
  "eligible E (t\<lparr>head_hash := h\<rparr>) = eligible E t" "eligible E (t\<lparr>canonical := c\<rparr>) = eligible E t"
  "preferred (t\<lparr>head_hash := h\<rparr>) = preferred t" "preferred (t\<lparr>canonical := c\<rparr>) = preferred t"
  "preferred (t\<lparr>finalized_hash := h, finalized_height := n\<rparr>) = preferred t"
  by (simp_all add: nodes_ok_def frontier_ok_def eligible_def [abs_def] preferred_def [abs_def] tree_fuel_def
      ws_allows_def)

lemma update_head_spec:
  assumes "nodes_ok E t" "frontier_ok E t" "replay E t (head_hash t) (canonical t)"
  shows "\<exists>h c. update_head E t = Some (t\<lparr>head_hash := h, canonical := c\<rparr>, Inr ()) \<and>
    tree_ok E (t\<lparr>head_hash := h, canonical := c\<rparr>)"
proof -
  have keys: "\<And>h. h \<in> set (map fst (weight t)) \<Longrightarrow> dhas (weight t) h" by (auto simp: dhas_def)
  obtain r where r: "best_leaf t (map fst (weight t)) (finalized_hash t) = Some (Inr r)" "eligible E t r"
    and best: "\<forall>h \<in> set (map fst (weight t)). eligible E t h \<longrightarrow> preferred t r h"
    using best_leaf_spec [OF assms(1,2) keys finalized_eligible [OF assms(1,2)]] by blast
  have r3: "preferred t r h" if "eligible E t h" for h
    using best that by (auto simp: eligible_def dhas_def)
  obtain c where c: "replay E t r c" "chain_at E t r = Some (Inr c)"
    using nodes_okD [OF assms(1), of r] r(2) by (auto simp: eligible_def)
  have "t\<lparr>head_hash := r, canonical := c\<rparr> = t" if "r = head_hash t"
    using replay_det [OF c(1)] assms(3) that by simp
  then have "update_head E t = Some (t\<lparr>head_hash := r, canonical := c\<rparr>, Inr ())"
    using r(1) c(2) by (auto simp: update_head_def Let_def)
  moreover have "tree_ok E (t\<lparr>head_hash := r, canonical := c\<rparr>)"
    using assms(1,2) c(1) r(2) r3 by (simp add: tree_ok_def head_ok_def)
  ultimately show ?thesis by blast
qed

section \<open>Adding a block\<close>

lemma nodes_ok_insert:
  fixes s :: int
  assumes ok: "nodes_ok E t" and new: "\<not> dhas (weight t) (block_hash E b)"
    and ph: "replay E t ph st" and sub: "submit_block E (pos_hooks E) st b = Inr st'"
    and ws: "ws_allows t (block_hash E b) (dget (height t) ph 0 + 1)"
  defines "t' \<equiv> insert_block t (block_hash E b) ph b (dget (height t) ph 0 + 1) s"
  shows "nodes_ok E t'" "replay E t' (block_hash E b) st'" "\<And>h st. replay E t h st \<Longrightarrow> replay E t' h st"
proof -
  let ?bh = "block_hash E b"
  have fresh: "map_of (parent t) ?bh = None" "map_of (blocks t) ?bh = None" "?bh \<noteq> genesis_hash t"
    using nodes_ok_maps [OF ok] new by (metis not_None_eq)+
  then have len: "tree_fuel t' = Suc (tree_fuel t)"
    by (simp add: t'_def insert_block_def tree_fuel_def length_update_new dhas_iff_map_of)
  show mono: "replay E t' h st" if "replay E t h st" for h st
    by (rule replay_mono [OF that]) (use fresh in \<open>auto simp: t'_def insert_block_def update_conv'\<close>)
  show rep: "replay E t' ?bh st'"
    by (rule replay_step [OF mono [OF ph] _ _ _ sub]) (use fresh in \<open>simp_all add: t'_def insert_block_def update_conv'\<close>)
  have dom: "dhas (weight t') h \<longleftrightarrow> h = ?bh \<or> dhas (weight t) h" for h
    by (simp add: t'_def insert_block_def)
  have ch: "chain st' = chain st @ [b]" by (rule pos.submit_block_chain [OF sub])
  note facts = node_facts [OF ok ph]
  have "\<exists>st. replay E t' h st \<and> block_hash E (head st) = h \<and>
        dget (height t') h 0 = int (length (chain st)) - 1 \<and> length (chain st) \<le> tree_fuel t'"
    if "dhas (weight t') h" for h
  proof (cases "h = ?bh")
    case True
    with rep facts ch show ?thesis
      by (intro exI [of _ st']) (simp add: len head_def, simp add: t'_def insert_block_def)
  next
    case False
    with that dom have "dhas (weight t) h" by simp
    then obtain st0 where "replay E t h st0" "block_hash E (head st0) = h"
      "dget (height t) h 0 = int (length (chain st0)) - 1" "length (chain st0) \<le> tree_fuel t"
      by (rule nodes_okD [OF ok])
    with mono False show ?thesis
      by (intro exI [of _ st0]) (simp add: len, simp add: t'_def insert_block_def)
  qed
  moreover have "dhas (weight t) ph" by (rule replay_dhas [OF ok ph])
  moreover have "ws_allows t' h (dget (height t') h 0)" if "dhas (weight t') h" "h \<noteq> genesis_hash t'" for h
    using that ws nodes_ok_ws [OF ok, of h] by (auto simp: t'_def insert_block_def ws_allows_def)
  moreover have "\<exists>g. new_chain E (genesis_args t') = Inr g \<and> genesis_hash t' = block_hash E (head g)"
    using ok by (auto simp: nodes_ok_def t'_def insert_block_def)
  moreover have "dhas (weight t') (genesis_hash t')" "dhas (weight t') h = dhas (height t') h" for h
    using nodes_ok_maps(1,2) [OF ok] by (simp_all add: t'_def insert_block_def)
  moreover have "map_of (parent t') h = Some p \<longrightarrow> dhas (weight t') h \<and> dhas (weight t') p" for h p
    using nodes_ok_maps(3) [OF ok] \<open>dhas (weight t) ph\<close> by (auto simp: t'_def insert_block_def update_conv')
  moreover have "map_of (blocks t') h = Some c \<longrightarrow> dhas (weight t') h \<and> h = block_hash E c" for h c
    using nodes_ok_maps(4) [OF ok] by (auto simp: t'_def insert_block_def update_conv')
  ultimately show "nodes_ok E t'" unfolding nodes_ok_def by blast
qed

lemma eligible_insert:
  fixes s :: int
  assumes "nodes_ok E t" "\<not> dhas (weight t) (block_hash E b)" "replay E t ph st"
    "submit_block E (pos_hooks E) st b = Inr st'"
    "ws_allows t (block_hash E b) (dget (height t) ph 0 + 1)"
  defines "t' \<equiv> insert_block t (block_hash E b) ph b (dget (height t) ph 0 + 1) s"
  assumes "eligible E t' h" "h \<noteq> block_hash E b"
  shows "eligible E t h"
proof -
  note ins = nodes_ok_insert [OF assms(1-5), where s = s, folded t'_def]
  from assms(7) obtain st0 where st0: "replay E t' h st0"
    "on_chain E (chain st0) (finalized_hash t) (finalized_height t)" and "dhas (weight t') h"
    by (auto simp: eligible_def t'_def insert_block_def)
  with assms(8) have h: "dhas (weight t) h" by (simp add: t'_def insert_block_def)
  then obtain st1 where st1: "replay E t h st1" by (rule nodes_okD [OF assms(1)])
  have "st1 = st0" using replay_det [OF ins(3) [OF st1] st0(1)] by simp
  with st0(2) st1 h show ?thesis unfolding eligible_def by blast
qed

text \<open>
  The finality frontier advances along the validated branch: the new finalized block is on it, and
  every branch with the new one contains the old one.
\<close>

lemma advance_finality_spec:
  assumes ok: "nodes_ok E t" "frontier_ok E t" and v: "replay E t bh v"
    and on: "on_chain E (chain v) (finalized_hash t) (finalized_height t)"
  shows "\<exists>t'. advance_finality E v t = Inr t' \<and> nodes_ok E t' \<and> frontier_ok E t' \<and>
    (t' = t \<or> t' = t\<lparr>finalized_hash := fst (finalized_checkpoint v), finalized_height := snd (finalized_checkpoint v)\<rparr>) \<and>
    finalized_height t \<le> finalized_height t' \<and>
    on_chain E (chain v) (finalized_hash t') (finalized_height t') \<and>
    (\<forall>h. eligible E t' h \<longrightarrow> eligible E t h)"
proof -
  obtain fh n where f: "finalized_checkpoint v = (fh, n)" by fastforce
  have fin: "on_chain E (chain v) fh n"
    using replay_inv(3) [OF v] f by (auto simp: ffg_inv_def finalized_checkpoint_def)
  show ?thesis
  proof (cases "finalized_height t < n")
    case False
    then have "advance_finality E v t = Inr t" by (simp add: advance_finality_def f)
    with ok on show ?thesis by blast
  next
    case True
    let ?t = "t\<lparr>finalized_hash := fh, finalized_height := n\<rparr>"
    have adv: "advance_finality E v t = Inr ?t"
      using True on by (auto simp: advance_finality_def f on_chain_def)
    obtain v0 where v0: "replay E t fh v0" "chain v0 = take (Suc (nat n)) (chain v)"
      by (rule node_prefix [OF ok(1) v fin])
    have old: "on_chain E (chain v0) (finalized_hash t) (finalized_height t)"
      using on True fin by (auto simp: on_chain_def v0(2))
    have "frontier_ok E ?t"
      using replay_dhas [OF ok(1) v0(1)] node_facts(2) [OF ok(1) v0(1)] fin
      by (auto simp: frontier_ok_def on_chain_def v0(2))
    moreover have "eligible E t h" if "eligible E ?t h" for h
    proof -
      from that obtain st where h: "dhas (weight t) h" and st: "replay E t h st" "on_chain E (chain st) fh n"
        by (auto simp: eligible_def)
      obtain s0 where s0: "replay E t fh s0" "chain s0 = take (Suc (nat n)) (chain st)"
        by (rule node_prefix [OF ok(1) st])
      have "s0 = v0" by (rule replay_det [OF v0(1) s0(1)])
      then have "on_chain E (take (Suc (nat n)) (chain st)) (finalized_hash t) (finalized_height t)"
        using old s0(2) by simp
      then have "on_chain E (chain st) (finalized_hash t) (finalized_height t)"
        by (auto simp: on_chain_def)
      with h st(1) show ?thesis unfolding eligible_def by blast
    qed
    ultimately show ?thesis using adv ok(1) True fin by (intro exI [of _ ?t]) (simp add: f)
  qed
qed

text \<open>An elected proposer has stake, so an accepted block outweighs its parent.\<close>

lemma validate_on_Inr:
  assumes "validate_on E st b = Inr (s, st')" "pos_inv st"
  shows "submit_block E (pos_hooks E) st b = Inr st'" "0 < s"
proof -
  from assms(1) show sub: "submit_block E (pos_hooks E) st b = Inr st'"
    by (auto simp: validate_on_def rbind_eq_Inr)
  from sub have "pos_check_proposer E st b = Inr ()" by (rule pos_submit_Inr)
  then obtain v where v: "elect E st (previous_hash b) (index b) = Inr v" "validator b = PStr v"
    by (rule pos_check_proposer_Inr)
  then have "0 < stake_of st v"
    using elect_validator_Inr [of "stakes (pos st)"] assms(2)
    by (auto simp: elect_def rbind_eq_Inr pos_inv_def stake_of_def)
  with v(2) assms(1) show "0 < s"
    by (auto simp: validate_on_def rbind_eq_Inr stake_of_val_def)
qed

lemma frontier_ok_insert:
  assumes "frontier_ok E t" "\<not> dhas (weight t) bh"
  shows "frontier_ok E (insert_block t bh ph b n s)"
proof -
  have "bh \<noteq> finalized_hash t" using assms by (auto simp: frontier_ok_def)
  with assms(1) show ?thesis by (simp add: frontier_ok_def insert_block_def)
qed

lemma insert_block_frame [simp]:
  "finalized_hash (insert_block t bh ph b n s) = finalized_hash t"
  "finalized_height (insert_block t bh ph b n s) = finalized_height t"
  "head_hash (insert_block t bh ph b n s) = head_hash t"
  "canonical (insert_block t bh ph b n s) = canonical t"
  "insert_block (t\<lparr>canonical := c\<rparr>) bh ph b n s = (insert_block t bh ph b n s)\<lparr>canonical := c\<rparr>"
  by (simp_all add: insert_block_def)

lemma advance_finality_canonical:
  "advance_finality E v (t\<lparr>canonical := c\<rparr>) = map_sum id (\<lambda>t. t\<lparr>canonical := c\<rparr>) (advance_finality E v t)"
  by (auto simp: advance_finality_def Let_def split: prod.splits)

text \<open>The head is extended: the new block is the best leaf without looking at the others.\<close>

lemma extend_head_ok:
  assumes t: "nodes_ok E t" "head_ok E t" and new: "\<not> dhas (weight t) bh"
    and s: "0 < s" and t1: "t1 = insert_block t bh (head_hash t) b n s"
    and v: "replay E t1 bh v" "nodes_ok E t2" "frontier_ok E t2" "replay E t2 = replay E t1"
      "weight t2 = weight t1"
    and on: "on_chain E (chain v) (finalized_hash t2) (finalized_height t2)"
    and el: "\<And>h. eligible E t2 h \<Longrightarrow> h \<noteq> bh \<Longrightarrow> eligible E t h"
  shows "tree_ok E (t2\<lparr>canonical := v, head_hash := bh\<rparr>)"
proof -
  have w: "dget (weight t2) bh 0 = dget (weight t) (head_hash t) 0 + s"
    "\<And>h. h \<noteq> bh \<Longrightarrow> dget (weight t2) h 0 = dget (weight t) h 0" "dhas (weight t2) bh"
    by (simp_all add: v(5) t1 insert_block_def)
  have "preferred t2 bh h" if "eligible E t2 h" for h
  proof (cases "h = bh")
    case True then show ?thesis by (simp add: preferred_refl)
  next
    case False
    with el that t(2) have "preferred t (head_hash t) h" by (simp add: head_ok_def)
    then have "dget (weight t) h 0 \<le> dget (weight t) (head_hash t) 0" by (auto simp: preferred_def)
    with s w False show ?thesis by (simp add: preferred_def)
  qed
  moreover have "replay E t2 bh v" using v(1,4) by simp
  moreover from this have "eligible E t2 bh" using on w(3) by (auto simp: eligible_def)
  ultimately show ?thesis using v(2,3) by (simp add: tree_ok_def head_ok_def)
qed

text \<open>What a changed tree keeps of the finality of the old one.\<close>

definition keeps_finality :: "env \<Rightarrow> block_tree \<Rightarrow> block_tree \<Rightarrow> bool" where
  "keeps_finality E t t' \<longleftrightarrow> finalized_height t \<le> finalized_height t' \<and>
     on_chain E (chain (canonical t')) (finalized_hash t) (finalized_height t)"

lemma keeps_finalityI:
  assumes "tree_ok E t'" "finalized_height t \<le> finalized_height t'"
    and "\<And>h st. eligible E t' h \<Longrightarrow> replay E t' h st \<Longrightarrow>
      on_chain E (chain st) (finalized_hash t) (finalized_height t)"
  shows "keeps_finality E t t'"
  using assms by (auto simp: keeps_finality_def tree_ok_def head_ok_def)

lemma store_block_spec:
  assumes t: "tree_ok E t" and new: "\<not> dhas (weight t) (block_hash E b)"
    and ph: "replay E t ph st" "on_chain E (chain st) (finalized_hash t) (finalized_height t)"
    and val: "validate_on E st b = Inr (s, v)"
    and ws: "ws_allows t (block_hash E b) (dget (height t) ph 0 + 1)"
  shows "\<exists>t'. store_block E t (block_hash E b) ph b (dget (height t) ph 0 + 1) (ph = head_hash t) (s, v)
      = Some (t', Inr True) \<and> tree_ok E t' \<and> keeps_finality E t t' \<and> dhas (weight t') (block_hash E b)"
proof -
  let ?bh = "block_hash E b" and ?n = "dget (height t) ph 0 + 1"
  let ?t1 = "insert_block t ?bh ph b ?n s"
  have ok: "nodes_ok E t" "frontier_ok E t" "head_ok E t" using t by (simp_all add: tree_ok_def)
  note sub = validate_on_Inr [OF val replay_inv(1) [OF ph(1)]]
  note ins = nodes_ok_insert [OF ok(1) new ph(1) sub(1) ws, where s = s]
  have ch: "chain v = chain st @ [b]" by (rule pos.submit_block_chain [OF sub(1)])
  have on: "on_chain E (chain v) (finalized_hash ?t1) (finalized_height ?t1)"
    using on_chain_snoc [OF ph(2)] by (simp add: ch)
  from advance_finality_spec [OF ins(1) frontier_ok_insert [OF ok(2) new] ins(2) on]
  obtain t2 where t2: "advance_finality E v ?t1 = Inr t2" "nodes_ok E t2" "frontier_ok E t2"
    "t2 = ?t1 \<or> t2 = ?t1\<lparr>finalized_hash := fst (finalized_checkpoint v), finalized_height := snd (finalized_checkpoint v)\<rparr>"
    "finalized_height ?t1 \<le> finalized_height t2"
    "on_chain E (chain v) (finalized_hash t2) (finalized_height t2)"
    "\<And>h. eligible E t2 h \<Longrightarrow> eligible E ?t1 h" by blast
  have same: "replay E t2 = replay E ?t1" "weight t2 = weight ?t1" "head_hash t2 = head_hash t"
      "canonical t2 = canonical t" "finalized_height t \<le> finalized_height t2"
    using t2(4,5) by auto
  have fin: "on_chain E (chain st0) (finalized_hash t) (finalized_height t)"
    if "eligible E t2 h" "replay E t2 h st0" for h st0
    using t2(7) [OF that(1)] that(2) replay_det unfolding same(1) eligible_def insert_block_frame by blast
  have has: "dhas (weight t2) ?bh" by (simp add: same(2) insert_block_def)
  show ?thesis
  proof (cases "ph = head_hash t")
    case True
    let ?t' = "t2\<lparr>canonical := v, head_hash := ?bh\<rparr>"
    have "tree_ok E ?t'"
      using t2 ins(2) same True eligible_insert [OF ok(1) new ph(1) sub(1) ws]
      by (intro extend_head_ok [OF ok(1,3) new sub(2) refl]) auto
    moreover have "keeps_finality E t ?t'"
      by (rule keeps_finalityI [OF calculation]) (use fin same(5) in auto)
    moreover have "store_block E t ?bh ph b ?n True (s, v) = Some (?t', Inr True)"
      by (simp add: store_block_def Let_def advance_finality_canonical t2(1))
    ultimately show ?thesis using True has by auto
  next
    case False
    have "replay E t2 (head_hash t2) (canonical t2)"
      using ok(3) ins(3) by (simp add: same head_ok_def)
    from update_head_spec [OF t2(2,3) this] obtain h c where
      t3: "update_head E t2 = Some (t2\<lparr>head_hash := h, canonical := c\<rparr>, Inr ())"
        "tree_ok E (t2\<lparr>head_hash := h, canonical := c\<rparr>)" by blast
    let ?t' = "t2\<lparr>head_hash := h, canonical := c\<rparr>"
    have "keeps_finality E t ?t'"
      by (rule keeps_finalityI [OF t3(2)]) (use fin same(5) in auto)
    moreover have "store_block E t ?bh ph b ?n False (s, v) = Some (?t', Inr True)"
      by (simp add: store_block_def Let_def t2(1) t3(1))
    ultimately show ?thesis using False t3(2) has by auto
  qed
qed

text \<open>
  The whole of \<open>add_block\<close>: it ends, it keeps the invariant, an error leaves the tree as it was,
  and what was final stays on the canonical chain.
\<close>

lemma known_parent_Inr: "known_parent t b = Inr ph \<Longrightarrow> dhas (weight t) ph"
  by (cases "hash_key (previous_hash b)") (auto simp: known_parent_def split: pyval.splits if_splits)

lemma check_frontier_total:
  "nodes_ok E t \<Longrightarrow> frontier_ok E t \<Longrightarrow> dhas (weight t) ph \<Longrightarrow> \<exists>r. check_frontier t bh ph n = Some r"
  by (cases "eligible E t ph") (auto simp: check_frontier_def descends_iff split: option.splits)

lemma check_frontier_Inr:
  assumes "nodes_ok E t" "frontier_ok E t" "dhas (weight t) ph" "\<not> dhas (weight t) bh"
    and "check_frontier t bh ph n = Some (Inr ())"
  shows "eligible E t ph" "ws_allows t bh n"
proof -
  have "bh \<noteq> finalized_hash t" using assms(2,4) by (auto simp: frontier_ok_def)
  with assms(5) have n: "finalized_height t < n" by (auto simp: check_frontier_def split: if_splits)
  with assms(5) descends_iff [OF assms(1-3)] show "eligible E t ph" "ws_allows t bh n"
    by (auto simp: check_frontier_def ws_allows_def split: if_splits option.splits prod.splits bool.splits)
qed

lemma add_block_spec:
  assumes t: "tree_ok E t"
  shows "\<exists>t' r. add_block E t b = Some (t', r) \<and> tree_ok E t' \<and> keeps_finality E t t' \<and>
    (\<forall>e. r = Inl e \<longrightarrow> t' = t) \<and> (\<forall>x. r = Inr x \<longrightarrow> dhas (weight t') (block_hash E b))"
proof -
  have ok: "nodes_ok E t" "frontier_ok E t" "head_ok E t" using t by (simp_all add: tree_ok_def)
  have stay: "keeps_finality E t t"
    by (rule keeps_finalityI [OF t]) (auto simp: eligible_def dest: replay_det)
  let ?bh = "block_hash E b"
  show ?thesis
  proof (cases "dhas (weight t) ?bh")
    case True
    with t stay show ?thesis by (auto simp: add_block_def Let_def)
  next
    case new: False
    show ?thesis
    proof (cases "known_parent t b")
      case (Inl e)
      with t stay new show ?thesis by (auto simp: add_block_def Let_def)
    next
      case (Inr ph)
      then have dph: "dhas (weight t) ph" by (rule known_parent_Inr)
      then obtain n where n: "map_of (height t) ph = Some n"
        using nodes_ok_maps(2) [OF ok(1), of ph] by (auto simp: dhas_iff_map_of)
      obtain st where st: "replay E t ph st" "chain_at E t ph = Some (Inr st)"
        by (rule nodes_okD [OF ok(1) dph])
      have base: "(if ph = head_hash t then Some (Inr (canonical t)) else chain_at E t ph) = Some (Inr st)"
        using st ok(3) replay_det [of E t ph st "canonical t"] by (auto simp: head_ok_def)
      obtain r where r: "check_frontier t ?bh ph (n + 1) = Some r"
        using check_frontier_total [OF ok(1,2) dph] by blast
      show ?thesis
      proof (cases r)
        case (Inl e)
        with t stay new Inr n r show ?thesis by (auto simp: add_block_def Let_def dlookup_def)
      next
        case (Inr u)
        with r have fr: "check_frontier t ?bh ph (n + 1) = Some (Inr ())" by simp
        note chk = check_frontier_Inr [OF ok(1,2) dph new fr]
        have on: "on_chain E (chain st) (finalized_hash t) (finalized_height t)"
          using chk(1) replay_det [OF st(1)] unfolding eligible_def by blast
        have step: "add_block E t b = (case validate_on E st b of Inl e \<Rightarrow> Some (t, Inl e)
            | Inr sv \<Rightarrow> store_block E t ?bh ph b (n + 1) (ph = head_hash t) sv)"
          using new \<open>known_parent t b = Inr ph\<close> n fr base by (simp add: add_block_def Let_def dlookup_def)
        show ?thesis
        proof (cases "validate_on E st b")
          case (Inl e)
          with t stay step show ?thesis by auto
        next
          case (Inr sv)
          obtain s v where sv: "sv = (s, v)" by fastforce
          have "dget (height t) ph 0 = n" using n by (simp add: dget_map_of)
          with store_block_spec [OF t new st(1) on Inr [unfolded sv]] chk(2) step Inr sv
          show ?thesis by auto
        qed
      qed
    qed
  qed
qed

lemma block_tree_init_ok:
  assumes "block_tree_init E args cp = Inr t"
  shows "tree_ok E t"
proof -
  from assms obtain c where c: "new_chain E args = Inr c" and t: "t = \<lparr>genesis_args = args, canonical = c,
      genesis_hash = block_hash E (head c), head_hash = block_hash E (head c),
      ws_checkpoint = cp, finalized_hash = block_hash E (head c), finalized_height = 0,
      blocks = [], parent = [], weight = [(block_hash E (head c), 0)], height = [(block_hash E (head c), 0)]\<rparr>"
    by (auto simp: block_tree_init_def rbind_eq_Inr Let_def)
  obtain g where g: "chain c = [g]"
    using c by (cases args) (auto simp: new_chain_def elim!: pos_init_Inr)
  have rep: "replay E t (block_hash E (head c)) c"
    using replay_genesis [of E t c] c by (simp add: t)
  have key: "dhas (weight t) h \<longleftrightarrow> h = block_hash E (head c)" for h by (auto simp: t dhas_def)
  have "nodes_ok E t"
    unfolding nodes_ok_def key using rep c g by (auto simp: t tree_fuel_def dhas_def)
  moreover have "frontier_ok E t" by (simp add: frontier_ok_def key) (simp add: t)
  moreover have "head_ok E t"
  proof -
    have "on_chain E (chain c) (finalized_hash t) (finalized_height t)"
      by (simp add: t on_chain_def g head_def)
    with rep have "eligible E t (head_hash t)" unfolding eligible_def key by (auto simp: t)
    moreover have "preferred t (head_hash t) h" if "eligible E t h" for h
    proof -
      have "h = head_hash t" using that by (simp add: eligible_def key) (simp add: t)
      then show ?thesis by (simp add: preferred_refl)
    qed
    ultimately show ?thesis using rep by (simp add: head_ok_def t)
  qed
  ultimately show ?thesis by (simp add: tree_ok_def)
qed

text \<open>The trees a node can hold.\<close>

inductive tree_reaches :: "env \<Rightarrow> block_tree \<Rightarrow> block_tree \<Rightarrow> bool" for E t where
  tree_start: "tree_reaches E t t"
| tree_add: "tree_reaches E t t' \<Longrightarrow> add_block E t' b = Some (t'', r) \<Longrightarrow> tree_reaches E t t''"

lemma tree_reaches_ok: "tree_reaches E t t' \<Longrightarrow> tree_ok E t \<Longrightarrow> tree_ok E t'"
proof (induction rule: tree_reaches.induct)
  case (tree_add t' b t'' r)
  with add_block_spec [of E t' b] show ?case by auto
qed

end
