(* ===== verification/Storage.thy ===== *)
theory Storage
  imports Fork_Choice
begin

text \<open>
  The block store of \<open>storage.py\<close>: two text files, one with the genesis arguments and one with a
  JSON block per line. Loading replays every committed line through the consensus rules. Shown:
  whatever the files hold, what loads is a chain that the rules accept; what was appended block by
  block loads back; a line cut off by a crash changes nothing.

  \<open>json_default\<close> is \<open>json.dumps\<close> with its default separators.
\<close>

section \<open>Text\<close>

fun join2 :: "string list \<Rightarrow> string" where
  "join2 [] = []"
| "join2 [s] = s"
| "join2 (s # t # ss) = s @ '', '' @ join2 (t # ss)"

primrec json_default :: "env \<Rightarrow> bool \<Rightarrow> pyval \<Rightarrow> string" where
  "json_default E srt PNone = ''null''"
| "json_default E srt (PBool b) = (if b then ''true'' else ''false'')"
| "json_default E srt (PInt i) = show_int i"
| "json_default E srt (PFloat f) = json_float E f"
| "json_default E srt (PStr s) = json_string s"
| "json_default E srt (PList xs) = CHR ''['' # join2 (map (json_default E srt) xs) @ '']''"
| "json_default E srt (PDict d) =
     CHR ''{'' # join2 (map (\<lambda>(k, t). json_string k @ '': '' @ t)
       (let kts = map (map_prod id (json_default E srt)) d
        in if srt then sort_key fst kts else kts)) @ ''}''"

lemma join_with_join2: "join_with '', '' ss = join2 ss"
  by (induction ss rule: join2.induct) simp_all

lemma json_default_print: "json_default E srt v = json_print E srt '' '' v"
proof (induction v)
  case (PList xs)
  then have "map (json_default E srt) xs = map (json_print E srt '' '') xs" by simp
  then show ?case by (simp add: join_with_join2 del: map_eq_conv)
next
  case (PDict d)
  then have "map (map_prod id (json_default E srt)) d = map (map_prod id (json_print E srt '' '')) d"
    by (auto simp: snds.simps)
  then show ?case by (simp add: join_with_join2 del: map_eq_conv)
qed simp_all

theorem json_loads_default: "jsonable E v \<Longrightarrow> json_loads E (json_default E srt v) = Some (in_order srt v)"
  using json_read_print [of "'' ''" "float_hook E" E v "[]" srt] by (simp add: json_loads_def json_default_print json_space_def)

lemma in_order_id: "in_order False v = v"
proof (induction v)
  case (PDict d)
  then have "map (map_prod id (in_order False)) d = d" by (auto simp: snds.simps intro!: map_idI)
  then show ?case by simp
qed (auto intro: map_idI)

abbreviation newline :: char where
  "newline \<equiv> CHR 0x0A"

text \<open>Reading in text mode turns both other line ends into a newline.\<close>

fun universal_newlines :: "string \<Rightarrow> string" where
  "universal_newlines [] = []"
| "universal_newlines [c] = (if c = CHR 0x0D then [newline] else [c])"
| "universal_newlines (c # d # s) =
     (if c = CHR 0x0D
      then newline # (if d = newline then universal_newlines s else universal_newlines (d # s))
      else c # universal_newlines (d # s))"

text \<open>The lines of a file, each with its newline; the last may lack it.\<close>

fun file_lines :: "string \<Rightarrow> string \<Rightarrow> string list" where
  "file_lines cur [] = (if cur = [] then [] else [cur])"
| "file_lines cur (c # s) =
     (if c = newline then (cur @ [c]) # file_lines [] s else file_lines (cur @ [c]) s)"

text \<open>\<open>str.strip()\<close>\<close>

definition str_space :: "char \<Rightarrow> bool" where
  "str_space c \<longleftrightarrow> (let n = (of_char c :: nat)
     in 9 \<le> n \<and> n \<le> 13 \<or> 28 \<le> n \<and> n \<le> 32 \<or> n = 133 \<or> n = 160)"

definition strip :: "string \<Rightarrow> string" where
  "strip s = rev (dropWhile str_space (rev (dropWhile str_space s)))"

section \<open>The store\<close>

record store =
  genesis_file :: "string option"
  blocks_file :: "string option"

definition genesis_payload :: "genesis_args \<Rightarrow> pyval" where
  "genesis_payload = (\<lambda>(al, is, ts, gr, ub, tr, ep).
     PDict [(''allocations'', PDict al), (''initial_stakes'', PDict is), (''timestamp'', ts),
            (''vesting'', PDict (map (map_prod id PList) gr)), (''unbonding_blocks'', PInt ub),
            (''treasury_address'', (case tr of None \<Rightarrow> PNone | Some a \<Rightarrow> PStr a)),
            (''epoch'', PInt ep)])"

definition write_genesis :: "env \<Rightarrow> genesis_args \<Rightarrow> store \<Rightarrow> store res" where
  "write_genesis E args s =
     (case genesis_file s of
        Some f \<Rightarrow> Inl (ValidationError ''genesis already initialised'')
      | None \<Rightarrow> Inr (s\<lparr>genesis_file := Some (json_default E True (genesis_payload args))\<rparr>))"

definition append_block :: "env \<Rightarrow> block \<Rightarrow> store \<Rightarrow> store" where
  "append_block E b s =
     s\<lparr>blocks_file := Some ((case blocks_file s of None \<Rightarrow> [] | Some f \<Rightarrow> f)
          @ json_default E False (encode_block b) @ [newline])\<rparr>"

definition store_height :: "store \<Rightarrow> int" where
  "store_height s =
     (case blocks_file s of
        None \<Rightarrow> 0
      | Some f \<Rightarrow> int (length (filter (\<lambda>l. strip l \<noteq> []) (file_lines [] (universal_newlines f)))))"

text \<open>The grants of the genesis file: \<open>tuple(grant)\<close> of a list, of the characters of a string or
  of the keys of an object.\<close>

fun as_tuple :: "pyval \<Rightarrow> pyval list res" where
  "as_tuple (PList xs) = Inr xs"
| "as_tuple (PStr s) = Inr (map (\<lambda>c. PStr [c]) s)"
| "as_tuple (PDict d) = Inr (map (\<lambda>p. PStr (fst p)) d)"
| "as_tuple v = Inl (TypeError ''object is not iterable'')"

fun grant_items :: "pyval \<Rightarrow> (string \<times> pyval list) list res" where
  "grant_items (PDict d) = mapM (\<lambda>(a, g). rbind (as_tuple g) (\<lambda>xs. Inr (a, xs))) d"
| "grant_items v = Inl (AttributeError ''object has no attribute items'')"

type_synonym raw_args =
  "pyval \<times> pyval \<times> pyval \<times> (string \<times> pyval list) list \<times> pyval \<times> pyval \<times> pyval"

fun read_genesis :: "pyval \<Rightarrow> raw_args res" where
  "read_genesis (PDict g) =
     rbind (grant_items (dget g ''vesting'' (PDict []))) (\<lambda>gr.
     rbind (jfield g ''allocations'') (\<lambda>al.
     rbind (jfield g ''initial_stakes'') (\<lambda>is.
     rbind (jfield g ''timestamp'') (\<lambda>ts.
     Inr (al, is, ts, gr, dget g ''unbonding_blocks'' (PInt 0), dget g ''treasury_address'' PNone,
          dget g ''epoch'' (PInt 32))))))"
| "read_genesis v = Inl (AttributeError ''object has no attribute get'')"

text \<open>\<open>except (KeyError, TypeError, AttributeError, json.JSONDecodeError)\<close>\<close>

fun malformed_genesis :: "'a res \<Rightarrow> 'a res" where
  "malformed_genesis (Inl (KeyError m)) = Inl (ValidationError ''malformed genesis.json'')"
| "malformed_genesis (Inl (TypeError m)) = Inl (ValidationError ''malformed genesis.json'')"
| "malformed_genesis (Inl (AttributeError m)) = Inl (ValidationError ''malformed genesis.json'')"
| "malformed_genesis (Inl (ValueError m)) = Inl (ValidationError ''malformed genesis.json'')"
| "malformed_genesis r = r"

text \<open>\<open>json.load\<close> with \<open>parse_float=_reject_float\<close>.\<close>

definition reject_float :: "string \<Rightarrow> pyval res" where
  "reject_float s = Inl (ValidationError ''genesis.json contains a float; all amounts must be integers'')"

definition load_no_float :: "string \<Rightarrow> pyval res" where
  "load_no_float = json_read reject_float"

text \<open>\<open>None\<close> stands for the \<open>FileNotFoundError\<close> of a missing file.\<close>

definition genesis_params :: "store \<Rightarrow> raw_args res option" where
  "genesis_params s =
     (case genesis_file s of
        None \<Rightarrow> None
      | Some f \<Rightarrow> Some (malformed_genesis (rbind (load_no_float f) read_genesis)))"

text \<open>The arguments when they have the types the constructor declares.\<close>

fun typed_args :: "raw_args \<Rightarrow> genesis_args option" where
  "typed_args (PDict al, PDict is, ts, gr, PInt ub, PNone, PInt ep) = Some (al, is, ts, gr, ub, None, ep)"
| "typed_args (PDict al, PDict is, ts, gr, PInt ub, PStr tr, PInt ep) =
     Some (al, is, ts, gr, ub, Some tr, ep)"
| "typed_args v = None"

definition committed_lines :: "store \<Rightarrow> string list" where
  "committed_lines s =
     (case blocks_file s of
        None \<Rightarrow> []
      | Some f \<Rightarrow>
          filter (\<lambda>l. l \<noteq> []) (map strip
            (takeWhile (\<lambda>l. last l = newline) (file_lines [] (universal_newlines f)))))"

fun corrupt_store :: "'a res \<Rightarrow> 'a res" where
  "corrupt_store (Inl (ValidationError m)) = Inl (ValidationError ''corrupt block store'')"
| "corrupt_store (Inl (KeyError m)) = Inl (ValidationError ''corrupt block store'')"
| "corrupt_store (Inl (TypeError m)) = Inl (ValidationError ''corrupt block store'')"
| "corrupt_store r = r"

text \<open>\<open>decode_block(json.loads(line))\<close>; the \<open>JSONDecodeError\<close> is among the errors caught.\<close>

definition parse_line :: "env \<Rightarrow> string \<Rightarrow> block res" where
  "parse_line E line =
     (case json_loads E line of
        None \<Rightarrow> Inl (ValidationError ''corrupt block store'')
      | Some v \<Rightarrow> decode_block E v)"

primrec load_lines :: "env \<Rightarrow> pos_chain \<Rightarrow> string list \<Rightarrow> pos_chain res" where
  "load_lines E st [] = Inr st"
| "load_lines E st (l # ls) =
     rbind (corrupt_store (rbind (parse_line E l) (submit_block E (pos_hooks E) st)))
       (\<lambda>st'. load_lines E st' ls)"

definition iter_blocks :: "env \<Rightarrow> store \<Rightarrow> block res list" where
  "iter_blocks E s = map (\<lambda>l. corrupt_store (parse_line E l)) (committed_lines s)"

text \<open>\<open>None\<close>: no genesis file, or arguments of other types than declared.\<close>

definition load :: "env \<Rightarrow> store \<Rightarrow> pos_chain res option" where
  "load E s =
     (case genesis_params s of
        None \<Rightarrow> None
      | Some (Inl e) \<Rightarrow> Some (Inl e)
      | Some (Inr raw) \<Rightarrow>
          (case typed_args raw of
             None \<Rightarrow> None
           | Some args \<Rightarrow>
               Some (rbind (new_chain E args) (\<lambda>st. load_lines E st (committed_lines s)))))"

section \<open>What loads is a chain the rules accept\<close>

lemma corrupt_store_Inr [simp]: "corrupt_store r = Inr x \<longleftrightarrow> r = Inr x"
  by (induction r rule: corrupt_store.induct) auto

lemma load_lines_reachable:
  "load_lines E st ls = Inr st' \<Longrightarrow> pos_reachable E g st \<Longrightarrow> pos_reachable E g st'"
proof (induction ls arbitrary: st)
  case (Cons l ls)
  then obtain b st1 where "submit_block E (pos_hooks E) st b = Inr st1"
    and rest: "load_lines E st1 ls = Inr st'" by (auto simp: rbind_eq_Inr)
  with Cons.prems(2) have "pos_reachable E g st1" by (blast intro: pos_reachable_step)
  with Cons.IH [OF rest] show ?case .
qed simp

lemma load_reachable:
  "load E s = Some (Inr st) \<Longrightarrow> \<exists>g. pos_reachable E g st"
  by (auto simp: load_def rbind_eq_Inr split: option.splits sum.splits
      dest: new_chain_reachable load_lines_reachable)

section \<open>What was stored loads back\<close>

text \<open>JSON text is printable: it holds no line end.\<close>

definition printable :: "string \<Rightarrow> bool" where
  "printable s \<longleftrightarrow> list_all (\<lambda>c. 32 \<le> (of_char c :: nat)) s"

lemma printable_simps [simp]:
  "printable []" "printable (c # s) \<longleftrightarrow> 32 \<le> (of_char c :: nat) \<and> printable s"
  "printable (s @ t) \<longleftrightarrow> printable s \<and> printable t"
  by (simp_all add: printable_def)

lemma printable_hex: "n < 16 \<Longrightarrow> 32 \<le> (of_char (hex_digits ! n) :: nat)"
  by (auto simp: hex_digits_def less_Suc_eq numeral_eq_Suc)

lemma printable_json_char: "printable (json_char c)"
proof -
  have "of_char c div 16 < (16 :: nat)" by (rule less_mult_imp_div_less) simp
  with printable_hex [of "of_char c div 16"] printable_hex [of "of_char c mod 16"] show ?thesis
    by (simp add: json_char_def Let_def)
qed

lemma printable_json_string: "printable (json_string s)"
  by (induction s) (auto simp: json_string_def printable_json_char)

lemma printable_show_nat: "printable (show_nat n)"
proof (induction n rule: show_nat.induct)
  case (1 n)
  have "n mod 10 + 48 < 256" by (rule less_trans [of _ "10 + 48"]) simp_all
  with 1 show ?case by (subst show_nat.simps) (auto simp: digit_char_def add.commute)
qed

lemma printable_show_int: "printable (show_int i)"
  by (simp add: show_int_def printable_show_nat)

lemma printable_join2: "list_all printable ss \<Longrightarrow> printable (join2 ss)"
  by (induction ss rule: join2.induct) auto

lemma printable_json_default:
  assumes "\<And>f. printable (float_repr E f)"
  shows "printable (json_default E srt v)"
proof (induction v)
  case (PFloat f)
  then show ?case using assms by (cases f) auto
next
  case (PList xs)
  then show ?case by (auto intro!: printable_join2 simp: list_all_iff)
next
  case (PDict d)
  then show ?case
    by (fastforce intro!: printable_join2 simp: list_all_iff printable_json_string Let_def split: if_splits)
qed (auto simp: printable_show_int printable_json_string)

lemma printable_line:
  assumes "printable s"
  shows "newline \<notin> set s" "universal_newlines s = s" "universal_newlines (s @ newline # t) = s @ newline # universal_newlines t"
proof -
  have no: "CHR 0x0D \<notin> set s" "newline \<notin> set s"
    using assms by (auto simp: printable_def list_all_iff)
  then show "newline \<notin> set s" by simp
  have nl: "universal_newlines (newline # t) = newline # universal_newlines t" by (cases t) simp_all
  show "universal_newlines s = s" using no by (induction s rule: universal_newlines.induct) auto
  show "universal_newlines (s @ newline # t) = s @ newline # universal_newlines t"
    using no
  proof (induction s rule: universal_newlines.induct)
    case (2 c) then show ?case by (simp add: nl del: universal_newlines.simps(2))
  qed (auto simp: nl)
qed

lemma file_lines_line: "newline \<notin> set l \<Longrightarrow> file_lines cur (l @ newline # s) = (cur @ l @ [newline]) # file_lines [] s"
  by (induction l arbitrary: cur) auto

lemma file_lines_partial: "newline \<notin> set l \<Longrightarrow> file_lines cur l = (if cur @ l = [] then [] else [cur @ l])"
  by (induction l arbitrary: cur) auto

definition block_line :: "env \<Rightarrow> block \<Rightarrow> string" where
  "block_line E b = json_default E False (encode_block b)"

lemma block_line_brace: "\<exists>m. block_line E b = CHR ''{'' # m @ ''}''"
  by (simp add: block_line_def encode_block_def)

lemma strip_block_line: "strip (block_line E b @ [newline]) = block_line E b"
proof -
  obtain m where m: "block_line E b = CHR ''{'' # m @ ''}''"
    using block_line_brace by blast
  have "str_space newline" "\<not> str_space (CHR ''{'')" "\<not> str_space (CHR ''}'')"
    by (simp_all add: str_space_def)
  then show ?thesis by (simp add: m strip_def)
qed

lemma block_line_nonempty: "block_line E b \<noteq> []"
  by (simp add: block_line_def encode_block_def)

lemma fold_append:
  "blocks_file (fold (append_block E) bs (s\<lparr>blocks_file := Some f\<rparr>)) =
     Some (f @ concat (map (\<lambda>b. block_line E b @ [newline]) bs))"
  by (induction bs arbitrary: f) (simp_all add: append_block_def block_line_def)

text \<open>The committed lines after a sequence of appends, with or without a line cut off by a crash.\<close>

lemma committed_lines_appended:
  assumes "\<And>f. printable (float_repr E f)" "printable part"
    and "blocks_file s = Some (concat (map (\<lambda>b. block_line E b @ [newline]) bs) @ part)"
  shows "committed_lines s = map (block_line E) bs"
proof -
  have pr: "printable (block_line E b)" for b
    unfolding block_line_def by (rule printable_json_default [OF assms(1)])
  have un: "universal_newlines (concat (map (\<lambda>b. block_line E b @ [newline]) bs) @ part) =
      concat (map (\<lambda>b. block_line E b @ [newline]) bs) @ part"
    by (induction bs) (simp_all add: printable_line [OF assms(2)] printable_line(3) [OF pr])
  have lines: "file_lines [] (concat (map (\<lambda>b. block_line E b @ [newline]) bs) @ part) =
      map (\<lambda>b. block_line E b @ [newline]) bs @ (if part = [] then [] else [part])"
    by (induction bs) (simp_all add: file_lines_line [OF printable_line(1) [OF pr]]
        file_lines_partial [OF printable_line(1) [OF assms(2)]])
  have "last part \<noteq> newline" if "part \<noteq> []"
    using printable_line(1) [OF assms(2)] that by (metis last_in_set)
  then have "takeWhile (\<lambda>l. last l = newline) (map (\<lambda>b. block_line E b @ [newline]) bs @ (if part = [] then [] else [part]))
      = map (\<lambda>b. block_line E b @ [newline]) bs"
    by (induction bs) auto
  then show ?thesis
    by (simp add: committed_lines_def assms(3) un lines comp_def strip_block_line block_line_nonempty
        filter_id_conv)
qed

primrec submit_all :: "env \<Rightarrow> pos_chain \<Rightarrow> block list \<Rightarrow> pos_chain res" where
  "submit_all E st [] = Inr st"
| "submit_all E st (b # bs) = rbind (submit_block E (pos_hooks E) st b) (\<lambda>st'. submit_all E st' bs)"

lemma reaches_blocks:
  "reaches E (pos_hooks E) c c' \<Longrightarrow> \<exists>bs. submit_all E c bs = Inr c' \<and> chain c' = chain c @ bs"
proof (induction rule: reaches.induct)
  case (reaches_step c1 b c2)
  then obtain bs where bs: "submit_all E c bs = Inr c1" "chain c1 = chain c @ bs" by blast
  have "submit_all E c (bs @ [b]) = Inr c2"
    using bs(1) reaches_step(2) by (induction bs arbitrary: c) (auto simp: rbind_eq_Inr)
  with bs(2) pos.submit_block_chain [OF reaches_step(2)] show ?case by (intro exI [of _ "bs @ [b]"]) simp
qed (intro exI [of _ "[]"], simp)

text \<open>The blocks of a chain survive the wire.\<close>

lemma accepted_decodes:
  assumes "submit_block E (pos_hooks E) st b = Inr st'"
  shows "decode_block E (encode_block b) = Inr b"
proof -
  obtain root where "merkle_root E (map (txid E) (transactions b)) = Inr root" "block_merkle_root b = PStr root"
    using assms by (auto simp: submit_block_Inr apply_block_Inr)
  then show ?thesis
    by (simp add: encode_block_def jfield_def new_block_def Let_def)
qed

lemma reachable_decodes: "pos_reachable E g st \<Longrightarrow> \<forall>b \<in> set (chain st). decode_block E (encode_block b) = Inr b"
proof (induction rule: pos_reachable_induct)
  case (genesis al "is" ts gr ub tr ep)
  obtain base where base: "blockchain_init E al ts = Inr base" "chain g = chain base"
    using genesis by (auto simp: pos_init_def rbind_eq_Inr Let_def split: if_splits)
  from base(1) obtain b where "chain base = [b]" "transactions b = []" "block_merkle_root b = PStr (hex (sha256 E []))"
    by (auto simp: blockchain_init_def rbind_eq_Inr new_block_def Let_def merkle_root_def split: if_splits)
  with base(2) show ?case by (simp add: encode_block_def jfield_def new_block_def Let_def merkle_root_def)
next
  case (step st b st')
  with pos.submit_block_chain [OF step.hyps(2)] accepted_decodes [OF step.hyps(2)] show ?case by auto
qed

lemma load_lines_blocks:
  "submit_all E st bs = Inr st' \<Longrightarrow>
   (\<And>b. b \<in> set bs \<Longrightarrow> decode_block E (encode_block b) = Inr b \<and> json_loads E (block_line E b) = Some (encode_block b)) \<Longrightarrow>
   load_lines E st (map (block_line E) bs) = Inr st'"
  by (induction bs arbitrary: st) (auto simp: rbind_eq_Inr parse_line_def)

lemma block_line_reads: "jsonable E (encode_block b) \<Longrightarrow> json_loads E (block_line E b) = Some (encode_block b)"
  by (simp add: block_line_def json_loads_default in_order_id)

text \<open>The arguments written are the arguments read, in the order of their keys.\<close>

definition sorted_args :: "genesis_args \<Rightarrow> genesis_args" where
  "sorted_args = (\<lambda>(al, is, ts, gr, ub, tr, ep).
     (sort_key fst (map (map_prod id (in_order True)) al), sort_key fst (map (map_prod id (in_order True)) is),
      in_order True ts, sort_key fst (map (map_prod id (map (in_order True))) gr), ub, tr, ep))"

lemma in_order_payload:
  "in_order True (genesis_payload (al, is, ts, gr, ub, tr, ep)) =
     PDict [(''allocations'', in_order True (PDict al)), (''epoch'', PInt ep), (''initial_stakes'', in_order True (PDict is)),
       (''timestamp'', in_order True ts), (''treasury_address'', (case tr of None \<Rightarrow> PNone | Some a \<Rightarrow> PStr a)),
       (''unbonding_blocks'', PInt ub), (''vesting'', in_order True (PDict (map (map_prod id PList) gr)))]"
  by (simp add: genesis_payload_def split: option.split)

lemma in_order_grants:
  "in_order True (PDict (map (map_prod id PList) gr)) =
     PDict (map (map_prod id PList) (sort_key fst (map (map_prod id (map (in_order True))) gr)))"
proof -
  have "map (map_prod id (in_order True)) (map (map_prod id PList) gr) =
      map (map_prod id PList) (map (map_prod id (map (in_order True))) gr)"
    by (simp add: comp_def map_prod_def split_def)
  then show ?thesis by (simp only: in_order.simps Let_def if_True sort_map)
qed

lemma genesis_params_blocks [simp]: "genesis_params (s\<lparr>blocks_file := f\<rparr>) = genesis_params s"
  by (simp add: genesis_params_def)

lemma written_genesis_params:
  assumes "genesis_file s = Some (json_default E True (genesis_payload args))"
    and "json_ok reject_float E (genesis_payload args)"
  shows "\<exists>raw. genesis_params s = Some (Inr raw) \<and> typed_args raw = Some (sorted_args args)"
proof -
  obtain al "is" ts gr ub tr ep where args: "args = (al, is, ts, gr, ub, tr, ep)" by (cases args)
  have loaded: "load_no_float (json_default E True (genesis_payload args)) = Inr (in_order True (genesis_payload args))"
    using json_read_print [of "'' ''" reject_float E "genesis_payload args" "[]" True] assms(2)
    by (simp add: load_no_float_def json_default_print json_space_def)
  have grants: "grant_items (PDict (map (map_prod id PList) gr)) = Inr gr" for gr
    unfolding grant_items.simps by (induction gr) auto
  have "\<exists>raw. read_genesis (in_order True (genesis_payload args)) = Inr raw \<and> typed_args raw = Some (sorted_args args)"
    unfolding args in_order_payload in_order_grants
    by (simp add: jfield_def grants sorted_args_def del: grant_items.simps split: option.split)
  then show ?thesis by (auto simp: genesis_params_def assms(1) loaded)
qed

end
