(* ===== verification/Mempool.thy ===== *)
theory Mempool
  imports Genesis
begin

text \<open>
  The pool of pending transactions and the fee market of \<open>mempool.py\<close>. \<open>select\<close> is checked
  against two specifications: \<open>schedule_ok\<close>, a direct reading of "nonce-respecting and
  affordable" on the list it returns, and the chain itself, which applies every selected transfer
  and stake transaction. The pool is bounded, and every transaction in it is valid and filed under
  its own id.
\<close>

section \<open>Model\<close>

definition MAX_TXS_PER_BLOCK :: int where
  "MAX_TXS_PER_BLOCK = 5000"

definition MIN_FEE :: int where
  "MIN_FEE = 0"

definition MAX_POOL_SIZE :: nat where
  "MAX_POOL_SIZE = 50000"

text \<open>Amount, fee and nonce of a transaction whose shape \<open>is_valid\<close> has checked.\<close>

abbreviation tx_amount :: "transaction \<Rightarrow> int" where "tx_amount tx \<equiv> the_int (amount tx)"
abbreviation tx_fee :: "transaction \<Rightarrow> int" where "tx_fee tx \<equiv> the_int (fee tx)"
abbreviation tx_nonce :: "transaction \<Rightarrow> int" where "tx_nonce tx \<equiv> the_int (nonce tx)"

definition cost :: "transaction \<Rightarrow> int \<Rightarrow> int \<times> int" where
  "cost tx ub =
     (if recipient tx = PStr SLASH_SENTINEL \<or> recipient tx = PStr VOTE_SENTINEL
      then (tx_fee tx, - tx_fee tx)
      else if recipient tx = PStr UNSTAKE_SENTINEL
      then (if 0 < ub then (tx_fee tx, - tx_fee tx) else (tx_fee tx, tx_amount tx - tx_fee tx))
      else (tx_amount tx + tx_fee tx, - (tx_amount tx + tx_fee tx)))"

record mempool =
  pool :: "(string \<times> transaction) list"

definition mempool_init :: mempool where
  "mempool_init = \<lparr>pool = []\<rparr>"

text \<open>\<open>min(txs, key=lambda t: t.fee)\<close>: the first of the cheapest.\<close>

fun cheapest :: "transaction \<Rightarrow> transaction list \<Rightarrow> transaction" where
  "cheapest m [] = m"
| "cheapest m (t # ts) = cheapest (if tx_fee t < tx_fee m then t else m) ts"

definition mempool_add ::
  "env \<Rightarrow> transaction \<Rightarrow> 'b blockchain_scheme \<Rightarrow> mempool \<Rightarrow> (bool \<times> mempool) res" where
  "mempool_add E tx st m =
     rbind (is_valid E tx) (\<lambda>ok.
     if \<not> ok then Inl (ValidationError ''rejected: invalid signature or shape'')
     else if tx_fee tx < MIN_FEE then Inl (ValidationError ''rejected: fee below floor'')
     else if tx_nonce tx < dget (nonces st) (sender tx) 0
     then Inl (ValidationError ''rejected: nonce already spent'')
     else if dhas (pool m) (txid E tx) then Inr (False, m)
     else if MAX_POOL_SIZE \<le> length (pool m)
     then (let c = cheapest (snd (hd (pool m))) (map snd (tl (pool m)))
           in if tx_fee tx \<le> tx_fee c
              then Inl (ValidationError ''rejected: mempool full and fee does not out-bid'')
              else if \<not> dhas (pool m) (txid E c) then Inl (KeyError ''missing key'')
              else Inr (True, m\<lparr>pool := AList.update (txid E tx) tx
                                          (AList.delete (txid E c) (pool m))\<rparr>))
     else Inr (True, m\<lparr>pool := AList.update (txid E tx) tx (pool m)\<rparr>))"

definition group_by_sender :: "transaction list \<Rightarrow> (pyval \<times> transaction list) list" where
  "group_by_sender txs =
     foldl (\<lambda>d tx. AList.update (sender tx) (dget d (sender tx) [] @ [tx]) d) [] txs"

text \<open>The loop over the sorted transactions of one sender.\<close>

fun runnable :: "int \<Rightarrow> int \<Rightarrow> int \<Rightarrow> transaction list \<Rightarrow> transaction list" where
  "runnable ub expected balance [] = []"
| "runnable ub expected balance (t # ts) =
     (if tx_nonce t \<noteq> expected then []
      else let (required_before, delta) = cost t ub
           in if balance < required_before then []
              else t # runnable ub (expected + 1) (balance + delta) ts)"

definition ready_runs ::
  "'b blockchain_scheme \<Rightarrow> int \<Rightarrow> (pyval \<times> transaction list) list \<Rightarrow> (pyval \<times> transaction list) list"
where
  "ready_runs st ub groups =
     filter (\<lambda>p. snd p \<noteq> [])
       (map (\<lambda>(s, txs). (s, runnable ub (dget (nonces st) s 0) (balance_of st s)
                                (sort_key tx_nonce txs))) groups)"

text \<open>The inner loop of the merge: the sender whose next transaction pays the highest fee.\<close>

definition best_head ::
  "(pyval \<times> transaction list) list \<Rightarrow> (pyval \<times> nat) list \<Rightarrow> pyval option \<times> int" where
  "best_head ready heads =
     foldl (\<lambda>(best, best_fee) (s, i).
       if i < length (dget ready s []) \<and> best_fee < tx_fee (dget ready s [] ! i)
       then (Some s, tx_fee (dget ready s [] ! i)) else (best, best_fee)) (None, -1) heads"

text \<open>The merge; its first argument is \<open>max_count - len(selected)\<close>.\<close>

primrec merge_loop ::
  "nat \<Rightarrow> (pyval \<times> transaction list) list \<Rightarrow> (pyval \<times> nat) list \<Rightarrow> transaction list" where
  "merge_loop 0 ready heads = []"
| "merge_loop (Suc n) ready heads =
     (case fst (best_head ready heads) of
        None \<Rightarrow> []
      | Some s \<Rightarrow> dget ready s [] ! dget heads s 0 #
          merge_loop n ready (AList.update s (dget heads s 0 + 1) heads))"

text \<open>\<open>ub\<close> is \<open>getattr(chain, "unbonding_blocks", 0)\<close>.\<close>

definition select :: "mempool \<Rightarrow> 'b blockchain_scheme \<Rightarrow> int \<Rightarrow> int \<Rightarrow> transaction list" where
  "select m st ub max_count =
     (let ready = ready_runs st ub (group_by_sender (map snd (pool m)))
      in merge_loop (nat max_count) ready (map (\<lambda>p. (fst p, 0)) ready))"

primrec filterM :: "('a \<Rightarrow> bool res) \<Rightarrow> 'a list \<Rightarrow> 'a list res" where
  "filterM f [] = Inr []"
| "filterM f (x # xs) = rbind (f x) (\<lambda>b. rbind (filterM f xs) (\<lambda>ys. Inr (if b then x # ys else ys)))"

definition mempool_update :: "env \<Rightarrow> 'b blockchain_scheme \<Rightarrow> mempool \<Rightarrow> mempool res" where
  "mempool_update E st m =
     rbind (filterM (\<lambda>(i, tx). if dget (nonces st) (sender tx) 0 \<le> tx_nonce tx
                               then is_valid E tx else Inr False) (pool m))
       (\<lambda>p. Inr (m\<lparr>pool := p\<rparr>))"

section \<open>The pool\<close>

text \<open>Every transaction is valid and filed under its id, and the pool is bounded.\<close>

definition pool_ok :: "env \<Rightarrow> mempool \<Rightarrow> bool" where
  "pool_ok E m \<longleftrightarrow>
     wf_dict (pool m) \<and> length (pool m) \<le> MAX_POOL_SIZE \<and>
     list_all (\<lambda>(i, tx). i = txid E tx \<and> is_valid E tx = Inr True) (pool m)"

lemma cheapest_spec:
  "cheapest m ts \<in> insert m (set ts) \<and> (\<forall>t \<in> insert m (set ts). tx_fee (cheapest m ts) \<le> tx_fee t)"
  by (induction m ts rule: cheapest.induct) (auto split: if_splits)

lemma pool_ok_init: "pool_ok E mempool_init"
  by (simp add: pool_ok_def mempool_init_def)

lemma list_all_update:
  "list_all P d \<Longrightarrow> P (k, v) \<Longrightarrow> list_all P (AList.update k v d)"
  by (induction d) auto

lemma list_all_delete: "list_all P d \<Longrightarrow> list_all P (AList.delete k d)"
  by (induction d) auto

lemma length_delete_has: "dhas d k \<Longrightarrow> length (AList.delete k d) < length d"
  by (induction d) (force simp: dhas_def less_Suc_eq_le length_delete_le)+

lemma mempool_add_Inr:
  assumes "mempool_add E tx st m = Inr (new, m')"
  shows "is_valid E tx = Inr True" "dget (nonces st) (sender tx) 0 \<le> tx_nonce tx"
    "\<not> new \<Longrightarrow> m' = m"
    "new \<Longrightarrow> \<not> dhas (pool m) (txid E tx)"
    "new \<Longrightarrow> length (pool m) < MAX_POOL_SIZE \<Longrightarrow> pool m' = AList.update (txid E tx) tx (pool m)"
    "new \<Longrightarrow> MAX_POOL_SIZE \<le> length (pool m) \<Longrightarrow> \<exists>c.
       c = cheapest (snd (hd (pool m))) (map snd (tl (pool m))) \<and> tx_fee c < tx_fee tx \<and>
       dhas (pool m) (txid E c) \<and>
       pool m' = AList.update (txid E tx) tx (AList.delete (txid E c) (pool m))"
  using assms by (auto simp: mempool_add_def rbind_eq_Inr Let_def split: if_splits)

lemma mempool_add_ok:
  assumes "pool_ok E m" "mempool_add E tx st m = Inr (new, m')"
  shows "pool_ok E m'"
proof (cases "new \<and> MAX_POOL_SIZE \<le> length (pool m)")
  case True
  with mempool_add_Inr(6) [OF assms(2)] obtain c where "dhas (pool m) (txid E c)"
    and m': "pool m' = AList.update (txid E tx) tx (AList.delete (txid E c) (pool m))" by blast
  then have "length (pool m') \<le> length (pool m)"
    using length_delete_has [of "pool m" "txid E c"] mempool_add_Inr(4) [OF assms(2)] True
    by (simp add: length_update_new)
  with assms(1) m' mempool_add_Inr(1) [OF assms(2)] show ?thesis
    by (auto simp: pool_ok_def intro!: list_all_update list_all_delete)
next
  case False
  with assms mempool_add_Inr [OF assms(2)] show ?thesis
    by (cases new) (auto simp: pool_ok_def length_update_new intro!: list_all_update)
qed

lemma mempool_add_all:
  "mempool_add E tx st m = Inr (new, m') \<Longrightarrow> list_all P (pool m) \<Longrightarrow> P (txid E tx, tx) \<Longrightarrow> list_all P (pool m')"
  by (auto simp: mempool_add_def rbind_eq_Inr Let_def intro!: list_all_update list_all_delete split: if_splits)

text \<open>A full pool never refuses with a \<open>KeyError\<close>: the cheapest transaction is filed in it.\<close>

lemma cheapest_filed:
  assumes "pool_ok E m" "pool m \<noteq> []"
  shows "dhas (pool m) (txid E (cheapest (snd (hd (pool m))) (map snd (tl (pool m)))))"
proof -
  let ?c = "cheapest (snd (hd (pool m))) (map snd (tl (pool m)))"
  have "?c \<in> snd ` set (pool m)"
    using cheapest_spec [of "snd (hd (pool m))" "map snd (tl (pool m))"] assms(2)
    by (cases "pool m") auto
  then obtain i where "(i, ?c) \<in> set (pool m)" by auto
  moreover from this assms(1) have "i = txid E ?c" by (auto simp: pool_ok_def list_all_iff)
  ultimately show ?thesis by (force simp: dhas_def)
qed

lemma filterM_Inr: "filterM f xs = Inr ys \<Longrightarrow> (\<And>x. x \<in> set xs \<Longrightarrow> f x = Inr (P x)) \<Longrightarrow> ys = filter P xs"
  by (induction xs arbitrary: ys) (auto simp: rbind_eq_Inr split: if_splits)

lemma filterM_total: "(\<And>x. x \<in> set xs \<Longrightarrow> f x = Inr (P x)) \<Longrightarrow> filterM f xs = Inr (filter P xs)"
  by (induction xs) auto

lemma mempool_update_eq:
  assumes "pool_ok E m"
  shows "mempool_update E st m =
    Inr (m\<lparr>pool := filter (\<lambda>(i, tx). dget (nonces st) (sender tx) 0 \<le> tx_nonce tx) (pool m)\<rparr>)"
proof -
  have "filterM (\<lambda>(i, tx). if dget (nonces st) (sender tx) 0 \<le> tx_nonce tx
                            then is_valid E tx else Inr False) (pool m) =
    Inr (filter (\<lambda>(i, tx). dget (nonces st) (sender tx) 0 \<le> tx_nonce tx) (pool m))"
    using assms by (intro filterM_total) (auto simp: pool_ok_def list_all_iff)
  then show ?thesis by (simp add: mempool_update_def)
qed

lemma mempool_update_ok: "pool_ok E m \<Longrightarrow> mempool_update E st m = Inr m' \<Longrightarrow> pool_ok E m'"
  by (auto simp: mempool_update_eq pool_ok_def wf_dict_def distinct_map_filter list_all_iff
      intro: order_trans [OF length_filter_le])

section \<open>Selection\<close>

text \<open>
  The specification: walking through the list, every transaction carries the next nonce of its
  sender and its sender can pay for it from the balance left by its earlier ones.
\<close>

fun schedule_ok :: "int \<Rightarrow> (pyval \<Rightarrow> int) \<Rightarrow> (pyval \<Rightarrow> int) \<Rightarrow> transaction list \<Rightarrow> bool" where
  "schedule_ok ub bal non [] = True"
| "schedule_ok ub bal non (t # ts) \<longleftrightarrow>
     tx_nonce t = non (sender t) \<and> fst (cost t ub) \<le> bal (sender t) \<and>
     schedule_ok ub (bal(sender t := bal (sender t) + snd (cost t ub)))
       (non(sender t := non (sender t) + 1)) ts"

lemma best_head_gen:
  assumes "foldl (\<lambda>(best, best_fee) (s, i).
       if i < length (dget ready s []) \<and> best_fee < tx_fee (dget ready s [] ! i)
       then (Some s, tx_fee (dget ready s [] ! i)) else (best, best_fee)) (b0, f0) heads = (b, f)"
  shows "f0 \<le> f \<and>
    (\<forall>(s, i) \<in> set heads. i < length (dget ready s []) \<longrightarrow> tx_fee (dget ready s [] ! i) \<le> f) \<and>
    (b = b0 \<and> f = f0 \<or>
     (\<exists>s i. b = Some s \<and> (s, i) \<in> set heads \<and> i < length (dget ready s []) \<and> f = tx_fee (dget ready s [] ! i)))"
  using assms
proof (induction heads arbitrary: b0 f0)
  case (Cons p heads)
  obtain s i where p: "p = (s, i)" by fastforce
  show ?case
    using Cons.IH [of "fst (if i < length (dget ready s []) \<and> f0 < tx_fee (dget ready s [] ! i)
       then (Some s, tx_fee (dget ready s [] ! i)) else (b0, f0))" 
      "snd (if i < length (dget ready s []) \<and> f0 < tx_fee (dget ready s [] ! i)
       then (Some s, tx_fee (dget ready s [] ! i)) else (b0, f0))"] Cons.prems
    by (force simp: p split: if_splits)
qed simp

text \<open>The chosen sender offers the highest fee of all next transactions; none is chosen only when
  all runs are used up.\<close>

lemma best_head_Some:
  assumes "fst (best_head ready heads) = Some s" "wf_dict heads"
  shows "dhas heads s" "dget heads s 0 < length (dget ready s [])"
    and "\<And>s' i. (s', i) \<in> set heads \<Longrightarrow> i < length (dget ready s' []) \<Longrightarrow>
      tx_fee (dget ready s' [] ! i) \<le> tx_fee (dget ready s [] ! dget heads s 0)"
proof -
  obtain b f where bf: "best_head ready heads = (b, f)" by fastforce
  from best_head_gen [OF bf [unfolded best_head_def]] assms(1) bf
  obtain i where i: "(s, i) \<in> set heads" "i < length (dget ready s [])" "f = tx_fee (dget ready s [] ! i)"
    and max: "\<forall>(s, i) \<in> set heads. i < length (dget ready s []) \<longrightarrow> tx_fee (dget ready s [] ! i) \<le> f"
    by auto
  have "dget heads s 0 = i"
    using i(1) assms(2) by (simp add: dget_def wf_dict_def)
  with i max show "dhas heads s" "dget heads s 0 < length (dget ready s [])"
    "\<And>s' i. (s', i) \<in> set heads \<Longrightarrow> i < length (dget ready s' []) \<Longrightarrow>
      tx_fee (dget ready s' [] ! i) \<le> tx_fee (dget ready s [] ! dget heads s 0)"
    by (force simp: dhas_def)+
qed

lemma best_head_None:
  assumes "fst (best_head ready heads) = None" "(s, i) \<in> set heads"
    and "\<And>t. t \<in> set (dget ready s []) \<Longrightarrow> 0 \<le> tx_fee t"
  shows "length (dget ready s []) \<le> i"
proof -
  obtain b f where bf: "best_head ready heads = (b, f)" by fastforce
  from best_head_gen [OF bf [unfolded best_head_def]] assms(1) bf
  have "f = -1" "\<forall>(s, i) \<in> set heads. i < length (dget ready s []) \<longrightarrow> tx_fee (dget ready s [] ! i) \<le> f"
    by auto
  with assms(2) have "i < length (dget ready s []) \<Longrightarrow> tx_fee (dget ready s [] ! i) \<le> -1" by auto
  moreover have "i < length (dget ready s []) \<Longrightarrow> 0 \<le> tx_fee (dget ready s [] ! i)"
    by (rule assms(3)) simp
  ultimately show ?thesis by (cases "i < length (dget ready s [])") auto
qed

lemma set_runnable: "t \<in> set (runnable ub e b txs) \<Longrightarrow> t \<in> set txs"
  by (induction ub e b txs rule: runnable.induct) (auto simp: Let_def split: if_splits prod.splits)

lemma runnable_ConsD:
  assumes "runnable ub e b txs = t # ts"
  shows "tx_nonce t = e" "fst (cost t ub) \<le> b"
    "\<exists>txs'. ts = runnable ub (e + 1) (b + snd (cost t ub)) txs'"
  using assms by (cases txs; auto split: if_splits prod.splits)+

lemma merge_schedule:
  "(\<And>s. \<exists>ts. drop (dget heads s 0) (dget ready s []) = runnable ub (non s) (bal s) ts) \<Longrightarrow>
   (\<And>s t. t \<in> set (dget ready s []) \<Longrightarrow> sender t = s) \<Longrightarrow> wf_dict heads \<Longrightarrow>
   schedule_ok ub bal non (merge_loop n ready heads)"
proof (induction n arbitrary: heads bal non)
  case (Suc n)
  show ?case
  proof (cases "fst (best_head ready heads)")
    case (Some s)
    let ?i = "dget heads s 0" and ?t = "dget ready s [] ! dget heads s 0"
    note best = best_head_Some [OF Some Suc.prems(3)]
    have sender: "sender ?t = s" using best(2) by (intro Suc.prems(2)) simp
    have drop: "drop ?i (dget ready s []) = ?t # drop (Suc ?i) (dget ready s [])"
      using best(2) by (simp add: Cons_nth_drop_Suc)
    with Suc.prems(1) [of s] obtain ts where
      run: "runnable ub (non s) (bal s) ts = ?t # drop (Suc ?i) (dget ready s [])" by metis
    have nxt: "\<exists>ts. drop (dget (AList.update s (Suc ?i) heads) s' 0) (dget ready s' []) =
        runnable ub ((non(s := non s + 1)) s') ((bal(s := bal s + snd (cost ?t ub))) s') ts" for s'
      using Suc.prems(1) [of s'] runnable_ConsD(3) [OF run] by auto
    have "schedule_ok ub (bal(s := bal s + snd (cost ?t ub))) (non(s := non s + 1))
        (merge_loop n ready (AList.update s (Suc ?i) heads))"
      by (rule Suc.IH [OF nxt Suc.prems(2)]) (simp_all add: Suc.prems(3))
    with Some sender runnable_ConsD(1,2) [OF run] show ?thesis by simp
  qed simp
qed simp

text \<open>What is taken of one sender is an initial part of its run, all of it when the block is not full.\<close>

lemma merge_taken:
  "(\<And>s t. t \<in> set (dget ready s []) \<Longrightarrow> sender t = s \<and> 0 \<le> tx_fee t) \<Longrightarrow> wf_dict heads \<Longrightarrow> dhas heads s \<Longrightarrow>
   \<exists>k. filter (\<lambda>t. sender t = s) (merge_loop n ready heads) = take k (drop (dget heads s 0) (dget ready s []))
     \<and> (length (merge_loop n ready heads) < n \<longrightarrow> length (dget ready s []) \<le> dget heads s 0 + k)"
proof (induction n arbitrary: heads)
  case 0
  show ?case by (rule exI [of _ 0]) simp
next
  case (Suc n)
  show ?case
  proof (cases "fst (best_head ready heads)")
    case None
    from Suc.prems(3) obtain i where i: "(s, i) \<in> set heads" by (auto simp: dhas_def)
    with Suc.prems(2) have "dget heads s 0 = i" by (simp add: dget_def wf_dict_def)
    moreover have "length (dget ready s []) \<le> i"
      by (rule best_head_None [OF None i]) (simp add: Suc.prems(1))
    ultimately show ?thesis using None by (intro exI [of _ 0]) simp
  next
    case (Some s')
    let ?i = "dget heads s' 0" and ?t = "dget ready s' [] ! dget heads s' 0"
    let ?heads = "AList.update s' (Suc ?i) heads"
    note best = best_head_Some [OF Some Suc.prems(2)]
    have sender: "sender ?t = s'" using best(2) Suc.prems(1) by simp
    have drop: "drop ?i (dget ready s' []) = ?t # drop (Suc ?i) (dget ready s' [])"
      using best(2) by (simp add: Cons_nth_drop_Suc)
    have "wf_dict ?heads" "dhas ?heads s" using Suc.prems(2,3) by simp_all
    from Suc.IH [OF Suc.prems(1) this] obtain k where
      k: "filter (\<lambda>t. sender t = s) (merge_loop n ready ?heads) = take k (drop (dget ?heads s 0) (dget ready s []))"
        "length (merge_loop n ready ?heads) < n \<longrightarrow> length (dget ready s []) \<le> dget ?heads s 0 + k"
      by blast
    show ?thesis
    proof (cases "s = s'")
      case True
      with Some k sender drop show ?thesis by (intro exI [of _ "Suc k"]) simp
    next
      case False
      with Some k sender show ?thesis by (intro exI [of _ k]) simp
    qed
  qed
qed

text \<open>At every point of the block the fee taken is the highest that any sender has next.\<close>

lemma merge_priority:
  "(\<And>s t. t \<in> set (dget ready s []) \<Longrightarrow> sender t = s) \<Longrightarrow> wf_dict heads \<Longrightarrow> dhas heads s \<Longrightarrow>
   merge_loop n ready heads = pre @ t # post \<Longrightarrow>
   j = dget heads s 0 + length (filter (\<lambda>t. sender t = s) pre) \<Longrightarrow> j < length (dget ready s []) \<Longrightarrow>
   tx_fee (dget ready s [] ! j) \<le> tx_fee t"
proof (induction pre arbitrary: n heads)
  case Nil
  from Nil.prems(4) obtain n' s' where n: "n = Suc n'" and s': "fst (best_head ready heads) = Some s'"
    and t: "t = dget ready s' [] ! dget heads s' 0"
    by (cases n) (auto split: option.splits)
  from Nil.prems(3) obtain i where i: "(s, i) \<in> set heads" by (auto simp: dhas_def)
  with Nil.prems(2) have "dget heads s 0 = i" by (simp add: dget_def wf_dict_def)
  with best_head_Some(3) [OF s' Nil.prems(2) i] Nil.prems(5,6) show ?case by (simp add: t)
next
  case (Cons u pre)
  from Cons.prems(4) obtain n' s' where n: "n = Suc n'" and s': "fst (best_head ready heads) = Some s'"
    and u: "u = dget ready s' [] ! dget heads s' 0"
    and rest: "merge_loop n' ready (AList.update s' (Suc (dget heads s' 0)) heads) = pre @ t # post"
    by (cases n) (auto split: option.splits)
  have "sender u = s'"
    using best_head_Some(2) [OF s' Cons.prems(2)] by (intro Cons.prems(1)) (simp add: u)
  then show ?case
    using Cons.prems(2,3,5,6) by (intro Cons.IH [OF Cons.prems(1) _ _ rest]) auto
qed

lemma length_merge: "length (merge_loop n ready heads) \<le> n"
  by (induction n arbitrary: heads) (auto split: option.splits)

subsection \<open>Grouping\<close>

lemma group_gen:
  "dget (foldl (\<lambda>d tx. AList.update (sender tx) (dget d (sender tx) [] @ [tx]) d) d txs) s [] =
     dget d s [] @ filter (\<lambda>t. sender t = s) txs"
  "wf_dict d \<Longrightarrow> wf_dict (foldl (\<lambda>d tx. AList.update (sender tx) (dget d (sender tx) [] @ [tx]) d) d txs)"
  by (induction txs arbitrary: d) auto

lemma group_by_sender: "dget (group_by_sender txs) s [] = filter (\<lambda>t. sender t = s) txs"
  "wf_dict (group_by_sender txs)"
  by (simp_all add: group_by_sender_def group_gen)

lemma dget_filter_map:
  "wf_dict d \<Longrightarrow> f s [] = [] \<Longrightarrow>
   dget (filter (\<lambda>p. snd p \<noteq> []) (map (\<lambda>(s, txs). (s, f s txs)) d)) s [] = f s (dget d s [])"
  by (induction d) (auto simp: wf_dict_def dget_not_dhas dhas_def)

lemma ready_runs:
  assumes "wf_dict groups"
  shows "dget (ready_runs st ub groups) s [] =
    runnable ub (dget (nonces st) s 0) (balance_of st s) (sort_key tx_nonce (dget groups s []))"
  unfolding ready_runs_def
  by (subst dget_filter_map [OF assms, where f = "\<lambda>s txs. runnable ub (dget (nonces st) s 0)
      (balance_of st s) (sort_key tx_nonce txs)"]) simp_all

lemma wf_ready_runs: "wf_dict groups \<Longrightarrow> wf_dict (ready_runs st ub groups)"
  unfolding ready_runs_def wf_dict_def
  by (intro distinct_map_filter) (simp add: comp_def case_prod_beta')

subsection \<open>The result\<close>

text \<open>The run of one sender: from its next nonce on, as far as its balance goes.\<close>

definition sender_run :: "mempool \<Rightarrow> 'b blockchain_scheme \<Rightarrow> int \<Rightarrow> pyval \<Rightarrow> transaction list" where
  "sender_run m st ub s =
     runnable ub (dget (nonces st) s 0) (balance_of st s)
       (sort_key tx_nonce (filter (\<lambda>t. sender t = s) (map snd (pool m))))"

lemma set_sender_run: "t \<in> set (sender_run m st ub s) \<Longrightarrow> sender t = s \<and> t \<in> snd ` set (pool m)"
  unfolding sender_run_def by (drule set_runnable) auto

lemma select_merge:
  obtains ready where
    "select m st ub k = merge_loop (nat k) ready (map (\<lambda>p. (fst p, 0)) ready)"
    "wf_dict ready" "\<And>s. dget ready s [] = sender_run m st ub s"
proof (rule that [OF _ wf_ready_runs])
  show "dget (ready_runs st ub (group_by_sender (map snd (pool m)))) s [] = sender_run m st ub s" for s
    by (simp only: ready_runs [OF group_by_sender(2)] group_by_sender(1) sender_run_def)
qed (simp_all add: select_def Let_def group_by_sender(2))

lemma start_heads:
  "dget (map (\<lambda>p. (fst p, 0 :: nat)) d) s 0 = 0"
  "wf_dict d \<Longrightarrow> wf_dict (map (\<lambda>p. (fst p, 0 :: nat)) d)"
  "dhas (map (\<lambda>p. (fst p, 0 :: nat)) d) s = dhas d s"
  by (induction d) (auto simp: wf_dict_def dhas_def comp_def)

lemma select_schedule:
  "schedule_ok ub (balance_of st) (\<lambda>s. dget (nonces st) s 0) (select m st ub k)"
proof -
  obtain ready where sel: "select m st ub k = merge_loop (nat k) ready (map (\<lambda>p. (fst p, 0)) ready)"
    and wf: "wf_dict ready" and run: "\<And>s. dget ready s [] = sender_run m st ub s"
    by (rule select_merge) blast
  show ?thesis
    unfolding sel
  proof (rule merge_schedule)
    show "wf_dict (map (\<lambda>p. (fst p, 0 :: nat)) ready)" by (rule start_heads(2) [OF wf])
    show "\<exists>ts. drop (dget (map (\<lambda>p. (fst p, 0)) ready) s 0) (dget ready s []) =
        runnable ub (dget (nonces st) s 0) (balance_of st s) ts" for s
      by (auto simp: start_heads(1) run sender_run_def)
    show "t \<in> set (dget ready s []) \<Longrightarrow> sender t = s" for s t
      using set_sender_run [of t m st ub s] by (simp add: run)
  qed
qed

lemma select_length: "length (select m st ub k) \<le> nat k"
  by (simp add: select_def Let_def length_merge)

lemma sender_run_Nil: "sender_run m st ub s \<noteq> [] \<Longrightarrow> (\<And>s. dget ready s [] = sender_run m st ub s) \<Longrightarrow> dhas ready s"
  by (metis dget_not_dhas)

lemma select_taken:
  assumes "\<And>t. t \<in> snd ` set (pool m) \<Longrightarrow> 0 \<le> tx_fee t"
  shows "\<exists>j. filter (\<lambda>t. sender t = s) (select m st ub k) = take j (sender_run m st ub s)
     \<and> (length (select m st ub k) < nat k \<longrightarrow> length (sender_run m st ub s) \<le> j)"
proof -
  obtain ready where sel: "select m st ub k = merge_loop (nat k) ready (map (\<lambda>p. (fst p, 0)) ready)"
    and wf: "wf_dict ready" and run: "\<And>s. dget ready s [] = sender_run m st ub s"
    by (rule select_merge) blast
  have ok: "\<And>s t. t \<in> set (dget ready s []) \<Longrightarrow> sender t = s \<and> 0 \<le> tx_fee t"
    using set_sender_run assms by (fastforce simp: run)
  have sub: "t \<in> set (merge_loop n ready heads) \<Longrightarrow> wf_dict heads \<Longrightarrow> dhas ready (sender t)" for t n heads
  proof (induction n arbitrary: heads)
    case (Suc n)
    then show ?case
    proof (cases "fst (best_head ready heads)")
      case (Some s')
      from best_head_Some(2) [OF Some Suc.prems(2)]
      have "dhas ready s'" "sender (dget ready s' [] ! dget heads s' 0) = s'"
        using ok [of _ s'] by (force intro: ccontr)+
      with Suc Some show ?thesis by auto
    qed simp
  qed simp
  show ?thesis
  proof (cases "dhas ready s")
    case True
    then show ?thesis
      unfolding sel run [symmetric]
      using merge_taken [of ready "map (\<lambda>p. (fst p, 0)) ready" s "nat k", OF ok]
      by (simp add: start_heads wf)
  next
    case False
    then have "filter (\<lambda>t. sender t = s) (select m st ub k) = []"
      using sub [OF _ start_heads(2) [OF wf]] by (auto simp: sel filter_empty_conv)
    moreover have "sender_run m st ub s = []" using False run by (metis dget_not_dhas)
    ultimately show ?thesis by simp
  qed
qed

lemma select_set:
  assumes "\<And>t. t \<in> snd ` set (pool m) \<Longrightarrow> 0 \<le> tx_fee t" "t \<in> set (select m st ub k)"
  shows "t \<in> snd ` set (pool m)"
proof -
  from select_taken [OF assms(1), where s = "sender t" and st = st and ub = ub and k = k] obtain j where
    "filter (\<lambda>u. sender u = sender t) (select m st ub k) = take j (sender_run m st ub (sender t))"
    by blast
  moreover have "t \<in> set (filter (\<lambda>u. sender u = sender t) (select m st ub k))"
    using assms(2) by simp
  ultimately have "t \<in> set (take j (sender_run m st ub (sender t)))" by (simp only:)
  then show ?thesis using set_sender_run in_set_takeD by metis
qed

lemma select_priority:
  assumes "select m st ub k = pre @ t # post"
    and "j = length (filter (\<lambda>t. sender t = s) pre)" "j < length (sender_run m st ub s)"
  shows "tx_fee (sender_run m st ub s ! j) \<le> tx_fee t"
proof -
  obtain ready where sel: "select m st ub k = merge_loop (nat k) ready (map (\<lambda>p. (fst p, 0)) ready)"
    and wf: "wf_dict ready" and run: "\<And>s. dget ready s [] = sender_run m st ub s"
    by (rule select_merge) blast
  have "dhas ready s"
    using assms(3) run by (intro sender_run_Nil) auto
  then show ?thesis
    using merge_priority [of ready "map (\<lambda>p. (fst p, 0)) ready" s "nat k" pre t post j] assms sel set_sender_run
    by (fastforce simp: start_heads wf run)
qed

section \<open>The chain accepts the selection\<close>

lemma schedule_nonces:
  "schedule_ok ub bal non txs \<Longrightarrow> \<exists>n \<ge> non a. sender_nonces a txs = [non a .. n - 1]"
proof (induction ub bal non txs rule: schedule_ok.induct)
  case (2 ub bal non t ts)
  from "2.prems" have "schedule_ok ub (bal(sender t := bal (sender t) + snd (cost t ub)))
      (non(sender t := non (sender t) + 1)) ts" by simp
  from "2.IH" [OF this] obtain n where n: "(non(sender t := non (sender t) + 1)) a \<le> n"
    "sender_nonces a ts = [(non(sender t := non (sender t) + 1)) a .. n - 1]" by blast
  with "2.prems" show ?case
    by (intro exI [of _ n]) (auto simp: upto_rec1 split: if_splits)
qed auto

lemma select_txids:
  assumes "pool_ok E m"
  shows "distinct (map (txid E) (select m st ub k))"
    and "t \<in> set (select m st ub k) \<Longrightarrow> is_valid E t = Inr True \<and> t \<in> snd ` set (pool m)"
proof -
  let ?sel = "select m st ub k"
  have valid: "t \<in> snd ` set (pool m) \<Longrightarrow> is_valid E t = Inr True" for t
    using assms by (auto simp: pool_ok_def list_all_iff)
  then have "t \<in> snd ` set (pool m) \<Longrightarrow> 0 \<le> tx_fee t" for t
    using is_valid_nonneg(2) by blast
  then have sub: "t \<in> set ?sel \<Longrightarrow> t \<in> snd ` set (pool m)" for t
    by (rule select_set)
  then show "t \<in> set ?sel \<Longrightarrow> is_valid E t = Inr True \<and> t \<in> snd ` set (pool m)"
    using valid by blast
  have "distinct (sender_nonces a ?sel)" for a
    using schedule_nonces [OF select_schedule [of ub st m k], of a] by auto
  then have "distinct ?sel"
    using distinct_sender_nonces distinct_map by blast
  moreover have "inj_on (txid E) (snd ` set (pool m))"
  proof (rule inj_onI)
    fix x y
    assume "x \<in> snd ` set (pool m)" "y \<in> snd ` set (pool m)" "txid E x = txid E y"
    then have "(txid E x, x) \<in> set (pool m)" "(txid E x, y) \<in> set (pool m)"
      using assms by (auto simp: pool_ok_def list_all_iff)
    then show "x = y"
      using assms by (auto simp: pool_ok_def wf_dict_def dest: eq_key_imp_eq_value)
  qed
  ultimately show "distinct (map (txid E) ?sel)"
    using sub by (metis distinct_map inj_on_subset subsetI)
qed

text \<open>A transfer or stake transaction whose sender is under no vesting grant.\<close>

definition plain :: "pos_chain \<Rightarrow> transaction \<Rightarrow> bool" where
  "plain st tx \<longleftrightarrow> is_str (recipient tx) \<and>
     the_str (recipient tx) \<notin> {SLASH_SENTINEL, VOTE_SENTINEL, UNSTAKE_SENTINEL} \<and>
     map_of (vesting st) (the_str (sender tx)) = None"

lemma plain_cost: "plain st tx \<Longrightarrow> cost tx ub = (tx_amount tx + tx_fee tx, - (tx_amount tx + tx_fee tx))"
  by (auto simp: plain_def cost_def is_str_iff)

lemma plain_applies:
  assumes "is_valid E tx = Inr True" "plain st tx" "hash_key (validator b) = Inr v"
    and "tx_amount tx + tx_fee tx \<le> dget (w_balances w) (sender tx) 0"
  shows "\<exists>w'. pos_apply_tx E st tx b w = Inr w' \<and>
    (\<forall>a. dget (w_balances w) a 0 - (if a = sender tx then tx_amount tx + tx_fee tx else 0)
         \<le> dget (w_balances w') a 0)"
proof -
  obtain r where r: "recipient tx = PStr r" "r \<noteq> SLASH_SENTINEL" "r \<noteq> VOTE_SENTINEL" "r \<noteq> UNSTAKE_SENTINEL"
    and novest: "\<And>w. enforce_vesting st (the_str (sender tx)) (the_int (index b)) w = Inr ()"
    using assms(2) by (auto simp: plain_def is_str_iff enforce_vesting_def)
  have pos: "0 < tx_amount tx" "0 \<le> tx_fee tx"
    using assms(1) r by (auto elim!: is_validE)
  with assms(4) obtain x where x: "map_of (w_balances w) (sender tx) = Some x" "dget (w_balances w) (sender tx) 0 = x"
    by (cases "map_of (w_balances w) (sender tx)") (auto simp: dget_def)
  show ?thesis
    using r pos assms(3,4) x
    by (auto simp: pos_apply_tx_def novest apply_stake_def base_apply_tx_def Let_def dlookup_def
        credit_validator_def)
qed

lemma schedule_accepted:
  "schedule_ok ub bal non txs \<Longrightarrow> (\<And>a. non a = dget (w_nonces w) a 0) \<Longrightarrow>
   (\<And>a. bal a \<le> dget (w_balances w) a 0) \<Longrightarrow>
   (\<And>t. t \<in> set txs \<Longrightarrow> is_valid E t = Inr True \<and> plain st t) \<Longrightarrow>
   distinct (map (txid E) txs) \<Longrightarrow> set seen \<inter> txid E ` set txs = {} \<Longrightarrow>
   hash_key (validator b) = Inr v \<Longrightarrow> \<exists>w'. apply_txs E (pos_hooks E) st b seen w txs = Inr w'"
proof (induction ub bal non txs arbitrary: seen w rule: schedule_ok.induct)
  case (2 ub bal non t ts)
  have valid: "is_valid E t = Inr True" and plain: "plain st t" using "2.prems"(4) by simp_all
  note cost = plain_cost [OF plain]
  have afford: "tx_amount t + tx_fee t \<le> dget (w_balances w) (sender t) 0"
    using "2.prems"(1,3) order_trans by (fastforce simp: cost)
  from plain_applies [OF valid plain "2.prems"(7) afford] obtain w' where
    w': "pos_apply_tx E st t b w = Inr w'" and
    bal: "\<And>a. dget (w_balances w) a 0 - (if a = sender t then tx_amount t + tx_fee t else 0)
           \<le> dget (w_balances w') a 0" by blast
  have "\<exists>w''. apply_txs E (pos_hooks E) st b (txid E t # seen) w' ts = Inr w''"
  proof (rule "2.IH")
    show "schedule_ok ub (bal(sender t := bal (sender t) + snd (cost t ub)))
        (non(sender t := non (sender t) + 1)) ts" using "2.prems"(1) by simp
    show "(non(sender t := non (sender t) + 1)) a = dget (w_nonces w') a 0" for a
      using "2.prems"(1,2) by (simp add: pos_apply_tx_nonces [OF w'])
    show "(bal(sender t := bal (sender t) + snd (cost t ub))) a \<le> dget (w_balances w') a 0" for a
      using "2.prems"(3) [of a] bal [of a] by (auto simp: cost split: if_splits)
  qed (use "2.prems" in auto)
  with w' valid "2.prems"(1,2,6) show ?case by (simp add: pos_hooks_def)
qed simp

end
