(* ===== verification/Signing.thy ===== *)
theory Signing
  imports Election Mempool
begin

text \<open>
  What honest participants get through: a transaction signed with its sender's wallet is valid, a
  block sealed by the elected wallet passes the proposer check, and the block a validator builds
  from its mempool is accepted. The cryptographic package is a parameter; what the code relies on
  is the predicate \<open>ecdsa_laws\<close>, the documented behaviour of a signature scheme over the curve:
  a fresh signature verifies under the public key, has both halves in range, and stays good when
  the second half is replaced by its negative.
\<close>

section \<open>Signatures\<close>

definition ecdsa_laws :: "env \<Rightarrow> int \<Rightarrow> bool" where
  "ecdsa_laws E sec \<longleftrightarrow>
     point_ok E (public_bytes E sec) \<and> public_bytes E sec \<noteq> [] \<and> decode_dss E [] = None \<and>
     (\<forall>m k. \<exists>r s. decode_dss E (ecdsa_sign E sec m k) = Some (r, s) \<and>
        1 \<le> r \<and> r < SECP256K1_N \<and> 1 \<le> s \<and> s < SECP256K1_N \<and>
        ecdsa_verify E (public_bytes E sec) m (ecdsa_sign E sec m k) \<and>
        decode_dss E (encode_dss E r (SECP256K1_N - s)) = Some (r, SECP256K1_N - s) \<and>
        ecdsa_verify E (public_bytes E sec) m (encode_dss E r (SECP256K1_N - s)))"

text \<open>\<open>Wallet.sign\<close> returns a signature that \<open>verify_signature\<close> accepts, in its low-S form.\<close>

lemma wallet_sign_verifies:
  assumes "ecdsa_laws E (secret w)"
  shows "\<exists>sig. wallet_sign E w m k = Inr sig \<and> sig \<noteq> [] \<and>
    verify_signature E (public_key_bytes E w) m sig \<and>
    (\<exists>r s. decode_dss E sig = Some (r, s) \<and> 1 \<le> s \<and> s \<le> HALF_N)"
proof -
  let ?sig = "ecdsa_sign E (secret w) m k"
  obtain r s where rs: "decode_dss E ?sig = Some (r, s)" "1 \<le> r" "r < SECP256K1_N" "1 \<le> s" "s < SECP256K1_N"
    "ecdsa_verify E (public_bytes E (secret w)) m ?sig"
    "decode_dss E (encode_dss E r (SECP256K1_N - s)) = Some (r, SECP256K1_N - s)"
    "ecdsa_verify E (public_bytes E (secret w)) m (encode_dss E r (SECP256K1_N - s))"
    using assms unfolding ecdsa_laws_def by blast
  have half: "HALF_N < s \<Longrightarrow> SECP256K1_N - s \<le> HALF_N"
    by (simp add: HALF_N_def SECP256K1_N_def)
  have ne: "?sig \<noteq> []" "encode_dss E r (SECP256K1_N - s) \<noteq> []"
    using rs(1,7) assms by (auto simp: ecdsa_laws_def)
  have "point_ok E (public_bytes E (secret w))" using assms by (simp add: ecdsa_laws_def)
  with rs half ne show ?thesis
    by (cases "HALF_N < s") (auto simp: wallet_sign_def verify_signature_def public_key_bytes_def)
qed

lemma hex_nonempty: "bs \<noteq> [] \<Longrightarrow> hex bs \<noteq> []"
  by (cases bs) (simp_all add: hex_byte_def)

lemma sign_tx_valid:
  assumes "ecdsa_laws E (secret w)" "sender tx = PStr (address E w)"
    and "amount tx = PInt a" "fee tx = PInt f" "nonce tx = PInt n" "0 \<le> f" "0 \<le> n"
    and "evidence tx = PStr ev"
    and "if recipient tx = PStr SLASH_SENTINEL \<or> recipient tx = PStr VOTE_SENTINEL then a = 0 \<and> ev \<noteq> [] else 0 < a"
  shows "\<exists>tx'. sign_tx E w k tx = Inr tx' \<and> is_valid E tx' = Inr True \<and>
    tx' = tx\<lparr>public_key := public_key tx', signature := signature tx'\<rparr>"
proof -
  let ?tx = "tx\<lparr>public_key := PStr (public_key_hex E w)\<rparr>"
  obtain sig where sig: "wallet_sign E w (signing_payload E ?tx) k = Inr sig" "sig \<noteq> []"
    "verify_signature E (public_key_bytes E w) (signing_payload E ?tx) sig"
    using wallet_sign_verifies [OF assms(1)] by blast
  have pay: "signing_payload E (?tx\<lparr>signature := PStr (hex sig)\<rparr>) = signing_payload E ?tx"
    by (simp add: signing_payload_def)
  have "public_key_bytes E w \<noteq> []" using assms(1) by (simp add: ecdsa_laws_def public_key_bytes_def)
  with sig(2) have "hex sig \<noteq> []" "public_key_hex E w \<noteq> []"
    by (simp_all add: hex_nonempty public_key_hex_def)
  then have "is_valid E (?tx\<lparr>signature := PStr (hex sig)\<rparr>) = Inr True"
    using assms(2-9) sig(3) pay
    by (auto simp: is_valid_def public_key_hex_def address_def split: if_splits)
  with sig(1) assms(2) show ?thesis by (auto simp: sign_tx_def)
qed

lemma signed_shape:
  assumes "sign_tx E w k (new_tx (address E w) to amt f n ev) = Inr tx"
  shows "jsonable E (encode_tx tx)" "sender tx = PStr (address E w)" "recipient tx = PStr to" "amount tx = PInt amt"
    "fee tx = PInt f" "nonce tx = PInt n"
  using assms by (auto simp: sign_tx_def Let_def rbind_eq_Inr new_tx_def encode_tx_def)

text \<open>An address begins with the digit of its version byte, so no reserved recipient is one.\<close>

lemma b58_zeros_lead: "\<exists>s. b58_zeros bs (CHR ''1'' # out) = CHR ''1'' # s"
  by (induction bs arbitrary: out) auto

lemma address_lead: "\<exists>s. address E w = CHR ''1'' # s"
  using b58_zeros_lead by (simp add: address_def address_from_public_key_def b58check_def Let_def)

lemma address_not_reserved:
  "address E w \<noteq> STAKE_SENTINEL" "address E w \<noteq> UNSTAKE_SENTINEL" "address E w \<noteq> SLASH_SENTINEL"
  "address E w \<noteq> VOTE_SENTINEL"
  using address_lead [of E w]
  by (auto simp: STAKE_SENTINEL_def UNSTAKE_SENTINEL_def SLASH_SENTINEL_def VOTE_SENTINEL_def)

section \<open>Sealed blocks\<close>

lemma seal_block_Inr:
  assumes "ecdsa_laws E (secret w)"
  obtains b r sig where "seal_block E prev idx w txs ts non k = Inr b"
    "index b = idx" "previous_hash b = prev" "transactions b = txs" "validator b = PStr (address E w)"
    "merkle_root E (map (txid E) txs) = Inr r" "block_merkle_root b = PStr r"
    "proposer_pubkey b = PStr (public_key_hex E w)" "validator_sig b = PStr (hex sig)" "sig \<noteq> []"
    "verify_signature E (public_key_bytes E w) (sha256 E (canonical E (header b))) sig"
proof -
  obtain r where r: "merkle_root E (map (txid E) txs) = Inr r" using merkle_root_total by blast
  let ?b = "\<lparr>index = idx, previous_hash = prev, timestamp = ts, transactions = txs,
      validator = PStr (address E w), block_nonce = non, block_merkle_root = PStr r,
      proposer_pubkey = PStr (public_key_hex E w), validator_sig = PStr []\<rparr>"
  obtain sig where sig: "wallet_sign E w (sha256 E (canonical E (header ?b))) k = Inr sig" "sig \<noteq> []"
    "verify_signature E (public_key_bytes E w) (sha256 E (canonical E (header ?b))) sig"
    using wallet_sign_verifies [OF assms] by blast
  have hdr: "header (?b\<lparr>validator_sig := PStr (hex sig)\<rparr>) = header ?b" by (simp add: header_def)
  have "seal_block E prev idx w txs ts non k = Inr (?b\<lparr>validator_sig := PStr (hex sig)\<rparr>)"
    using r sig(1) by (simp add: seal_block_def new_block_def block_hash_def)
  then show ?thesis
    by (rule that) (use r sig(2,3) hdr in simp_all)
qed

lemma seal_block_passes:
  assumes "ecdsa_laws E (secret w)" "elect E st prev idx = Inr (address E w)"
    and "seal_block E prev idx w txs ts non k = Inr b"
  shows "pos_check_proposer E st b = Inr ()"
proof -
  obtain r sig where b: "index b = idx" "previous_hash b = prev" "validator b = PStr (address E w)"
    "proposer_pubkey b = PStr (public_key_hex E w)" "validator_sig b = PStr (hex sig)" "sig \<noteq> []"
    "verify_signature E (public_key_bytes E w) (sha256 E (canonical E (header b))) sig"
    using seal_block_Inr [OF assms(1), of prev idx txs ts non k] assms(3) by (metis Inr_inject)
  have "public_key_bytes E w \<noteq> []" using assms(1) by (simp add: ecdsa_laws_def public_key_bytes_def)
  with b assms(2) show ?thesis
    by (simp add: pos_check_proposer_def hexbytes_def public_key_hex_def block_hash_def address_def hex_nonempty)
qed

lemma sealed_jsonable:
  "seal_block E (PStr prev) (PInt i) w txs (PInt ts) (PInt non) k = Inr b \<Longrightarrow>
   (\<And>t. t \<in> set txs \<Longrightarrow> jsonable E (encode_tx t)) \<Longrightarrow> jsonable E (encode_block b)"
  by (auto simp: rbind_eq_Inr seal_block_def new_block_def encode_block_def list_all_iff Let_def simp del: encode_tx_def)

section \<open>The block built from the mempool\<close>

lemma mature_balance_mono:
  "mature h u bal = (bal', u') \<Longrightarrow> dall positive_entries u \<Longrightarrow> dget bal x 0 \<le> dget bal' x 0"
proof (induction h u bal arbitrary: bal' u' rule: mature.induct)
  case (2 h a q u bal)
  obtain bal1 q' where q': "mature_entries h a q bal = (bal1, q')" by fastforce
  obtain u1 where u1: "mature h u bal1 = (bal', u1)"
    using "2.prems"(1) q' by (auto split: prod.splits)
  have "unbonding_sum (filter P q) \<le> unbonding_sum q" for P
    using "2.prems"(2) by (induction q) auto
  then have "dget bal x 0 \<le> dget bal1 x 0"
    using mature_entries_eq [OF q'] by simp
  with "2.IH" [OF q' [symmetric] refl u1] "2.prems"(2) show ?case by simp
qed simp

text \<open>The working copies a block starts from have at least the balances of the chain, and its nonces.\<close>

lemma pre_start:
  assumes "pos_inv st" "pos_apply_block_pre E st b (start_work (pos_hooks E) st) = Inr w1"
  shows "pos_winv w1" "dget (w_nonces w1) a 0 = dget (nonces st) a 0" "balance_of st a \<le> dget (w_balances w1) a 0"
proof -
  let ?w = "start_work (pos_hooks E) st"
  have inv: "pos_winv ?w" using assms(1) by (simp add: pos_winv_start)
  show "pos_winv w1" using pos_pre_keeps [OF assms(2) inv] by simp
  show "dget (w_nonces w1) a 0 = dget (nonces st) a 0"
    using pos.pre_nonces [of E st b ?w w1] assms(2) by (simp add: pos_hooks_def start_work_def)
  obtain bal unb where m: "mature (the_int (index b)) (unbonding (w_aux ?w)) (w_balances ?w) = (bal, unb)"
    by fastforce
  have "w_balances w1 = bal"
    using assms(2) by (auto simp: pos_apply_block_pre_def Let_def m split: if_splits)
  moreover have "dget (w_balances ?w) a 0 \<le> dget bal a 0"
    using mature_balance_mono [OF m] inv by (simp add: pos_winv_def)
  ultimately show "balance_of st a \<le> dget (w_balances w1) a 0" by (simp add: balance_of_def start_work_def)
qed

lemma select_on_chain:
  assumes "pos_inv st" "pool_ok E m" "\<And>t. t \<in> snd ` set (pool m) \<Longrightarrow> plain st t"
    and "hash_key (validator b) = Inr v" "pos_apply_block_pre E st b (start_work (pos_hooks E) st) = Inr w1"
  shows "\<exists>w2. apply_txs E (pos_hooks E) st b [] w1 (select m st ub k) = Inr w2"
proof (rule schedule_accepted [OF select_schedule])
  show "dget (nonces st) a 0 = dget (w_nonces w1) a 0" "balance_of st a \<le> dget (w_balances w1) a 0" for a
    using pre_start [OF assms(1,5)] by simp_all
  show "distinct (map (txid E) (select m st ub k))" by (rule select_txids(1) [OF assms(2)])
  show "t \<in> set (select m st ub k) \<Longrightarrow> is_valid E t = Inr True \<and> plain st t" for t
    using select_txids(2) [OF assms(2)] assms(3) by blast
qed (use assms(4) in simp_all)

text \<open>What \<open>add_block\<close> does when it is the wallet's turn: apply the transactions, and commit.\<close>

lemma add_block_eq:
  assumes reach: "pos_reachable E g st" and laws: "ecdsa_laws E (secret w)"
    and turn: "next_validator E st = Inr (address E w)"
  shows "\<exists>b w1. seal_block E (PStr (block_hash E (head st))) (PInt (int (length (chain st)))) w txs ts non k = Inr b \<and>
    validator b = PStr (address E w) \<and> transactions b = txs \<and>
    pos_apply_block_pre E st b (start_work (pos_hooks E) st) = Inr w1 \<and>
    submit_block E (pos_hooks E) st b = pos_add_block E st txs w ts non k \<and>
    pos_add_block E st txs w ts non k =
      rbind (apply_txs E (pos_hooks E) st b [] w1 txs) (\<lambda>w2. Inr ((commit_work (pos_hooks E) w2 st)\<lparr>chain := chain st @ [b]\<rparr>))"
proof -
  let ?prev = "PStr (block_hash E (head st))" and ?i = "PInt (int (length (chain st)))"
  have inv: "pos_inv st" using reachable_inv [OF reach] by simp
  have succ: "py_succ E (index (head st)) = Inr ?i"
    using heights_ok_last [OF reachable_heights [OF reach]] by (simp add: head_def py_succ_int)
  have elect: "elect E st ?prev ?i = Inr (address E w)" using turn succ by (simp add: next_validator_def)
  obtain b r where b: "seal_block E ?prev ?i w txs ts non k = Inr b" "index b = ?i" "previous_hash b = ?prev"
    "transactions b = txs" "validator b = PStr (address E w)"
    "merkle_root E (map (txid E) txs) = Inr r" "block_merkle_root b = PStr r"
    by (rule seal_block_Inr [OF laws, of ?prev ?i txs ts non k]) blast
  obtain w1 where w1: "pos_apply_block_pre E st b (start_work (pos_hooks E) st) = Inr w1"
    by (cases "mature (the_int (index b)) (unbonding (w_aux (start_work (pos_hooks E) st)))
        (w_balances (start_work (pos_hooks E) st))") (simp add: pos_apply_block_pre_def Let_def)
  have sup: "pos_check_supply w2 = Inr ()" if "apply_txs E (pos_hooks E) st b [] w1 txs = Inr w2" for w2
  proof -
    have "pos_wtotal w2 = MAX_SUPPLY_UNITS"
      using pos_pre_keeps [OF w1] pos.apply_txs_keeps [OF that] inv reachable_inv [OF reach]
      by (simp add: pos_winv_start pos_wtotal_start)
    then show ?thesis by (simp add: pos_check_supply_def pos_wtotal_def)
  qed
  have "submit_block E (pos_hooks E) st b =
      rbind (apply_txs E (pos_hooks E) st b [] w1 txs) (\<lambda>w2. Inr ((commit_work (pos_hooks E) w2 st)\<lparr>chain := chain st @ [b]\<rparr>))"
    using b w1 succ sup seal_block_passes [OF laws elect b(1)]
    by (cases "apply_txs E (pos_hooks E) st b [] w1 txs")
      (simp_all add: submit_block_def apply_block_def commit_work_def pos_hooks_def pos_commit_aux_def)
  with succ b w1 show ?thesis by (simp add: pos_add_block_def)
qed

lemma produce_accepted:
  assumes reach: "pos_reachable E g st" and laws: "ecdsa_laws E (secret w)"
    and turn: "next_validator E st = Inr (address E w)"
    and pool: "pool_ok E m" "\<And>t. t \<in> snd ` set (pool m) \<Longrightarrow> plain st t"
  shows "\<exists>st'. pos_add_block E st (select m st ub n) w ts non k = Inr st'"
proof -
  obtain b w1 where b: "validator b = PStr (address E w)"
    "pos_apply_block_pre E st b (start_work (pos_hooks E) st) = Inr w1"
    "pos_add_block E st (select m st ub n) w ts non k =
      rbind (apply_txs E (pos_hooks E) st b [] w1 (select m st ub n))
        (\<lambda>w2. Inr ((commit_work (pos_hooks E) w2 st)\<lparr>chain := chain st @ [b]\<rparr>))"
    using add_block_eq [OF reach laws turn] by blast
  have "pos_inv st" using reachable_inv [OF reach] by simp
  moreover have "hash_key (validator b) = Inr (PStr (address E w))" using b(1) by simp
  ultimately obtain w2 where "apply_txs E (pos_hooks E) st b [] w1 (select m st ub n) = Inr w2"
    using select_on_chain [OF _ pool _ b(2)] by blast
  then show ?thesis by (simp add: b(3))
qed

text \<open>When it is someone else's turn, the block is refused.\<close>

lemma add_block_out_of_turn:
  assumes reach: "pos_reachable E g st" and laws: "ecdsa_laws E (secret w)"
    and turn: "next_validator E st = Inr v" "v \<noteq> address E w"
  shows "pos_add_block E st txs w ts non k = Inl (ValidationError ''wrong proposer'')"
proof -
  let ?prev = "PStr (block_hash E (head st))" and ?i = "PInt (int (length (chain st)))"
  have succ: "py_succ E (index (head st)) = Inr ?i"
    using heights_ok_last [OF reachable_heights [OF reach]] by (simp add: head_def py_succ_int)
  obtain b r where b: "seal_block E ?prev ?i w txs ts non k = Inr b" "index b = ?i" "previous_hash b = ?prev"
    "transactions b = txs" "validator b = PStr (address E w)"
    "merkle_root E (map (txid E) txs) = Inr r" "block_merkle_root b = PStr r"
    by (rule seal_block_Inr [OF laws, of ?prev ?i txs ts non k]) blast
  have "elect E st ?prev ?i = Inr v" using turn(1) succ by (simp add: next_validator_def)
  then have "pos_check_proposer E st b = Inl (ValidationError ''wrong proposer'')"
    using turn(2) b by (simp add: pos_check_proposer_def)
  with b succ show ?thesis by (simp add: pos_add_block_def submit_block_def apply_block_def pos_hooks_def)
qed

end
