(* ===== verification/Tokenomics.thy ===== *)
theory Tokenomics
  imports Genesis
begin

text \<open>
  The distribution policy of \<open>tokenomics.py\<close>. \<open>build_genesis\<close> computes the arguments of the
  chain's constructor; the facts say that the constructor accepts what it computes and that the
  resulting chain holds the split the module promises, staked or not, vesting or not.
\<close>

definition MARKET_SUPPLY :: int where
  "MARKET_SUPPLY = 750000"

definition FOUNDER_SUPPLY :: int where
  "FOUNDER_SUPPLY = 250000"

definition FOUNDER_PERCENT :: int where
  "FOUNDER_PERCENT = 25"

definition build_genesis ::
  "string \<Rightarrow> string \<Rightarrow> int \<Rightarrow> int \<Rightarrow> int
   \<Rightarrow> ((string \<times> pyval) list \<times> (string \<times> pyval) list \<times> (string \<times> pyval list) list) res" where
  "build_genesis market founder founder_stake_coins vest_cliff vest_duration =
     (if market = founder then Inl (ValueError ''market and founder addresses must differ'')
      else if \<not> (0 \<le> founder_stake_coins \<and> founder_stake_coins \<le> FOUNDER_SUPPLY)
      then Inl (ValueError ''founder stake must be within the founder allocation'')
      else let allocations = [(market, MARKET_SUPPLY * COIN), (founder, FOUNDER_SUPPLY * COIN)]
      in if dsum allocations \<noteq> MAX_SUPPLY_UNITS
      then Inl (ValueError ''distribution must sum to the supply'')
      else let initial_stakes = (if founder_stake_coins \<noteq> 0
                                 then [(founder, PInt (founder_stake_coins * COIN))] else []);
               vest = (if 0 < vest_duration
                       then [(founder, [PInt (FOUNDER_SUPPLY * COIN), PInt 0, PInt vest_cliff,
                                        PInt vest_duration])]
                       else [])
           in Inr (map (map_prod id PInt) allocations, initial_stakes, vest))"

text \<open>The two assertions at the top of the module.\<close>

lemma policy_constants:
  "(MARKET_SUPPLY + FOUNDER_SUPPLY) * COIN = MAX_SUPPLY_UNITS"
  "FOUNDER_SUPPLY * 100 = FOUNDER_PERCENT * (MARKET_SUPPLY + FOUNDER_SUPPLY)"
  by (simp_all add: MARKET_SUPPLY_def FOUNDER_SUPPLY_def FOUNDER_PERCENT_def MAX_SUPPLY_UNITS_def
      MAX_SUPPLY_def)

lemma build_genesis_total:
  "market \<noteq> founder \<Longrightarrow> 0 \<le> s \<Longrightarrow> s \<le> FOUNDER_SUPPLY \<Longrightarrow>
   \<exists>al is gr. build_genesis market founder s c d = Inr (al, is, gr)"
  using policy_constants(1) by (simp add: build_genesis_def Let_def algebra_simps)

lemma merkle_root_Nil [simp]: "merkle_root E [] = Inr (hex (sha256 E []))"
  by (simp add: merkle_root_def)

lemma COIN_pos: "0 < COIN"
  by (simp add: COIN_def)

lemma blockchain_init_Inr:
  assumes "dall is_units al" "dsum (map (map_prod PStr the_int) al) = MAX_SUPPLY_UNITS"
  shows "\<exists>b. blockchain_init E al ts = Inr b \<and> balances b = map (map_prod PStr the_int) al"
proof -
  have "dall (\<lambda>v. 0 \<le> v) (map (map_prod PStr the_int) al)"
    using assms(1) by (induction al) (auto simp: is_units_iff)
  with assms show ?thesis
    by (simp add: blockchain_init_def Let_def new_block_def)
qed

text \<open>The genesis file holds the allocations sorted by address, so either order has to be accepted.\<close>

lemma build_genesis_accepted:
  assumes "build_genesis market founder s cliff duration = Inr (al, is, gr)"
    and "0 \<le> cliff" "0 < ep" "al' = al \<or> al' = rev al"
  shows "\<exists>g. pos_init E al' is ts gr ub tr ep = Inr g \<and>
    dget (balances g) (PStr market) 0 = MARKET_SUPPLY * COIN \<and>
    dget (balances g) (PStr founder) 0 + stake_of g founder = FOUNDER_SUPPLY * COIN \<and>
    stakes (pos g) = (if s \<noteq> 0 then [(founder, s * COIN)] else []) \<and>
    locked_of g founder (Some h) =
      (if 0 < duration then locked (FOUNDER_SUPPLY * COIN) 0 cliff duration h else 0)"
proof -
  let ?M = "MARKET_SUPPLY * COIN" and ?F = "FOUNDER_SUPPLY * COIN"
  let ?bal = "\<lambda>x. if al' = al then [(PStr market, ?M), (PStr founder, x)] else [(PStr founder, x), (PStr market, ?M)]"
  have neq: "market \<noteq> founder" "0 \<le> s" "s * COIN \<le> ?F" "0 \<le> ?F" "0 \<le> ?M"
    and al: "al = [(market, PInt ?M), (founder, PInt ?F)]"
    and is_: "is = (if s \<noteq> 0 then [(founder, PInt (s * COIN))] else [])"
    and gr: "gr = (if 0 < duration then [(founder, [PInt ?F, PInt 0, PInt cliff, PInt duration])] else [])"
    using assms(1) COIN_pos
    by (auto simp: build_genesis_def Let_def FOUNDER_SUPPLY_def MARKET_SUPPLY_def split: if_splits)
  have "dall is_units al'" "map (map_prod PStr the_int) al' = ?bal ?F" "dsum (?bal ?F) = MAX_SUPPLY_UNITS"
    using assms(4) neq policy_constants(1) by (auto simp: al algebra_simps)
  then obtain b where b: "blockchain_init E al' ts = Inr b" "balances b = ?bal ?F"
    using blockchain_init_Inr [of al' E ts] by auto
  let ?stk = "if s \<noteq> 0 then [(founder, s * COIN)] else []"
  have st: "init_stakes is (balances b) [] = Inr (?bal (?F - s * COIN), ?stk)"
    using neq COIN_pos by (cases "s = 0") (auto simp: is_ b(2) dlookup_def)
  have v: "init_vesting gr (?bal (?F - s * COIN)) ?stk = Inr (if 0 < duration then [(founder, (?F, 0, cliff, duration))] else [])"
    using neq assms(2) by (simp add: gr)
  show ?thesis
    using b(1) st v neq assms(3)
    by (auto simp: pos_init_def Let_def stake_of_def locked_of_def dsetdefault_def dhas_def
        split: option.splits)
qed

end
