(* ===== verification/Samples.thy ===== *)
theory Samples
  imports Storage Signing Tokenomics
begin

text \<open>
  A small concrete world on which the theorems are applied: an environment with toy cryptography
  (a digest is the length of the data, a signature is the public key), two wallets, a genesis with
  one validator and one vesting grant, and a block with one transfer.
\<close>

definition sample_tx :: transaction where
  "sample_tx = \<lparr>sender = PStr ''19r'', recipient = PStr ''1EG'', amount = PInt 5, fee = PInt 1,
     nonce = PInt 0, public_key = PStr ''0101'', signature = PStr ''0101'', evidence = PStr []\<rparr>"

definition sample_block :: block where
  "sample_block = \<lparr>index = PInt 1, previous_hash = PStr ''9f'', timestamp = PInt 7,
     transactions = [sample_tx], validator = PStr ''19r'', block_nonce = PInt 0,
     block_merkle_root = PStr ''74'', proposer_pubkey = PStr ''0101'',
     validator_sig = PStr ''0101''\<rparr>"

definition sample_link :: pyval where
  "sample_link = PDict [(''s'', PStr ''G''), (''sh'', PInt 2), (''t'', PStr ''T''), (''th'', PInt 4)]"

definition toy :: env where
  "toy = \<lparr>hashlib_sha256 = (\<lambda>bs. [of_nat (length bs)]),
          float_repr = (\<lambda>_. ''1.5''), float_add1 = id,
          parse_float = (\<lambda>_. FZero False),
          decode_dss = (\<lambda>sig. if sig = [] then None
                              else if sig = [255] then Some (1, SECP256K1_N - 1) else Some (1, 1)),
          encode_dss = (\<lambda>_ _. [255]),
          point_ok = (\<lambda>_. True), ecdsa_verify = (\<lambda>pub m sig. sig = pub \<or> sig = [255]),
          derive_ok = (\<lambda>_. True), public_bytes = (\<lambda>s. replicate (nat s) 1),
          ecdsa_sign = (\<lambda>s m k. replicate (nat s) 1),
          json_room = 1000, call_room = 1000\<rparr>"

definition vote_text :: string where
  "vote_text = json_dumps toy sample_link"

definition slash_text :: string where
  "slash_text = json_dumps toy (PDict [(''kind'', PStr ''block''), (''a'', encode_block sample_block),
     (''b'', encode_block (sample_block\<lparr>timestamp := PInt 10\<rparr>))])"

definition alice :: wallet where
  "alice = \<lparr>secret = 2\<rparr>"

definition bob :: wallet where
  "bob = \<lparr>secret = 3\<rparr>"

definition sample_args :: genesis_args where
  "sample_args = ([(''19r'', PInt 60000000000000), (''1EG'', PInt 40000000000000)], [(''19r'', PInt 1000)],
     PInt 0, [(''1EG'', [PInt 5000, PInt 0, PInt 10, PInt 100])], 10, Some ''1EG'', 2)"

definition sample_genesis_block :: block where
  "sample_genesis_block = \<lparr>index = PInt 0, previous_hash = PStr GENESIS_PREV, timestamp = PInt 0,
     transactions = [], validator = PStr ''genesis'', block_nonce = PInt 0,
     block_merkle_root = PStr ''00'', proposer_pubkey = PStr [], validator_sig = PStr []\<rparr>"

definition sample_aux :: pos_aux where
  "sample_aux = \<lparr>stakes = [(''19r'', 1000)], unbonding = [], slashed = [], slashed_addrs = [],
     ffg_stake = [(''9f'', [(''19r'', 1000)])], ffg_height = [(''9f'', 0)], ffg_votes = [],
     ffg_seen_target = [], justified = [''9f''], justified_parent = [], finalized = (''9f'', 0)\<rparr>"

definition sample_genesis :: pos_chain where
  "sample_genesis = \<lparr>balances = [(PStr ''19r'', 59999999999000), (PStr ''1EG'', 40000000000000)],
     nonces = [(PStr ''19r'', 0), (PStr ''1EG'', 0)], chain = [sample_genesis_block],
     pos = sample_aux, vesting = [(''1EG'', (5000, 0, 10, 100))], unbonding_blocks = 10,
     treasury_address = Some ''1EG'', epoch = 2\<rparr>"

definition sample_chain :: pos_chain where
  "sample_chain = sample_genesis\<lparr>
     balances := [(PStr ''19r'', 59999999998995), (PStr ''1EG'', 40000000000005)],
     nonces := [(PStr ''19r'', 1), (PStr ''1EG'', 0)],
     chain := [sample_genesis_block, sample_block]\<rparr>"

lemma sample_addresses: "address toy alice = ''19r''" "address toy bob = ''1EG''"
  by code_simp+

lemma sample_valid: "is_valid toy sample_tx = Inr True"
  by code_simp

lemma sample_init: "new_chain toy sample_args = Inr sample_genesis"
  by code_simp

lemma sample_hashes: "block_hash toy sample_genesis_block = ''9f''" "block_hash toy sample_block = ''5d''"
    "txid toy sample_tx = ''74''"
  by code_simp+

lemma sample_merkle: "merkle_root toy (map (txid toy) [sample_tx]) = Inr ''74''"
  by code_simp

lemma sample_elect: "next_validator toy sample_genesis = Inr ''19r''"
  by code_simp

lemma sample_proposer: "pos_check_proposer toy sample_genesis sample_block = Inr ()"
  by code_simp

lemma sample_pre: "pos_apply_block_pre toy sample_genesis sample_block (start_work (pos_hooks toy) sample_genesis) =
   Inr ((start_work (pos_hooks toy) sample_genesis)\<lparr>w_aux := sample_aux\<lparr>justified_parent := [''9f'']\<rparr>\<rparr>)"
  by code_simp

lemma sample_txs: "apply_txs toy (pos_hooks toy) sample_genesis sample_block []
     ((start_work (pos_hooks toy) sample_genesis)\<lparr>w_aux := sample_aux\<lparr>justified_parent := [''9f'']\<rparr>\<rparr>) [sample_tx] =
   Inr \<lparr>w_balances = balances sample_chain, w_nonces = nonces sample_chain,
        w_aux = sample_aux\<lparr>justified_parent := [''9f'']\<rparr>\<rparr>"
  by code_simp

lemma sample_supply: "pos_check_supply \<lparr>w_balances = balances sample_chain, w_nonces = nonces sample_chain,
    w_aux = sample_aux\<lparr>justified_parent := [''9f'']\<rparr>\<rparr> = Inr ()"
  by code_simp

lemma sample_submit: "submit_block toy (pos_hooks toy) sample_genesis sample_block = Inr sample_chain"
proof -
  let ?w2 = "\<lparr>w_balances = balances sample_chain, w_nonces = nonces sample_chain,
        w_aux = sample_aux\<lparr>justified_parent := [''9f'']\<rparr>\<rparr>"
  have hooks: "check_proposer (pos_hooks toy) = pos_check_proposer toy"
    "apply_block_pre (pos_hooks toy) = pos_apply_block_pre toy" "check_supply (pos_hooks toy) = pos_check_supply"
    "commit_aux (pos_hooks toy) = pos_commit_aux"
    by (simp_all add: pos_hooks_def)
  have blk: "transactions sample_block = [sample_tx]" "previous_hash sample_block = PStr ''9f''"
    "index sample_block = PInt 1" "block_merkle_root sample_block = PStr ''74''"
    by (simp_all add: sample_block_def)
  have head: "head sample_genesis = sample_genesis_block" "py_succ toy (index sample_genesis_block) = Inr (PInt 1)"
    by (simp_all add: sample_genesis_def head_def sample_genesis_block_def)
  have "apply_block toy (pos_hooks toy) sample_genesis sample_block = Inr (commit_work (pos_hooks toy) ?w2 sample_genesis)"
    unfolding apply_block_def hooks blk head sample_merkle sample_proposer sample_pre sample_txs sample_supply
      sample_hashes rbind_simps
    by simp
  then show ?thesis
    by (simp add: submit_block_def commit_work_def hooks pos_commit_aux_def sample_chain_def
        sample_genesis_def sample_aux_def)
qed

lemma sample_reachable_genesis: "pos_reachable toy sample_genesis sample_genesis"
  by (rule new_chain_reachable [OF sample_init])

lemma sample_reachable: "pos_reachable toy sample_genesis sample_chain"
  by (rule pos_reachable_step [OF sample_reachable_genesis sample_submit])

lemma sample_laws: "ecdsa_laws toy (secret alice)"
  by (simp add: ecdsa_laws_def alice_def toy_def SECP256K1_N_def numeral_eq_Suc)

section \<open>Handlers on concrete inputs\<close>

definition sample_work :: pos_work where
  "sample_work = \<lparr>w_balances = balances sample_chain, w_nonces = nonces sample_chain,
     w_aux = sample_aux\<lparr>stakes := [(''19r'', 1000), (''1EG'', 400)],
                       unbonding := [(''19r'', [(60, 1, 11), (40, 2, 12)])]\<rparr>\<rparr>"

definition sample_slash :: transaction where
  "sample_slash = \<lparr>sender = PStr ''1EG'', recipient = PStr SLASH_SENTINEL, amount = PInt 0, fee = PInt 3,
     nonce = PInt 0, public_key = PStr ''010101'', signature = PStr ''010101'', evidence = PStr slash_text\<rparr>"

definition sample_slashed :: pos_work where
  "sample_slashed = \<lparr>w_balances = [(PStr ''19r'', 59999999998998), (PStr ''1EG'', 40000000001102)],
     w_nonces = [(PStr ''19r'', 1), (PStr ''1EG'', 1)],
     w_aux = sample_aux\<lparr>stakes := [(''1EG'', 400)], slashed := [BlockOffense ''19r'' (PInt 1)],
                       slashed_addrs := [''19r'']\<rparr>\<rparr>"

definition sample_self_slash :: transaction where
  "sample_self_slash = \<lparr>sender = PStr ''19r'', recipient = PStr SLASH_SENTINEL, amount = PInt 0, fee = PInt 3,
     nonce = PInt 1, public_key = PStr ''0101'', signature = PStr ''0101'', evidence = PStr slash_text\<rparr>"

definition sample_vote :: transaction where
  "sample_vote = \<lparr>sender = PStr ''19r'', recipient = PStr VOTE_SENTINEL, amount = PInt 0, fee = PInt 3,
     nonce = PInt 1, public_key = PStr ''0101'', signature = PStr ''0101'', evidence = PStr vote_text\<rparr>"

definition sample_vote_work :: pos_work where
  "sample_vote_work = sample_work\<lparr>w_aux := sample_aux\<lparr>
     ffg_stake := [(''G'', [(''19r'', 10), (''1EG'', 4)]), (''T'', [(''19r'', 10)])],
     ffg_height := [(''G'', 2), (''T'', 4)],
     justified := [''G'', ''9f''], justified_parent := [''G'', ''9f''], finalized := (''9f'', 0)\<rparr>\<rparr>"

definition sample_voted :: pos_work where
  "sample_voted = sample_vote_work\<lparr>w_nonces := [(PStr ''19r'', 2), (PStr ''1EG'', 0)],
     w_aux := (w_aux sample_vote_work)\<lparr>ffg_votes := [((''G'', ''T''), [''19r''])],
       ffg_seen_target := [((''19r'', 4), ''G'', ''T'')], justified := [''T'', ''G'', ''9f''],
       finalized := (''G'', 2)\<rparr>\<rparr>"

definition sample_unstake :: transaction where
  "sample_unstake = \<lparr>sender = PStr ''19r'', recipient = PStr UNSTAKE_SENTINEL, amount = PInt 300, fee = PInt 3,
     nonce = PInt 1, public_key = PStr ''0101'', signature = PStr ''0101'', evidence = PStr []\<rparr>"

definition sample_unstaked :: pos_work where
  "sample_unstaked = sample_work\<lparr>w_nonces := [(PStr ''19r'', 2), (PStr ''1EG'', 0)],
     w_aux := (w_aux sample_work)\<lparr>stakes := [(''19r'', 700), (''1EG'', 400)],
       unbonding := [(''19r'', [(60, 1, 11), (40, 2, 12), (300, 1, 11)])]\<rparr>\<rparr>"

lemma sample_handlers_valid:
  "is_valid toy sample_slash = Inr True" "is_valid toy sample_self_slash = Inr True"
  "is_valid toy sample_vote = Inr True" "is_valid toy sample_unstake = Inr True"
  by code_simp+

lemma sample_slash_applies:
  "apply_slash toy sample_chain sample_slash sample_block sample_work = Inr sample_slashed"
  by code_simp

lemma sample_vote_applies:
  "pos_apply_tx toy sample_chain sample_vote sample_block sample_vote_work = Inr sample_voted"
  by code_simp

lemma sample_unstake_applies:
  "apply_unstake sample_chain sample_unstake sample_block sample_work = Inr sample_unstaked"
  "pos_apply_tx toy sample_chain sample_unstake sample_block sample_work = Inr sample_unstaked"
  by code_simp+

lemma not_isl: "\<not> isl r \<Longrightarrow> \<exists>x. r = Inr x"
  by (cases r) simp_all

lemma sample_unstake_other:
  "\<exists>w'. apply_unstake sample_chain sample_unstake (sample_block\<lparr>validator := PStr ''miner''\<rparr>) sample_work = Inr w'"
  by (rule not_isl, code_simp)

lemma sample_self_slash_applies:
  "\<exists>w'. pos_apply_tx toy sample_chain sample_self_slash (sample_block\<lparr>validator := PStr ''miner''\<rparr>) sample_work = Inr w'"
  by (rule not_isl, code_simp)

lemma sample_slash_recipient: "recipient sample_slash = PStr SLASH_SENTINEL"
  by (simp add: sample_slash_def)

lemma sample_evidence:
  "load_json toy (PStr slash_text) = Inr [(''a'', in_order True (encode_block sample_block)),
     (''b'', in_order True (encode_block (sample_block\<lparr>timestamp := PInt 10\<rparr>))), (''kind'', PStr ''block'')]"
  "slash_evidence toy [(''a'', in_order True (encode_block sample_block)),
     (''b'', in_order True (encode_block (sample_block\<lparr>timestamp := PInt 10\<rparr>))), (''kind'', PStr ''block'')] =
     Inr (PStr ''19r'', BlockOffense ''19r'' (PInt 1))"
  by code_simp+

lemma sample_equivocation:
  "verify_equivocation toy sample_block (sample_block\<lparr>timestamp := PInt 10\<rparr>) = Inr (PStr ''19r'', PInt 1)"
  by code_simp

lemma sample_self_slash_facts:
  "recipient sample_self_slash = PStr SLASH_SENTINEL" "slashes toy sample_self_slash ''19r''"
  using sample_evidence by (auto simp: sample_self_slash_def slashes_def)

lemma sample_pre_total:
  "\<exists>w1. pos_apply_block_pre toy sample_chain (sample_block\<lparr>index := PInt 11\<rparr>) sample_work = Inr w1"
  by (rule not_isl, code_simp)

lemma sample_winv: "pos_winv sample_work"
  by (simp add: pos_winv_def sample_work_def sample_chain_def sample_aux_def wf_dict_def dhas_def)

section \<open>A tree and a store\<close>

definition sample_tree :: block_tree where
  "sample_tree = \<lparr>genesis_args = sample_args, canonical = sample_genesis, genesis_hash = ''9f'',
     head_hash = ''9f'', ws_checkpoint = Some (''5d'', 1), finalized_hash = ''9f'', finalized_height = 0,
     blocks = [], parent = [], weight = [(''9f'', 0)], height = [(''9f'', 0)]\<rparr>"

definition sample_tree1 :: block_tree where
  "sample_tree1 = sample_tree\<lparr>canonical := sample_chain, head_hash := ''5d'',
     blocks := [(''5d'', sample_block)], parent := [(''5d'', ''9f'')],
     weight := [(''9f'', 0), (''5d'', 1000)], height := [(''9f'', 0), (''5d'', 1)]\<rparr>"

lemma sample_tree_init: "block_tree_init toy sample_args (Some (''5d'', 1)) = Inr sample_tree"
  by (simp add: block_tree_init_def sample_init sample_tree_def Let_def)
    (simp add: sample_genesis_def head_def sample_hashes)

lemma sample_tree_add: "add_block toy sample_tree sample_block = Some (sample_tree1, Inr True)"
proof -
  have fin: "finalized_checkpoint sample_chain = (''9f'', 0)"
    by (simp add: finalized_checkpoint_def sample_chain_def sample_genesis_def sample_aux_def)
  have "known_parent sample_tree sample_block = Inr ''9f''"
    by code_simp
  moreover have "check_frontier sample_tree ''5d'' ''9f'' 1 = Some (Inr ())"
    by code_simp
  moreover have "stake_of_val sample_genesis (validator sample_block) = Inr 1000"
    by code_simp
  ultimately show ?thesis
    by (simp add: add_block_def Let_def sample_hashes validate_on_def sample_submit store_block_def
        advance_finality_def fin)
      (simp add: sample_tree_def sample_tree1_def dhas_def dlookup_def sample_submit validate_on_def
        insert_block_def store_block_def advance_finality_def fin Let_def)
qed

definition sample_store :: store where
  "sample_store = \<lparr>genesis_file = Some (json_default toy True (genesis_payload sample_args)), blocks_file = Some (block_line toy sample_block @ [newline] @ ''{'')\<rparr>"

lemma sample_float_repr: "printable (float_repr toy f)"
  by (simp add: toy_def)

lemma sample_jsonable: "jsonable toy (encode_block sample_block)"
  by (simp add: encode_block_def sample_block_def encode_tx_def sample_tx_def)

lemma sample_line: "json_loads toy (block_line toy sample_block) = Some (encode_block sample_block)"
  by (rule block_line_reads [OF sample_jsonable])

lemma sample_args_ok [simp]:
  "sorted_args sample_args = sample_args" "json_ok reject_float toy (genesis_payload sample_args)"
  by code_simp (simp add: genesis_payload_def sample_args_def)

lemma sample_genesis_file:
  "genesis_file s = Some (json_default toy True (genesis_payload sample_args)) \<Longrightarrow>
   \<exists>raw. genesis_params s = Some (Inr raw) \<and> typed_args raw = Some sample_args"
  using written_genesis_params [of s toy sample_args] by simp

lemma truthy_sample: "truthy (block_merkle_root sample_block)"
  by (simp add: sample_block_def)

lemma sample_load: "load toy sample_store = Some (Inr sample_chain)"
proof -
  have "committed_lines sample_store = map (block_line toy) [sample_block]"
    by (rule committed_lines_appended [where part = "''{''"]) (simp_all add: sample_float_repr sample_store_def)
  then have "load_lines toy sample_genesis (committed_lines sample_store) = Inr sample_chain"
    using load_lines_blocks [of toy sample_genesis "[sample_block]" sample_chain]
    by (simp add: sample_submit sample_line decode_encode_block truthy_sample)
  moreover obtain raw where "genesis_params sample_store = Some (Inr raw)" "typed_args raw = Some sample_args"
    using sample_genesis_file [of sample_store] by (auto simp: sample_store_def)
  ultimately show ?thesis
    using sample_init by (simp add: load_def)
qed

lemma sample_pool_add: "\<exists>m'. mempool_add toy sample_tx sample_genesis mempool_init = Inr (True, m')"
  by (simp add: mempool_add_def sample_valid MIN_FEE_def MAX_POOL_SIZE_def mempool_init_def)
    (simp add: sample_tx_def sample_genesis_def)

end
