(* ===== verification/Procedures.thy ===== *)
theory Procedures
  imports Py_Values
begin

text \<open>
  Methods that change their object. A method is a function from the object's state to the state
  after the call and the value returned or the exception raised; the changes made before an
  exception stay. \<open>None\<close> stands for a loop that ran out of the fuel it was given.

  \<open>ensures P R m\<close> is the contract the invariants of the services are stated with: from a state in
  which \<open>P\<close> holds, \<open>m\<close> ends, \<open>P\<close> holds again, whether it returned or raised, and the state has
  only changed as \<open>R\<close> allows. The locale \<open>contract\<close> has the rules that carry it through a method's
  body.
\<close>

section \<open>Methods\<close>

type_synonym ('s, 'a) proc = "'s \<Rightarrow> ('s \<times> 'a res) option"

definition return :: "'a \<Rightarrow> ('s, 'a) proc" where
  "return x s = Some (s, Inr x)"

definition throw :: "perror \<Rightarrow> ('s, 'a) proc" where
  "throw e s = Some (s, Inl e)"

text \<open>An expression that may raise, evaluated in the current state.\<close>

definition eval :: "('s \<Rightarrow> 'a res) \<Rightarrow> ('s, 'a) proc" where
  "eval f s = Some (s, f s)"

definition assign :: "('s \<Rightarrow> 's) \<Rightarrow> ('s, unit) proc" where
  "assign f s = Some (f s, Inr ())"

definition mbind :: "('s, 'a) proc \<Rightarrow> ('a \<Rightarrow> ('s, 'b) proc) \<Rightarrow> ('s, 'b) proc" where
  "mbind m f s =
     (case m s of
        None \<Rightarrow> None
      | Some (s', Inl e) \<Rightarrow> Some (s', Inl e)
      | Some (s', Inr x) \<Rightarrow> f x s')"

text \<open>\<open>try: m except: ...\<close>: the handler says what an exception turns into, or \<open>None\<close> for one that
  is not caught.\<close>

definition attempt :: "(perror \<Rightarrow> ('s, 'a) proc option) \<Rightarrow> ('s, 'a) proc \<Rightarrow> ('s, 'a) proc" where
  "attempt handler m s =
     (case m s of
        None \<Rightarrow> None
      | Some (s', Inl e) \<Rightarrow> (case handler e of None \<Rightarrow> Some (s', Inl e) | Some h \<Rightarrow> h s')
      | Some (s', Inr x) \<Rightarrow> Some (s', Inr x))"

primrec for_each :: "('a \<Rightarrow> ('s, unit) proc) \<Rightarrow> 'a list \<Rightarrow> ('s, unit) proc" where
  "for_each f [] = return ()"
| "for_each f (x # xs) = mbind (f x) (\<lambda>_. for_each f xs)"

text \<open>A method of a part of the object, run through a getter and a setter.\<close>

definition within :: "('s \<Rightarrow> 't) \<Rightarrow> ('t \<Rightarrow> 's \<Rightarrow> 's) \<Rightarrow> ('t, 'a) proc \<Rightarrow> ('s, 'a) proc" where
  "within get put m s = (case m (get s) of None \<Rightarrow> None | Some (t, r) \<Rightarrow> Some (put t s, r))"

lemmas method_defs = return_def throw_def eval_def assign_def mbind_def attempt_def within_def

fun is_validation :: "perror \<Rightarrow> bool" where
  "is_validation (ValidationError m) = True"
| "is_validation e = False"

section \<open>Contracts\<close>

definition ensures :: "('s \<Rightarrow> bool) \<Rightarrow> ('s \<Rightarrow> 's \<Rightarrow> bool) \<Rightarrow> ('s, 'a) proc \<Rightarrow> bool" where
  "ensures P R m \<longleftrightarrow> (\<forall>s. P s \<longrightarrow> (\<exists>s' r. m s = Some (s', r) \<and> P s' \<and> R s s'))"

lemma ensuresI: "(\<And>s. P s \<Longrightarrow> \<exists>s' r. m s = Some (s', r) \<and> P s' \<and> R s s') \<Longrightarrow> ensures P R m"
  by (simp add: ensures_def)

lemma ensuresE:
  assumes "ensures P R m" "P s"
  obtains s' r where "m s = Some (s', r)" "P s'" "R s s'"
  using assms by (auto simp: ensures_def)

lemma ensuresD: "ensures P R m \<Longrightarrow> P s \<Longrightarrow> m s = Some (s', r) \<Longrightarrow> P s' \<and> R s s'"
  by (auto simp: ensures_def)

text \<open>The same from states where \<open>A\<close> holds as well, with what holds when the method returns.\<close>

definition achieves ::
  "('s \<Rightarrow> bool) \<Rightarrow> ('s \<Rightarrow> 's \<Rightarrow> bool) \<Rightarrow> ('s \<Rightarrow> bool) \<Rightarrow> ('s, 'a) proc \<Rightarrow> ('a \<Rightarrow> 's \<Rightarrow> bool) \<Rightarrow> bool" where
  "achieves P R A m Q \<longleftrightarrow> (\<forall>s. P s \<longrightarrow> A s \<longrightarrow>
     (\<exists>s' r. m s = Some (s', r) \<and> P s' \<and> R s s' \<and> (\<forall>x. r = Inr x \<longrightarrow> Q x s')))"

lemma achievesI:
  "(\<And>s. P s \<Longrightarrow> A s \<Longrightarrow> \<exists>s' r. m s = Some (s', r) \<and> P s' \<and> R s s' \<and> (\<forall>x. r = Inr x \<longrightarrow> Q x s')) \<Longrightarrow>
   achieves P R A m Q"
  by (simp add: achieves_def)

lemma achievesE:
  assumes "achieves P R A m Q" "P s" "A s"
  obtains s' r where "m s = Some (s', r)" "P s'" "R s s'" "\<And>x. r = Inr x \<Longrightarrow> Q x s'"
  using assms by (auto simp: achieves_def)

lemma achieves_ensures: "achieves P R (\<lambda>_. True) m Q \<Longrightarrow> ensures P R m"
  by (force simp: achieves_def ensures_def)

lemma ensures_achieves: "ensures P R m \<Longrightarrow> achieves P R A m (\<lambda>_ _. True)"
  by (force simp: achieves_def ensures_def)

lemma achieves_weaken:
  "achieves P R A m Q \<Longrightarrow> (\<And>s. P s \<Longrightarrow> A' s \<Longrightarrow> A s) \<Longrightarrow> (\<And>x s. Q x s \<Longrightarrow> Q' x s) \<Longrightarrow> achieves P R A' m Q'"
  by (fastforce simp: achieves_def)

text \<open>What the changes allowed cannot undo still holds afterwards.\<close>

lemma achieves_stable:
  "achieves P R A m Q \<Longrightarrow> (\<And>s s'. A s \<Longrightarrow> R s s' \<Longrightarrow> A s') \<Longrightarrow> achieves P R A m (\<lambda>x s. Q x s \<and> A s)"
  by (fastforce simp: achieves_def)

lemma achieves_conj:
  "achieves P R A m Q \<Longrightarrow> achieves P R A' m Q' \<Longrightarrow>
   achieves P R (\<lambda>s. A s \<and> A' s) m (\<lambda>x s. Q x s \<and> Q' x s)"
  by (fastforce simp: achieves_def)

lemma ensures_stable:
  "ensures P R m \<Longrightarrow> (\<And>s s'. A s \<Longrightarrow> R s s' \<Longrightarrow> A s') \<Longrightarrow> achieves P R A m (\<lambda>_. A)"
  by (fastforce simp: achieves_def ensures_def)

text \<open>A method that does not change its object.\<close>

abbreviation reads :: "('s, 'a) proc \<Rightarrow> bool" where
  "reads m \<equiv> ensures (\<lambda>_. True) (=) m"

text \<open>A method that leaves a part of its object alone.\<close>

definition keeps :: "('s \<Rightarrow> 'b) \<Rightarrow> ('s, 'a) proc \<Rightarrow> bool" where
  "keeps f m \<longleftrightarrow> (\<forall>s s' r. m s = Some (s', r) \<longrightarrow> f s' = f s)"

lemma keepsD: "keeps f m \<Longrightarrow> m s = Some (s', r) \<Longrightarrow> f s' = f s"
  by (simp add: keeps_def)

lemma keeps_basic [intro!]:
  "keeps f (return x)" "keeps f (throw e)" "keeps f (eval g)"
  by (auto simp: keeps_def method_defs)

lemma keeps_assign: "(\<And>s. f (g s) = f s) \<Longrightarrow> keeps f (assign g)"
  by (simp add: keeps_def assign_def)

lemma keeps_within: "(\<And>t s. f (put t s) = f s) \<Longrightarrow> keeps f (within get put m)"
  by (auto simp: keeps_def within_def split: option.splits)

lemma keeps_mbind [intro!]: "keeps f m \<Longrightarrow> (\<And>x. keeps f (g x)) \<Longrightarrow> keeps f (mbind m g)"
  by (fastforce simp: keeps_def mbind_def split: option.splits sum.splits prod.splits)

lemma keeps_attempt [intro!]:
  "keeps f m \<Longrightarrow> (\<And>e h. handler e = Some h \<Longrightarrow> keeps f h) \<Longrightarrow> keeps f (attempt handler m)"
  by (fastforce simp: keeps_def attempt_def split: option.splits sum.splits prod.splits)

lemma keeps_for_each: "(\<And>x. keeps f (g x)) \<Longrightarrow> keeps f (for_each g xs)"
  by (induction xs) auto

locale contract =
  fixes P :: "'s \<Rightarrow> bool" and R :: "'s \<Rightarrow> 's \<Rightarrow> bool"
  assumes same: "P s \<Longrightarrow> R s s"
    and compose: "R s s' \<Longrightarrow> R s' s'' \<Longrightarrow> R s s''"
begin

lemma ensures_return [intro!]: "ensures P R (return x)"
  by (auto simp: ensures_def return_def same)

lemma ensures_throw [intro!]: "ensures P R (throw e)"
  by (auto simp: ensures_def throw_def same)

lemma ensures_eval [intro!]: "ensures P R (eval f)"
  by (auto simp: ensures_def eval_def same)

lemma ensures_assign: "(\<And>s. P s \<Longrightarrow> P (f s) \<and> R s (f s)) \<Longrightarrow> ensures P R (assign f)"
  by (auto simp: ensures_def assign_def)

lemma ensures_mbind [intro!]:
  assumes m: "ensures P R m" and f: "\<And>x. ensures P R (f x)"
  shows "ensures P R (mbind m f)"
proof (rule ensuresI)
  fix s assume "P s"
  with m obtain s' r where s': "m s = Some (s', r)" "P s'" "R s s'" by (rule ensuresE)
  show "\<exists>s'' r'. mbind m f s = Some (s'', r') \<and> P s'' \<and> R s s''"
  proof (cases r)
    case (Inr x)
    from f [of x] s'(2) obtain s'' r' where "f x s' = Some (s'', r')" "P s''" "R s' s''" by (rule ensuresE)
    with s' Inr compose show ?thesis by (auto simp: mbind_def)
  qed (use s' in \<open>auto simp: mbind_def\<close>)
qed

text \<open>Where what follows is only called with values the expression can have.\<close>

lemma ensures_eval_then:
  assumes "\<And>s x. P s \<Longrightarrow> f s = Inr x \<Longrightarrow> ensures P R (g x)"
  shows "ensures P R (mbind (eval f) g)"
proof (rule ensuresI)
  fix s assume s: "P s"
  show "\<exists>s' r. mbind (eval f) g s = Some (s', r) \<and> P s' \<and> R s s'"
  proof (cases "f s")
    case (Inr x)
    from assms [OF s Inr] s show ?thesis by (auto simp: mbind_def eval_def Inr ensures_def)
  qed (simp add: mbind_def eval_def s same)
qed

lemma ensures_attempt [intro!]:
  assumes m: "ensures P R m" and h: "\<And>e h. handler e = Some h \<Longrightarrow> ensures P R h"
  shows "ensures P R (attempt handler m)"
proof (rule ensuresI)
  fix s assume "P s"
  with m obtain s' r where s': "m s = Some (s', r)" "P s'" "R s s'" by (rule ensuresE)
  show "\<exists>s'' r'. attempt handler m s = Some (s'', r') \<and> P s'' \<and> R s s''"
  proof (cases r)
    case (Inl e)
    show ?thesis
    proof (cases "handler e")
      case (Some h0)
      from h [OF this] s'(2) obtain s'' r' where "h0 s' = Some (s'', r')" "P s''" "R s' s''" by (rule ensuresE)
      with s' Inl Some compose show ?thesis by (auto simp: attempt_def)
    qed (use s' Inl in \<open>auto simp: attempt_def\<close>)
  qed (use s' in \<open>auto simp: attempt_def\<close>)
qed

lemma achieves_return: "(\<And>s. A s \<Longrightarrow> Q x s) \<Longrightarrow> achieves P R A (return x) Q"
  by (auto simp: achieves_def return_def same)

lemma achieves_eval: "(\<And>s x. P s \<Longrightarrow> A s \<Longrightarrow> f s = Inr x \<Longrightarrow> Q x s) \<Longrightarrow> achieves P R A (eval f) Q"
  by (auto simp: achieves_def eval_def same)

lemma achieves_assign:
  "(\<And>s. P s \<Longrightarrow> A s \<Longrightarrow> P (f s) \<and> R s (f s) \<and> Q () (f s)) \<Longrightarrow> achieves P R A (assign f) Q"
  by (auto simp: achieves_def assign_def)

lemma achieves_mbind:
  assumes m: "achieves P R A m Q" and f: "\<And>x. achieves P R (Q x) (f x) Q'"
  shows "achieves P R A (mbind m f) Q'"
proof (rule achievesI)
  fix s assume "P s" "A s"
  with m obtain s' r where s': "m s = Some (s', r)" "P s'" "R s s'" "\<And>x. r = Inr x \<Longrightarrow> Q x s'"
    by (rule achievesE) blast
  show "\<exists>s'' r'. mbind m f s = Some (s'', r') \<and> P s'' \<and> R s s'' \<and> (\<forall>x. r' = Inr x \<longrightarrow> Q' x s'')"
  proof (cases r)
    case (Inr x)
    from f [of x] s'(2) s'(4) [OF Inr] obtain s'' r' where
      "f x s' = Some (s'', r')" "P s''" "R s' s''" "\<And>y. r' = Inr y \<Longrightarrow> Q' y s''"
      by (rule achievesE) blast
    with s' Inr compose show ?thesis by (auto simp: mbind_def)
  qed (use s' in \<open>auto simp: mbind_def\<close>)
qed

lemma achieves_for_each:
  "(\<And>x. x \<in> set xs \<Longrightarrow> achieves P R A (f x) (\<lambda>_. A)) \<Longrightarrow> achieves P R A (for_each f xs) (\<lambda>_. A)"
proof (induction xs)
  case (Cons x xs)
  then have "achieves P R A (f x) (\<lambda>_. A)" "achieves P R A (for_each f xs) (\<lambda>_. A)" by simp_all
  then show ?case by (auto intro: achieves_mbind)
qed (simp add: achieves_return)

lemma ensures_for_each:
  "(\<And>x. x \<in> set xs \<Longrightarrow> ensures P R (f x)) \<Longrightarrow> ensures P R (for_each f xs)"
  by (induction xs) auto

lemma ensures_if [intro!]:
  "(b \<Longrightarrow> ensures P R m) \<Longrightarrow> (\<not> b \<Longrightarrow> ensures P R n) \<Longrightarrow> ensures P R (if b then m else n)"
  by simp

end

interpretation reading: contract "\<lambda>_. True" "(=)"
  by unfold_locales simp_all

end
