(* ===== verification/Node_Service.thy ===== *)
theory Node_Service
  imports Storage Mempool Signing Procedures
begin

text \<open>
  The node of \<open>node.py\<close>: a block tree, a mempool and a store behind the methods of
  \<open>NodeService\<close>, and the JSON-RPC handler that exposes them. The clock (\<open>int(time.time())\<close>) and
  the random nonce of ECDSA are arguments of the methods that use them; of an HTTP request the
  handler sees the length, the body and the authorization header.

  Shown: whatever a client sends, a request is answered, and the tree and the mempool keep their
  invariants; the tree only grows by \<open>add_block\<close>, so everything shown of a block tree holds of a
  running node; reads change nothing; a write without the token changes nothing; blocks are only
  produced by the elected validator.
\<close>

section \<open>State\<close>

record node_service =
  svc_store :: store
  svc_tree :: block_tree
  svc_mempool :: mempool
  svc_validator :: "wallet option"
  svc_autoproduce :: bool

text \<open>Booting replays every persisted block into a fresh tree.\<close>

primrec replay_blocks :: "env \<Rightarrow> block_tree \<Rightarrow> block res list \<Rightarrow> block_tree res option" where
  "replay_blocks E t [] = Some (Inr t)"
| "replay_blocks E t (r # rs) =
     (case r of
        Inl e \<Rightarrow> Some (Inl e)
      | Inr b \<Rightarrow>
          (case add_block E t b of
             None \<Rightarrow> None
           | Some (t', Inl e) \<Rightarrow> Some (Inl e)
           | Some (t', Inr new) \<Rightarrow> replay_blocks E t' rs))"

text \<open>\<open>None\<close>: no genesis file, or arguments of other types than declared.\<close>

definition service_init ::
  "env \<Rightarrow> store \<Rightarrow> wallet option \<Rightarrow> bool \<Rightarrow> (string \<times> int) option
   \<Rightarrow> node_service res option" where
  "service_init E st wallet auto checkpoint =
     (case genesis_params st of
        None \<Rightarrow> None
      | Some (Inl e) \<Rightarrow> Some (Inl e)
      | Some (Inr raw) \<Rightarrow>
          (case typed_args raw of
             None \<Rightarrow> None
           | Some args \<Rightarrow>
               (case block_tree_init E args checkpoint of
                  Inl e \<Rightarrow> Some (Inl e)
                | Inr t \<Rightarrow>
                    (case replay_blocks E t (iter_blocks E st) of
                       None \<Rightarrow> None
                     | Some (Inl e) \<Rightarrow> Some (Inl e)
                     | Some (Inr t') \<Rightarrow>
                         Some (Inr \<lparr>svc_store = st, svc_tree = t', svc_mempool = mempool_init,
                                    svc_validator = wallet, svc_autoproduce = auto\<rparr>)))))"

definition svc_chain :: "node_service \<Rightarrow> pos_chain" where
  "svc_chain s = canonical (svc_tree s)"

section \<open>Reading\<close>

text \<open>\<open>params[k]\<close>: the parameters of a request are any JSON value.\<close>

fun param :: "pyval \<Rightarrow> string \<Rightarrow> pyval res" where
  "param (PDict d) k = jfield d k"
| "param v k = Inl (TypeError ''not subscriptable by a string'')"

text \<open>\<open>_safe_next_validator\<close> and \<open>_is_our_turn\<close>\<close>

fun safe_next_validator :: "string res \<Rightarrow> pyval res" where
  "safe_next_validator (Inr v) = Inr (PStr v)"
| "safe_next_validator (Inl (ValidationError m)) = Inr PNone"
| "safe_next_validator (Inl e) = Inl e"

definition is_our_turn :: "env \<Rightarrow> node_service \<Rightarrow> bool res" where
  "is_our_turn E s =
     (case svc_validator s of
        None \<Rightarrow> Inr False
      | Some w \<Rightarrow> rbind (next_validator E (svc_chain s)) (\<lambda>v. Inr (v = address E w)))"

definition info :: "env \<Rightarrow> (node_service, pyval) proc" where
  "info E = eval (\<lambda>s. let c = svc_chain s; t = svc_tree s in
     rbind (safe_next_validator (next_validator E c)) (\<lambda>nv.
     Inr (PDict
       [(''name'', PStr ''Mindees''), (''symbol'', PStr ''MIND''), (''decimals'', PInt 8),
        (''height'', index (head c)), (''head'', PStr (block_hash E (head c))),
        (''finalized_height'', PInt (finalized_height t)), (''finalized'', PStr (finalized_hash t)),
        (''supply'', PInt (pos_total_supply c)), (''max_supply'', PInt MAX_SUPPLY_UNITS),
        (''mempool'', PInt (int (length (pool (svc_mempool s))))), (''next_validator'', nv)])))"

text \<open>The queries by address; an address may be any value a dictionary takes as a key.\<close>

definition by_address :: "pyval \<Rightarrow> (pos_chain \<Rightarrow> pyval \<Rightarrow> int) \<Rightarrow> (node_service, pyval) proc" where
  "by_address params f = eval (\<lambda>s.
     rbind (param params ''address'') (\<lambda>a. rbind (hash_key a) (\<lambda>k. Inr (PInt (f (svc_chain s) k)))))"

definition rpc_balance :: "pyval \<Rightarrow> (node_service, pyval) proc" where
  "rpc_balance params = by_address params balance_of"

definition rpc_nonce :: "pyval \<Rightarrow> (node_service, pyval) proc" where
  "rpc_nonce params = by_address params (\<lambda>c k. dget (nonces c) k 0)"

definition rpc_stake :: "pyval \<Rightarrow> (node_service, pyval) proc" where
  "rpc_stake params = by_address params (\<lambda>c k. case k of PStr a \<Rightarrow> stake_of c a | _ \<Rightarrow> 0)"

definition rpc_spendable :: "pyval \<Rightarrow> (node_service, pyval) proc" where
  "rpc_spendable params =
     by_address params (\<lambda>c k. case k of PStr a \<Rightarrow> spendable_of c a | _ \<Rightarrow> balance_of c k)"

definition rpc_locked :: "pyval \<Rightarrow> (node_service, pyval) proc" where
  "rpc_locked params = by_address params (\<lambda>c k. case k of PStr a \<Rightarrow> locked_of c a None | _ \<Rightarrow> 0)"

text \<open>\<open>0 <= index < len(chain)\<close>, then \<open>chain[index]\<close>, which takes integers only.\<close>

definition get_block :: "pyval \<Rightarrow> (node_service, pyval) proc" where
  "get_block params = eval (\<lambda>s. let ch = chain (svc_chain s) in
     rbind (param params ''index'') (\<lambda>i.
     rbind (py_lt i (PInt 0)) (\<lambda>below.
     rbind (py_lt i (PInt (int (length ch)))) (\<lambda>less.
     if below \<or> \<not> less then Inl (ValidationError ''no block at index'')
     else (case i of
             PFloat f \<Rightarrow> Inl (TypeError ''list indices must be integers'')
           | _ \<Rightarrow> Inr (encode_block (ch ! nat (the_int i))))))))"

section \<open>Writing\<close>

definition tree_add_block :: "env \<Rightarrow> block \<Rightarrow> (node_service, bool) proc" where
  "tree_add_block E b =
     within svc_tree (\<lambda>t s. s\<lparr>svc_tree := t\<rparr>) (\<lambda>t. add_block E t b)"

definition store_append :: "env \<Rightarrow> block \<Rightarrow> (node_service, unit) proc" where
  "store_append E b = assign (\<lambda>s. s\<lparr>svc_store := append_block E b (svc_store s)\<rparr>)"

definition pool_add :: "env \<Rightarrow> transaction \<Rightarrow> (node_service, bool) proc" where
  "pool_add E tx s =
     (case mempool_add E tx (svc_chain s) (svc_mempool s) of
        Inl e \<Rightarrow> Some (s, Inl e)
      | Inr (new, m) \<Rightarrow> Some (s\<lparr>svc_mempool := m\<rparr>, Inr new))"

definition pool_update :: "env \<Rightarrow> (node_service, unit) proc" where
  "pool_update E s =
     (case mempool_update E (svc_chain s) (svc_mempool s) of
        Inl e \<Rightarrow> Some (s, Inl e)
      | Inr m \<Rightarrow> Some (s\<lparr>svc_mempool := m\<rparr>, Inr ()))"

text \<open>The block a node seals on its head: \<open>(params or {}).get("timestamp") or int(time.time())\<close>.\<close>

definition next_block ::
  "env \<Rightarrow> wallet \<Rightarrow> (string \<times> pyval) list \<Rightarrow> int \<Rightarrow> nat \<Rightarrow> node_service \<Rightarrow> block res" where
  "next_block E w params now k s =
     (let c = svc_chain s;
          asked = dget params ''timestamp'' PNone;
          ts = (if truthy asked then asked else PInt now);
          txs = select (svc_mempool s) c (unbonding_blocks c) MAX_TXS_PER_BLOCK
      in rbind (py_succ E (index (head c))) (\<lambda>i.
         seal_block E (PStr (block_hash E (head c))) i w txs ts (PInt 0) k))"

definition produce_block ::
  "env \<Rightarrow> (string \<times> pyval) list \<Rightarrow> int \<Rightarrow> nat \<Rightarrow> (node_service, pyval) proc" where
  "produce_block E params now k =
     mbind (eval (\<lambda>s. case svc_validator s of
              None \<Rightarrow> Inl (ValidationError ''node is not configured as a validator'')
            | Some w \<Rightarrow> Inr w)) (\<lambda>w.
     mbind (eval (is_our_turn E)) (\<lambda>turn.
     if \<not> turn then throw (ValidationError ''not the turn of this node'')
     else mbind (eval (next_block E w params now k)) (\<lambda>b.
          mbind (tree_add_block E b) (\<lambda>_.
          mbind (store_append E b) (\<lambda>_.
          mbind (pool_update E) (\<lambda>_.
          return (encode_block b)))))))"

definition submit_tx :: "env \<Rightarrow> pyval \<Rightarrow> int \<Rightarrow> nat \<Rightarrow> (node_service, pyval) proc" where
  "submit_tx E params now k =
     mbind (eval (\<lambda>s. rbind (param params ''tx'') decode_tx)) (\<lambda>tx.
     mbind (pool_add E tx) (\<lambda>_.
     mbind (eval (\<lambda>s. if svc_autoproduce s then is_our_turn E s else Inr False)) (\<lambda>turn.
     mbind (if turn then produce_block E [] now k else return PNone) (\<lambda>mined.
     return (PDict [(''txid'', PStr (txid E tx)), (''mined'', mined)])))))"

definition receive_block :: "env \<Rightarrow> pyval \<Rightarrow> (node_service, pyval) proc" where
  "receive_block E params =
     mbind (eval (\<lambda>s. rbind (param params ''block'') (decode_block E))) (\<lambda>b.
     mbind (tree_add_block E b) (\<lambda>accepted.
     mbind (if accepted then mbind (store_append E b) (\<lambda>_. pool_update E) else return ()) (\<lambda>_.
     eval (\<lambda>s. Inr (PDict
       [(''accepted'', PBool accepted), (''height'', index (head (svc_chain s))),
        (''head'', PStr (block_hash E (head (svc_chain s)))),
        (''finalized_height'', PInt (finalized_height (svc_tree s)))])))))"

section \<open>JSON-RPC\<close>

definition MAX_RPC_BODY :: int where
  "MAX_RPC_BODY = 8000000"

definition WRITE_METHODS :: "string list" where
  "WRITE_METHODS = [''submit_tx'', ''receive_block'']"

text \<open>The method table; \<open>produce_block\<close> is not in it.\<close>

definition dispatch :: "env \<Rightarrow> string \<Rightarrow> pyval \<Rightarrow> int \<Rightarrow> nat \<Rightarrow> (node_service, pyval) proc" where
  "dispatch E m params now k =
     (if m = ''info'' then info E
      else if m = ''balance'' then rpc_balance params
      else if m = ''nonce'' then rpc_nonce params
      else if m = ''stake'' then rpc_stake params
      else if m = ''spendable'' then rpc_spendable params
      else if m = ''locked'' then rpc_locked params
      else if m = ''get_block'' then get_block params
      else if m = ''submit_tx'' then submit_tx E params now k
      else if m = ''receive_block'' then receive_block E params
      else throw (ValidationError ''unknown method''))"

datatype rpc_fault = Too_Large | Unauthorized | Raised perror

datatype rpc_reply = Rpc_Result pyval pyval | Rpc_Error pyval rpc_fault

text \<open>\<open>hmac.compare_digest\<close> on strings takes ASCII only.\<close>

definition compare_digest :: "string \<Rightarrow> string \<Rightarrow> bool res" where
  "compare_digest a b =
     (if list_all (\<lambda>c. (of_char c :: nat) < 128) (a @ b) then Inr (a = b)
      else Inl (TypeError ''comparing strings with non-ASCII characters is not supported''))"

definition bearer_token :: "string \<Rightarrow> string" where
  "bearer_token auth = (if take 7 auth = ''Bearer '' then drop 7 auth else [])"

text \<open>Whether a call may go ahead: a write needs the token, when the server has one.\<close>

definition authorized :: "string option \<Rightarrow> string \<Rightarrow> pyval \<Rightarrow> bool res" where
  "authorized rpc_token auth m =
     rbind (hash_key m) (\<lambda>k.
     case rpc_token of
       None \<Rightarrow> Inr True
     | Some t \<Rightarrow>
         (if k \<notin> PStr ` set WRITE_METHODS \<or> t = [] then Inr True
          else compare_digest (bearer_token auth) t))"

definition serve_call :: "env \<Rightarrow> string option \<Rightarrow> string \<Rightarrow> (string \<times> pyval) list \<Rightarrow> pyval \<Rightarrow> int \<Rightarrow> nat
   \<Rightarrow> (node_service, rpc_reply) proc" where
  "serve_call E rpc_token auth req request_id now k =
     mbind (eval (\<lambda>s. jfield req ''method'')) (\<lambda>m.
     mbind (eval (\<lambda>s. authorized rpc_token auth m)) (\<lambda>ok.
     if \<not> ok then return (Rpc_Error request_id Unauthorized)
     else let given = dget req ''params'' PNone;
              params = (if truthy given then given else PDict [])
          in mbind (case m of PStr name \<Rightarrow> dispatch E name params now k
                             | _ \<Rightarrow> throw (ValidationError ''unknown method'')) (\<lambda>r.
             return (Rpc_Result request_id r))))"

text \<open>The handler: \<open>len\<close> is what the length header parses to, \<open>body\<close> the text that was read. Any
  exception becomes an error reply, with the id of the request once that has been read.\<close>

definition do_POST ::
  "env \<Rightarrow> string option \<Rightarrow> string \<Rightarrow> int res \<Rightarrow> string \<Rightarrow> int \<Rightarrow> nat \<Rightarrow> (node_service, rpc_reply) proc"
where
  "do_POST E rpc_token auth len body now k =
     attempt (\<lambda>e. Some (return (Rpc_Error PNone (Raised e))))
       (mbind (eval (\<lambda>s. len)) (\<lambda>n.
        if MAX_RPC_BODY < n then return (Rpc_Error PNone Too_Large)
        else mbind (eval (\<lambda>s. if body = [] then Inr (PDict [])
                              else case json_loads E body of
                                     None \<Rightarrow> Inl (ValueError ''not JSON'')
                                   | Some v \<Rightarrow> Inr v)) (\<lambda>v.
             case v of
               PDict req \<Rightarrow>
                 (let request_id = dget req ''id'' PNone
                  in attempt (\<lambda>e. Some (return (Rpc_Error request_id (Raised e))))
                       (serve_call E rpc_token auth req request_id now k))
             | _ \<Rightarrow> throw (AttributeError ''object has no attribute get''))))"

section \<open>The tree and the pool keep their invariants\<close>

definition service_ok :: "env \<Rightarrow> node_service \<Rightarrow> bool" where
  "service_ok E s \<longleftrightarrow> tree_ok E (svc_tree s) \<and> pool_ok E (svc_mempool s)"

text \<open>How a node changes: its tree grows, and the lines its store gained are those of blocks that
  bring the old tree to the new one.\<close>

definition block_text :: "store \<Rightarrow> string" where
  "block_text s = (case blocks_file s of None \<Rightarrow> [] | Some f \<Rightarrow> f)"

definition block_lines :: "env \<Rightarrow> block list \<Rightarrow> string" where
  "block_lines E bs = concat (map (\<lambda>b. block_line E b @ [newline]) bs)"

definition persists :: "env \<Rightarrow> block list \<Rightarrow> node_service \<Rightarrow> node_service \<Rightarrow> bool" where
  "persists E bs s s' \<longleftrightarrow> block_text (svc_store s') = block_text (svc_store s) @ block_lines E bs \<and>
     replay_blocks E (svc_tree s) (map Inr bs) = Some (Inr (svc_tree s')) \<and>
     list_all (\<lambda>b. decode_block E (encode_block b) = Inr b) bs"

definition service_grows :: "env \<Rightarrow> node_service \<Rightarrow> node_service \<Rightarrow> bool" where
  "service_grows E s s' \<longleftrightarrow> tree_reaches E (svc_tree s) (svc_tree s') \<and>
     svc_validator s' = svc_validator s \<and> svc_autoproduce s' = svc_autoproduce s \<and>
     genesis_file (svc_store s') = genesis_file (svc_store s) \<and> (\<exists>bs. persists E bs s s')"

lemma persists_Nil [simp]: "svc_tree s' = svc_tree s \<Longrightarrow> svc_store s' = svc_store s \<Longrightarrow> persists E [] s s'"
  by (simp add: persists_def block_lines_def)

lemma replay_blocks_append:
  "replay_blocks E t rs = Some (Inr t') \<Longrightarrow> replay_blocks E t (rs @ rs') = replay_blocks E t' rs'"
  by (induction rs arbitrary: t) (auto split: sum.splits option.splits prod.splits)

lemma persists_append: "persists E bs s s' \<Longrightarrow> persists E bs' s' s'' \<Longrightarrow> persists E (bs @ bs') s s''"
  by (simp add: persists_def block_lines_def replay_blocks_append)

lemma service_grows_same:
  "svc_tree s' = svc_tree s \<Longrightarrow> svc_store s' = svc_store s \<Longrightarrow> svc_validator s' = svc_validator s \<Longrightarrow>
   svc_autoproduce s' = svc_autoproduce s \<Longrightarrow> service_grows E s s'"
  by (auto simp: service_grows_def tree_start intro: exI [of _ "[]"])

text \<open>Adding a block and appending it to the store.\<close>

lemma block_text_append: "block_text (append_block E b s) = block_text s @ block_lines E [b]"
  by (simp add: block_text_def append_block_def block_lines_def block_line_def split: option.split)

lemma stored_text_fold:
  "block_text (fold (append_block E) bs s) = block_text s @ block_lines E bs \<and>
   genesis_file (fold (append_block E) bs s) = genesis_file s"
  by (induction bs arbitrary: s) (simp_all add: block_text_append, simp_all add: append_block_def block_lines_def)

lemma service_grows_block:
  assumes "add_block E (svc_tree s) b = Some (t, Inr new)" "decode_block E (encode_block b) = Inr b"
  shows "service_grows E s (s\<lparr>svc_tree := t, svc_store := append_block E b (svc_store s), svc_mempool := m\<rparr>)"
proof -
  have "persists E [b] s (s\<lparr>svc_tree := t, svc_store := append_block E b (svc_store s), svc_mempool := m\<rparr>)"
    using assms by (simp add: persists_def block_text_append)
  with tree_add [OF tree_start assms(1)] show ?thesis
    by (auto simp: service_grows_def append_block_def)
qed

lemma tree_reaches_trans:
  "tree_reaches E t' t'' \<Longrightarrow> tree_reaches E t t' \<Longrightarrow> tree_reaches E t t''"
  by (induction rule: tree_reaches.induct) (auto intro: tree_add)

interpretation svc: contract "service_ok E" "service_grows E"
  by unfold_locales (auto simp: service_grows_same, auto simp: service_grows_def intro: tree_reaches_trans persists_append)

lemma pool_add_ok [intro!]: "ensures (service_ok E) (service_grows E) (pool_add E tx)"
  by (rule ensuresI)
    (auto simp: pool_add_def service_ok_def service_grows_same
      split: sum.splits dest: mempool_add_ok)

lemma pool_update_total:
  "service_ok E s \<Longrightarrow> \<exists>m. pool_update E s = Some (s\<lparr>svc_mempool := m\<rparr>, Inr ()) \<and> pool_ok E m \<and>
     set (pool m) \<subseteq> set (pool (svc_mempool s))"
  using mempool_update_eq [of E "svc_mempool s" "svc_chain s"]
    mempool_update_ok [of E "svc_mempool s" "svc_chain s"]
  by (auto simp: pool_update_def service_ok_def)

lemma pool_update_ok [intro!]: "ensures (service_ok E) (service_grows E) (pool_update E)"
proof (rule ensuresI)
  fix s assume s: "service_ok E s"
  from pool_update_total [OF this] s
  show "\<exists>s' r. pool_update E s = Some (s', r) \<and> service_ok E s' \<and> service_grows E s s'"
    by (auto simp: service_ok_def service_grows_same)
qed

text \<open>The blocks a node accepts or seals survive the wire.\<close>

lemma added_decodes:
  assumes "add_block E t b = Some (t', Inr True)"
  shows "decode_block E (encode_block b) = Inr b"
proof -
  obtain st sv where "validate_on E st b = Inr sv"
    using assms by (auto simp: add_block_def Let_def rbind_eq_Inr split: if_splits sum.splits option.splits prod.splits)
  then obtain st' where "submit_block E (pos_hooks E) st b = Inr st'"
    by (auto simp: validate_on_def rbind_eq_Inr)
  then show ?thesis by (rule accepted_decodes)
qed

lemma seal_block_decodes:
  assumes "seal_block E prev idx w txs ts non k = Inr b"
  shows "decode_block E (encode_block b) = Inr b"
proof -
  obtain r where r: "merkle_root E (map (txid E) txs) = Inr r" using merkle_root_total by blast
  with assms show ?thesis
    by (auto simp: seal_block_def new_block_def rbind_eq_Inr Let_def encode_block_def jfield_def)
qed

lemma next_block_decodes:
  "next_block E w params now k s = Inr b \<Longrightarrow> decode_block E (encode_block b) = Inr b"
  by (auto simp: next_block_def Let_def rbind_eq_Inr dest: seal_block_decodes)

text \<open>Adding a block: the tree answers, and an error leaves the node as it was.\<close>

lemma tree_add_block_cases:
  assumes "service_ok E s"
  obtains (raised) e where "tree_add_block E b s = Some (s, Inl e)" "add_block E (svc_tree s) b = Some (svc_tree s, Inl e)"
  | (added) t new where "add_block E (svc_tree s) b = Some (t, Inr new)" "tree_ok E t"
      "tree_add_block E b s = Some (s\<lparr>svc_tree := t\<rparr>, Inr new)" "dhas (weight t) (block_hash E b)"
      "new \<longleftrightarrow> \<not> dhas (weight (svc_tree s)) (block_hash E b)" "\<not> new \<longrightarrow> t = svc_tree s"
proof -
  from assms have ok: "tree_ok E (svc_tree s)" by (simp add: service_ok_def)
  obtain t r where tr: "add_block E (svc_tree s) b = Some (t, r)" "tree_ok E t"
    "\<And>e. r = Inl e \<Longrightarrow> t = svc_tree s" "\<And>x. r = Inr x \<Longrightarrow> dhas (weight t) (block_hash E b)"
    using add_block_spec [OF ok, of b] by blast
  show ?thesis
  proof (cases r)
    case (Inl e)
    with tr show ?thesis by (intro raised) (auto simp: tree_add_block_def within_def)
  next
    case (Inr new)
    have "new \<longleftrightarrow> \<not> dhas (weight (svc_tree s)) (block_hash E b)" "\<not> new \<longrightarrow> t = svc_tree s"
      using tr(1) Inr by (auto simp: add_block_def Let_def store_block_def rbind_eq_Inr
        split: if_splits sum.splits option.splits prod.splits)
    with tr Inr show ?thesis by (intro added) (auto simp: tree_add_block_def within_def)
  qed
qed

lemma receive_block_cases:
  assumes s: "service_ok E s"
  obtains (raised) e where "receive_block E params s = Some (s, Inl e)"
  | (known) b v where "rbind (param params ''block'') (decode_block E) = Inr b"
      "dhas (weight (svc_tree s)) (block_hash E b)" "receive_block E params s = Some (s, Inr v)"
  | (accepted) b t m v where "rbind (param params ''block'') (decode_block E) = Inr b"
      "\<not> dhas (weight (svc_tree s)) (block_hash E b)" "add_block E (svc_tree s) b = Some (t, Inr True)"
      "dhas (weight t) (block_hash E b)" "pool_ok E m" "tree_ok E t"
      "receive_block E params s = Some (s\<lparr>svc_tree := t, svc_store := append_block E b (svc_store s),
         svc_mempool := m\<rparr>, Inr v)"
proof (cases "rbind (param params ''block'') (decode_block E)")
  case (Inl e)
  then show ?thesis by (intro raised) (auto simp: receive_block_def mbind_def eval_def)
next
  case (Inr b)
  note dec = Inr
  from s show ?thesis
  proof (cases rule: tree_add_block_cases [where b = b])
    case (raised e)
    with dec show ?thesis by (intro that(1)) (auto simp: receive_block_def mbind_def eval_def)
  next
    case (added t new)
    show ?thesis
    proof (cases new)
      case False
      with added have "tree_add_block E b s = Some (s, Inr False)" by simp
      with dec False added(5) show ?thesis
        by (intro that(2)) (auto simp: receive_block_def mbind_def eval_def return_def)
    next
      case True
      let ?s = "s\<lparr>svc_tree := t, svc_store := append_block E b (svc_store s)\<rparr>"
      from s added(2) have "service_ok E ?s" by (simp add: service_ok_def)
      from pool_update_total [OF this] obtain m where m: "pool_update E ?s = Some (?s\<lparr>svc_mempool := m\<rparr>, Inr ())" "pool_ok E m"
        by blast
      from dec True added m show ?thesis
        by (intro that(3)) (auto simp: receive_block_def mbind_def eval_def assign_def store_append_def)
    qed
  qed
qed

lemma produce_block_cases:
  assumes s: "service_ok E s"
  obtains (raised) e where "produce_block E params now k s = Some (s, Inl e)"
  | (produced) w b t new m where "svc_validator s = Some w" "next_validator E (svc_chain s) = Inr (address E w)"
      "next_block E w params now k s = Inr b" "add_block E (svc_tree s) b = Some (t, Inr new)"
      "dhas (weight t) (block_hash E b)" "pool_ok E m" "tree_ok E t"
      "produce_block E params now k s = Some (s\<lparr>svc_tree := t, svc_store := append_block E b (svc_store s),
         svc_mempool := m\<rparr>, Inr (encode_block b))"
      "set (pool m) \<subseteq> set (pool (svc_mempool s))"
proof (cases "svc_validator s")
  case None
  then show ?thesis by (intro raised) (auto simp: produce_block_def mbind_def eval_def)
next
  case (Some w)
  show ?thesis
  proof (cases "is_our_turn E s = Inr True \<and> (\<exists>b. next_block E w params now k s = Inr b)")
    case False
    then consider e where "is_our_turn E s = Inl e" | "is_our_turn E s = Inr False"
      | e where "is_our_turn E s = Inr True" "next_block E w params now k s = Inl e"
      by (cases "is_our_turn E s"; cases "next_block E w params now k s") auto
    then show ?thesis
      by cases (simp_all add: raised produce_block_def mbind_def eval_def throw_def Some)
  next
    case True
    then obtain b where turn: "is_our_turn E s = Inr True" and b: "next_block E w params now k s = Inr b" by blast
    from s show ?thesis
    proof (cases rule: tree_add_block_cases [where b = b])
      case (raised e)
      with Some turn b show ?thesis by (intro that(1)) (auto simp: produce_block_def mbind_def eval_def)
    next
      case (added t new)
      let ?s = "s\<lparr>svc_tree := t, svc_store := append_block E b (svc_store s)\<rparr>"
      from s added(2) have "service_ok E ?s" by (simp add: service_ok_def)
      from pool_update_total [OF this] obtain m where m: "pool_update E ?s = Some (?s\<lparr>svc_mempool := m\<rparr>, Inr ())" "pool_ok E m"
        "set (pool m) \<subseteq> set (pool (svc_mempool s))"
        by auto
      have "next_validator E (svc_chain s) = Inr (address E w)"
        using turn Some by (auto simp: is_our_turn_def rbind_eq_Inr)
      with Some turn b added m show ?thesis
        by (intro that(2)) (auto simp: produce_block_def mbind_def eval_def assign_def store_append_def return_def)
    qed
  qed
qed

lemma produce_block_ok [intro!]: "ensures (service_ok E) (service_grows E) (produce_block E params now k)"
proof (rule ensuresI)
  fix s assume s: "service_ok E s"
  then show "\<exists>s' r. produce_block E params now k s = Some (s', r) \<and> service_ok E s' \<and> service_grows E s s'"
  proof (cases rule: produce_block_cases [where params = params and now = now and k = k])
    case (produced w b t new m)
    with service_grows_block [OF produced(4) next_block_decodes [OF produced(3)], of m]
    show ?thesis by (simp add: service_ok_def)
  qed (use s svc.same in auto)
qed

lemma submit_tx_ok [intro!]: "ensures (service_ok E) (service_grows E) (submit_tx E params now k)"
  unfolding submit_tx_def by auto

lemma receive_block_ok [intro!]: "ensures (service_ok E) (service_grows E) (receive_block E params)"
proof (rule ensuresI)
  fix s assume s: "service_ok E s"
  then show "\<exists>s' r. receive_block E params s = Some (s', r) \<and> service_ok E s' \<and> service_grows E s s'"
  proof (cases rule: receive_block_cases [where params = params])
    case (accepted b t m v)
    with service_grows_block [OF accepted(3) added_decodes [OF accepted(3)], of m]
    show ?thesis by (simp add: service_ok_def)
  qed (use s svc.same in auto)
qed

lemmas query_defs = info_def rpc_balance_def rpc_nonce_def rpc_stake_def rpc_spendable_def
  rpc_locked_def by_address_def get_block_def

lemma dispatch_ok [intro!]: "ensures (service_ok E) (service_grows E) (dispatch E m params now k)"
  unfolding dispatch_def query_defs by auto

lemma serve_call_ok [intro!]:
  "ensures (service_ok E) (service_grows E) (serve_call E rpc_token auth req request_id now k)"
  unfolding serve_call_def by (auto simp: Let_def split: pyval.splits)

lemma do_POST_ok: "ensures (service_ok E) (service_grows E) (do_POST E rpc_token auth len body now k)"
  unfolding do_POST_def by (auto simp: Let_def split: pyval.splits)

section \<open>Reads, and writes without the token, change nothing\<close>

lemma query_reads: "m \<notin> set WRITE_METHODS \<Longrightarrow> reads (dispatch E m params now k)"
  unfolding dispatch_def query_defs by (auto simp: WRITE_METHODS_def)

lemma authorized_write:
  assumes "authorized (Some t) auth (PStr m) = Inr True" "t \<noteq> []" "bearer_token auth \<noteq> t"
  shows "m \<notin> set WRITE_METHODS"
  using assms by (auto simp: authorized_def compare_digest_def split: if_splits)

lemma serve_call_reads:
  assumes "t \<noteq> []" "bearer_token auth \<noteq> t"
  shows "reads (serve_call E (Some t) auth req request_id now k)"
  unfolding serve_call_def
proof (intro reading.ensures_eval_then)
  fix m ok assume "authorized (Some t) auth m = Inr ok"
  then have "reads (dispatch E name params now k)" if "m = PStr name" ok for name params
    using that assms by (intro query_reads authorized_write) auto
  then show "reads (if \<not> ok then return (Rpc_Error request_id Unauthorized)
      else let given = dget req ''params'' PNone; params = (if truthy given then given else PDict [])
          in mbind (case m of PStr name \<Rightarrow> dispatch E name params now k
                             | _ \<Rightarrow> throw (ValidationError ''unknown method'')) (\<lambda>r.
             return (Rpc_Result request_id r)))"
    by (auto simp: Let_def split: pyval.splits)
qed

lemma do_POST_reads:
  assumes "t \<noteq> []" "bearer_token auth \<noteq> t"
  shows "reads (do_POST E (Some t) auth len body now k)"
  unfolding do_POST_def using serve_call_reads [OF assms] by (auto simp: Let_def split: pyval.splits)

text \<open>The handler lets no exception through.\<close>

lemma attempt_all:
  "attempt (\<lambda>e. Some (return (f e))) m s = Some (s', r) \<Longrightarrow> \<exists>x. r = Inr x"
  by (auto simp: attempt_def return_def split: option.splits sum.splits prod.splits)

lemma do_POST_replies:
  "do_POST E rpc_token auth len body now k s = Some (s', r) \<Longrightarrow> \<exists>reply. r = Inr reply"
  unfolding do_POST_def by (rule attempt_all)

section \<open>Booting\<close>

text \<open>Booting gives a node whose tree grew from the genesis of its store.\<close>

lemma replay_blocks_reaches:
  "replay_blocks E t rs = Some (Inr t') \<Longrightarrow> tree_reaches E t t'"
proof (induction rs arbitrary: t)
  case (Cons r rs)
  then show ?case
    by (auto split: sum.splits option.splits prod.splits intro: tree_reaches_trans tree_add [OF tree_start])
qed (simp add: tree_start)

lemma service_init_reaches:
  assumes "service_init E st w auto cp = Some (Inr s)"
  shows "\<exists>args t0. block_tree_init E args cp = Inr t0 \<and> tree_reaches E t0 (svc_tree s)"
    "svc_mempool s = mempool_init" "svc_store s = st" "svc_validator s = w" "service_ok E s"
proof -
  from assms obtain args t0 where t0: "block_tree_init E args cp = Inr t0"
    and rep: "replay_blocks E t0 (iter_blocks E st) = Some (Inr (svc_tree s))"
    and rest: "svc_mempool s = mempool_init" "svc_store s = st" "svc_validator s = w"
    by (auto simp: service_init_def split: option.splits sum.splits)
  from t0 replay_blocks_reaches [OF rep]
  show "\<exists>args t0. block_tree_init E args cp = Inr t0 \<and> tree_reaches E t0 (svc_tree s)" by blast
  from rest show "svc_mempool s = mempool_init" "svc_store s = st" "svc_validator s = w" .
  from tree_reaches_ok [OF replay_blocks_reaches [OF rep] block_tree_init_ok [OF t0]] rest(1)
  show "service_ok E s" by (simp add: service_ok_def pool_ok_init)
qed

end
