(* ===== verification/Peer_Rules.thy ===== *)
theory Peer_Rules
  imports Peer_Node
begin

text \<open>
  More of the peer of \<open>Peer_Node\<close>: its own calls keep the invariants too, what has been seen is not
  handled again, and a block that arrives is followed by every buffered descendant.
\<close>

section \<open>The node's own calls\<close>

lemma own_broadcast_ok:
  "(\<And>s. sound_msg E s m) \<Longrightarrow> ensures (peer_ok E) (peer_grows E) (broadcast up m)"
  by (rule achieves_ensures, rule achieves_weaken [OF broadcast_ok]) auto

lemma peer_submit_ok [intro!]: "ensures (peer_ok E) (peer_grows E) (peer_submit E up tx)"
  unfolding peer_submit_def
proof (rule achieves_ensures, rule peer.achieves_mbind [OF pool_add_valid])
  fix x
  show "achieves (peer_ok E) (peer_grows E) (\<lambda>s. is_valid E tx = Inr True)
    (mbind (remember_tx (txid E tx)) (\<lambda>_. broadcast up (tx_msg (encode_tx tx)))) (\<lambda>_ _. True)"
  proof (cases "is_valid E tx = Inr True")
    case True
    then have "sound_msg E s (tx_msg (encode_tx tx))" for s by (simp add: sound_msg_def tx_msg_def)
    then show ?thesis by (auto intro!: ensures_achieves own_broadcast_ok)
  qed (simp add: achieves_def)
qed

lemma produced_sound:
  "achieves (peer_ok E) (peer_grows E) (\<lambda>_. True) (on_service (produce_block E params now k))
     (\<lambda>v s. sound_msg E s (block_msg v))"
proof (rule achievesI)
  fix s assume s: "peer_ok E s"
  then have svc: "service_ok E (p_service s)" by (simp add: peer_ok_def)
  obtain s' r where s': "on_service (produce_block E params now k) s = Some (s', r)" "peer_ok E s'" "peer_grows E s s'"
    using on_service_ok [OF produce_block_ok] s by (rule ensuresE)
  have "sound_msg E s' (block_msg v)" if "r = Inr v" for v
    using svc
  proof (cases rule: produce_block_cases [where params = params and now = now and k = k])
    case (raised e)
    with s'(1) that show ?thesis by (simp add: on_service_def within_def)
  next
    case (produced w b t new m)
    then have "decode_block E (encode_block b) = Inr b" by (intro next_block_decodes)
    with produced s'(1) that show ?thesis
      by (auto simp: on_service_def within_def sound_msg_def block_msg_def)
  qed
  with s' show "\<exists>s' r. on_service (produce_block E params now k) s = Some (s', r) \<and> peer_ok E s' \<and> peer_grows E s s' \<and>
      (\<forall>v. r = Inr v \<longrightarrow> sound_msg E s' (block_msg v))"
    by blast
qed

lemma sound_msg_stable: "sound_msg E s m \<Longrightarrow> peer_grows E s s' \<Longrightarrow> sound_msg E s' m"
  by (auto simp: peer_grows_def intro: sound_msg_mono)

lemma produce_and_gossip_ok [intro!]: "ensures (peer_ok E) (peer_grows E) (produce_and_gossip E up slot now k)"
  unfolding produce_and_gossip_def
proof (rule achieves_ensures, rule peer.achieves_mbind [OF produced_sound])
  fix v
  have seen: "achieves (peer_ok E) (peer_grows E) (\<lambda>s. sound_msg E s (block_msg v)) (remember_block i)
      (\<lambda>_ s. sound_msg E s (block_msg v))" for i
    by (rule ensures_stable [OF remember_block_ok sound_msg_stable])
  have "achieves (peer_ok E) (peer_grows E) (\<lambda>s. sound_msg E s (block_msg v))
      (mbind (remember_block i) (\<lambda>_. mbind (broadcast up (block_msg v)) (\<lambda>_. return v))) (\<lambda>_ _. True)" for i
    by (intro peer.achieves_mbind [OF seen] peer.achieves_mbind [OF broadcast_ok] peer.achieves_return TrueI)
  then show "achieves (peer_ok E) (peer_grows E) (\<lambda>s. sound_msg E s (block_msg v))
      (mbind (eval (\<lambda>s. decode_block E v)) (\<lambda>b. mbind (remember_block (block_hash E b)) (\<lambda>_.
         mbind (broadcast up (block_msg v)) (\<lambda>_. return v)))) (\<lambda>_ _. True)"
    by (rule peer.achieves_mbind [OF peer.achieves_eval [where Q = "\<lambda>_ s. sound_msg E s (block_msg v)"], rotated])
qed

lemma tick_ok: "ensures (peer_ok E) (peer_grows E) (tick E up slot now k)"
  unfolding tick_def by (auto split: option.splits)

lemma auto_vote_ok: "ensures (peer_ok E) (peer_grows E) (auto_vote E up k)"
proof -
  have "ensures (peer_ok E) (peer_grows E) (assign (\<lambda>st. st\<lparr>p_voted := List.insert th (p_voted st)\<rparr>))" for th
    by (rule peer.ensures_assign) (auto simp: peer_ok_def peer_grows_def service_grows_same)
  then have cast: "ensures (peer_ok E) (peer_grows E)
      (attempt (\<lambda>e. if is_validation e then Some (return ()) else None)
         (mbind (eval (\<lambda>st. vote_tx E v s sh t th (own_nonce E v st) 0 k)) (\<lambda>tx.
          mbind (peer_submit E up tx) (\<lambda>_. assign (\<lambda>st. st\<lparr>p_voted := List.insert th (p_voted st)\<rparr>)))))"
    for v s sh t th
    by (intro peer.ensures_attempt peer.ensures_mbind peer.ensures_eval peer_submit_ok)
      (auto split: if_splits)
  show ?thesis
    unfolding auto_vote_def
  proof (rule peer.ensures_mbind [OF peer.ensures_eval])
    fix vote :: "(wallet \<times> string \<times> int \<times> string \<times> int) option"
    show "ensures (peer_ok E) (peer_grows E) (case vote of None \<Rightarrow> return () | Some (v, s, sh, t, th) \<Rightarrow>
       attempt (\<lambda>e. if is_validation e then Some (return ()) else None)
         (mbind (eval (\<lambda>st. vote_tx E v s sh t th (own_nonce E v st) 0 k)) (\<lambda>tx.
          mbind (peer_submit E up tx) (\<lambda>_. assign (\<lambda>st. st\<lparr>p_voted := List.insert th (p_voted st)\<rparr>)))))"
      by (cases vote) (simp_all add: peer.ensures_return cast split: prod.split)
  qed
qed

section \<open>What has been seen is not handled again\<close>

lemma keeps_drain_loop:
  assumes "\<And>svc s. f (s\<lparr>p_service := svc\<rparr>) = f s" "\<And>ms s. f (s\<lparr>p_sent := ms\<rparr>) = f s"
    and "\<And>d s. f (s\<lparr>p_orphans := d\<rparr>) = f s"
  shows "keeps f (drain_loop n E up h)"
proof (induction n arbitrary: h)
  case (Suc n)
  then show ?case
    by (auto intro!: keeps_for_each keeps_assign keeps_broadcast keeps_try_receive simp: assms)
qed (simp add: keeps_basic)

lemma keeps_apply_or_buffer:
  assumes "\<And>svc s. f (s\<lparr>p_service := svc\<rparr>) = f s" "\<And>ms s. f (s\<lparr>p_sent := ms\<rparr>) = f s"
    and "\<And>d s. f (s\<lparr>p_orphans := d\<rparr>) = f s"
  shows "keeps f (apply_or_buffer E up b data)"
proof -
  have "keeps f (drain_orphans E up h)" for h
    unfolding drain_orphans_def by (rule keeps_drain_loop [OF assms])
  moreover have "keeps f (request_sync up)"
    unfolding request_sync_def by (auto intro!: keeps_broadcast simp: assms)
  ultimately show ?thesis
    unfolding apply_or_buffer_def buffer_orphan_def
    by (auto intro!: keeps_assign keeps_broadcast keeps_try_receive simp: assms split: prod.splits)
qed

lemma remember_block_eq:
  "remember_block key s = Some (s\<lparr>p_seen_block := snd (remember key (p_seen_block s))\<rparr>, Inr (fst (remember key (p_seen_block s))))"
  "remember_tx key s = Some (s\<lparr>p_seen_tx := snd (remember key (p_seen_tx s))\<rparr>, Inr (fst (remember key (p_seen_tx s))))"
  by (simp_all add: remember_block_def remember_tx_def split_beta)

text \<open>A block message handled before is dropped: no change, nothing sent.\<close>

lemma on_block_again:
  assumes s: "peer_ok E s" and dec: "decode_block E (dget d ''data'' PNone) = Inr b" "block_wire_id E b = Inr i"
    and run: "on_block E up d s = Some (s', r)"
  shows "on_block E up' d s' = Some (s', Inr ())"
proof -
  let ?p = "remember i (p_seen_block s)" let ?s = "s\<lparr>p_seen_block := snd (remember i (p_seen_block s))\<rparr>"
  have "i \<in> set (snd ?p)"
    using remember_bounded(3) [of "p_seen_block s" i "fst ?p" "snd ?p"] s by (simp add: peer_ok_def)
  moreover have "p_seen_block s' = snd ?p"
  proof (cases "fst ?p")
    case True
    with run dec have "apply_or_buffer E up b (dget d ''data'' PNone) ?s = Some (s', r)"
      by (simp add: on_block_def mbind_def eval_def remember_block_eq)
    then have "p_seen_block s' = p_seen_block ?s"
      by (rule keepsD [OF keeps_apply_or_buffer, rotated -1]) simp_all
    then show ?thesis by simp
  next
    case False
    with run dec show ?thesis by (auto simp: on_block_def mbind_def eval_def remember_block_eq return_def)
  qed
  ultimately have "remember i (p_seen_block s') = (False, p_seen_block s')" by (simp add: remember_def)
  with dec show ?thesis
    by (simp add: on_block_def mbind_def eval_def remember_block_eq return_def)
qed

lemma on_tx_again:
  assumes s: "peer_ok E s" and dec: "decode_tx (dget d ''data'' PNone) = Inr tx"
    and run: "on_tx E up d s = Some (s', r)"
  shows "on_tx E up' d s' = Some (s', Inr ())"
proof -
  let ?p = "remember (txid E tx) (p_seen_tx s)" let ?s = "s\<lparr>p_seen_tx := snd (remember (txid E tx) (p_seen_tx s))\<rparr>"
  let ?rest = "mbind (attempt (\<lambda>e. if is_validation e then Some (return False) else None)
      (mbind (on_service (pool_add E tx)) (\<lambda>_. return True))) (\<lambda>ok. if ok then broadcast up (PDict d) else return ())"
  have "txid E tx \<in> set (snd ?p)"
    using remember_bounded(3) [of "p_seen_tx s" "txid E tx" "fst ?p" "snd ?p"] s by (simp add: peer_ok_def)
  moreover have "p_seen_tx s' = snd ?p"
  proof (cases "fst ?p")
    case True
    have "keeps p_seen_tx ?rest"
      by (auto intro!: keeps_on_service keeps_broadcast split: if_splits)
    moreover from True run dec have "?rest ?s = Some (s', r)"
      by (simp add: on_tx_def mbind_def [of "eval _"] mbind_def [of "remember_tx _"] eval_def remember_block_eq)
    ultimately have "p_seen_tx s' = p_seen_tx ?s" by (rule keepsD)
    then show ?thesis by simp
  next
    case False
    with run dec show ?thesis by (auto simp: on_tx_def mbind_def eval_def remember_block_eq return_def)
  qed
  ultimately have "remember (txid E tx) (p_seen_tx s') = (False, p_seen_tx s')" by (simp add: remember_def)
  with dec show ?thesis
    by (simp add: on_tx_def mbind_def eval_def remember_block_eq return_def)
qed

section \<open>Buffered descendants are tried\<close>

text \<open>The parents that the tree has although blocks are still waiting for them.\<close>

definition overdue :: "peer_node \<Rightarrow> string set" where
  "overdue s = {h. dhas (p_orphans s) (PStr h) \<and> dhas (weight (svc_tree (p_service s))) h}"

lemma overdue_keeps:
  assumes "keeps p_orphans m" "keeps p_service m" "ensures P R m"
  shows "achieves P R (\<lambda>s. overdue s \<subseteq> X) m (\<lambda>_ s. overdue s \<subseteq> X)"
  using assms by (fastforce simp: achieves_def ensures_def keeps_def overdue_def)

lemma add_block_keys:
  assumes "add_block E t b = Some (t', r)" "dhas (weight t') h"
  shows "dhas (weight t) h \<or> h = block_hash E b"
  using assms
  by (auto simp: add_block_def store_block_def Let_def insert_block_def
      split: if_splits sum.splits option.splits prod.splits
      dest!: update_head_weight advance_finality_weight)

definition hash_of :: "env \<Rightarrow> pyval \<Rightarrow> string set" where
  "hash_of E data = {h. \<exists>b. decode_block E data = Inr b \<and> h = block_hash E b}"

lemma try_receive_overdue:
  "achieves (peer_ok E) (peer_grows E) (\<lambda>s. overdue s \<subseteq> X) (try_receive E data)
     (\<lambda>accepted s. overdue s \<subseteq> X \<union> (if accepted then hash_of E data else {}))"
proof (rule achievesI)
  fix s assume s: "peer_ok E s" and X: "overdue s \<subseteq> X"
  have svc: "service_ok E (p_service s)" using s by (simp add: peer_ok_def)
  obtain s' r where s': "try_receive E data s = Some (s', r)" "peer_ok E s'" "peer_grows E s s'"
    using achieves_ensures [OF try_receive_ok] s by (rule ensuresE)
  have orph: "p_orphans s' = p_orphans s" by (rule keepsD [OF keeps_try_receive s'(1)]) simp
  note defs = try_receive_def attempt_def mbind_def on_service_def within_def return_def
  have "overdue s' \<subseteq> X \<union> (if acc then hash_of E data else {})" if "r = Inr acc" for acc
    using svc
  proof (cases rule: receive_block_cases [where params = "PDict [(''block'', data)]"])
    case (raised e)
    with s'(1) X show ?thesis by (auto simp: defs overdue_def split: if_splits)
  next
    case (known b v)
    with s'(1) X show ?thesis by (auto simp: defs overdue_def)
  next
    case (accepted b t m v)
    then have "weight (svc_tree (p_service s')) = weight t" and acc: "acc = accepted_reply v"
      using s'(1) that by (auto simp: defs)
    moreover have "acc"
      using accepted(1-3) accepted(7) acc
      by (auto simp: receive_block_def mbind_def eval_def tree_add_block_def within_def split: option.splits sum.splits prod.splits)
    ultimately show ?thesis
      using X add_block_keys [OF accepted(3)] accepted(1) orph
      by (auto simp: overdue_def hash_of_def jfield_def)
  qed
  with s' show "\<exists>s' r. try_receive E data s = Some (s', r) \<and> peer_ok E s' \<and> peer_grows E s s' \<and>
      (\<forall>x. r = Inr x \<longrightarrow> overdue s' \<subseteq> X \<union> (if x then hash_of E data else {}))"
    by blast
qed

lemma try_receive_both:
  "achieves (peer_ok E) (peer_grows E) (\<lambda>s. overdue s \<subseteq> X) (try_receive E data)
     (\<lambda>accepted s. (accepted \<longrightarrow> sound_msg E s (block_msg data)) \<and>
        overdue s \<subseteq> X \<union> (if accepted then hash_of E data else {}))"
  by (rule achieves_weaken [OF achieves_conj [OF try_receive_ok try_receive_overdue]]) auto

lemma broadcast_overdue:
  "achieves (peer_ok E) (peer_grows E) (\<lambda>s. sound_msg E s m \<and> overdue s \<subseteq> X) (broadcast up m)
     (\<lambda>_ s. overdue s \<subseteq> X)"
proof -
  have "keeps p_orphans (broadcast up m)" "keeps p_service (broadcast up m)"
    by (auto intro!: keeps_broadcast)
  with broadcast_ok [of E m up] show ?thesis
    by (fastforce simp: achieves_def keeps_def overdue_def)
qed

text \<open>Receiving, relaying and going on with \<open>f\<close>.\<close>

lemma relay_overdue:
  assumes "achieves (peer_ok E) (peer_grows E) (\<lambda>s. overdue s \<subseteq> X \<union> hash_of E data) f (\<lambda>_ s. overdue s \<subseteq> X)"
  shows "achieves (peer_ok E) (peer_grows E) (\<lambda>s. overdue s \<subseteq> X) (mbind (try_receive E data) (\<lambda>accepted.
     if accepted then mbind (broadcast up (block_msg data)) (\<lambda>_. f) else return ())) (\<lambda>_ s. overdue s \<subseteq> X)"
proof (rule peer.achieves_mbind [OF try_receive_both])
  fix accepted
  show "achieves (peer_ok E) (peer_grows E) (\<lambda>s. (accepted \<longrightarrow> sound_msg E s (block_msg data)) \<and>
        overdue s \<subseteq> X \<union> (if accepted then hash_of E data else {}))
     (if accepted then mbind (broadcast up (block_msg data)) (\<lambda>_. f) else return ()) (\<lambda>_ s. overdue s \<subseteq> X)"
    using peer.achieves_mbind [OF broadcast_overdue assms]
    by (cases accepted) (simp_all add: peer.achieves_return)
qed

lemma drop_waiting_overdue:
  "achieves (peer_ok E) (peer_grows E) (\<lambda>s. overdue s \<subseteq> {h})
     (assign (\<lambda>s. s\<lparr>p_orphans := AList.delete (PStr h) (p_orphans s)\<rparr>)) (\<lambda>_ s. overdue s \<subseteq> {})"
  using drop_waiting_ok [of E "PStr h"]
  by (fastforce simp: achieves_def ensures_def assign_def overdue_def)

lemma drain_loop_overdue:
  "achieves (peer_ok E) (peer_grows E) (\<lambda>s. overdue s \<subseteq> {h}) (drain_loop n E up h) (\<lambda>_ s. overdue s \<subseteq> {})"
proof (induction n arbitrary: h)
  case (Suc n)
  have body: "achieves (peer_ok E) (peer_grows E) (\<lambda>s. overdue s \<subseteq> {})
    (mbind (eval (\<lambda>s. decode_block E data)) (\<lambda>child. mbind (try_receive E data) (\<lambda>accepted.
       if accepted then mbind (broadcast up (block_msg data)) (\<lambda>_. drain_loop n E up (block_hash E child)) else return ())))
    (\<lambda>_ s. overdue s \<subseteq> {})" for data
  proof (rule peer.achieves_mbind [OF peer.achieves_eval
        [where Q = "\<lambda>child s. overdue s \<subseteq> {} \<and> hash_of E data = {block_hash E child}"]])
    fix child
    show "achieves (peer_ok E) (peer_grows E) (\<lambda>s. overdue s \<subseteq> {} \<and> hash_of E data = {block_hash E child})
       (mbind (try_receive E data) (\<lambda>accepted.
         if accepted then mbind (broadcast up (block_msg data)) (\<lambda>_. drain_loop n E up (block_hash E child)) else return ()))
       (\<lambda>_ s. overdue s \<subseteq> {})"
    proof (cases "hash_of E data = {block_hash E child}")
      case True
      show ?thesis
        by (rule achieves_weaken [OF relay_overdue]) (use Suc.IH True in auto)
    qed (simp add: achieves_def)
  qed (auto simp: hash_of_def)
  show ?case
    unfolding drain_loop.simps
    by (rule peer.achieves_mbind [OF peer.achieves_eval [where Q = "\<lambda>_ s. overdue s \<subseteq> {h}"]], simp,
        rule peer.achieves_mbind [OF drop_waiting_overdue], rule peer.achieves_for_each [OF body])
qed (simp add: achieves_def throw_def peer_grows_refl)

text \<open>A block message that is handled to its end leaves nothing overdue.\<close>

lemma drain_orphans_overdue:
  "achieves (peer_ok E) (peer_grows E) (\<lambda>s. overdue s \<subseteq> {h}) (drain_orphans E up h) (\<lambda>_ s. overdue s \<subseteq> {})"
  unfolding drain_orphans_def by (rule drain_loop_overdue)

lemma apply_or_buffer_overdue:
  assumes "decode_block E data = Inr b"
  shows "achieves (peer_ok E) (peer_grows E) (\<lambda>s. overdue s \<subseteq> {}) (apply_or_buffer E up b data) (\<lambda>_ s. overdue s \<subseteq> {})"
  unfolding apply_or_buffer_def
proof (rule peer.achieves_mbind [OF peer.achieves_eval
      [where Q = "\<lambda>p s. overdue s \<subseteq> {} \<and> (\<not> snd p \<longrightarrow> \<not> in_tree (fst p) s)"]])
  fix p :: "pyval \<times> bool"
  obtain k known where p: "p = (k, known)" by fastforce
  have h: "hash_of E data = {block_hash E b}" using assms by (simp add: hash_of_def)
  have buffer: "achieves (peer_ok E) (peer_grows E) (\<lambda>s. overdue s \<subseteq> {} \<and> \<not> in_tree k s)
      (mbind (buffer_orphan k data) (\<lambda>_. request_sync up)) (\<lambda>_ s. overdue s \<subseteq> {})"
  proof (rule peer.achieves_mbind)
    show "achieves (peer_ok E) (peer_grows E) (\<lambda>s. overdue s \<subseteq> {} \<and> \<not> in_tree k s) (buffer_orphan k data)
        (\<lambda>_ s. overdue s \<subseteq> {})"
      using buffer_orphan_ok [of E k data]
      by (fastforce simp: achieves_def ensures_def buffer_orphan_def assign_def overdue_def in_tree_def
          split: if_splits)
    have "keeps p_orphans (request_sync up)" "keeps p_service (request_sync up)"
      unfolding request_sync_def by (auto intro!: keeps_broadcast)
    then show "achieves (peer_ok E) (peer_grows E) (\<lambda>s. overdue s \<subseteq> {}) (request_sync up) (\<lambda>_ s. overdue s \<subseteq> {})"
      by (rule overdue_keeps [OF _ _ request_sync_ok])
  qed
  have relay: "achieves (peer_ok E) (peer_grows E) (\<lambda>s. overdue s \<subseteq> {}) (mbind (try_receive E data) (\<lambda>accepted.
      if accepted then mbind (broadcast up (block_msg data)) (\<lambda>_. drain_orphans E up (block_hash E b)) else return ()))
      (\<lambda>_ s. overdue s \<subseteq> {})"
    by (rule relay_overdue) (use drain_orphans_overdue h in simp)
  show "achieves (peer_ok E) (peer_grows E) (\<lambda>s. overdue s \<subseteq> {} \<and> (\<not> snd p \<longrightarrow> \<not> in_tree (fst p) s))
     (case p of (k, known) \<Rightarrow>
       if \<not> known then mbind (buffer_orphan k data) (\<lambda>_. request_sync up)
       else mbind (try_receive E data) (\<lambda>accepted.
          if accepted then mbind (broadcast up (block_msg data)) (\<lambda>_. drain_orphans E up (block_hash E b))
          else return ())) (\<lambda>_ s. overdue s \<subseteq> {})"
    using buffer relay by (cases known) (simp_all add: p)
qed (auto simp: rbind_eq_Inr)

lemma on_block_overdue:
  "achieves (peer_ok E) (peer_grows E) (\<lambda>s. overdue s \<subseteq> {}) (on_block E up d) (\<lambda>_ s. overdue s \<subseteq> {})"
  unfolding on_block_def
proof (rule peer.achieves_mbind [OF peer.achieves_eval
      [where Q = "\<lambda>b s. overdue s \<subseteq> {} \<and> decode_block E (dget d ''data'' PNone) = Inr b"]])
  fix b
  let ?dec = "decode_block E (dget d ''data'' PNone) = Inr b"
  have rem: "achieves (peer_ok E) (peer_grows E) (\<lambda>s. overdue s \<subseteq> {}) (remember_block i) (\<lambda>_ s. overdue s \<subseteq> {})" for i
    by (rule overdue_keeps [OF _ _ remember_block_ok]) (auto simp: keeps_def remember_block_def split: prod.splits)
  show "achieves (peer_ok E) (peer_grows E) (\<lambda>s. overdue s \<subseteq> {} \<and> ?dec)
      (mbind (eval (\<lambda>s. block_wire_id E b)) (\<lambda>i. mbind (remember_block i) (\<lambda>new.
         if \<not> new then return () else apply_or_buffer E up b (dget d ''data'' PNone)))) (\<lambda>_ s. overdue s \<subseteq> {})"
  proof (cases ?dec)
    case True
    have "achieves (peer_ok E) (peer_grows E) (\<lambda>s. overdue s \<subseteq> {})
        (if \<not> new then return () else apply_or_buffer E up b (dget d ''data'' PNone)) (\<lambda>_ s. overdue s \<subseteq> {})" for new
      using apply_or_buffer_overdue [OF True] by (cases new) (simp_all add: peer.achieves_return)
    then show ?thesis
      using True by (intro peer.achieves_mbind [OF peer.achieves_eval peer.achieves_mbind [OF rem]]) auto
  qed (simp add: achieves_def)
qed simp

end
