(* ===== verification/Auto_Vote.thy ===== *)
theory Auto_Vote
  imports Peer_Node
begin

text \<open>
  The finality votes a node casts by itself (\<open>auto_vote\<close> of \<open>p2p.py\<close>): the source never lies below
  an earlier source while the node's chain only grows, so no two of its votes are a double or a
  surround vote.
\<close>

section \<open>What a growing chain keeps\<close>

lemma pos_pre_justified:
  "pos_apply_block_pre E st b w = Inr w1 \<Longrightarrow> justified (w_aux w1) = justified (w_aux w)"
  by (auto simp: pos_apply_block_pre_def Let_def split: prod.splits if_splits)

lemma apply_txs_justified:
  "apply_txs E (pos_hooks E) st b seen w txs = Inr w' \<Longrightarrow> set (justified (w_aux w)) \<subseteq> set (justified (w_aux w'))"
proof (induction txs arbitrary: seen w)
  case (Cons tx txs)
  then obtain w1 where w1: "pos_apply_tx E st tx b w = Inr w1"
    and rest: "apply_txs E (pos_hooks E) st b (txid E tx # seen) w1 txs = Inr w'"
    by (auto simp: rbind_eq_Inr pos_hooks_def split: if_splits)
  have "set (justified (w_aux w)) \<subseteq> set (justified (w_aux w1))"
    using w1
  proof (cases rule: pos_apply_tx_ffg)
    case (vote l v)
    then show ?thesis
      using record_vote_cases [of st "the_str (sender tx)" "fst v" "fst (snd v)" "fst (snd (snd v))" "snd (snd (snd v))" "w_aux w"]
      by auto
  qed simp
  with Cons.IH [OF rest] show ?case by blast
qed simp

lemma submit_block_justified:
  assumes "submit_block E (pos_hooks E) st b = Inr st'"
  shows "set (justified (pos st)) \<subseteq> set (justified (pos st'))" "epoch st' = epoch st"
    "chain st' = chain st @ [b]"
proof -
  from assms obtain w1 w2 where
    w: "pos_apply_block_pre E st b (start_work (pos_hooks E) st) = Inr w1"
    "apply_txs E (pos_hooks E) st b [] w1 (transactions b) = Inr w2"
    and st': "st' = st\<lparr>balances := w_balances w2, nonces := w_nonces w2, chain := chain st @ [b],
              pos := (w_aux w2)\<lparr>justified_parent := []\<rparr>\<rparr>"
    by (rule pos_submit_Inr)
  show "set (justified (pos st)) \<subseteq> set (justified (pos st'))"
    using apply_txs_justified [OF w(2)] pos_pre_justified [OF w(1)]
    by (simp add: st' start_work_def pos_hooks_def pos_snapshot_aux_def)
  show "epoch st' = epoch st" "chain st' = chain st @ [b]" by (simp_all add: st')
qed

definition extends_chain :: "pos_chain \<Rightarrow> pos_chain \<Rightarrow> bool" where
  "extends_chain c c' \<longleftrightarrow> epoch c' = epoch c \<and> (\<exists>bs. chain c' = chain c @ bs) \<and>
     set (justified (pos c)) \<subseteq> set (justified (pos c')) \<and>
     snd (finalized (pos c)) \<le> snd (finalized (pos c'))"

lemma extends_chainD:
  assumes "extends_chain c c'"
  shows "epoch c' = epoch c" "b \<in> set (chain c) \<Longrightarrow> b \<in> set (chain c')"
    "h \<in> set (justified (pos c)) \<Longrightarrow> h \<in> set (justified (pos c'))"
    "snd (finalized (pos c)) \<le> snd (finalized (pos c'))"
  using assms unfolding extends_chain_def by auto

lemma reaches_extends:
  assumes "reaches E (pos_hooks E) c c'" "pos_reachable E g c"
  shows "extends_chain c c' \<and> pos_reachable E g c'"
  using assms
proof (induction rule: reaches.induct)
  case (reaches_step st b st')
  then have "extends_chain c st" "pos_reachable E g st" by simp_all
  with submit_block_justified [OF reaches_step(2)] pos_reachable_step [OF _ reaches_step(2)]
    submit_block_ffg(2) [OF reaches_step(2) reachable_heights reachable_ffg]
  show ?case by (fastforce simp: extends_chain_def finalized_checkpoint_def)
qed (simp add: extends_chain_def)

section \<open>Targets and sources\<close>

text \<open>The source is the finalized checkpoint or a justified checkpoint of the chain, and none of
  these that lies below the target is higher.\<close>

lemma vote_source_spec:
  assumes "vote_source E c th = (s, sh)"
  shows "(s, sh) = finalized (pos c) \<or>
      (\<exists>b \<in> set (chain c). s = block_hash E b \<and> sh = the_int (index b) \<and> sh < th \<and> sh mod epoch c = 0 \<and>
         s \<in> set (justified (pos c)))"
    "snd (finalized (pos c)) \<le> sh"
    "\<And>b. b \<in> set (chain c) \<Longrightarrow> the_int (index b) < th \<Longrightarrow> the_int (index b) mod epoch c = 0 \<Longrightarrow>
       block_hash E b \<in> set (justified (pos c)) \<Longrightarrow> the_int (index b) \<le> sh"
proof -
  let ?step = "\<lambda>src b. if the_int (index b) < th \<and> the_int (index b) mod epoch c = 0 \<and>
       block_hash E b \<in> set (justified (pos c)) \<and> snd src \<le> the_int (index b)
     then (block_hash E b, the_int (index b)) else src"
  have fold: "(foldl ?step src bs = src \<or> (\<exists>b \<in> set bs. foldl ?step src bs = (block_hash E b, the_int (index b)) \<and>
        the_int (index b) < th \<and> the_int (index b) mod epoch c = 0 \<and> block_hash E b \<in> set (justified (pos c)))) \<and>
      snd src \<le> snd (foldl ?step src bs) \<and>
      (\<forall>b \<in> set bs. the_int (index b) < th \<longrightarrow> the_int (index b) mod epoch c = 0 \<longrightarrow>
        block_hash E b \<in> set (justified (pos c)) \<longrightarrow> the_int (index b) \<le> snd (foldl ?step src bs))" for src bs
  proof (induction bs rule: rev_induct)
    case (snoc b bs)
    then show ?case by (auto simp: ball_Un intro: order_trans)
  qed simp
  from fold [of "finalized (pos c)" "chain c"] assms
  show "(s, sh) = finalized (pos c) \<or> (\<exists>b \<in> set (chain c). s = block_hash E b \<and> sh = the_int (index b) \<and> sh < th \<and>
        sh mod epoch c = 0 \<and> s \<in> set (justified (pos c)))"
    "snd (finalized (pos c)) \<le> sh"
    "\<And>b. b \<in> set (chain c) \<Longrightarrow> the_int (index b) < th \<Longrightarrow> the_int (index b) mod epoch c = 0 \<Longrightarrow>
       block_hash E b \<in> set (justified (pos c)) \<Longrightarrow> the_int (index b) \<le> sh"
    unfolding vote_source_def by force+
qed

lemma vote_source_mono:
  assumes "extends_chain c c'" "vote_source E c th = (s, sh)" "vote_source E c' th' = (s', sh')" "th \<le> th'"
  shows "sh \<le> sh'"
  using vote_source_spec(1) [OF assms(2)]
proof
  assume "(s, sh) = finalized (pos c)"
  then have "sh \<le> snd (finalized (pos c'))"
    using extends_chainD(4) [OF assms(1)] by (cases "finalized (pos c)") simp
  with vote_source_spec(2) [OF assms(3)] show ?thesis by simp
next
  assume "\<exists>b \<in> set (chain c). s = block_hash E b \<and> sh = the_int (index b) \<and> sh < th \<and> sh mod epoch c = 0 \<and>
         s \<in> set (justified (pos c))"
  then obtain b where b: "b \<in> set (chain c)" "s = block_hash E b" "sh = the_int (index b)" "sh < th"
      "sh mod epoch c = 0" "s \<in> set (justified (pos c))"
    by (elim bexE conjE) (rule that)
  note ext = extends_chainD [OF assms(1)]
  have "b \<in> set (chain c')" by (rule ext(2) [OF b(1)])
  moreover have "block_hash E b \<in> set (justified (pos c'))" using ext(3) [OF b(6)] unfolding b(2) .
  moreover have "the_int (index b) mod epoch c' = 0" using b(5) unfolding b(3) ext(1) .
  moreover have "the_int (index b) < th'" using b(3,4) assms(4) by linarith
  ultimately have "the_int (index b) \<le> sh'" by (intro vote_source_spec(3) [OF assms(3)])
  then show ?thesis unfolding b(3) .
qed

lemma find_SomeD: "find P xs = Some x \<Longrightarrow> \<exists>i < length xs. x = xs ! i \<and> P x \<and> (\<forall>j < i. \<not> P (xs ! j))"
  by (auto simp: find_Some_iff)

text \<open>The target is a block of the chain, and no later checkpoint.\<close>

lemma vote_target_Some:
  assumes "vote_target c = Some t"
  shows "t \<in> set (chain c)" "0 < the_int (index t)" "the_int (index t) mod epoch c = 0"
  using find_SomeD [OF assms [unfolded vote_target_def]]
  by (auto simp: rev_nth)

lemma vote_target_last:
  assumes "vote_target c = Some t" "heights_ok (chain c)" "b \<in> set (chain c)"
    "0 < the_int (index b)" "the_int (index b) mod epoch c = 0"
  shows "the_int (index b) \<le> the_int (index t)"
proof -
  let ?ch = "chain c"
  obtain i where i: "i < length ?ch" "t = rev ?ch ! i"
    "\<And>j. j < i \<Longrightarrow> \<not> (0 < the_int (index (rev ?ch ! j)) \<and> the_int (index (rev ?ch ! j)) mod epoch c = 0)"
    using find_SomeD [OF assms(1) [unfolded vote_target_def]] by auto
  obtain n where n: "n < length ?ch" "b = ?ch ! n" using assms(3) by (auto simp: in_set_conv_nth)
  have b: "b = rev ?ch ! (length ?ch - 1 - n)" using n by (simp add: rev_nth)
  have "i \<le> length ?ch - 1 - n"
    using i(3) [of "length ?ch - 1 - n"] assms(4,5) b by (metis not_le)
  then have "n \<le> length ?ch - 1 - i" using n(1) i(1) by linarith
  moreover have "the_int (index t) = int (length ?ch - 1 - i)"
    using assms(2) i(1,2) by (simp add: heights_ok_def rev_nth)
  moreover have "the_int (index b) = int n" using assms(2) n by (simp add: heights_ok_def)
  ultimately show ?thesis by simp
qed

lemma vote_target_mono:
  assumes "extends_chain c c'" "heights_ok (chain c')" "vote_target c = Some t" "vote_target c' = Some t'"
  shows "the_int (index t) \<le> the_int (index t')"
  by (rule vote_target_last [OF assms(4,2)])
    (simp_all add: vote_target_Some [OF assms(3)] extends_chainD [OF assms(1)])

text \<open>Two links whose targets and sources rise together are no fault.\<close>

definition int_link :: "string \<Rightarrow> int \<Rightarrow> string \<Rightarrow> int \<Rightarrow> link" where
  "int_link s sh t th = \<lparr>link_s = PStr s, link_sh = PInt sh, link_t = PStr t, link_th = PInt th\<rparr>"

lemma py_lt_int [simp]: "py_lt (PInt i) (PInt j) = Inr (i < j)"
  by (simp add: Let_def)

lemma rising_links:
  assumes "th < th'" "sh \<le> sh'"
  shows "\<not> double_vote (int_link s sh t th) (int_link s' sh' t' th') \<and>
    surround_vote (int_link s sh t th) (int_link s' sh' t' th') = Inr False"
  using assms by (auto simp: double_vote_def surround_vote_def int_link_def or_else_def and_then_def)

lemma own_vote_Some:
  assumes "own_vote E s = Some (v, a, ah, t, th)"
  obtains b where "svc_validator (p_service s) = Some v" "vote_target (svc_chain (p_service s)) = Some b"
    "t = block_hash E b" "th = the_int (index b)" "vote_source E (svc_chain (p_service s)) th = (a, ah)"
    "th \<notin> set (p_voted s)" "ah < th" "dhas (stakes (pos (svc_chain (p_service s)))) (address E v)"
  using assms by (auto simp: own_vote_def Let_def split: option.splits prod.splits if_splits)

lemma own_votes_rise:
  assumes c: "pos_reachable E g (svc_chain (p_service s))"
    "reaches E (pos_hooks E) (svc_chain (p_service s)) (svc_chain (p_service s'))"
    and v: "own_vote E s = Some (v, a, ah, t, th)" "own_vote E s' = Some (v', a', ah', t', th')"
    and voted: "th \<in> set (p_voted s')"
  shows "th < th' \<and> ah \<le> ah'"
proof -
  note ext = reaches_extends [OF c(2,1)]
  from v(1) obtain b where b: "vote_target (svc_chain (p_service s)) = Some b" "th = the_int (index b)"
    "vote_source E (svc_chain (p_service s)) th = (a, ah)" by (rule own_vote_Some)
  from v(2) obtain b' where b': "vote_target (svc_chain (p_service s')) = Some b'" "th' = the_int (index b')"
    "vote_source E (svc_chain (p_service s')) th' = (a', ah')" "th' \<notin> set (p_voted s')"
    by (rule own_vote_Some)
  have le: "th \<le> th'"
    using ext reachable_heights vote_target_mono [OF _ _ b(1) b'(1)] b(2) b'(2) by blast
  with voted b'(4) have "th < th'" by (cases "th = th'") auto
  with vote_source_mono [OF _ b(3) b'(3) le] ext show ?thesis by blast
qed

end
