(* ===== verification/Node_Runs.thy ===== *)
theory Node_Runs
  imports Peer_Rules Auto_Vote
begin

text \<open>
  The runs of a whole node: it boots from its store, is told some seed peers, and then takes, in any
  order and any number, the steps its parts offer: a line from a peer, a request over RPC, a slot of
  the production timer, a vote, an announcement, a request for blocks, a transaction of a local
  client. What the components guarantee separately is put together here for every state of a run.
\<close>

section \<open>Steps\<close>

inductive peer_step :: "env \<Rightarrow> peer_node \<Rightarrow> peer_node \<Rightarrow> bool" for E s s' where
  step_line: "handle E up client_ip line s = Some (s', r) \<Longrightarrow> peer_step E s s'"
| step_rpc: "on_service (do_POST E rpc_token auth len body now k) s = Some (s', q) \<Longrightarrow> peer_step E s s'"
| step_slot: "tick E up slot now k s = Some (s', v) \<Longrightarrow> peer_step E s s'"
| step_vote: "auto_vote E up k s = Some (s', r) \<Longrightarrow> peer_step E s s'"
| step_announce: "announce up s = Some (s', r) \<Longrightarrow> peer_step E s s'"
| step_sync: "request_sync up s = Some (s', r) \<Longrightarrow> peer_step E s s'"
| step_client: "peer_submit E up tx s = Some (s', r) \<Longrightarrow> peer_step E s s'"

inductive peer_runs :: "env \<Rightarrow> peer_node \<Rightarrow> peer_node \<Rightarrow> bool" for E s where
  run_start: "peer_runs E s s"
| run_step: "peer_runs E s s' \<Longrightarrow> peer_step E s' s'' \<Longrightarrow> peer_runs E s s''"

text \<open>Booting: the service on its store, with its seed peers connected.\<close>

definition node_boots ::
  "env \<Rightarrow> store \<Rightarrow> wallet option \<Rightarrow> (string \<times> int) option \<Rightarrow> string \<Rightarrow> addr list
   \<Rightarrow> peer_node \<Rightarrow> bool" where
  "node_boots E st w checkpoint advertise seeds s \<longleftrightarrow>
     (\<exists>svc auto r. service_init E st w auto checkpoint = Some (Inr svc) \<and>
        for_each connect seeds (peer_init svc advertise) = Some (s, r))"

section \<open>Every step keeps the invariants\<close>

lemma on_rpc_ok: "ensures (peer_ok E) (peer_grows E) (on_service (do_POST E rpc_token auth len body now k))"
  by (rule on_service_ok [OF do_POST_ok])

lemma peer_step_ok:
  assumes "peer_step E s s'" "peer_ok E s"
  shows "peer_ok E s' \<and> peer_grows E s s'"
  using assms(1)
proof cases
  case (step_line up client_ip line r)
  then show ?thesis by (rule ensuresD [OF handle_ok assms(2)])
next
  case (step_rpc rpc_token auth len body now k q)
  then show ?thesis by (rule ensuresD [OF on_rpc_ok assms(2)])
next
  case (step_slot up slot now k v)
  then show ?thesis by (rule ensuresD [OF tick_ok assms(2)])
next
  case (step_vote up k r)
  then show ?thesis by (rule ensuresD [OF auto_vote_ok assms(2)])
next
  case (step_announce up r)
  then show ?thesis by (rule ensuresD [OF announce_ok assms(2)])
next
  case (step_sync up r)
  then show ?thesis by (rule ensuresD [OF request_sync_ok assms(2)])
next
  case (step_client up tx r)
  then show ?thesis by (rule ensuresD [OF peer_submit_ok assms(2)])
qed

lemma peer_runs_ok: "peer_runs E s s' \<Longrightarrow> peer_ok E s \<Longrightarrow> peer_ok E s' \<and> peer_grows E s s'"
proof (induction rule: peer_runs.induct)
  case run_start
  then show ?case by (simp add: peer_grows_refl)
next
  case (run_step s' s'')
  with peer_step_ok [OF run_step(2)] peer_grows_trans show ?case by blast
qed

text \<open>Where a run starts.\<close>

lemma connect_all:
  "for_each connect seeds s = Some (s', r) \<Longrightarrow> \<exists>ps. s' = s\<lparr>p_peers := ps\<rparr>"
proof (induction seeds arbitrary: s)
  case Nil
  then show ?case by (intro exI [of _ "p_peers s"]) (simp add: return_def)
next
  case (Cons p seeds)
  obtain ps where "connect p s = Some (s\<lparr>p_peers := ps\<rparr>, Inr ())"
  proof (cases "p \<in> set (p_peers s)")
    case True
    then show ?thesis by (intro that [of "p_peers s"]) (simp add: connect_def assign_def)
  qed (use that in \<open>auto simp: connect_def assign_def\<close>)
  with Cons show ?case by (fastforce simp: mbind_def)
qed

lemma node_boots_ok:
  assumes "node_boots E st w cp adv seeds s"
  shows "peer_ok E s" "p_sent s = []" "svc_store (p_service s) = st" "svc_validator (p_service s) = w"
    "\<exists>args t0. block_tree_init E args cp = Inr t0 \<and> tree_reaches E t0 (svc_tree (p_service s))"
proof -
  from assms obtain svc auto r ps where svc: "service_init E st w auto cp = Some (Inr svc)"
    and s: "s = (peer_init svc adv)\<lparr>p_peers := ps\<rparr>"
    unfolding node_boots_def using connect_all by blast
  note init = service_init_reaches [OF svc]
  show "peer_ok E s"
    using init(5) by (simp add: s peer_ok_def peer_init_def wf_dict_def SEEN_CAP_def MAX_ORPHANS_def)
  show "p_sent s = []" "svc_store (p_service s) = st" "svc_validator (p_service s) = w"
    using init(3,4) by (simp_all add: s peer_init_def)
  show "\<exists>args t0. block_tree_init E args cp = Inr t0 \<and> tree_reaches E t0 (svc_tree (p_service s))"
    using init(1) by (simp add: s peer_init_def)
qed

lemma run_facts:
  assumes "node_boots E st w cp adv seeds s0" "peer_runs E s0 s"
  shows "peer_ok E s" "peer_grows E s0 s"
    "\<exists>args t0. block_tree_init E args cp = Inr t0 \<and> tree_reaches E t0 (svc_tree (p_service s))"
proof -
  from peer_runs_ok [OF assms(2) node_boots_ok(1) [OF assms(1)]]
  show *: "peer_ok E s" "peer_grows E s0 s" by simp_all
  then have "tree_reaches E (svc_tree (p_service s0)) (svc_tree (p_service s))"
    by (simp add: peer_grows_def service_grows_def)
  with node_boots_ok(5) [OF assms(1)] tree_reaches_trans
  show "\<exists>args t0. block_tree_init E args cp = Inr t0 \<and> tree_reaches E t0 (svc_tree (p_service s))" by blast
qed

lemma peer_runs_trans: "peer_runs E s' s'' \<Longrightarrow> peer_runs E s s' \<Longrightarrow> peer_runs E s s''"
  by (induction rule: peer_runs.induct) (auto intro: run_step)

lemma run_chain:
  assumes "node_boots E st w cp adv seeds s0" "peer_runs E s0 s"
  shows "\<exists>g. pos_reachable E g (svc_chain (p_service s))"
proof -
  have "replay E (svc_tree (p_service s)) (head_hash (svc_tree (p_service s))) (svc_chain (p_service s))"
    using run_facts(1) [OF assms] by (simp add: peer_ok_def service_ok_def tree_ok_def head_ok_def svc_chain_def)
  then show ?thesis using replay_reachable by blast
qed

section \<open>Single steps\<close>

text \<open>What leaves the handler of a connection is what it does not catch.\<close>

lemma attempt_catches:
  "attempt (\<lambda>e. if C e then Some (return x) else None) m s = Some (s', Inl e) \<Longrightarrow> \<not> C e"
  by (auto simp: attempt_def return_def split: option.splits sum.splits prod.splits if_splits)

lemma handle_escapes: "handle E up client_ip line s = Some (s', Inl e) \<Longrightarrow> \<not> handler_catches e"
  unfolding handle_def by (rule attempt_catches)

text \<open>The block a validator seals next.\<close>

lemma next_block_fields:
  assumes "next_block E w params now k s = Inr b"
  shows "validator b = PStr (address E w)" "previous_hash b = PStr (block_hash E (head (svc_chain s)))"
proof -
  from assms obtain i txs ts where
    "seal_block E (PStr (block_hash E (head (svc_chain s)))) i w txs ts (PInt 0) k = Inr b"
    by (auto simp: next_block_def Let_def rbind_eq_Inr)
  moreover obtain r where "merkle_root E (map (txid E) txs) = Inr r" using merkle_root_total by blast
  ultimately show "validator b = PStr (address E w)"
    "previous_hash b = PStr (block_hash E (head (svc_chain s)))"
    by (auto simp: seal_block_def new_block_def rbind_eq_Inr Let_def)
qed

end
