(* ===== verification/Restart.thy ===== *)
theory Restart
  imports Node_Runs
begin

text \<open>
  What survives the end of a node: the store of a running node holds, in the order they were
  accepted, the blocks its tree was built from, so booting on it gives the same tree. And where the
  store is not crash-proof: a line cut off by a crash is skipped when the node boots, but the next
  block is written behind it, on the same line.
\<close>

section \<open>Booting on what a run stored\<close>

text \<open>The lines that count are the complete ones; what a crash left of another is skipped.\<close>

lemma torn_skipped:
  assumes "\<And>f. printable (float_repr E f)" "printable part" "block_text s = block_lines E bs @ part"
  shows "committed_lines s = map (block_line E) bs"
proof (cases "blocks_file s")
  case None
  with assms(3) show ?thesis
    by (cases bs) (simp_all add: block_text_def block_lines_def committed_lines_def)
next
  case (Some f)
  with assms(3) have "blocks_file s = Some (concat (map (\<lambda>b. block_line E b @ [newline]) bs) @ part)"
    by (simp add: block_text_def block_lines_def)
  from committed_lines_appended [OF assms(1,2) this] show ?thesis by simp
qed

lemma iter_block_text:
  assumes "\<And>f. printable (float_repr E f)" "block_text s = block_lines E bs"
    and "list_all (\<lambda>b. decode_block E (encode_block b) = Inr b \<and> jsonable E (encode_block b)) bs"
  shows "iter_blocks E s = map Inr bs"
  using assms(3) by (auto simp: block_line_reads iter_blocks_def torn_skipped [OF assms(1), of "[]", simplified, OF assms(2)] parse_line_def list_all_iff)

lemma service_init_replays:
  "service_init E st w auto cp = Some (Inr s) \<longleftrightarrow>
   (\<exists>raw args t0. genesis_params st = Some (Inr raw) \<and> typed_args raw = Some args \<and>
      block_tree_init E args cp = Inr t0 \<and> replay_blocks E t0 (iter_blocks E st) = Some (Inr (svc_tree s)) \<and>
      s = \<lparr>svc_store = st, svc_tree = svc_tree s, svc_mempool = mempool_init, svc_validator = w,
           svc_autoproduce = auto\<rparr>)"
  by (cases s) (auto simp: service_init_def split: option.splits sum.splits)

lemma service_init_store: "service_init E st w auto cp = Some (Inr s) \<Longrightarrow> svc_store s = st"
  unfolding service_init_replays by (metis node_service.select_convs(1))

lemma genesis_params_file: "genesis_file s' = genesis_file s \<Longrightarrow> genesis_params s' = genesis_params s"
  by (simp add: genesis_params_def)

text \<open>A service that booted on the blocks \<open>bs0\<close> and added \<open>bs\<close> since: what is in its store, and that booting
  on it gives the same tree.\<close>

lemma reboot:
  assumes fl: "\<And>f. printable (float_repr E f)"
    and init: "service_init E st w auto0 cp = Some (Inr svc0)"
    and gf: "genesis_file (svc_store s) = genesis_file st" and bs: "persists E bs svc0 s"
    and stored: "block_text st = block_lines E bs0"
    and bs0: "list_all (\<lambda>b. decode_block E (encode_block b) = Inr b \<and> jsonable E (encode_block b)) bs0"
  shows "block_text (svc_store s) = block_lines E (bs0 @ bs)"
    "list_all (\<lambda>b. jsonable E (encode_block b)) bs \<Longrightarrow>
     \<exists>svc. service_init E (svc_store s) w' auto cp = Some (Inr svc) \<and> svc_tree svc = svc_tree s"
proof -
  let ?st = "svc_store s"
  from init obtain raw args t0 where t0: "genesis_params st = Some (Inr raw)" "typed_args raw = Some args"
    "block_tree_init E args cp = Inr t0" "replay_blocks E t0 (map Inr bs0) = Some (Inr (svc_tree svc0))"
    "svc_store svc0 = st"
    unfolding service_init_replays iter_block_text [OF fl stored bs0]
    by (metis node_service.select_convs(1))
  show new: "block_text ?st = block_lines E (bs0 @ bs)"
    using bs stored by (simp add: persists_def t0(5) block_lines_def)
  assume js: "list_all (\<lambda>b. jsonable E (encode_block b)) bs"
  have "iter_blocks E ?st = map Inr (bs0 @ bs)"
    by (rule iter_block_text [OF fl new]) (use js bs bs0 in \<open>auto simp: persists_def list_all_iff\<close>)
  then have "replay_blocks E t0 (iter_blocks E ?st) = Some (Inr (svc_tree s))"
    using bs replay_blocks_append [OF t0(4)] by (simp add: persists_def)
  then show "\<exists>svc. service_init E ?st w' auto cp = Some (Inr svc) \<and> svc_tree svc = svc_tree s"
    using t0(1-3) genesis_params_file [OF gf]
    by (intro exI [of _ "\<lparr>svc_store = ?st, svc_tree = svc_tree s, svc_mempool = mempool_init,
         svc_validator = w', svc_autoproduce = auto\<rparr>"] conjI) (auto simp only: service_init_replays node_service.select_convs)
qed

lemma restart:
  assumes fl: "\<And>f. printable (float_repr E f)"
    and boot: "node_boots E st w cp adv seeds s0" and run: "peer_runs E s0 s"
    and stored: "block_text st = block_lines E bs0"
    and bs0: "list_all (\<lambda>b. decode_block E (encode_block b) = Inr b \<and> jsonable E (encode_block b)) bs0"
  obtains bs where "block_text (svc_store (p_service s)) = block_lines E (bs0 @ bs)"
    "list_all (\<lambda>b. jsonable E (encode_block b)) bs \<Longrightarrow>
     \<exists>svc. service_init E (svc_store (p_service s)) w' auto cp = Some (Inr svc) \<and>
       svc_tree svc = svc_tree (p_service s)"
proof -
  from boot obtain svc0 auto0 r where init: "service_init E st w auto0 cp = Some (Inr svc0)"
    and s0: "for_each connect seeds (peer_init svc0 adv) = Some (s0, r)"
    unfolding node_boots_def by blast
  have "service_grows E svc0 (p_service s)"
    using run_facts(2) [OF boot run] connect_all [OF s0] by (auto simp: peer_grows_def peer_init_def)
  then obtain bs where gf: "genesis_file (svc_store (p_service s)) = genesis_file st" and bs: "persists E bs svc0 (p_service s)"
    using service_init_store [OF init] by (auto simp: service_grows_def)
  from reboot [OF fl init gf bs stored bs0] that show ?thesis by blast
qed

section \<open>A block written behind a torn line\<close>

lemma strip_line: "strip (CHR ''{'' # m @ ''}'' @ [newline]) = CHR ''{'' # m @ ''}''"
  by (simp add: strip_def str_space_def)

text \<open>The block appended next ends up on the line a crash cut off.\<close>

lemma committed_lines_torn:
  assumes "\<And>f. printable (float_repr E f)" "printable (CHR ''{'' # m)"
    and "block_text s = block_lines E bs @ CHR ''{'' # m"
  shows "committed_lines (append_block E b s) = map (block_line E) bs @ [CHR ''{'' # m @ block_line E b]"
proof -
  let ?part = "CHR ''{'' # m" and ?l = "\<lambda>b. block_line E b @ [newline]"
  obtain k where k: "block_line E b = CHR ''{'' # k @ ''}''" using block_line_brace by blast
  have pr: "printable (block_line E b)" for b
    unfolding block_line_def by (rule printable_json_default [OF assms(1)])
  then have pr2: "printable (?part @ block_line E b)" using assms(2) by simp
  have content: "blocks_file (append_block E b s) = Some (concat (map ?l bs) @ ?part @ block_line E b @ [newline])"
    using block_text_append [of E b s] assms(3)
    by (simp add: block_text_def block_lines_def append_block_def)
  have un: "universal_newlines (concat (map ?l bs) @ ?part @ block_line E b @ [newline]) =
      concat (map ?l bs) @ ?part @ block_line E b @ [newline]"
    using printable_line(3) [OF pr2, of "[]"]
    by (induction bs) (simp_all add: printable_line(3) [OF pr])
  have lines: "file_lines [] (concat (map ?l bs) @ ?part @ block_line E b @ [newline]) =
      map ?l bs @ [?part @ block_line E b @ [newline]]"
    using file_lines_line [OF printable_line(1) [OF pr2], of "[]" "[]"]
    by (induction bs) (simp_all add: file_lines_line [OF printable_line(1) [OF pr]])
  have tw: "takeWhile (\<lambda>l. last l = newline) (map ?l bs @ [?part @ block_line E b @ [newline]]) =
      map ?l bs @ [?part @ block_line E b @ [newline]]"
    by (simp only: takeWhile_eq_all_conv) auto
  have "strip (?part @ block_line E b @ [newline]) = ?part @ block_line E b"
    using strip_line [of "m @ CHR ''{'' # k"] by (simp add: k)
  then show ?thesis
    unfolding committed_lines_def content option.case un lines tw
    by (simp add: comp_def strip_block_line block_line_nonempty filter_id_conv)
qed

lemma replay_blocks_error:
  "replay_blocks E t (rs @ Inl e # rs') \<noteq> Some (Inr t')"
  by (induction rs arbitrary: t) (auto split: sum.splits option.splits prod.splits)

text \<open>A line cut off behind its opening brace makes one that is not JSON.\<close>

lemma torn_brace: "json_loads E (CHR ''{'' # block_line E b) = None"
proof -
  obtain m where m: "block_line E b = CHR ''{'' # m" using block_line_brace by blast
  have "scan_members pf k n [] (CHR ''{'' # m) = expecting" for pf k n
    by (cases n) (simp_all add: scan_key_def)
  then show ?thesis
    by (simp add: m json_loads_def json_read_def json_scan_def skip_mark Let_def after_mark_miss emit_def)
qed

lemma torn_boot_fails:
  assumes "\<And>f. printable (float_repr E f)" "printable (CHR ''{'' # m)"
    and "block_text s = block_lines E bs @ CHR ''{'' # m"
    and "json_loads E (CHR ''{'' # m @ block_line E b) = None"
  shows "service_init E (append_block E b s) w auto cp \<noteq> Some (Inr svc)"
proof -
  have "iter_blocks E (append_block E b s) =
      map (\<lambda>l. corrupt_store (parse_line E l)) (map (block_line E) bs) @
      Inl (ValidationError ''corrupt block store'') # []"
    using assms(4) by (simp add: iter_blocks_def committed_lines_torn [OF assms(1-3)] parse_line_def)
  then show ?thesis
    using replay_blocks_error by (metis service_init_replays)
qed

end
