(* ===== verification/Gossip.thy ===== *)
theory Gossip
  imports Peer_Node
begin

text \<open>
  The in-process mesh of \<open>network.py\<close>: nodes that hand transactions and blocks directly to their
  peers, each relaying what it accepts, depth first; the line reader that feeds such a node; and the
  synchronisation of a node that joins late. A node is known by a number, the mesh is the map from
  numbers to nodes.

  Shown: a message floods the mesh, and ends doing so: every node that can be reached over nodes
  that accept it gets it, each handles it once, in the state it was in before.
\<close>

section \<open>Nodes\<close>

record gossip_node =
  g_chain :: pos_chain
  g_pool :: mempool
  g_peers :: "nat list"
  g_seen_tx :: "string list"
  g_seen_block :: "string list"

type_synonym mesh = "nat \<Rightarrow> gossip_node"

definition g_init :: "pos_chain \<Rightarrow> mempool \<Rightarrow> gossip_node" where
  "g_init c m = \<lparr>g_chain = c, g_pool = m, g_peers = [], g_seen_tx = [], g_seen_block = []\<rparr>"

definition on_node :: "nat \<Rightarrow> (gossip_node, 'a) proc \<Rightarrow> (mesh, 'a) proc" where
  "on_node i = within (\<lambda>net. net i) (\<lambda>x net. net(i := x))"

definition add_peer :: "nat \<Rightarrow> (gossip_node, unit) proc" where
  "add_peer j = assign (\<lambda>x. if j \<in> set (g_peers x) then x else x\<lparr>g_peers := g_peers x @ [j]\<rparr>)"

definition g_connect :: "nat \<Rightarrow> nat \<Rightarrow> (mesh, unit) proc" where
  "g_connect i j = mbind (on_node i (add_peer j)) (\<lambda>_. on_node j (add_peer i))"

text \<open>The steps of one node: whether a key is new, which is then remembered; admitting a transaction
  or a block, where a \<open>ValidationError\<close> means no.\<close>

definition mark_tx :: "string \<Rightarrow> (gossip_node, bool) proc" where
  "mark_tx k x = Some (x\<lparr>g_seen_tx := List.insert k (g_seen_tx x)\<rparr>, Inr (k \<notin> set (g_seen_tx x)))"

definition mark_block :: "string \<Rightarrow> (gossip_node, bool) proc" where
  "mark_block k x = Some (x\<lparr>g_seen_block := List.insert k (g_seen_block x)\<rparr>, Inr (k \<notin> set (g_seen_block x)))"

definition g_add :: "env \<Rightarrow> transaction \<Rightarrow> (gossip_node, unit) proc" where
  "g_add E tx x =
     (case mempool_add E tx (g_chain x) (g_pool x) of
        Inl e \<Rightarrow> Some (x, Inl e)
      | Inr (new, m) \<Rightarrow> Some (x\<lparr>g_pool := m\<rparr>, Inr ()))"

definition g_submit :: "env \<Rightarrow> block \<Rightarrow> (gossip_node, unit) proc" where
  "g_submit E b x =
     (case submit_block E (pos_hooks E) (g_chain x) b of
        Inl e \<Rightarrow> Some (x, Inl e)
      | Inr c \<Rightarrow> Some (x\<lparr>g_chain := c\<rparr>, Inr ()))"

definition g_update :: "env \<Rightarrow> (gossip_node, unit) proc" where
  "g_update E x =
     (case mempool_update E (g_chain x) (g_pool x) of
        Inl e \<Rightarrow> Some (x, Inl e)
      | Inr m \<Rightarrow> Some (x\<lparr>g_pool := m\<rparr>, Inr ()))"

definition if_valid :: "(gossip_node, unit) proc \<Rightarrow> (gossip_node, bool) proc" where
  "if_valid m = attempt (\<lambda>e. if is_validation e then Some (return False) else None) (mbind m (\<lambda>_. return True))"

definition admit_tx :: "env \<Rightarrow> transaction \<Rightarrow> (gossip_node, bool) proc" where
  "admit_tx E tx = if_valid (g_add E tx)"

definition admit_block :: "env \<Rightarrow> block \<Rightarrow> (gossip_node, bool) proc" where
  "admit_block E b = mbind (if_valid (g_submit E b)) (\<lambda>ok.
     if ok then mbind (g_update E) (\<lambda>_. return True) else return False)"

section \<open>Gossip\<close>

text \<open>The fuel bounds the depth of the recursion.\<close>

primrec recv_tx :: "nat \<Rightarrow> env \<Rightarrow> pyval \<Rightarrow> nat \<Rightarrow> nat option \<Rightarrow> (mesh, unit) proc" where
  "recv_tx 0 E data i origin = (\<lambda>s. None)"
| "recv_tx (Suc n) E data i origin =
     mbind (eval (\<lambda>s. decode_tx data)) (\<lambda>tx.
     mbind (on_node i (mark_tx (txid E tx))) (\<lambda>new.
     if \<not> new then return ()
     else mbind (on_node i (admit_tx E tx)) (\<lambda>ok.
     if \<not> ok then return ()
     else mbind (eval (\<lambda>s. Inr (g_peers (s i)))) (\<lambda>ps.
     for_each (\<lambda>p. if Some p = origin then return () else recv_tx n E data p (Some i)) ps))))"

primrec recv_block :: "nat \<Rightarrow> env \<Rightarrow> pyval \<Rightarrow> nat \<Rightarrow> nat option \<Rightarrow> (mesh, unit) proc" where
  "recv_block 0 E data i origin = (\<lambda>s. None)"
| "recv_block (Suc n) E data i origin =
     mbind (eval (\<lambda>s. decode_block E data)) (\<lambda>b.
     mbind (on_node i (mark_block (block_hash E b))) (\<lambda>new.
     if \<not> new then return ()
     else mbind (on_node i (admit_block E b)) (\<lambda>ok.
     if \<not> ok then return ()
     else mbind (eval (\<lambda>s. Inr (g_peers (s i)))) (\<lambda>ps.
     for_each (\<lambda>p. if Some p = origin then return () else recv_block n E data p (Some i)) ps))))"

definition broadcast_tx :: "nat \<Rightarrow> env \<Rightarrow> transaction \<Rightarrow> nat \<Rightarrow> (mesh, unit) proc" where
  "broadcast_tx n E tx i = recv_tx n E (encode_tx tx) i None"

text \<open>A producer extends its own chain, then hands the block to every peer.\<close>

definition g_produce ::
  "nat \<Rightarrow> env \<Rightarrow> wallet \<Rightarrow> pyval \<Rightarrow> nat \<Rightarrow> nat \<Rightarrow> (mesh, block) proc" where
  "g_produce n E w ts k i =
     mbind (eval (\<lambda>s. let c = g_chain (s i) in
       pos_add_block E c (select (g_pool (s i)) c (unbonding_blocks c) MAX_TXS_PER_BLOCK) w ts (PInt 0) k)) (\<lambda>c.
     mbind (on_node i (assign (\<lambda>x. x\<lparr>g_chain := c\<rparr>))) (\<lambda>_.
     mbind (on_node i (mark_block (block_hash E (head c)))) (\<lambda>_.
     mbind (on_node i (g_update E)) (\<lambda>_.
     mbind (eval (\<lambda>s. Inr (g_peers (s i)))) (\<lambda>ps.
     mbind (for_each (\<lambda>p. recv_block n E (encode_block (head c)) p (Some i)) ps) (\<lambda>_.
     return (head c)))))))"

text \<open>The reader of one connection; its exceptions are those of the handler in \<open>p2p.py\<close>.\<close>

definition ingest :: "nat \<Rightarrow> env \<Rightarrow> bytes \<Rightarrow> nat \<Rightarrow> (mesh, unit) proc" where
  "ingest n E line i =
     attempt (\<lambda>e. if handler_catches e then Some (return ()) else None)
       (if line = [] \<or> MAX_MSG_BYTES < length line \<or> last line \<noteq> 10 then return ()
        else case utf8_decode line of
          None \<Rightarrow> throw (ValueError ''invalid start byte'')
        | Some text \<Rightarrow>
            (case json_within E text of
               Inl e \<Rightarrow> throw e
             | Inr (PDict d) \<Rightarrow>
                 if dget d ''type'' PNone = PStr ''tx''
                 then mbind (eval (\<lambda>s. jfield d ''data'')) (\<lambda>data. recv_tx n E data i None)
                 else if dget d ''type'' PNone = PStr ''block''
                 then mbind (eval (\<lambda>s. jfield d ''data'')) (\<lambda>data. recv_block n E data i None)
                 else return ()
             | Inr v \<Rightarrow> return ()))"

section \<open>Synchronising\<close>

fun blocks_after :: "pyval \<Rightarrow> block list \<Rightarrow> pyval list res" where
  "blocks_after h [] = Inr []"
| "blocks_after h (b # bs) =
     rbind (py_lt h (index b)) (\<lambda>above. rbind (blocks_after h bs) (\<lambda>ds.
     Inr (if above then encode_block b # ds else ds)))"

primrec sync_loop :: "env \<Rightarrow> pyval list \<Rightarrow> nat \<Rightarrow> (gossip_node, nat) proc" where
  "sync_loop E [] n = return n"
| "sync_loop E (d # ds) n =
     mbind (eval (\<lambda>x. decode_block E d)) (\<lambda>b.
     mbind (eval (\<lambda>x. py_lt (index (head (g_chain x))) (index b))) (\<lambda>above.
     if \<not> above then sync_loop E ds n
     else mbind (g_submit E b) (\<lambda>_.
          mbind (mark_block (block_hash E b)) (\<lambda>_. sync_loop E ds (n + 1)))))"

definition sync_from :: "env \<Rightarrow> nat \<Rightarrow> nat \<Rightarrow> (mesh, nat) proc" where
  "sync_from E i j =
     mbind (eval (\<lambda>s. blocks_after (index (head (g_chain (s i)))) (chain (g_chain (s j))))) (\<lambda>ds.
     on_node i (mbind (sync_loop E ds 0) (\<lambda>n. mbind (g_update E) (\<lambda>_. return n))))"

section \<open>Flooding\<close>

text \<open>What transactions and blocks share: a node that sees the message for the first time takes note
  of it, decides, and hands it to its peers if it accepts.\<close>

lemma on_node_eq: "on_node i m s = (case m (s i) of None \<Rightarrow> None | Some (x, r) \<Rightarrow> Some (s(i := x), r))"
  by (simp add: on_node_def within_def)

primrec relay :: "(gossip_node, bool) proc \<Rightarrow> (gossip_node, bool) proc \<Rightarrow> nat \<Rightarrow> nat \<Rightarrow> nat option \<Rightarrow> (mesh, unit) proc" where
  "relay mark admit 0 i origin = (\<lambda>s. None)"
| "relay mark admit (Suc n) i origin =
     mbind (on_node i mark) (\<lambda>new. if \<not> new then return ()
     else mbind (on_node i admit) (\<lambda>ok. if \<not> ok then return ()
     else mbind (eval (\<lambda>s. Inr (g_peers (s i)))) (\<lambda>ps.
     for_each (\<lambda>p. if Some p = origin then return () else relay mark admit n p (Some i)) ps)))"

lemma mbind_eval_value: "mbind (eval (\<lambda>s. Inr x)) f = f x"
  by (simp add: mbind_def eval_def fun_eq_iff)

lemma recv_tx_relay:
  "decode_tx data = Inr tx \<Longrightarrow> recv_tx n E data i origin = relay (mark_tx (txid E tx)) (admit_tx E tx) n i origin"
  by (induction n arbitrary: i origin) (simp_all add: mbind_eval_value cong: if_cong)

lemma recv_block_relay:
  "decode_block E data = Inr b \<Longrightarrow>
   recv_block n E data i origin = relay (mark_block (block_hash E b)) (admit_block E b) n i origin"
  by (induction n arbitrary: i origin) (simp_all add: mbind_eval_value cong: if_cong)

locale flooding =
  fixes mark :: "(gossip_node, bool) proc" and admit :: "(gossip_node, bool) proc"
    and seen :: "gossip_node \<Rightarrow> bool"
  assumes mark_seen: "seen x \<Longrightarrow> mark x = Some (x, Inr False)"
    and mark_new: "\<not> seen x \<Longrightarrow> \<exists>x'. mark x = Some (x', Inr True) \<and> seen x' \<and> g_peers x' = g_peers x"
    and admit_keeps: "\<exists>x' r. admit x = Some (x', r) \<and> seen x' = seen x \<and> g_peers x' = g_peers x"
begin

abbreviation visit :: "nat \<Rightarrow> nat \<Rightarrow> nat option \<Rightarrow> (mesh, unit) proc" where
  "visit \<equiv> relay mark admit"

definition handled :: "gossip_node \<Rightarrow> (gossip_node \<times> bool res)" where
  "handled x = the (mbind mark (\<lambda>_. admit) x)"

abbreviation after :: "gossip_node \<Rightarrow> gossip_node" where
  "after x \<equiv> fst (handled x)"

abbreviation takes :: "gossip_node \<Rightarrow> bool" where
  "takes x \<equiv> snd (handled x) = Inr True"

lemma handled_new:
  assumes "\<not> seen x"
  shows "seen (after x)" "g_peers (after x) = g_peers x"
    "\<exists>x1. mark x = Some (x1, Inr True) \<and> admit x1 = Some (after x, snd (handled x))"
proof -
  obtain x1 where x1: "mark x = Some (x1, Inr True)" "seen x1" "g_peers x1 = g_peers x"
    using mark_new [OF assms] by blast
  obtain x2 r where x2: "admit x1 = Some (x2, r)" "seen x2 = seen x1" "g_peers x2 = g_peers x1"
    using admit_keeps by blast
  have "handled x = (x2, r)" by (simp add: handled_def mbind_def x1 x2)
  with x1 x2 show "seen (after x)" "g_peers (after x) = g_peers x"
    "\<exists>x1. mark x = Some (x1, Inr True) \<and> admit x1 = Some (after x, snd (handled x))" by simp_all
qed

text \<open>A node is untouched, or it has handled the message in the state it was in.\<close>

definition touched :: "mesh \<Rightarrow> mesh \<Rightarrow> bool" where
  "touched s s' \<longleftrightarrow> (\<forall>j. s' j = s j \<or> \<not> seen (s j) \<and> s' j = after (s j))"

text \<open>The peers of every node that took the message have seen it.\<close>

definition passed :: "mesh \<Rightarrow> mesh \<Rightarrow> bool" where
  "passed s s' \<longleftrightarrow> (\<forall>j. \<not> seen (s j) \<longrightarrow> seen (s' j) \<longrightarrow> takes (s j) \<longrightarrow> (\<forall>p \<in> set (g_peers (s j)). seen (s' p)))"

lemma touched_seen: "touched s s' \<Longrightarrow> seen (s j) \<Longrightarrow> s' j = s j"
  by (auto simp: touched_def)

lemma touched_mono: "touched s s' \<Longrightarrow> seen (s j) \<Longrightarrow> seen (s' j)"
  by (simp add: touched_seen)

lemma touched_peers: "touched s s' \<Longrightarrow> g_peers (s' j) = g_peers (s j)"
  using handled_new(2) [of "s j"] unfolding touched_def by - (drule spec [of _ j], auto)

lemma touched_refl [simp]: "touched s s"
  by (simp add: touched_def)

lemma passed_refl [simp]: "passed s s"
  by (simp add: passed_def)

lemma touched_trans:
  assumes "touched s s'" "touched s' s''"
  shows "touched s s''"
  unfolding touched_def
proof
  fix j
  show "s'' j = s j \<or> \<not> seen (s j) \<and> s'' j = after (s j)"
    using assms(1) handled_new(1) [of "s j"] touched_seen [OF assms(2), of j] assms(2)
    unfolding touched_def by (elim allE [of _ j]) auto
qed

lemma touched_unseen: "touched s s' \<Longrightarrow> \<not> seen (s' j) \<Longrightarrow> s' j = s j"
  using handled_new(1) [of "s j"] unfolding touched_def by - (drule spec [of _ j], auto)

lemma passed_trans:
  assumes "touched s s'" "passed s s'" "touched s' s''" "passed s' s''"
  shows "passed s s''"
  unfolding passed_def
proof (intro allI impI ballI)
  fix j p assume j: "\<not> seen (s j)" "seen (s'' j)" "takes (s j)" "p \<in> set (g_peers (s j))"
  show "seen (s'' p)"
  proof (cases "seen (s' j)")
    case True
    with assms(2) j have "seen (s' p)" by (auto simp: passed_def)
    then show ?thesis by (rule touched_mono [OF assms(3)])
  next
    case False
    then have "s' j = s j" by (rule touched_unseen [OF assms(1)])
    with j show ?thesis using assms(4) [unfolded passed_def, rule_format, of j p] by simp
  qed
qed

text \<open>What a visit does, with the node that handed the message on already in the know.\<close>

definition floods :: "nat option \<Rightarrow> nat \<Rightarrow> mesh \<Rightarrow> mesh \<Rightarrow> unit res \<Rightarrow> bool" where
  "floods origin i s s' r \<longleftrightarrow> touched s s' \<and> (r = Inr () \<longrightarrow> passed s s' \<and> seen (s' i))"

definition informed :: "nat option \<Rightarrow> mesh \<Rightarrow> bool" where
  "informed origin s \<longleftrightarrow> (\<forall>p. origin = Some p \<longrightarrow> seen (s p))"

lemma loop_floods:
  assumes "\<And>p s s' r. visit n p (Some i) s = Some (s', r) \<Longrightarrow> seen (s i) \<Longrightarrow> floods (Some i) p s s' r"
    and "for_each (\<lambda>p. if Some p = origin then return () else visit n p (Some i)) ps s = Some (s', r)"
    and "seen (s i)" "informed origin s"
  shows "touched s s' \<and> (r = Inr () \<longrightarrow> passed s s' \<and> (\<forall>p \<in> set ps. seen (s' p)))"
  using assms(2-4)
proof (induction ps arbitrary: s)
  case Nil
  then show ?case by (simp add: return_def)
next
  case (Cons p ps)
  let ?step = "\<lambda>p. if Some p = origin then return () else visit n p (Some i)"
  obtain s1 r1 where s1: "?step p s = Some (s1, r1)" using Cons.prems(1)
    by (auto simp: mbind_def split: option.splits)
  have step: "touched s s1" "r1 = Inr () \<Longrightarrow> passed s s1" "r1 = Inr () \<Longrightarrow> seen (s1 p)"
    using s1 assms(1) [of p s s1 r1] Cons.prems(2,3)
    by (auto simp: floods_def return_def informed_def split: if_splits)
  show ?case
  proof (cases r1)
    case (Inl e)
    with Cons.prems(1) s1 step(1) show ?thesis by (auto simp: mbind_def)
  next
    case (Inr u)
    then have rest: "for_each ?step ps s1 = Some (s', r)" using Cons.prems(1) s1 by (simp add: mbind_def)
    have "seen (s1 i)" "informed origin s1"
      using Cons.prems(2,3) touched_mono [OF step(1)] by (auto simp: informed_def)
    from Cons.IH [OF rest this] have ih: "touched s1 s'"
      "r = Inr () \<Longrightarrow> passed s1 s'" "r = Inr () \<Longrightarrow> \<forall>p \<in> set ps. seen (s' p)" by auto
    have "seen (s' p)" by (rule touched_mono [OF ih(1) step(3)]) (simp add: Inr)
    with ih step Inr touched_trans [OF step(1) ih(1)] passed_trans [OF step(1) step(2) ih(1) ih(2)]
    show ?thesis by auto
  qed
qed

lemma visit_floods:
  "visit n i origin s = Some (s', r) \<Longrightarrow> informed origin s \<Longrightarrow> floods origin i s s' r"
proof (induction n arbitrary: i origin s s' r)
  case 0
  then show ?case by (simp)
next
  case (Suc n)
  show ?case
  proof (cases "seen (s i)")
    case True
    with Suc.prems(1) show ?thesis
      by (auto simp: mbind_def on_node_eq mark_seen return_def floods_def)
  next
    case new: False
    obtain x1 where x1: "mark (s i) = Some (x1, Inr True)" "admit x1 = Some (after (s i), snd (handled (s i)))"
      using handled_new(3) [OF new] by blast
    let ?s2 = "s(i := after (s i))"
    have t2: "touched s ?s2" using new by (simp add: touched_def)
    show ?thesis
    proof (cases "takes (s i)")
      case False
      have "s' = ?s2"
        using Suc.prems(1) x1 False
        by (cases "snd (handled (s i))") (auto simp: mbind_def on_node_eq return_def split: if_splits)
      moreover have "passed s ?s2" using False by (simp add: passed_def)
      moreover have "seen (?s2 i)" using handled_new(1) [OF new] by simp
      ultimately show ?thesis using t2 by (simp add: floods_def del: fun_upd_apply)
    next
      case True
      have run: "for_each (\<lambda>p. if Some p = origin then return () else visit n p (Some i)) (g_peers (s i)) ?s2 = Some (s', r)"
        using Suc.prems(1) x1 True handled_new(2) [OF new]
        by (simp add: mbind_def on_node_eq eval_def)
      have "informed origin ?s2"
        using Suc.prems(2) touched_mono [OF t2] unfolding informed_def by blast
      with loop_floods [OF _ run] Suc.IH handled_new(1) [OF new]
      have loop: "touched ?s2 s'" "r = Inr () \<Longrightarrow> passed ?s2 s'" "r = Inr () \<Longrightarrow> \<forall>p \<in> set (g_peers (s i)). seen (s' p)"
        by (auto simp: informed_def)
      have "passed s s'" if "r = Inr ()"
        using loop(2,3) [OF that] by (auto simp: passed_def split: if_splits)
      moreover have "seen (s' i)" using touched_mono [OF loop(1), of i] handled_new(1) [OF new] by simp
      ultimately show ?thesis using touched_trans [OF t2 loop(1)] by (simp add: floods_def)
    qed
  qed
qed

text \<open>Everyone who can be reached over nodes that take the message sees it.\<close>

lemma flood_reaches:
  assumes run: "visit n i None s = Some (s', Inr ())"
    and path: "(i, j) \<in> {(a, b). \<not> seen (s a) \<and> takes (s a) \<and> b \<in> set (g_peers (s a))}\<^sup>*"
  shows "seen (s' j)"
proof -
  have fl: "passed s s'" "seen (s' i)"
    using visit_floods [OF run] by (auto simp: informed_def floods_def)
  from path show ?thesis
  proof (induction rule: rtrancl_induct)
    case (step a b)
    with fl(1) show ?case by (auto simp: passed_def)
  qed (rule fl(2))
qed

text \<open>A visit ends: the nodes that have not seen the message bound the depth.\<close>

definition unseen :: "nat set \<Rightarrow> mesh \<Rightarrow> nat set" where
  "unseen N s = {j \<in> N. \<not> seen (s j)}"

lemma unseen_touched: "touched s s' \<Longrightarrow> finite N \<Longrightarrow> card (unseen N s') \<le> card (unseen N s)"
  by (rule card_mono) (auto simp: unseen_def touched_mono)

lemma loop_total:
  assumes fin: "finite N"
    and visits: "\<And>s p. \<forall>j \<in> N. set (g_peers (s j)) \<subseteq> N \<Longrightarrow> p \<in> N \<Longrightarrow> seen (s i) \<Longrightarrow> card (unseen N s) < n \<Longrightarrow>
      \<exists>s' r. visit n p (Some i) s = Some (s', r)"
    and s: "\<forall>j \<in> N. set (g_peers (s j)) \<subseteq> N" "card (unseen N s) < n" "seen (s i)" "set ps \<subseteq> N"
  shows "\<exists>s' r. for_each (\<lambda>p. if Some p = origin then return () else visit n p (Some i)) ps s = Some (s', r)"
proof -
  let ?P = "\<lambda>s. (\<forall>j \<in> N. set (g_peers (s j)) \<subseteq> N) \<and> card (unseen N s) < n \<and> seen (s i)"
  have "ensures ?P (\<lambda>_ _. True) (for_each (\<lambda>p. if Some p = origin then return () else visit n p (Some i)) ps)"
  proof (rule contract.ensures_for_each)
    show "contract ?P (\<lambda>_ _. True)" by unfold_locales simp_all
    fix p assume p: "p \<in> set ps"
    show "ensures ?P (\<lambda>_ _. True) (if Some p = origin then return () else visit n p (Some i))"
    proof (cases "Some p = origin")
      case False
      show ?thesis
      proof (rule ensuresI)
        fix s1 assume P1: "?P s1"
        then obtain s' r where v: "visit n p (Some i) s1 = Some (s', r)"
          using visits [of s1 p] p s(4) by auto
        have t: "touched s1 s'" using visit_floods [OF v] P1 by (simp add: floods_def informed_def)
        have "?P s'"
          using P1 touched_peers [OF t] touched_mono [OF t] unseen_touched [OF t fin]
          by (auto intro: le_less_trans)
        with v False show "\<exists>s' r. (if Some p = origin then return () else visit n p (Some i)) s1 = Some (s', r) \<and>
            ?P s' \<and> True" by auto
      qed
    qed (auto simp: ensures_def return_def)
  qed
  from this [unfolded ensures_def, rule_format, of s] s show ?thesis by auto
qed

lemma visit_total:
  assumes "finite N"
  shows "\<forall>j \<in> N. set (g_peers (s j)) \<subseteq> N \<Longrightarrow> i \<in> N \<Longrightarrow> informed origin s \<Longrightarrow> card (unseen N s) < n \<Longrightarrow>
    \<exists>s' r. visit n i origin s = Some (s', r)"
proof (induction n arbitrary: i origin s)
  case (Suc n)
  show ?case
  proof (cases "seen (s i)")
    case True
    then show ?thesis by (auto simp: mbind_def on_node_eq mark_seen return_def)
  next
    case new: False
    obtain x1 where x1: "mark (s i) = Some (x1, Inr True)" "admit x1 = Some (after (s i), snd (handled (s i)))"
      using handled_new(3) [OF new] by blast
    let ?s2 = "s(i := after (s i))"
    have t2: "touched s ?s2" using new by (simp add: touched_def)
    have "unseen N ?s2 = unseen N s - {i}" "i \<in> unseen N s"
      using handled_new(1) [OF new] new Suc.prems(2) by (auto simp: unseen_def)
    then have less: "card (unseen N ?s2) < n"
      using Suc.prems(4) assms card_Suc_Diff1 [of "unseen N s" i] by (simp add: unseen_def)
    show ?thesis
    proof (cases "takes (s i)")
      case False
      with x1 show ?thesis
        by (cases "snd (handled (s i))") (auto simp: mbind_def on_node_eq return_def)
    next
      case True
      have "\<exists>s' r. for_each (\<lambda>p. if Some p = origin then return () else visit n p (Some i)) (g_peers (s i)) ?s2 = Some (s', r)"
        by (rule loop_total [OF assms Suc.IH _ less])
          (use Suc.prems(1,2) handled_new(1,2) [OF new] in \<open>auto simp: informed_def\<close>)
      with x1 True handled_new(2) [OF new] show ?thesis
        by (auto simp: mbind_def on_node_eq eval_def)
    qed
  qed
qed simp

text \<open>Nothing is raised when no node that is still to handle the message raises.\<close>

definition calm :: "nat set \<Rightarrow> mesh \<Rightarrow> bool" where
  "calm N s \<longleftrightarrow> (\<forall>j \<in> N. set (g_peers (s j)) \<subseteq> N \<and> (\<not> seen (s j) \<longrightarrow> \<not> isl (snd (handled (s j)))))"

lemma calm_touched: "touched s s' \<Longrightarrow> calm N s \<Longrightarrow> calm N s'"
  unfolding calm_def using touched_peers touched_unseen by metis

lemma loop_calm:
  assumes "\<And>p s s' r. visit n p (Some i) s = Some (s', r) \<Longrightarrow> seen (s i) \<Longrightarrow> calm N s \<Longrightarrow> p \<in> N \<Longrightarrow> r = Inr ()"
    and "for_each (\<lambda>p. if Some p = origin then return () else visit n p (Some i)) ps s = Some (s', r)"
    and "calm N s" "seen (s i)" "set ps \<subseteq> N"
  shows "r = Inr ()"
  using assms(2-5)
proof (induction ps arbitrary: s)
  case (Cons p ps)
  let ?step = "\<lambda>p. if Some p = origin then return () else visit n p (Some i)"
  obtain s1 r1 where s1: "?step p s = Some (s1, r1)" using Cons.prems(1)
    by (auto simp: mbind_def split: option.splits)
  have "r1 = Inr () \<and> touched s s1"
    using s1 assms(1) [of p s s1 r1] Cons.prems(2-4) visit_floods [of n p "Some i" s s1 r1]
    by (auto simp: return_def floods_def informed_def split: if_splits)
  with s1 Cons show ?case
    using calm_touched touched_mono by (auto simp: mbind_def)
qed (simp add: return_def)

lemma visit_calm:
  "visit n i origin s = Some (s', r) \<Longrightarrow> informed origin s \<Longrightarrow> calm N s \<Longrightarrow> i \<in> N \<Longrightarrow> r = Inr ()"
proof (induction n arbitrary: i origin s s' r)
  case (Suc n)
  show ?case
  proof (cases "seen (s i)")
    case True
    with Suc.prems(1) show ?thesis by (simp add: mbind_def on_node_eq mark_seen return_def)
  next
    case new: False
    obtain x1 where x1: "mark (s i) = Some (x1, Inr True)" "admit x1 = Some (after (s i), snd (handled (s i)))"
      using handled_new(3) [OF new] by blast
    obtain ok where ok: "snd (handled (s i)) = Inr ok"
      using Suc.prems(3,4) new by (cases "snd (handled (s i))") (auto simp: calm_def)
    let ?s2 = "s(i := after (s i))"
    have t2: "touched s ?s2" using new by (simp add: touched_def)
    show ?thesis
    proof (cases ok)
      case False
      with Suc.prems(1) x1 ok show ?thesis by (simp add: mbind_def on_node_eq return_def)
    next
      case True
      have run: "for_each (\<lambda>p. if Some p = origin then return () else visit n p (Some i)) (g_peers (s i)) ?s2 = Some (s', r)"
        using Suc.prems(1) x1 ok True handled_new(2) [OF new] by (simp add: mbind_def on_node_eq eval_def)
      show ?thesis
        by (rule loop_calm [OF Suc.IH run calm_touched [OF t2 Suc.prems(3)]])
          (use Suc.prems(3,4) handled_new(1) [OF new] in \<open>auto simp: informed_def calm_def\<close>)
    qed
  qed
qed simp

end

section \<open>Transactions and blocks flood\<close>

lemma if_valid_eq:
  "if_valid m x = (case m x of
     None \<Rightarrow> None
   | Some (x', Inl e) \<Rightarrow> if is_validation e then Some (x', Inr False) else Some (x', Inl e)
   | Some (x', Inr u) \<Rightarrow> Some (x', Inr True))"
  by (auto simp: if_valid_def attempt_def mbind_def return_def split: option.splits sum.splits prod.splits)

text \<open>Admitting changes neither the peers nor the record of what was seen.\<close>

lemma admit_tx_keeps:
  "\<exists>m r. admit_tx E tx x = Some (x\<lparr>g_pool := m\<rparr>, r)"
proof (cases "mempool_add E tx (g_chain x) (g_pool x)")
  case (Inl e)
  then show ?thesis by (intro exI [of _ "g_pool x"]) (simp add: admit_tx_def if_valid_eq g_add_def)
next
  case (Inr nm)
  then show ?thesis by (cases nm) (auto simp: admit_tx_def if_valid_eq g_add_def)
qed

lemma admit_block_keeps:
  "\<exists>c m r. admit_block E b x = Some (x\<lparr>g_chain := c, g_pool := m\<rparr>, r)"
proof (cases "submit_block E (pos_hooks E) (g_chain x) b")
  case (Inl e)
  then show ?thesis
    by (intro exI [of _ "g_chain x"] exI [of _ "g_pool x"])
      (cases "is_validation e", simp_all add: admit_block_def if_valid_eq g_submit_def mbind_def return_def)
next
  case (Inr c)
  then show ?thesis
    by (intro exI [of _ c] exI [of _ "case mempool_update E c (g_pool x) of Inl e \<Rightarrow> g_pool x | Inr m \<Rightarrow> m"])
      (simp add: admit_block_def if_valid_eq g_submit_def g_update_def mbind_def return_def split: sum.split)
qed

interpretation tx_flood: flooding "mark_tx k" "admit_tx E tx" "\<lambda>x. k \<in> set (g_seen_tx x)"
proof
  fix x
  show "\<exists>x' r. admit_tx E tx x = Some (x', r) \<and> (k \<in> set (g_seen_tx x')) = (k \<in> set (g_seen_tx x)) \<and> g_peers x' = g_peers x"
    using admit_tx_keeps [of E tx x] by force
qed (auto simp: mark_tx_def)

interpretation block_flood: flooding "mark_block k" "admit_block E b" "\<lambda>x. k \<in> set (g_seen_block x)"
proof
  fix x
  show "\<exists>x' r. admit_block E b x = Some (x', r) \<and> (k \<in> set (g_seen_block x')) = (k \<in> set (g_seen_block x)) \<and> g_peers x' = g_peers x"
    using admit_block_keeps [of E b x] by force
qed (auto simp: mark_block_def)

end
