(* ===== verification/Gossip_Rules.thy ===== *)
theory Gossip_Rules
  imports Gossip
begin

text \<open>
  What flooding gives the mesh of \<open>Gossip\<close>: gossip ends, a transaction reaches every pool that takes
  it, a block brings nodes that agreed to agree again, and a late joiner catches up.
\<close>

section \<open>Gossip ends\<close>

definition closed_mesh :: "nat set \<Rightarrow> mesh \<Rightarrow> bool" where
  "closed_mesh N s \<longleftrightarrow> finite N \<and> (\<forall>j \<in> N. set (g_peers (s j)) \<subseteq> N)"

lemma recv_tx_total:
  assumes "closed_mesh N s" "i \<in> N" "card N < n"
  shows "\<exists>s' r. recv_tx n E data i None s = Some (s', r)"
proof (cases "decode_tx data")
  case (Inl e)
  then show ?thesis using assms(3) by (cases n) (simp_all add: mbind_def eval_def)
next
  case (Inr tx)
  have "card (tx_flood.unseen (txid E tx) N s) \<le> card N"
    using assms(1) by (intro card_mono) (auto simp: tx_flood.unseen_def closed_mesh_def)
  with assms show ?thesis
    by (simp add: recv_tx_relay [OF Inr])
      (intro tx_flood.visit_total [where N = N and k = "txid E tx"]; auto simp: closed_mesh_def tx_flood.informed_def)
qed

lemma recv_block_total:
  assumes "closed_mesh N s" "i \<in> N" "card N < n"
  shows "\<exists>s' r. recv_block n E data i None s = Some (s', r)"
proof (cases "decode_block E data")
  case (Inl e)
  then show ?thesis using assms(3) by (cases n) (simp_all add: mbind_def eval_def)
next
  case (Inr b)
  have "card (block_flood.unseen (block_hash E b) N s) \<le> card N"
    using assms(1) by (intro card_mono) (auto simp: block_flood.unseen_def closed_mesh_def)
  with assms show ?thesis
    by (simp add: recv_block_relay [OF Inr])
      (intro block_flood.visit_total [where N = N and k = "block_hash E b"]; auto simp: closed_mesh_def block_flood.informed_def)
qed

lemma ingest_total:
  assumes "closed_mesh N s" "i \<in> N" "card N < n"
  shows "\<exists>s' r. ingest n E line i s = Some (s', r)"
proof -
  have total: "\<exists>s' r. attempt (\<lambda>e. if handler_catches e then Some (return ()) else None) m s = Some (s', r)"
    if "\<exists>s' r. m s = Some (s', r)" for m :: "(mesh, unit) proc"
    using that by (auto simp: attempt_def return_def split: sum.split)
  have data: "\<exists>s' r. mbind (eval (\<lambda>s. jfield d ''data'')) f s = Some (s', r)"
    if "\<And>v. \<exists>s' r. f v s = Some (s', r)" for d and f :: "pyval \<Rightarrow> (mesh, unit) proc"
    using that by (cases "jfield d ''data''") (auto simp: mbind_def eval_def)
  show ?thesis
    unfolding ingest_def
    by (rule total)
      (auto simp: return_def throw_def split: option.split sum.split pyval.split
        intro!: data recv_tx_total [OF assms] recv_block_total [OF assms])
qed

section \<open>A transaction reaches every pool that takes it\<close>

lemma tx_handled:
  assumes "txid E tx \<notin> set (g_seen_tx x)" "mempool_add E tx (g_chain x) (g_pool x) = Inr (new, m)"
  shows "tx_flood.handled (txid E tx) E tx x =
    (x\<lparr>g_seen_tx := txid E tx # g_seen_tx x, g_pool := m\<rparr>, Inr True)"
  using assms unfolding tx_flood.handled_def unfolding mbind_def mark_tx_def admit_tx_def if_valid_eq g_add_def
  by simp

definition takes_tx :: "env \<Rightarrow> transaction \<Rightarrow> gossip_node \<Rightarrow> bool" where
  "takes_tx E tx x \<longleftrightarrow> (\<exists>new m. mempool_add E tx (g_chain x) (g_pool x) = Inr (new, m))"

lemma broadcast_tx_reaches:
  assumes run: "broadcast_tx n E tx i s = Some (s', Inr ())"
    and fresh: "\<forall>j. txid E tx \<notin> set (g_seen_tx (s j))"
    and path: "(i, j) \<in> {(a, b). takes_tx E tx (s a) \<and> b \<in> set (g_peers (s a))}\<^sup>*"
    and j: "mempool_add E tx (g_chain (s j)) (g_pool (s j)) = Inr (new, m)"
  shows "s' j = (s j)\<lparr>g_seen_tx := txid E tx # g_seen_tx (s j), g_pool := m\<rparr>"
proof -
  let ?k = "txid E tx"
  have v: "relay (mark_tx ?k) (admit_tx E tx) n i None s = Some (s', Inr ())"
    using run by (simp add: broadcast_tx_def recv_tx_relay [OF decode_encode_tx])
  have "{(a, b). takes_tx E tx (s a) \<and> b \<in> set (g_peers (s a))} \<subseteq>
      {(a, b). \<not> ?k \<in> set (g_seen_tx (s a)) \<and> snd (tx_flood.handled ?k E tx (s a)) = Inr True \<and> b \<in> set (g_peers (s a))}"
    using fresh tx_handled by (fastforce simp: takes_tx_def)
  with path have "(i, j) \<in> {(a, b). \<not> ?k \<in> set (g_seen_tx (s a)) \<and> snd (tx_flood.handled ?k E tx (s a)) = Inr True \<and> b \<in> set (g_peers (s a))}\<^sup>*"
    using rtrancl_mono by blast
  from tx_flood.flood_reaches [OF v this] have "?k \<in> set (g_seen_tx (s' j))" .
  moreover have "tx_flood.touched ?k E tx s s'"
    using tx_flood.visit_floods [OF v] by (simp add: tx_flood.floods_def tx_flood.informed_def)
  ultimately have "s' j = fst (tx_flood.handled ?k E tx (s j))"
    using fresh unfolding tx_flood.touched_def by (elim allE [of _ j]) auto
  then show ?thesis using tx_handled [OF _ j] fresh by simp
qed

lemma tx_handled_isl:
  assumes "txid E tx \<notin> set (g_seen_tx x)" "\<And>e. mempool_add E tx (g_chain x) (g_pool x) = Inl e \<Longrightarrow> is_validation e"
  shows "\<not> isl (snd (tx_flood.handled (txid E tx) E tx x))"
  using assms unfolding tx_flood.handled_def unfolding mbind_def mark_tx_def admit_tx_def if_valid_eq g_add_def
  by (cases "mempool_add E tx (g_chain x) (g_pool x)") auto

lemma broadcast_tx_returns:
  assumes N: "closed_mesh N s" "i \<in> N" "card N < n"
    and fresh: "\<forall>j \<in> N. txid E tx \<notin> set (g_seen_tx (s j))"
    and calm: "\<forall>j \<in> N. \<forall>e. mempool_add E tx (g_chain (s j)) (g_pool (s j)) = Inl e \<longrightarrow> is_validation e"
  shows "\<exists>s'. broadcast_tx n E tx i s = Some (s', Inr ())"
proof -
  obtain s' r where run: "recv_tx n E (encode_tx tx) i None s = Some (s', r)"
    using recv_tx_total [OF N] by blast
  have "tx_flood.calm (txid E tx) E tx N s"
    using N(1) fresh calm tx_handled_isl unfolding tx_flood.calm_def closed_mesh_def by blast
  from tx_flood.visit_calm [OF run [unfolded recv_tx_relay [OF decode_encode_tx]] _ this N(2)]
  have "r = Inr ()" by (simp add: tx_flood.informed_def)
  with run show ?thesis by (simp add: broadcast_tx_def)
qed

section \<open>A block makes agreeing nodes agree again\<close>

lemma block_handled:
  assumes "block_hash E b \<notin> set (g_seen_block x)" "submit_block E (pos_hooks E) (g_chain x) b = Inr c'"
    and "pool_ok E (g_pool x)"
  shows "\<exists>m. block_flood.handled (block_hash E b) E b x =
    (x\<lparr>g_seen_block := block_hash E b # g_seen_block x, g_chain := c', g_pool := m\<rparr>, Inr True)"
  using assms mempool_update_eq [OF assms(3), of c']
  unfolding block_flood.handled_def unfolding mbind_def mark_block_def admit_block_def if_valid_eq g_submit_def
    g_update_def return_def
  by auto

text \<open>What is left of a production once the producer's own node is updated: its peers are visited.\<close>

definition produced_mesh :: "env \<Rightarrow> mesh \<Rightarrow> nat \<Rightarrow> pos_chain \<Rightarrow> mempool \<Rightarrow> mesh" where
  "produced_mesh E s i c' m = s(i := (s i)\<lparr>g_chain := c',
     g_seen_block := block_hash E (head c') # g_seen_block (s i), g_pool := m\<rparr>)"

lemma added_block:
  assumes "pos_add_block E c txs w ts non k = Inr c'"
  shows "submit_block E (pos_hooks E) c (head c') = Inr c'"
proof -
  obtain b where b: "submit_block E (pos_hooks E) c b = Inr c'"
    using assms by (auto simp: pos_add_block_def rbind_eq_Inr)
  then have "head c' = b" using pos.submit_block_chain by (auto simp: head_def)
  with b show ?thesis by simp
qed

lemma g_produce_eq:
  assumes "pos_add_block E (g_chain (s i)) (select (g_pool (s i)) (g_chain (s i)) (unbonding_blocks (g_chain (s i))) MAX_TXS_PER_BLOCK)
      w ts (PInt 0) k = Inr c'"
    and "pool_ok E (g_pool (s i))" "block_hash E (head c') \<notin> set (g_seen_block (s i))"
  shows "\<exists>m. g_produce n E w ts k i s =
    mbind (for_each (\<lambda>p. if Some p = None then return () else
        relay (mark_block (block_hash E (head c'))) (admit_block E (head c')) n p (Some i)) (g_peers (s i)))
      (\<lambda>_. return (head c')) (produced_mesh E s i c' m)"
proof -
  obtain m where m: "mempool_update E c' (g_pool (s i)) = Inr m" using mempool_update_eq [OF assms(2)] by blast
  show ?thesis
    using assms(1,3) m
    by (intro exI [of _ m])
      (simp add: g_produce_def mbind_def [of "eval _"] mbind_def [of "on_node _ _"] eval_def Let_def on_node_eq assign_def
        mark_block_def g_update_def produced_mesh_def recv_block_relay [OF accepted_decodes [OF added_block [OF assms(1)]]])
qed

lemma produced_mesh_other [simp]:
  "a \<noteq> i \<Longrightarrow> produced_mesh E s i c' m a = s a"
  "g_peers (produced_mesh E s i c' m a) = g_peers (s a)"
  "g_chain (produced_mesh E s i c' m i) = c'"
  "block_hash E (head c') \<in> set (g_seen_block (produced_mesh E s i c' m i))"
  by (simp_all add: produced_mesh_def)

lemma produced_handled:
  assumes "submit_block E (pos_hooks E) c (head c') = Inr c'" "a \<noteq> i"
    and "g_chain (s a) = c" "pool_ok E (g_pool (s a))" "block_hash E (head c') \<notin> set (g_seen_block (s a))"
  shows "\<exists>m'. block_flood.handled (block_hash E (head c')) E (head c') (produced_mesh E s i c' m a) =
    ((s a)\<lparr>g_seen_block := block_hash E (head c') # g_seen_block (s a), g_chain := c', g_pool := m'\<rparr>, Inr True)"
  using block_handled [of E "head c'" "s a" c'] assms by simp

lemma g_produce_returns:
  assumes N: "closed_mesh N s" "i \<in> N" "card N \<le> n"
    and add: "pos_add_block E c (select (g_pool (s i)) c (unbonding_blocks c) MAX_TXS_PER_BLOCK) w ts (PInt 0) k = Inr c'"
    and same: "\<And>j. j \<in> N \<Longrightarrow> g_chain (s j) = c \<and> pool_ok E (g_pool (s j)) \<and> block_hash E (head c') \<notin> set (g_seen_block (s j))"
  shows "\<exists>s'. g_produce n E w ts k i s = Some (s', Inr (head c'))"
proof -
  let ?b = "head c'"
  have "pos_add_block E (g_chain (s i)) (select (g_pool (s i)) (g_chain (s i)) (unbonding_blocks (g_chain (s i))) MAX_TXS_PER_BLOCK)
      w ts (PInt 0) k = Inr c'"
    using add same [OF N(2)] by simp
  then obtain m where eq: "g_produce n E w ts k i s =
      mbind (for_each (\<lambda>p. if Some p = None then return () else
        relay (mark_block (block_hash E ?b)) (admit_block E ?b) n p (Some i)) (g_peers (s i)))
      (\<lambda>_. return ?b) (produced_mesh E s i c' m)"
    using g_produce_eq same [OF N(2)] by blast
  let ?s2 = "produced_mesh E s i c' m"
  have fin: "finite N" and peers: "\<forall>j \<in> N. set (g_peers (?s2 j)) \<subseteq> N" using N(1) by (simp_all add: closed_mesh_def)
  have "block_flood.unseen (block_hash E ?b) N ?s2 \<subseteq> N - {i}"
    by (auto simp: block_flood.unseen_def)
  from card_mono [OF _ this] have less: "card (block_flood.unseen (block_hash E ?b) N ?s2) < n"
    using fin N(2,3) card_Suc_Diff1 [OF fin N(2)] by simp
  have ps: "set (g_peers (s i)) \<subseteq> N" using N by (simp add: closed_mesh_def)
  have "\<exists>s' r. for_each (\<lambda>p. if Some p = None then return () else
        relay (mark_block (block_hash E ?b)) (admit_block E ?b) n p (Some i)) (g_peers (s i)) ?s2 = Some (s', r)"
    by (rule block_flood.loop_total [OF fin _ peers less _ ps], rule block_flood.visit_total [OF fin])
      (auto simp: block_flood.informed_def)
  then obtain s' r where run: "for_each (\<lambda>p. if Some p = None then return () else
        relay (mark_block (block_hash E ?b)) (admit_block E ?b) n p (Some i)) (g_peers (s i)) ?s2 = Some (s', r)"
    by blast
  have "block_flood.calm (block_hash E ?b) E ?b N ?s2"
    unfolding block_flood.calm_def
  proof (intro ballI conjI impI)
    fix j assume j: "j \<in> N"
    then show "set (g_peers (?s2 j)) \<subseteq> N" using peers by blast
    assume "block_hash E ?b \<notin> set (g_seen_block (?s2 j))"
    then have "j \<noteq> i" by auto
    from produced_handled [OF added_block [OF add] this, of s m] same [OF j]
    show "\<not> isl (snd (block_flood.handled (block_hash E ?b) E ?b (?s2 j)))" by force
  qed
  from block_flood.loop_calm [OF block_flood.visit_calm run this] ps
  have "r = Inr ()" by (auto simp: block_flood.informed_def)
  with run eq show ?thesis by (simp add: mbind_def return_def)
qed

lemma g_produce_agree:
  assumes run: "g_produce n E w ts k i s = Some (s', Inr b)"
    and add: "pos_add_block E c (select (g_pool (s i)) c (unbonding_blocks c) MAX_TXS_PER_BLOCK) w ts (PInt 0) k = Inr c'"
    and same: "\<And>j. (i, j) \<in> {(a, b). b \<in> set (g_peers (s a))}\<^sup>* \<Longrightarrow>
      g_chain (s j) = c \<and> pool_ok E (g_pool (s j)) \<and> block_hash E (head c') \<notin> set (g_seen_block (s j))"
    and j: "(i, j) \<in> {(a, b). b \<in> set (g_peers (s a))}\<^sup>*"
  shows "g_chain (s' j) = c'"
proof -
  let ?h = "block_hash E (head c')" and ?P = "{(a, b). b \<in> set (g_peers (s a))}"
  have i: "g_chain (s i) = c" "pool_ok E (g_pool (s i))" "?h \<notin> set (g_seen_block (s i))" using same [of i] by auto
  note sub = added_block [OF add]
  obtain m where eq: "g_produce n E w ts k i s =
      mbind (for_each (\<lambda>p. if Some p = None then return () else
        relay (mark_block ?h) (admit_block E (head c')) n p (Some i)) (g_peers (s i)))
      (\<lambda>_. return (head c')) (produced_mesh E s i c' m)"
    using g_produce_eq [of E s i w ts k c' n] add i by auto
  let ?s2 = "produced_mesh E s i c' m"
  have loop: "for_each (\<lambda>p. if Some p = None then return () else relay (mark_block ?h) (admit_block E (head c')) n p (Some i))
      (g_peers (s i)) ?s2 = Some (s', Inr ())"
    using run eq by (auto simp: mbind_def return_def split: option.splits sum.splits prod.splits)
  from block_flood.loop_floods [OF _ loop] have fl:
    "block_flood.touched ?h E (head c') ?s2 s'" "block_flood.passed ?h E (head c') ?s2 s'"
    "\<forall>p \<in> set (g_peers (s i)). ?h \<in> set (g_seen_block (s' p))"
    using block_flood.visit_floods by (auto simp: block_flood.informed_def)
  note handled = produced_handled [OF sub, where s = s and m = m and i = i]
  have seen: "?h \<in> set (g_seen_block (s' j))" using j
  proof (induction rule: rtrancl_induct)
    case base
    show ?case by (rule block_flood.touched_mono [OF fl(1)]) simp
  next
    case (step a a')
    show ?case
    proof (cases "a = i")
      case True
      with step(2) fl(3) show ?thesis by simp
    next
      case False
      then show ?thesis
        using fl(2) [unfolded block_flood.passed_def, rule_format, of a a'] step handled [OF False] same [OF step(1)]
        by auto
    qed
  qed
  show ?thesis
  proof (cases "j = i")
    case True
    then show ?thesis using block_flood.touched_seen [OF fl(1), of i] by simp
  next
    case False
    with seen fl(1) same [OF j] have "s' j = fst (block_flood.handled ?h E (head c') (?s2 j))"
      unfolding block_flood.touched_def by (elim allE [of _ j]) auto
    with handled [OF False] same [OF j] show ?thesis by force
  qed
qed

section \<open>A late joiner catches up\<close>

lemma py_lt_int_index: "int_index u \<Longrightarrow> int_index v \<Longrightarrow> py_lt u v = Inr (the_int u < the_int v)"
  by (auto simp: int_index_def)

lemma rbind_Inr_right: "rbind r Inr = r"
  by (cases r) simp_all

lemma blocks_after_old:
  "int_index h \<Longrightarrow> list_all (\<lambda>b. int_index (index b) \<and> the_int (index b) \<le> the_int h) old \<Longrightarrow>
   blocks_after h (old @ bs) = blocks_after h bs"
  by (induction old) (auto simp: py_lt_int_index rbind_Inr_right)

lemma blocks_after_new:
  "int_index h \<Longrightarrow> list_all (\<lambda>b. int_index (index b) \<and> the_int h < the_int (index b)) bs \<Longrightarrow>
   blocks_after h bs = Inr (map encode_block bs)"
  by (induction bs) (auto simp: py_lt_int_index)

lemma sync_loop_all:
  "submit_all E (g_chain x) bs = Inr c' \<Longrightarrow> heights_ok (chain (g_chain x)) \<Longrightarrow>
   \<exists>seen. sync_loop E (map encode_block bs) n x = Some (x\<lparr>g_chain := c', g_seen_block := seen\<rparr>, Inr (n + length bs))"
proof (induction bs arbitrary: x n)
  case Nil
  then show ?case by (intro exI [of _ "g_seen_block x"]) (simp add: return_def)
next
  case (Cons b bs)
  then obtain c1 where c1: "submit_block E (pos_hooks E) (g_chain x) b = Inr c1" "submit_all E c1 bs = Inr c'"
    by (auto simp: rbind_eq_Inr)
  note h = submit_block_heights [OF c1(1) Cons.prems(2)] heights_ok_last [OF Cons.prems(2), folded head_def]
  let ?x = "x\<lparr>g_chain := c1, g_seen_block := List.insert (block_hash E b) (g_seen_block x)\<rparr>"
  obtain seen where "sync_loop E (map encode_block bs) (n + 1) ?x =
      Some (?x\<lparr>g_chain := c', g_seen_block := seen\<rparr>, Inr (n + 1 + length bs))"
    using Cons.IH [of ?x "n + 1"] c1(2) h(1) by auto
  then show ?case
    using c1(1) h py_lt_int_index [of "index (head (g_chain x))" "index b"] accepted_decodes [OF c1(1)]
    by (auto simp: mbind_def eval_def g_submit_def mark_block_def)
qed

lemma reaches_heights: "reaches E (pos_hooks E) c c' \<Longrightarrow> heights_ok (chain c) \<Longrightarrow> heights_ok (chain c')"
  by (induction rule: reaches.induct) (auto dest: submit_block_heights(1))

lemma blocks_after_head:
  assumes "heights_ok ch" "heights_ok (ch @ bs)"
  shows "blocks_after (index (last ch)) (ch @ bs) = Inr (map encode_block bs)"
proof -
  have head: "int_index (index (last ch))" "the_int (index (last ch)) = int (length ch) - 1"
    using heights_ok_last [OF assms(1)] by simp_all
  have "list_all (\<lambda>b. int_index (index b) \<and> the_int (index b) \<le> the_int (index (last ch))) ch"
    using assms(1) head(2) by (auto simp: heights_ok_def list_all_length)
  moreover have "list_all (\<lambda>b. int_index (index b) \<and> the_int (index (last ch)) < the_int (index b)) bs"
    unfolding list_all_length
  proof (intro allI impI)
    fix n assume "n < length bs"
    then show "int_index (index (bs ! n)) \<and> the_int (index (last ch)) < the_int (index (bs ! n))"
      using assms(2) head(2) unfolding heights_ok_def
      by (elim conjE allE [of _ "length ch + n"]) simp
  qed
  ultimately show ?thesis using blocks_after_old [OF head(1)] blocks_after_new [OF head(1)] by simp
qed

lemma sync_from_catches_up:
  assumes "pos_reachable E g (g_chain (s i))" "reaches E (pos_hooks E) (g_chain (s i)) (g_chain (s j))"
    and "pool_ok E (g_pool (s i))"
  shows "\<exists>s'. sync_from E i j s = Some (s', Inr (length (chain (g_chain (s j))) - length (chain (g_chain (s i))))) \<and>
    g_chain (s' i) = g_chain (s j) \<and> (\<forall>k. k \<noteq> i \<longrightarrow> s' k = s k)"
proof -
  let ?c = "g_chain (s i)" and ?c' = "g_chain (s j)"
  obtain bs where bs: "submit_all E ?c bs = Inr ?c'" "chain ?c' = chain ?c @ bs"
    using reaches_blocks [OF assms(2)] by blast
  have h: "heights_ok (chain ?c)" "heights_ok (chain ?c @ bs)"
    using reachable_heights [OF assms(1)] reaches_heights [OF assms(2)] bs(2) by auto
  obtain seen where loop: "sync_loop E (map encode_block bs) 0 (s i) =
      Some ((s i)\<lparr>g_chain := ?c', g_seen_block := seen\<rparr>, Inr (0 + length bs))"
    using sync_loop_all [OF bs(1) h(1), of 0] by blast
  obtain m where m: "mempool_update E ?c' (g_pool (s i)) = Inr m" using mempool_update_eq [OF assms(3)] by blast
  have "sync_from E i j s = Some (s(i := (s i)\<lparr>g_chain := ?c', g_seen_block := seen, g_pool := m\<rparr>), Inr (length bs))"
    using blocks_after_head [OF h] loop m
    by (simp add: sync_from_def head_def bs(2) mbind_def eval_def on_node_eq g_update_def return_def)
  then show ?thesis by (simp add: bs(2))
qed

end
