(* ===== verification/Messages.thy ===== *)
theory Messages
  imports Gossip
begin

text \<open>
  Messages as bytes: the line \<open>network.tcp_send\<close> writes, and that both handlers that read such a line,
  of \<open>p2p.py\<close> and of \<open>network.py\<close>, get the message that was sent.
\<close>

section \<open>UTF-8 reads back\<close>

lemma utf8_decode_char:
  assumes "n < 256"
  shows "utf8_decode (utf8_char n @ bs) = map_option (Cons (char_of n)) (utf8_decode bs)"
proof (cases "n < 128")
  case True
  then have "unat (of_nat n :: byte) = n" by (simp add: unat_of_nat)
  with True show ?thesis by simp
next
  case False
  have q: "n div 64 = 2 \<or> n div 64 = 3" using False assms by auto
  have m: "n mod 64 < 64" by simp
  have "unat (of_nat (192 + n div 64) :: byte) = 192 + n div 64" "unat (of_nat (128 + n mod 64) :: byte) = 128 + n mod 64"
    using q m by (simp_all only: unat_of_nat) auto
  moreover have "n div 64 * 64 + n mod 64 = n" by simp
  ultimately show ?thesis using False q m by (auto simp del: of_nat_add)
qed

lemma utf8_decode_encode [simp]: "utf8_decode (utf8_encode s) = Some s"
  by (induction s) (simp_all add: utf8_encode_def utf8_decode_char del: utf8_char.simps utf8_decode.simps(2))

lemma utf8_encode_append: "utf8_encode (s @ t) = utf8_encode s @ utf8_encode t"
  by (simp add: utf8_encode_def)

section \<open>Lines\<close>

text \<open>\<open>(json.dumps(msg) + "\n").encode()\<close>\<close>

definition wire_line :: "env \<Rightarrow> pyval \<Rightarrow> bytes" where
  "wire_line E msg = utf8_encode (json_default E False msg @ [newline])"

lemma wire_line_ends: "wire_line E msg \<noteq> []" "last (wire_line E msg) = 10"
  by (simp_all add: wire_line_def utf8_encode_append) (simp_all add: utf8_encode_def)

text \<open>White space around a value is skipped, and the stack is enough for its brackets.\<close>

lemma json_within_line:
  assumes "jsonable E v" "nesting v \<le> json_room E"
  shows "json_within E (json_default E False v @ [newline]) = Inr v"
  using json_scan_print [of "'' ''" "float_hook E" E v "json_room E" "[newline]" False] assms
  by (simp add: json_within_def json_default_print in_order_id json_space_def)

lemma line_text: "utf8_decode (wire_line E msg) = Some (json_default E False msg @ [newline])"
  by (simp add: wire_line_def)

lemma handle_wire_line:
  assumes "jsonable E (PDict d)" "nesting (PDict d) \<le> json_room E"
    and "length (wire_line E (PDict d)) \<le> MAX_MSG_BYTES"
  shows "handle E up ip (wire_line E (PDict d)) =
    attempt (\<lambda>e. if handler_catches e then Some (return ()) else None) (on_message E up (Some ip) d)"
  using assms(3) wire_line_ends [of E "PDict d"] json_within_line [OF assms(1,2)]
  by (simp add: handle_def line_text del: utf8_decode.simps json_default.simps)

text \<open>A line of more opening brackets than the stack has room for.\<close>

lemma handle_deep_line:
  assumes "json_room E < m" "m < MAX_MSG_BYTES"
  shows "handle E up ip (utf8_encode (replicate m (CHR ''['') @ [newline])) s =
    Some (s, Inl (RecursionError ''maximum recursion depth exceeded''))"
proof -
  let ?t = "replicate m (CHR ''['') @ [newline]"
  have "utf8_encode (replicate m (CHR ''['')) = replicate m 91" for m
    by (induction m) (simp_all add: utf8_encode_def)
  moreover have "utf8_encode [newline] = [10]" by (simp add: utf8_encode_def)
  ultimately have line: "utf8_encode ?t \<noteq> []" "length (utf8_encode ?t) = Suc m" "last (utf8_encode ?t) = 10"
    by (simp_all add: utf8_encode_append)
  have "skip_space ?t = ?t" using assms(1) by (cases m) (simp_all add: skip_space_def json_space_def)
  moreover have "scan_value (float_hook E) (json_room E) (2 * length ?t + 2) ?t = too_deep"
    using assms(1) by (intro scan_deep) simp_all
  ultimately have "json_within E ?t = too_deep" by (simp only: json_within_def json_scan_def Let_def rbind_simps)
  with line assms(2) show ?thesis by (simp add: handle_def attempt_def throw_def del: utf8_decode.simps)
qed

lemma mbind_eval_Inr [simp]: "mbind (eval (\<lambda>s. Inr x)) f = f x"
  by (rule ext) (simp add: mbind_def eval_def)

lemma ingest_wire_line:
  assumes "jsonable E data" "nesting data < json_room E"
    and "length (wire_line E (PDict [(''type'', PStr kind), (''data'', data)])) \<le> MAX_MSG_BYTES"
  shows "ingest n E (wire_line E (PDict [(''type'', PStr kind), (''data'', data)])) i =
    attempt (\<lambda>e. if handler_catches e then Some (return ()) else None)
      (if kind = ''tx'' then recv_tx n E data i None
       else if kind = ''block'' then recv_block n E data i None
       else return ())"
proof -
  have "jsonable E (PDict [(''type'', PStr kind), (''data'', data)])"
    "nesting (PDict [(''type'', PStr kind), (''data'', data)]) \<le> json_room E"
    using assms(1,2) by simp_all
  from json_within_line [OF this] show ?thesis
    using assms(3) wire_line_ends [of E]
    by (simp add: ingest_def line_text jfield_def del: utf8_decode.simps json_default.simps)
qed

end
