(* ===== verification/Node_Samples.thy ===== *)
theory Node_Samples
  imports Samples Restart Gossip_Rules Messages
begin

text \<open>
  A node of the sample world of \<open>Samples\<close>, for the witnesses about running nodes: it boots on a
  store with a genesis and no blocks, with Alice as its validator and one seed peer, and receives the
  sample block from that peer.
\<close>

definition fresh_store :: store where
  "fresh_store = \<lparr>genesis_file = Some (json_default toy True (genesis_payload sample_args)), blocks_file = None\<rparr>"

definition sample_service :: node_service where
  "sample_service = \<lparr>svc_store = fresh_store, svc_tree = sample_tree, svc_mempool = mempool_init,
     svc_validator = Some alice, svc_autoproduce = False\<rparr>"

definition sample_peer :: peer_node where
  "sample_peer = (peer_init sample_service ''a:1'')\<lparr>p_peers := [(''b'', 2)]\<rparr>"

abbreviation sample_msg :: "(string \<times> pyval) list" where
  "sample_msg \<equiv> [(''type'', PStr ''block''), (''data'', encode_block sample_block)]"

text \<open>The line a peer sends: the message as JSON, with a newline.\<close>

abbreviation sample_gossip :: bytes where
  "sample_gossip \<equiv> wire_line toy (PDict sample_msg)"

abbreviation sample_up :: network where
  "sample_up \<equiv> \<lambda>_. Reached"

definition sample_service1 :: node_service where
  "sample_service1 = sample_service\<lparr>svc_store := append_block toy sample_block fresh_store, svc_tree := sample_tree1\<rparr>"

definition sample_peer1 :: peer_node where
  "sample_peer1 = sample_peer\<lparr>p_service := sample_service1, p_seen_block := [''0a''],
     p_sent := [((''b'', 2), block_msg (encode_block sample_block))]\<rparr>"

lemma sample_service_init: "service_init toy fresh_store (Some alice) False (Some (''5d'', 1)) = Some (Inr sample_service)"
proof -
  obtain raw where "genesis_params fresh_store = Some (Inr raw)" "typed_args raw = Some sample_args"
    using sample_genesis_file [of fresh_store] by (auto simp: fresh_store_def)
  moreover have "iter_blocks toy fresh_store = []"
    by (simp add: iter_blocks_def committed_lines_def fresh_store_def)
  ultimately show ?thesis
    using sample_tree_init
    by (simp add: service_init_def sample_service_def)
qed

lemma sample_boots:
  "node_boots toy fresh_store (Some alice) (Some (''5d'', 1)) ''a:1'' [(''b'', 2)] sample_peer"
  unfolding node_boots_def
  by (intro exI [of _ sample_service] exI [of _ False] exI [of _ "Inr ()"] conjI sample_service_init)
    (simp add: mbind_def connect_def assign_def return_def peer_init_def sample_peer_def)

lemma sample_line_ends: "length sample_gossip \<le> MAX_MSG_BYTES"
proof -
  have "length sample_gossip < 2000" by code_simp
  then show ?thesis by (simp add: MAX_MSG_BYTES_def)
qed

lemma sample_msg_jsonable: "jsonable toy (PDict sample_msg)"
  using sample_jsonable by simp

lemma sample_msg_nesting: "nesting (PDict sample_msg) \<le> json_room toy"
proof -
  have "nesting (PDict sample_msg) < 10" by code_simp
  then show ?thesis by (simp add: toy_def)
qed

lemma sample_decode: "decode_block toy (encode_block sample_block) = Inr sample_block"
  by code_simp

lemma sample_wire_id: "block_wire_id toy sample_block = Inr ''0a''"
  by code_simp

lemma sample_pool_update: "mempool_update toy sample_chain mempool_init = Inr mempool_init"
  by code_simp

lemma sample_receive:
  "\<exists>v. receive_block toy (PDict [(''block'', encode_block sample_block)]) sample_service =
     Some (sample_service1, Inr v) \<and> accepted_reply v"
proof -
  have "param (PDict [(''block'', encode_block sample_block)]) ''block'' = Inr (encode_block sample_block)"
    by (simp add: jfield_def)
  moreover have "tree_add_block toy sample_block sample_service =
      Some (sample_service\<lparr>svc_tree := sample_tree1\<rparr>, Inr True)"
    by (simp add: tree_add_block_def within_def sample_service_def sample_tree_add)
  moreover have "canonical sample_tree1 = sample_chain" by (simp add: sample_tree1_def)
  ultimately show ?thesis
    by (simp add: receive_block_def mbind_def eval_def sample_decode store_append_def assign_def pool_update_def
        sample_service_def sample_service1_def svc_chain_def sample_pool_update)
qed

lemma sample_on_block: "on_block toy sample_up sample_msg sample_peer = Some (sample_peer1, Inr ())"
proof -
  let ?d = sample_msg
  let ?s = "sample_peer\<lparr>p_seen_block := [''0a'']\<rparr>"
  have data: "dget ?d ''data'' PNone = encode_block sample_block"
    by simp
  have new: "remember_block ''0a'' sample_peer = Some (?s, Inr True)"
    by (simp add: remember_block_def remember_def sample_peer_def peer_init_def SEEN_CAP_def)
  have known: "hash_key (previous_hash sample_block) = Inr (PStr ''9f'')" "in_tree (PStr ''9f'') ?s"
    by (simp_all add: sample_block_def in_tree_def sample_peer_def peer_init_def sample_service_def
        sample_tree_def dhas_def)
  obtain v where v: "receive_block toy (PDict [(''block'', encode_block sample_block)]) sample_service =
     Some (sample_service1, Inr v)" "accepted_reply v" using sample_receive by blast
  have recv: "try_receive toy (encode_block sample_block) ?s = Some (?s\<lparr>p_service := sample_service1\<rparr>, Inr True)"
    using v by (simp add: try_receive_def attempt_def mbind_def on_service_def within_def return_def
        sample_peer_def peer_init_def)
  have send: "broadcast sample_up (block_msg (encode_block sample_block)) (?s\<lparr>p_service := sample_service1\<rparr>) =
      Some (sample_peer1, Inr ())" "p_orphans sample_peer1 = []"
    by (simp_all add: broadcast_def mbind_def eval_def tcp_send_def return_def sample_peer1_def sample_peer_def peer_init_def)
  have drain: "drain_orphans toy sample_up h s = Some (s, Inr ())" if "p_orphans s = []" for h s
  proof -
    have "AList.delete (PStr h) (p_orphans s) = p_orphans s" "dget (p_orphans s) (PStr h) [] = []"
      by (simp_all add: that)
    then have "drain_loop (Suc n) toy sample_up h s = Some (s, Inr ())" for n
      by (simp add: mbind_def eval_def assign_def return_def that)
    from this [of 999] show ?thesis
      by (simp add: drain_orphans_def toy_def del: drain_loop.simps)
  qed
  have "apply_or_buffer toy sample_up sample_block (encode_block sample_block) ?s = Some (sample_peer1, Inr ())"
    using known drain [of sample_peer1]
    by (simp add: apply_or_buffer_def mbind_def eval_def recv send)
  then show ?thesis
    unfolding on_block_def data by (simp add: mbind_def eval_def sample_decode sample_wire_id new)
qed

lemma sample_message: "on_message toy sample_up ip sample_msg sample_peer = Some (sample_peer1, Inr ())"
  using sample_on_block by (simp add: on_message_def)

lemma sample_handle: "handle toy sample_up ''b'' sample_gossip sample_peer = Some (sample_peer1, Inr ())"
  by (simp add: handle_wire_line [OF sample_msg_jsonable sample_msg_nesting sample_line_ends] attempt_def sample_message)

lemma sample_run: "peer_runs toy sample_peer sample_peer1"
  by (rule run_step [OF run_start step_line [OF sample_handle]])

section \<open>Producing, and booting on a stored block\<close>

definition own_block :: block where
  "own_block = \<lparr>index = PInt 1, previous_hash = PStr ''9f'', timestamp = PInt 7, transactions = [],
     validator = PStr ''19r'', block_nonce = PInt 0, block_merkle_root = PStr ''00'',
     proposer_pubkey = PStr ''0101'', validator_sig = PStr ''0101''\<rparr>"

lemma own_block_seals: "seal_block toy (PStr ''9f'') (PInt 1) alice [] (PInt 7) (PInt 0) 0 = Inr own_block"
proof -
  have new: "new_block toy (PInt 1) (PStr ''9f'') (PInt 7) [] (PStr (address toy alice)) (PInt 0) (PStr []) (PStr []) (PStr []) =
      Inr (own_block\<lparr>proposer_pubkey := PStr [], validator_sig := PStr []\<rparr>)"
    by code_simp
  have "block_hash toy (own_block\<lparr>validator_sig := PStr []\<rparr>) = ''5d''" "public_key_hex toy alice = ''0101''"
    "fromhex_val (PStr ''5d'') = Inr [93]" "wallet_sign toy alice [93] 0 = Inr [1, 1]" "hex [1, 1] = ''0101''"
    by code_simp+
  then show ?thesis
    unfolding seal_block_def new rbind_simps Let_def by (simp add: own_block_def)
qed

lemma own_block_submit:
  "submit_block toy (pos_hooks toy) sample_genesis own_block = Inr (sample_genesis\<lparr>chain := [sample_genesis_block, own_block]\<rparr>)"
  by code_simp

lemma own_block_facts: "block_hash toy own_block = ''5d''" "known_parent sample_tree own_block = Inr ''9f''"
  "check_frontier sample_tree ''5d'' ''9f'' 1 = Some (Inr ())" "stake_of_val sample_genesis (validator own_block) = Inr 1000"
  by code_simp+

lemma own_block_added: "\<exists>t. add_block toy sample_tree own_block = Some (t, Inr True) \<and>
    canonical t = sample_genesis\<lparr>chain := [sample_genesis_block, own_block]\<rparr>"
proof -
  let ?c = "sample_genesis\<lparr>chain := [sample_genesis_block, own_block]\<rparr>"
  have fin: "finalized_checkpoint ?c = (''9f'', 0)"
    by (simp add: finalized_checkpoint_def sample_genesis_def sample_aux_def)
  show ?thesis
    using own_block_facts(2-4)
    by (simp add: add_block_def Let_def own_block_facts(1) validate_on_def own_block_submit store_block_def
        advance_finality_def fin)
      (simp add: sample_tree_def dhas_def dlookup_def own_block_facts(1) own_block_submit validate_on_def
        insert_block_def store_block_def advance_finality_def fin Let_def)
qed

lemma sample_head_facts: "head sample_genesis = sample_genesis_block" "index sample_genesis_block = PInt 0"
    "unbonding_blocks sample_genesis = 10"
  by (simp_all add: sample_genesis_def head_def sample_genesis_block_def)

lemma own_block_next: "next_block toy alice [] 7 0 sample_service = Inr own_block"
proof -
  have "select mempool_init sample_genesis 10 MAX_TXS_PER_BLOCK = []" by code_simp
  then show ?thesis
    using own_block_seals
    by (simp add: next_block_def Let_def sample_service_def svc_chain_def sample_tree_def sample_hashes sample_head_facts)
qed

lemma own_block_update:
  "mempool_update toy (sample_genesis\<lparr>chain := [sample_genesis_block, own_block]\<rparr>) mempool_init = Inr mempool_init"
  by code_simp

lemma sample_produce: "\<exists>svc v. produce_block toy [] 7 0 (p_service sample_peer) = Some (svc, Inr v)"
proof -
  have svc: "p_service sample_peer = sample_service" by (simp add: sample_peer_def peer_init_def)
  have turn: "is_our_turn toy sample_service = Inr True" "svc_validator sample_service = Some alice"
    by (simp_all add: is_our_turn_def sample_service_def svc_chain_def sample_tree_def sample_elect sample_addresses)
  obtain t where t: "add_block toy sample_tree own_block = Some (t, Inr True)"
    "canonical t = sample_genesis\<lparr>chain := [sample_genesis_block, own_block]\<rparr>"
    using own_block_added by blast
  have "tree_add_block toy own_block sample_service = Some (sample_service\<lparr>svc_tree := t\<rparr>, Inr True)"
    by (simp add: tree_add_block_def within_def sample_service_def t(1))
  with turn t(2) show ?thesis
    by (simp add: svc produce_block_def mbind_def eval_def own_block_next store_append_def assign_def return_def
        pool_update_def svc_chain_def own_block_update) (simp add: sample_service_def own_block_update return_def)
qed

definition stored_store :: store where
  "stored_store = append_block toy sample_block fresh_store"

definition stored_peer :: peer_node where
  "stored_peer = peer_init (sample_service\<lparr>svc_store := stored_store, svc_tree := sample_tree1\<rparr>) ''a:1''"

lemma stored_text: "block_text stored_store = block_lines toy [sample_block]"
  by (simp add: stored_store_def block_text_append) (simp add: fresh_store_def block_text_def)

lemma stored_reads:
  "list_all (\<lambda>b. decode_block toy (encode_block b) = Inr b \<and> jsonable toy (encode_block b)) [sample_block]"
  by (simp add: sample_decode sample_jsonable del: json_ok.simps)

lemma stored_boots:
  "node_boots toy stored_store (Some alice) (Some (''5d'', 1)) ''a:1'' [] stored_peer"
proof -
  obtain raw where "genesis_params stored_store = Some (Inr raw)" "typed_args raw = Some sample_args"
    using sample_genesis_file [of stored_store] by (auto simp: stored_store_def append_block_def fresh_store_def)
  moreover have "replay_blocks toy sample_tree (iter_blocks toy stored_store) = Some (Inr sample_tree1)"
    by (simp add: iter_block_text [OF sample_float_repr stored_text stored_reads] sample_tree_add)
  ultimately have "service_init toy stored_store (Some alice) False (Some (''5d'', 1)) =
      Some (Inr (sample_service\<lparr>svc_store := stored_store, svc_tree := sample_tree1\<rparr>))"
    using sample_tree_init
    by (simp add: service_init_def sample_service_def)
  then show ?thesis by (auto simp: node_boots_def stored_peer_def return_def)
qed

lemma block_lines_Nil_iff: "block_lines E bs = [] \<longleftrightarrow> bs = []"
  by (cases bs) (simp_all add: block_lines_def)

lemma sample_torn: "json_loads toy (CHR ''{'' # block_line toy sample_block) = None"
  by (rule torn_brace)

definition submit_text :: string where
  "submit_text = json_default toy False (PDict [(''method'', PStr ''submit_tx''),
     (''params'', PDict [(''tx'', encode_tx sample_tx)])])"

section \<open>A longer chain\<close>

text \<open>Three empty blocks more, so that the chain has two checkpoints to vote for.\<close>

definition idle_block :: "int \<Rightarrow> string \<Rightarrow> block" where
  "idle_block n prev = \<lparr>index = PInt n, previous_hash = PStr prev, timestamp = PInt 20, transactions = [],
     validator = PStr ''19r'', block_nonce = PInt 0, block_merkle_root = PStr ''00'',
     proposer_pubkey = PStr ''0101'', validator_sig = PStr ''0101''\<rparr>"

definition idle_aux :: "int \<Rightarrow> pos_aux" where
  "idle_aux n = sample_aux\<lparr>ffg_stake := [(''9f'', [(''19r'', 1000)]), (''5e'', [(''19r'', 1000)])],
     ffg_height := [(''9f'', 0), (''5e'', n)]\<rparr>"

definition sample_chain2 :: pos_chain where
  "sample_chain2 = sample_chain\<lparr>chain := [sample_genesis_block, sample_block, idle_block 2 ''5d''], pos := idle_aux 2\<rparr>"

definition sample_chain3 :: pos_chain where
  "sample_chain3 = sample_chain2\<lparr>chain := chain sample_chain2 @ [idle_block 3 ''5e'']\<rparr>"

definition sample_chain4 :: pos_chain where
  "sample_chain4 = sample_chain2\<lparr>chain := chain sample_chain3 @ [idle_block 4 ''5e''], pos := idle_aux 4\<rparr>"

lemma idle_submit:
  "submit_block toy (pos_hooks toy) sample_chain (idle_block 2 ''5d'') = Inr sample_chain2"
  "submit_block toy (pos_hooks toy) sample_chain2 (idle_block 3 ''5e'') = Inr sample_chain3"
  "submit_block toy (pos_hooks toy) sample_chain3 (idle_block 4 ''5e'') = Inr sample_chain4"
  by code_simp+

lemma sample_long_reachable: "pos_reachable toy sample_genesis sample_chain2"
  by (rule pos_reachable_step [OF sample_reachable idle_submit(1)])

lemma sample_long_reaches: "reaches toy (pos_hooks toy) sample_chain2 sample_chain4"
  by (rule reaches_step [OF reaches_step [OF reaches_start idle_submit(2)] idle_submit(3)])

text \<open>Alice votes for the checkpoint of height 2, which her stake alone justifies.\<close>

definition long_vote :: transaction where
  "long_vote = \<lparr>sender = PStr ''19r'', recipient = PStr VOTE_SENTINEL, amount = PInt 0, fee = PInt 3,
     nonce = PInt 1, public_key = PStr ''0101'', signature = PStr ''0101'',
     evidence = PStr (json_dumps toy (PDict [(''s'', PStr ''9f''), (''sh'', PInt 0), (''t'', PStr ''5e''), (''th'', PInt 2)]))\<rparr>"

definition vote_block :: block where
  "vote_block = (idle_block 3 ''5e'')\<lparr>transactions := [long_vote], block_merkle_root := PStr ''ae''\<rparr>"

definition vote_chain :: pos_chain where
  "vote_chain = sample_chain2\<lparr>balances := [(PStr ''19r'', 59999999998995), (PStr ''1EG'', 40000000000005)],
     nonces := [(PStr ''19r'', 2), (PStr ''1EG'', 0)], chain := chain sample_chain2 @ [vote_block],
     pos := (idle_aux 2)\<lparr>ffg_votes := [((''9f'', ''5e''), [''19r''])],
       ffg_seen_target := [((''19r'', 2), ''9f'', ''5e'')], justified := [''5e'', ''9f'']\<rparr>\<rparr>"

lemma vote_submit: "submit_block toy (pos_hooks toy) sample_chain2 vote_block = Inr vote_chain"
  by code_simp

definition sample_voter :: "pos_chain \<Rightarrow> int list \<Rightarrow> peer_node" where
  "sample_voter c voted =
     (peer_init \<lparr>svc_store = \<lparr>genesis_file = None, blocks_file = None\<rparr>, svc_tree = sample_tree\<lparr>canonical := c\<rparr>,
        svc_mempool = mempool_init, svc_validator = Some alice, svc_autoproduce = False\<rparr> ''a:1'')\<lparr>p_voted := voted\<rparr>"

lemma sample_voter_chain [simp]:
  "svc_chain (p_service (sample_voter c voted)) = c" "p_voted (sample_voter c voted) = voted"
  by (simp_all add: sample_voter_def svc_chain_def peer_init_def)

lemma sample_own_votes:
  "own_vote toy (sample_voter sample_chain2 []) = Some (alice, ''9f'', 0, ''5e'', 2)"
  "own_vote toy (sample_voter sample_chain4 [2]) = Some (alice, ''9f'', 0, ''5e'', 4)"
  by code_simp+

section \<open>A mesh of three nodes\<close>

text \<open>A line of three nodes with the same genesis, Alice producing at one end.\<close>

definition sample_mesh :: mesh where
  "sample_mesh j = \<lparr>g_chain = sample_genesis, g_pool = mempool_init,
     g_peers = (if j = 0 then [1] else if j = 1 then [0, 2] else if j = 2 then [1] else []),
     g_seen_tx = [], g_seen_block = []\<rparr>"

lemma sample_mesh_closed: "closed_mesh {0, 1, 2} sample_mesh"
  by (simp add: closed_mesh_def sample_mesh_def)

lemma sample_mesh_path: "(0, 2) \<in> {(a, b). b \<in> set (g_peers (sample_mesh a))}\<^sup>*"
proof -
  have "(0, 1) \<in> {(a, b). b \<in> set (g_peers (sample_mesh a))}" "(1, 2) \<in> {(a, b). b \<in> set (g_peers (sample_mesh a))}"
    by (simp_all add: sample_mesh_def)
  then show ?thesis by (rule converse_rtrancl_into_rtrancl [OF _ r_into_rtrancl])
qed

lemma sample_mesh_nodes [simp]:
  "g_chain (sample_mesh j) = sample_genesis" "g_pool (sample_mesh j) = mempool_init"
  "g_seen_tx (sample_mesh j) = []" "g_seen_block (sample_mesh j) = []"
  by (simp_all add: sample_mesh_def)

definition own_chain :: pos_chain where
  "own_chain = sample_genesis\<lparr>chain := [sample_genesis_block, own_block]\<rparr>"

lemma own_chain_added:
  "pos_add_block toy sample_genesis (select mempool_init sample_genesis (unbonding_blocks sample_genesis) MAX_TXS_PER_BLOCK)
     alice (PInt 7) (PInt 0) 0 = Inr own_chain"
proof -
  have "select mempool_init sample_genesis 10 MAX_TXS_PER_BLOCK = []" by code_simp
  then show ?thesis
    by (simp add: pos_add_block_def sample_head_facts sample_hashes own_block_seals own_block_submit own_chain_def)
qed

lemma sample_takes: "takes_tx toy sample_tx (sample_mesh j)"
  using sample_pool_add by (auto simp: takes_tx_def)

text \<open>A mesh in which a late joiner, 1, still has the genesis, and 0 has a block more.\<close>

definition late_mesh :: mesh where
  "late_mesh j = (g_init (if j = 0 then sample_chain else sample_genesis) mempool_init)"

end
