(* ===== verification/Keystore.thy ===== *)
theory Keystore
  imports Messages
begin

text \<open>
  The keystore of \<open>keystore.py\<close>: a secret encrypted under a key that scrypt derives from a passphrase,
  with its parts in base64, as a JSON file that is replaced in one step. The two primitives and the
  random bytes are arguments.

  Shown: base64 reads back; a keystore decrypts to its secret; while one is saved, a crash leaves at
  its path the old file or the whole new one.
\<close>

section \<open>Base64\<close>

definition b64_char :: "nat \<Rightarrow> char" where
  "b64_char k = char_of (if k < 26 then k + 65 else if k < 52 then k + 71 else if k < 62 then k - 4
     else if k = 62 then 43 else 47)"

text \<open>\<open>base64.b64encode(raw).decode()\<close>\<close>

fun b64 :: "bytes \<Rightarrow> string" where
  "b64 [] = []"
| "b64 [a] =
     [b64_char (unat a div 4), b64_char (unat a mod 4 * 16), CHR ''='', CHR ''='']"
| "b64 [a, b] =
     [b64_char (unat a div 4), b64_char (unat a mod 4 * 16 + unat b div 16), b64_char (unat b mod 16 * 4), CHR ''='']"
| "b64 (a # b # c # bs) =
     b64_char (unat a div 4) # b64_char (unat a mod 4 * 16 + unat b div 16) #
     b64_char (unat b mod 16 * 4 + unat c div 64) # b64_char (unat c mod 64) # b64 bs"

definition b64_value :: "byte \<Rightarrow> nat option" where
  "b64_value x =
     (let n = unat x
      in if 65 \<le> n \<and> n \<le> 90 then Some (n - 65)
         else if 97 \<le> n \<and> n \<le> 122 then Some (n - 71)
         else if 48 \<le> n \<and> n \<le> 57 then Some (n + 4)
         else if n = 43 then Some 62
         else if n = 47 then Some 63
         else None)"

text \<open>\<open>binascii.a2b_base64\<close> as \<open>b64decode\<close> calls it: characters outside the alphabet are skipped, the
  right padding ends the text. \<open>q\<close> counts the digits since the last whole group, \<open>l\<close> holds the bits
  left of the last digit, \<open>p\<close> the padding characters in a row; \<open>None\<close> is its \<open>ValueError\<close>.\<close>

fun a2b_base64 :: "nat \<Rightarrow> nat \<Rightarrow> nat \<Rightarrow> bytes \<Rightarrow> bytes option" where
  "a2b_base64 q l p [] = (if q = 0 then Some [] else None)"
| "a2b_base64 q l p (x # xs) =
     (if x = 61
      then if 2 \<le> q \<and> 4 \<le> q + (p + 1) then Some []
           else a2b_base64 q l (if 2 \<le> q then p + 1 else p) xs
      else case b64_value x of
        None \<Rightarrow> a2b_base64 q l p xs
      | Some v \<Rightarrow>
          (if q = 0 then a2b_base64 1 v 0 xs
           else if q = 1 then map_option (Cons (of_nat (l * 4 + v div 16))) (a2b_base64 2 (v mod 16) 0 xs)
           else if q = 2 then map_option (Cons (of_nat (l * 16 + v div 4))) (a2b_base64 3 (v mod 4) 0 xs)
           else map_option (Cons (of_nat (l * 64 + v))) (a2b_base64 0 0 0 xs)))"

definition unb64 :: "string \<Rightarrow> bytes option" where
  "unb64 s = a2b_base64 0 0 0 (utf8_encode s)"

subsection \<open>Base64 reads back\<close>

abbreviation ascii :: "char \<Rightarrow> byte" where
  "ascii c \<equiv> of_nat (of_char c)"

lemma b64_digit:
  assumes "k < 64"
  shows "utf8_char (of_char (b64_char k)) = [ascii (b64_char k)]" "b64_value (ascii (b64_char k)) = Some k"
    "ascii (b64_char k) \<noteq> 61"
proof -
  let ?n = "if k < 26 then k + 65 else if k < 52 then k + 71 else if k < 62 then k - 4 else if k = 62 then 43 else 47"
  have n: "of_char (b64_char k) = ?n" using assms by (simp add: b64_char_def)
  have "of_char (b64_char k) < (128 :: nat)" unfolding n using assms by auto
  then show "utf8_char (of_char (b64_char k)) = [ascii (b64_char k)]" by simp
  have u: "unat (ascii (b64_char k)) = ?n" unfolding n using assms by (simp add: unat_of_nat)
  show "b64_value (ascii (b64_char k)) = Some k"
    unfolding b64_value_def Let_def u using assms by auto
  show "ascii (b64_char k) \<noteq> 61"
  proof
    assume "ascii (b64_char k) = 61"
    then have "?n = unat (61 :: byte)" using u by simp
    then show False using assms by (simp split: if_splits)
  qed
qed

lemma utf8_encode_simps:
  "utf8_encode [] = []" "utf8_encode (CHR ''='' # s) = 61 # utf8_encode s"
  "k < 64 \<Longrightarrow> utf8_encode (b64_char k # s) = ascii (b64_char k) # utf8_encode s"
  by (simp_all add: utf8_encode_def b64_digit del: utf8_char.simps) simp

lemma a2b_digit:
  assumes "k < 64"
  shows "a2b_base64 0 l p (ascii (b64_char k) # xs) = a2b_base64 (Suc 0) k 0 xs"
    "a2b_base64 (Suc 0) l p (ascii (b64_char k) # xs) = map_option (Cons (of_nat (l * 4 + k div 16))) (a2b_base64 2 (k mod 16) 0 xs)"
    "a2b_base64 2 l p (ascii (b64_char k) # xs) = map_option (Cons (of_nat (l * 16 + k div 4))) (a2b_base64 3 (k mod 4) 0 xs)"
    "a2b_base64 3 l p (ascii (b64_char k) # xs) = map_option (Cons (of_nat (l * 64 + k))) (a2b_base64 0 0 0 xs)"
  using b64_digit [OF assms] by simp_all

lemma a2b_pad:
  "a2b_base64 2 l 0 [61, 61] = Some []" "a2b_base64 3 l 0 [61] = Some []"
  by simp_all

text \<open>Four digits hold the bits of three bytes.\<close>

lemma sextets:
  fixes a b c :: byte
  shows "unat a div 4 < 64" "unat a mod 4 * 16 + unat b div 16 < 64" "unat b mod 16 * 4 + unat c div 64 < 64"
    "unat c mod 64 < 64"
    "(unat a mod 4 * 16 + unat b div 16) div 16 = unat a mod 4" "(unat a mod 4 * 16 + unat b div 16) mod 16 = unat b div 16"
    "(unat b mod 16 * 4 + unat c div 64) div 4 = unat b mod 16" "(unat b mod 16 * 4 + unat c div 64) mod 4 = unat c div 64"
proof -
  have "unat a < 4 * 64" "unat b < 16 * 16" "unat c < 64 * 4" by simp_all
  then have q: "unat a div 4 < 64" "unat b div 16 < 16" "unat c div 64 < 4"
    by (simp_all only: less_mult_imp_div_less mult.commute)
  have "unat a mod 4 < 4" "unat b mod 16 < 16" by simp_all
  with q show "unat a div 4 < 64" "unat a mod 4 * 16 + unat b div 16 < 64" "unat b mod 16 * 4 + unat c div 64 < 64"
    "unat c mod 64 < 64"
    "(unat a mod 4 * 16 + unat b div 16) div 16 = unat a mod 4" "(unat a mod 4 * 16 + unat b div 16) mod 16 = unat b div 16"
    "(unat b mod 16 * 4 + unat c div 64) div 4 = unat b mod 16" "(unat b mod 16 * 4 + unat c div 64) mod 4 = unat c div 64"
    by auto
qed

lemmas sextets0 = sextets(2,5,6) [where b = 0, simplified] sextets(3,7,8) [where c = 0, simplified]

lemma rejoin: "of_nat (unat a div k * k + unat a mod k) = (a :: byte)"
  by simp

lemma high_bits: "unat (b :: byte) div 16 mod 16 = unat b div 16" "unat (c :: byte) div 64 mod 4 = unat c div 64"
  using sextets(6) [of 0 b] sextets(8) [of 0 c] by simp_all

lemma unb64_b64 [simp]: "unb64 (b64 bs) = Some bs"
  unfolding unb64_def
proof (induction bs rule: b64.induct)
  case (2 a)
  show ?case
    by (simp add: utf8_encode_simps a2b_digit a2b_pad sextets(1,5) sextets0 rejoin high_bits del: a2b_base64.simps(2) of_nat_add of_nat_mult)
next
  case (3 a b)
  show ?case
    by (simp add: utf8_encode_simps a2b_digit a2b_pad sextets sextets0 rejoin high_bits del: a2b_base64.simps(2) of_nat_add of_nat_mult)
next
  case (4 a b c bs)
  then show ?case
    by (simp add: utf8_encode_simps a2b_digit sextets sextets0 rejoin high_bits del: a2b_base64.simps(2) of_nat_add of_nat_mult)
qed (simp add: utf8_encode_simps)

section \<open>Encrypting and decrypting\<close>

text \<open>
  \<^item> \<open>scrypt\<close>: \<open>Scrypt(salt, 32, n, r, p).derive(data)\<close>, with its exceptions.
  \<^item> \<open>aes_encrypt\<close>, \<open>aes_decrypt\<close>: \<open>AESGCM(key).encrypt\<close> and \<open>decrypt\<close> with a nonce and no associated
    data; \<open>Inr None\<close> is \<open>InvalidTag\<close>, other exceptions are \<open>Inl\<close>.
\<close>

record crypto =
  scrypt :: "bytes \<Rightarrow> pyval \<Rightarrow> pyval \<Rightarrow> pyval \<Rightarrow> bytes \<Rightarrow> bytes res"
  aes_encrypt :: "bytes \<Rightarrow> bytes \<Rightarrow> bytes \<Rightarrow> bytes"
  aes_decrypt :: "bytes \<Rightarrow> bytes \<Rightarrow> bytes \<Rightarrow> bytes option res"

definition SCRYPT_N :: int where "SCRYPT_N = 2 ^ 14"
definition SCRYPT_R :: int where "SCRYPT_R = 8"
definition SCRYPT_P :: int where "SCRYPT_P = 1"

definition derive :: "crypto \<Rightarrow> string \<Rightarrow> bytes \<Rightarrow> pyval \<Rightarrow> pyval \<Rightarrow> pyval \<Rightarrow> bytes res" where
  "derive C passphrase salt n r p = scrypt C salt n r p (utf8_encode passphrase)"

text \<open>The two texts of random bytes that \<open>os.urandom\<close> returns are arguments.\<close>

definition encrypt_secret :: "crypto \<Rightarrow> bytes \<Rightarrow> bytes \<Rightarrow> string \<Rightarrow> string \<Rightarrow> pyval res" where
  "encrypt_secret C salt nonce_bytes secret_hex passphrase =
     (case fromhex secret_hex of
        None \<Rightarrow> Inl (ValueError ''non-hexadecimal number found in fromhex() arg'')
      | Some sec \<Rightarrow>
          if passphrase = [] then Inl (ValueError ''passphrase must not be empty'')
          else rbind (derive C passphrase salt (PInt SCRYPT_N) (PInt SCRYPT_R) (PInt SCRYPT_P)) (\<lambda>key.
            Inr (PDict
              [(''version'', PInt 1), (''kdf'', PStr ''scrypt''),
               (''n'', PInt SCRYPT_N), (''r'', PInt SCRYPT_R), (''p'', PInt SCRYPT_P),
               (''salt'', PStr (b64 salt)), (''nonce'', PStr (b64 nonce_bytes)),
               (''ciphertext'', PStr (b64 (aes_encrypt C key nonce_bytes sec)))])))"

text \<open>\<open>_unb64\<close> of a value from a file: only a string has \<open>encode\<close>.\<close>

fun unb64_val :: "pyval \<Rightarrow> bytes res" where
  "unb64_val (PStr s) = (case unb64 s of None \<Rightarrow> Inl (ValueError ''Incorrect padding'') | Some b \<Rightarrow> Inr b)"
| "unb64_val v = Inl (AttributeError ''object has no attribute encode'')"

fun decrypt_secret :: "crypto \<Rightarrow> pyval \<Rightarrow> string \<Rightarrow> string res" where
  "decrypt_secret C (PDict ks) passphrase =
     (if dget ks ''kdf'' PNone \<noteq> PStr ''scrypt'' then Inl (ValueError ''unsupported keystore format'')
      else
        rbind (rbind (jfield ks ''salt'') unb64_val) (\<lambda>salt.
        rbind (jfield ks ''n'') (\<lambda>n. rbind (jfield ks ''r'') (\<lambda>r. rbind (jfield ks ''p'') (\<lambda>p.
        rbind (derive C passphrase salt n r p) (\<lambda>key.
        rbind (rbind (jfield ks ''nonce'') unb64_val) (\<lambda>nonce_bytes.
        rbind (rbind (jfield ks ''ciphertext'') unb64_val) (\<lambda>ciphertext.
        rbind (aes_decrypt C key nonce_bytes ciphertext) (\<lambda>plain.
          (case plain of
             None \<Rightarrow> Inl (ValueError ''wrong passphrase or corrupt keystore'')
           | Some sec \<Rightarrow> Inr (hex sec)))))))))))"
| "decrypt_secret C v passphrase = Inl (AttributeError ''object has no attribute get'')"

section \<open>Files\<close>

type_synonym files = "string \<Rightarrow> string option"

text \<open>The states of the file system while a keystore is saved: the text is written to a temporary file,
  which then takes the place of the old file in one step. A crash leaves one of these.\<close>

definition save_keystore :: "env \<Rightarrow> pyval \<Rightarrow> string \<Rightarrow> files \<Rightarrow> files" where
  "save_keystore E ks path fs = fs(path @ ''.tmp'' := None, path := Some (json_default E False ks))"

definition saving :: "env \<Rightarrow> pyval \<Rightarrow> string \<Rightarrow> files \<Rightarrow> files list" where
  "saving E ks path fs =
     (let content = json_default E False ks
      in fs # map (\<lambda>k. fs(path @ ''.tmp'' := Some (take k content))) [0..<Suc (length content)] @
         [save_keystore E ks path fs])"

text \<open>\<open>None\<close> is the \<open>FileNotFoundError\<close>.\<close>

definition load_keystore :: "env \<Rightarrow> files \<Rightarrow> string \<Rightarrow> pyval res option" where
  "load_keystore E fs path =
     (case fs path of
        None \<Rightarrow> None
      | Some content \<Rightarrow>
          Some (case json_loads E content of None \<Rightarrow> Inl (ValueError ''JSONDecodeError'') | Some v \<Rightarrow> Inr v))"

section \<open>A keystore gives its secret back\<close>

lemma encrypt_jsonable: "encrypt_secret C salt nb sec pass = Inr ks \<Longrightarrow> jsonable E ks"
  by (auto simp: encrypt_secret_def rbind_eq_Inr split: option.splits if_splits)

lemma saved_loads: "jsonable E ks \<Longrightarrow> load_keystore E (save_keystore E ks path fs) path = Some (Inr ks)"
  by (simp add: load_keystore_def save_keystore_def json_loads_default in_order_id)

lemma saving_old_or_new:
  "fs' \<in> set (saving E ks path fs) \<Longrightarrow> fs' path = fs path \<or> fs' path = Some (json_default E False ks)"
  by (auto simp: saving_def save_keystore_def Let_def)

lemma decrypt_encrypted:
  assumes "encrypt_secret C salt nb sec pass = Inr ks"
    and "\<And>key n d. aes_decrypt C key n (aes_encrypt C key n d) = Inr (Some d)"
  shows "decrypt_secret C ks pass = Inr (hex (the (fromhex sec)))"
  using assms by (auto simp: encrypt_secret_def rbind_eq_Inr jfield_def split: option.splits if_splits)

text \<open>Decrypting under another key, or with another passphrase that derives one.\<close>

lemma decrypt_wrong_key:
  assumes "encrypt_secret C salt nb sec pass = Inr ks"
    and "derive C pass' salt (PInt SCRYPT_N) (PInt SCRYPT_R) (PInt SCRYPT_P) = Inr key'"
    and "\<And>key d. derive C pass salt (PInt SCRYPT_N) (PInt SCRYPT_R) (PInt SCRYPT_P) = Inr key \<Longrightarrow>
      aes_decrypt C key' nb (aes_encrypt C key nb d) = Inr None"
  shows "decrypt_secret C ks pass' = Inl (ValueError ''wrong passphrase or corrupt keystore'')"
  using assms by (auto simp: encrypt_secret_def rbind_eq_Inr jfield_def split: option.splits if_splits)

end
