(* ===== verification/Wallet_Client.thy ===== *)
theory Wallet_Client
  imports Keystore Signing
begin

text \<open>
  The command-line wallet of \<open>wallet.py\<close> with \<open>rpc_call\<close> of \<open>node.py\<close>: secrets, amounts as decimal text,
  and the commands that sign a transaction and submit it to a node.

  Shown: amounts of at most 20 significant digits are converted exactly; a fresh secret reads back; a
  command against a node without a token ends with its transaction in the pool of the node.
\<close>

text \<open>\<open>Arithmetic_Error\<close> is \<open>decimal.InvalidOperation\<close> or \<open>decimal.Overflow\<close>, \<open>OS_Error\<close> a missing file.\<close>

datatype client_error = Python perror | System_Exit | Runtime_Error | Arithmetic_Error | OS_Error

type_synonym 'a client = "client_error + 'a"

definition cbind :: "'a client \<Rightarrow> ('a \<Rightarrow> 'b client) \<Rightarrow> 'b client" where
  "cbind r f = (case r of Inl e \<Rightarrow> Inl e | Inr x \<Rightarrow> f x)"

lemma cbind_simps [simp]: "cbind (Inl e) f = Inl e" "cbind (Inr x) f = f x"
  by (simp_all add: cbind_def)

fun raised :: "'a res \<Rightarrow> 'a client" where
  "raised (Inl e) = Inl (Python e)"
| "raised (Inr x) = Inr x"

section \<open>Secrets\<close>

text \<open>\<open>int(s, 16)\<close>: white space around, a sign, a prefix, single underscores between digits.\<close>

fun hex_groups :: "bool \<Rightarrow> nat \<Rightarrow> string \<Rightarrow> nat option" where
  "hex_groups digit n [] = (if digit then Some n else None)"
| "hex_groups digit n (c # s) =
     (if c = CHR ''_'' then if digit then hex_groups False n s else None
      else case hex_value c of None \<Rightarrow> None | Some v \<Rightarrow> hex_groups True (16 * n + v) s)"

definition int_space :: "char \<Rightarrow> bool" where
  "int_space c \<longleftrightarrow> (let n = (of_char c :: nat) in 9 \<le> n \<and> n \<le> 13 \<or> n = 32 \<or> n = 133 \<or> n = 160)"

definition int_strip :: "string \<Rightarrow> string" where
  "int_strip s = rev (dropWhile int_space (rev (dropWhile int_space s)))"

definition int16 :: "string \<Rightarrow> int res" where
  "int16 s =
     (let t = int_strip s;
          neg = (take 1 t = ''-'');
          u = (if take 1 t = ''-'' \<or> take 1 t = ''+'' then drop 1 t else t);
          prefixed = (take 2 u = ''0x'' \<or> take 2 u = ''0X'');
          ds = (if prefixed then drop 2 u else u)
      in case hex_groups prefixed 0 ds of
           Some n \<Rightarrow> if ds = [] then Inl (ValueError ''invalid literal for int() with base 16'')
                     else Inr (if neg then - int n else int n)
         | None \<Rightarrow> Inl (ValueError ''invalid literal for int() with base 16''))"

text \<open>\<open>format(s, "064x")\<close>\<close>

primrec hex_pad :: "nat \<Rightarrow> nat \<Rightarrow> string" where
  "hex_pad 0 n = []"
| "hex_pad (Suc k) n = hex_pad k (n div 16) @ [hex_digits ! (n mod 16)]"

text \<open>\<open>new_secret\<close>, with the numbers \<open>secrets.randbits(256)\<close> draws; \<open>None\<close> when these run out.\<close>

fun new_secret :: "env \<Rightarrow> nat list \<Rightarrow> string option" where
  "new_secret E [] = None"
| "new_secret E (s # draws) =
     (case from_secret E (int s) of Inr w \<Rightarrow> Some (hex_pad 64 s) | Inl e \<Rightarrow> new_secret E draws)"

text \<open>\<open>_resolve_secret\<close>: an empty path, secret or passphrase counts as none.\<close>

definition resolve_secret ::
  "env \<Rightarrow> crypto \<Rightarrow> files \<Rightarrow> string option \<Rightarrow> string option \<Rightarrow> string option \<Rightarrow> string client" where
  "resolve_secret E C fs passphrase keystore_path inline_secret =
     (case keystore_path of
        Some (p # ps) \<Rightarrow>
          (case passphrase of
             Some (c # cs) \<Rightarrow>
               (case load_keystore E fs (p # ps) of
                  None \<Rightarrow> Inl OS_Error
                | Some r \<Rightarrow> cbind (raised r) (\<lambda>ks. raised (decrypt_secret C ks (c # cs))))
           | _ \<Rightarrow> Inl System_Exit)
      | _ \<Rightarrow> (case inline_secret of Some (c # cs) \<Rightarrow> Inr (c # cs) | _ \<Rightarrow> Inl System_Exit))"

section \<open>Amounts\<close>

text \<open>Numbers of Python's \<open>decimal\<close>: sign, coefficient and exponent, and the special ones.\<close>

datatype decimal = Finite bool nat int | Infinite bool | Quiet_NaN | Signaling_NaN

definition lower :: "string \<Rightarrow> string" where
  "lower s = map (\<lambda>c. let n = (of_char c :: nat) in if 65 \<le> n \<and> n \<le> 90 then char_of (n + 32) else c) s"

fun exponent_text :: "string \<Rightarrow> int option" where
  "exponent_text [] = Some 0"
| "exponent_text (c # s) =
     (let neg = (take 1 s = ''-'');
          ds = (if take 1 s = ''-'' \<or> take 1 s = ''+'' then drop 1 s else s)
      in if (c = CHR ''e'' \<or> c = CHR ''E'') \<and> ds \<noteq> [] \<and> list_all is_digit ds
         then Some (if neg then - int (digits_value ds) else int (digits_value ds)) else None)"

text \<open>\<open>Decimal(s)\<close>; \<open>None\<close> is \<open>InvalidOperation\<close>, also beyond the exponents the type can hold.\<close>

definition decimal_of :: "string \<Rightarrow> decimal option" where
  "decimal_of s =
     (let t = filter (\<lambda>c. c \<noteq> CHR ''_'') (strip s);
          neg = (take 1 t = ''-'');
          u = (if take 1 t = ''-'' \<or> take 1 t = ''+'' then drop 1 t else t);
          name = lower u
      in if name = ''inf'' \<or> name = ''infinity'' then Some (Infinite neg)
         else if take 3 name = ''nan'' \<and> list_all is_digit (drop 3 name) then Some Quiet_NaN
         else if take 4 name = ''snan'' \<and> list_all is_digit (drop 4 name) then Some Signaling_NaN
         else
           (let whole = takeWhile is_digit u;
                r1 = drop (length whole) u;
                part = (if take 1 r1 = ''.'' then takeWhile is_digit (drop 1 r1) else []);
                r2 = (if take 1 r1 = ''.'' then drop (Suc (length part)) r1 else r1);
                coefficient = digits_value (whole @ part)
            in if whole @ part = [] then None
               else case exponent_text r2 of
                 None \<Rightarrow> None
               | Some x \<Rightarrow>
                   (let e = x - int (length part)
                    in if e + int (length (show_nat coefficient)) - 1 > 999999999999999999 \<or> e < -1999999999999999997
                       then None else Some (Finite neg coefficient e))))"

text \<open>Dividing by \<open>10 ^ k\<close>, to the nearest integer and to the even one of two.\<close>

definition half_even :: "nat \<Rightarrow> nat \<Rightarrow> nat" where
  "half_even c k =
     (let q = c div 10 ^ k; r = c mod 10 ^ k
      in if 2 * r < 10 ^ k \<or> 2 * r = 10 ^ k \<and> even q then q else q + 1)"

text \<open>A product in the default context: 28 digits, exponents to 999999 either way. The result is
  coefficient and exponent, \<open>None\<close> the \<open>Overflow\<close>. Below the exponents it is rounded to a multiple of
  \<open>10 ^ -1000026\<close>.\<close>

definition finalize :: "nat \<Rightarrow> int \<Rightarrow> (nat \<times> int) option" where
  "finalize c e =
     (let n = length (show_nat c)
      in if c = 0 then Some (0, 0)
         else if e + int n - 1 < -999999
         then if e < -1000026 then Some (half_even c (nat (-1000026 - e)), -1000026) else Some (c, e)
         else
           (let (c', e') = (if 28 < n then (half_even c (n - 28), e + int (n - 28)) else (c, e))
            in if e' + int (length (show_nat c')) - 1 > 999999 then None else Some (c', e')))"

text \<open>\<open>parse_amount\<close> of text. A value that is not a whole number of units is finer than the smallest
  one; infinity is not an integer.\<close>

definition parse_amount :: "string \<Rightarrow> int client" where
  "parse_amount s =
     (case decimal_of s of
        None \<Rightarrow> Inl Arithmetic_Error
      | Some Signaling_NaN \<Rightarrow> Inl Arithmetic_Error
      | Some Quiet_NaN \<Rightarrow> Inl (Python (ValueError ''finer than the smallest unit''))
      | Some (Infinite neg) \<Rightarrow>
          Inl (Python (if neg then ValueError ''amount must be non-negative''
                       else OverflowError ''cannot convert Infinity to integer''))
      | Some (Finite neg c e) \<Rightarrow>
          (case finalize (c * nat COIN) e of
             None \<Rightarrow> Inl Arithmetic_Error
           | Some (units, x) \<Rightarrow>
               if x < 0 \<and> units mod 10 ^ nat (- x) \<noteq> 0
               then Inl (Python (ValueError ''finer than the smallest unit''))
               else if neg \<and> 0 < units then Inl (Python (ValueError ''amount must be non-negative''))
               else Inr (int (if x < 0 then units div 10 ^ nat (- x) else units * 10 ^ nat x))))"

section \<open>Secrets read back\<close>

lemma hex_digit_facts:
  assumes "n < 16"
  shows "hex_digits ! n \<noteq> CHR ''_''" "hex_digits ! n \<noteq> CHR ''-''" "hex_digits ! n \<noteq> CHR ''+''" "hex_digits ! n \<noteq> CHR ''x''"
    "hex_digits ! n \<noteq> CHR ''X''" "48 \<le> (of_char (hex_digits ! n) :: nat) \<and> (of_char (hex_digits ! n) :: nat) < 128"
proof -
  have "\<forall>n \<in> {..<16}. hex_digits ! n \<noteq> CHR ''_'' \<and> hex_digits ! n \<noteq> CHR ''-'' \<and> hex_digits ! n \<noteq> CHR ''+'' \<and>
      hex_digits ! n \<noteq> CHR ''x'' \<and> hex_digits ! n \<noteq> CHR ''X'' \<and>
      48 \<le> (of_char (hex_digits ! n) :: nat) \<and> (of_char (hex_digits ! n) :: nat) < 128"
    by code_simp
  with assms show "hex_digits ! n \<noteq> CHR ''_''" "hex_digits ! n \<noteq> CHR ''-''" "hex_digits ! n \<noteq> CHR ''+''"
    "hex_digits ! n \<noteq> CHR ''x''" "hex_digits ! n \<noteq> CHR ''X''"
    "48 \<le> (of_char (hex_digits ! n) :: nat) \<and> (of_char (hex_digits ! n) :: nat) < 128" by auto
qed

definition hex_text :: "string \<Rightarrow> bool" where
  "hex_text s \<longleftrightarrow> (\<forall>c \<in> set s. \<exists>n < 16. c = hex_digits ! n)"

lemma hex_pad_text: "hex_text (hex_pad k n)"
  by (induction k arbitrary: n) (auto simp: hex_text_def intro: exI [of _ "_ mod 16"])

lemma length_hex_pad [simp]: "length (hex_pad k n) = k"
  by (induction k arbitrary: n) simp_all

lemma dropWhile_none: "(\<And>c. c \<in> set s \<Longrightarrow> \<not> P c) \<Longrightarrow> dropWhile P s = s"
  by (cases s) simp_all

lemma int_strip_hex: "hex_text s \<Longrightarrow> int_strip s = s"
proof -
  assume s: "hex_text s"
  have "\<not> int_space c" if "c \<in> set s" for c
  proof -
    obtain n where "n < 16" "c = hex_digits ! n" using s \<open>c \<in> set s\<close> by (auto simp: hex_text_def)
    with hex_digit_facts(6) [of n] show ?thesis by (auto simp: int_space_def Let_def)
  qed
  then have "dropWhile int_space s = s" "dropWhile int_space (rev s) = rev s"
    using dropWhile_none [of s int_space] dropWhile_none [of "rev s" int_space] by auto
  then show ?thesis by (simp add: int_strip_def)
qed

definition hex_number :: "string \<Rightarrow> nat" where
  "hex_number s = of_digits 16 (map (\<lambda>c. the (hex_value c)) s)"

lemma hex_groups_text:
  "hex_text s \<Longrightarrow> hex_groups d m s = (if d \<or> s \<noteq> [] then Some (m * 16 ^ length s + hex_number s) else None)"
proof (induction s arbitrary: d m)
  case (Cons c s)
  then obtain n where n: "n < 16" "c = hex_digits ! n" and s: "hex_text s" by (auto simp: hex_text_def)
  have "hex_groups d m (c # s) = hex_groups True (16 * m + n) s"
    using n by (simp add: hex_digit_facts hex_value_digit)
  also have "\<dots> = Some ((16 * m + n) * 16 ^ length s + hex_number s)"
    using Cons.IH [OF s] by simp
  finally show ?case
    using n by (simp add: hex_number_def hex_value_digit of_digits_Cons algebra_simps)
qed (simp add: hex_number_def)

lemma hex_number_pad: "hex_number (hex_pad k n) = n mod 16 ^ k"
proof (induction k arbitrary: n)
  case (Suc k)
  have "hex_number (hex_pad (Suc k) n) = (n div 16 mod 16 ^ k) * 16 + n mod 16"
    using Suc by (simp add: hex_number_def of_digits_append of_digits_Cons hex_value_digit)
  also have "\<dots> = n mod 16 ^ Suc k" by (simp add: mod_mult2_eq mult.commute)
  finally show ?case .
qed (simp add: hex_number_def)

lemma int16_hex_pad: "n < 16 ^ k \<Longrightarrow> 0 < k \<Longrightarrow> int16 (hex_pad k n) = Inr (int n)"
proof -
  assume n: "n < 16 ^ k" "0 < k"
  let ?s = "hex_pad k n"
  have ne: "?s \<noteq> []" using n(2) by (metis length_hex_pad length_greater_0_conv)
  have no: "take 1 ?s \<noteq> ''-''" "take 1 ?s \<noteq> ''+''" "take 2 ?s \<noteq> ''0x''" "take 2 ?s \<noteq> ''0X''"
    using hex_pad_text [of k n] hex_digit_facts
    by (cases ?s; cases "tl ?s"; force simp: hex_text_def)+
  show ?thesis
    using no ne n hex_groups_text [OF hex_pad_text [of k n]]
    by (simp add: int16_def int_strip_hex [OF hex_pad_text] Let_def hex_number_pad)
qed

lemma new_secret_reads:
  "new_secret E draws = Some t \<Longrightarrow> \<exists>s w. s \<in> set draws \<and> int16 t = Inr (int s) \<and> from_secret E (int s) = Inr w \<and> length t = 64"
proof (induction draws)
  case (Cons s draws)
  show ?case
  proof (cases "from_secret E (int s)")
    case (Inr w)
    then have "int s < 2 ^ 256" by (auto simp: from_secret_def split: if_splits)
    then have "int s < int (16 ^ 64)" by simp
    then have "s < 16 ^ 64" by (simp only: of_nat_less_iff)
    with Cons.prems Inr show ?thesis using int16_hex_pad [of s 64] by auto
  next
    case (Inl e)
    with Cons show ?thesis by auto
  qed
qed simp

text \<open>Lower-case hexadecimal text of whole bytes is what its bytes print as.\<close>

lemma hex_fromhex: "hex_text s \<Longrightarrow> even (length s) \<Longrightarrow> \<exists>bs. fromhex s = Some bs \<and> hex bs = s"
proof (induction s rule: fromhex.induct)
  case (3 c d s)
  then obtain h l where hl: "h < 16" "c = hex_digits ! h" "l < 16" "d = hex_digits ! l" and s: "hex_text s"
    by (auto simp: hex_text_def)
  have val: "\<not> is_space c" "hex_value c = Some h" "hex_value d = Some l"
    using hl by (simp_all add: not_space_digit hex_value_digit)
  obtain bs where bs: "fromhex s = Some bs" "hex bs = s" using 3(2) [OF val(1) _ val(2,3) s] 3(4) val by auto
  have "unat (of_nat (16 * h + l) :: byte) = 16 * h + l" using hl by (subst unat_of_nat) simp
  then have "hex_byte (of_nat (16 * h + l)) = [c, d]"
    unfolding hex_byte_def using hl by simp
  with bs val show ?case by simp
qed (auto simp: hex_text_def)

lemma new_secret_text: "new_secret E draws = Some t \<Longrightarrow> hex_text t \<and> even (length t)"
  by (induction draws) (auto simp: hex_pad_text split: sum.splits)

text \<open>A fresh secret, encrypted and saved, is what \<open>resolve_secret\<close> unlocks.\<close>

lemma resolve_saved:
  assumes "new_secret E draws = Some t" "encrypt_secret C salt nb t pass = Inr ks"
    and "\<And>key n d. aes_decrypt C key n (aes_encrypt C key n d) = Inr (Some d)" "path \<noteq> []"
  shows "resolve_secret E C (save_keystore E ks path fs) (Some pass) (Some path) inl = Inr t"
proof -
  have pass: "pass \<noteq> []" using assms(2) by (auto simp: encrypt_secret_def split: option.splits)
  obtain bs where "fromhex t = Some bs" "hex bs = t" using hex_fromhex new_secret_text [OF assms(1)] by blast
  with decrypt_encrypted [OF assms(2,3)] have "decrypt_secret C ks pass = Inr t" by simp
  with saved_loads [OF encrypt_jsonable [OF assms(2)]] pass assms(4) show ?thesis
    by (cases path; cases pass) (simp_all add: resolve_secret_def)
qed

section \<open>Amounts are exact up to 20 digits\<close>

lemma length_show_nat: "n < 10 ^ k \<Longrightarrow> 0 < k \<Longrightarrow> length (show_nat n) \<le> k"
proof (induction n arbitrary: k rule: show_nat.induct)
  case (1 n)
  show ?case
  proof (cases "n < 10")
    case False
    with 1(2) obtain k' where k: "k = Suc k'" "0 < k'" by (cases k; cases "k - 1") auto
    with 1(1) [OF False, of k'] 1(2) False show ?thesis
      by (subst show_nat.simps) (auto simp: less_mult_imp_div_less mult.commute)
  qed (use 1 in \<open>simp add: show_nat.simps\<close>)
qed

lemma finalize_exact:
  assumes "c < 10 ^ 28" "-999999 \<le> e" "e \<le> 999000"
  shows "finalize c e = Some (if c = 0 then (0, 0) else (c, e))"
proof -
  have "length (show_nat c) \<le> 28" using length_show_nat [OF assms(1)] by simp
  moreover have "1 \<le> length (show_nat c)" using show_nat_facts [of c] by (cases "show_nat c") auto
  ultimately show ?thesis using assms(2,3) by (auto simp: finalize_def Let_def)
qed

text \<open>Whether \<open>n\<close> units are exactly \<open>c * 10 ^ e\<close> coins, of \<open>10 ^ 8\<close> units each.\<close>

definition units_exact :: "nat \<Rightarrow> int \<Rightarrow> int \<Rightarrow> bool" where
  "units_exact c e n \<longleftrightarrow> n * 10 ^ nat (- (e + 8)) = int c * 10 ^ nat (e + 8)"

lemma div_exact: "0 < d \<Longrightarrow> n * int d = int u \<longleftrightarrow> u mod d = 0 \<and> n = int (u div d)"
proof
  assume d: "0 < d" and n: "n * int d = int u"
  then have "0 \<le> n" by (metis of_nat_0_le_iff of_nat_0_less_iff zero_le_mult_iff linorder_not_le)
  then obtain m where "n = int m" using nonneg_int_cases by blast
  with n have "m * d = u" by (metis of_nat_eq_iff of_nat_mult)
  with d \<open>n = int m\<close> show "u mod d = 0 \<and> n = int (u div d)" by auto
next
  assume "u mod d = 0 \<and> n = int (u div d)"
  then show "n * int d = int u" by (metis dvd_div_mult_self mod_eq_0_iff_dvd of_nat_mult)
qed

lemma parse_amount_exact:
  assumes "decimal_of s = Some (Finite False c e)" "c < 10 ^ 20" "-999999 \<le> e" "e \<le> 999000"
  shows "parse_amount s = Inr n \<longleftrightarrow> units_exact c e n"
proof -
  have coin: "nat COIN = 10 ^ 8" by (simp add: COIN_def)
  have fin: "finalize (c * nat COIN) e = Some (if c = 0 then (0, 0) else (c * 10 ^ 8, e))"
    unfolding coin using finalize_exact [of "c * 10 ^ 8" e] assms(2-4) by simp
  consider "c = 0" | "0 \<le> e" "c \<noteq> 0" | "- 8 \<le> e" "e < 0" "c \<noteq> 0" | "e < - 8" "c \<noteq> 0" by linarith
  then show ?thesis
  proof cases
    case 2
    have "nat (e + 8) = 8 + nat e" using 2(1) by (simp add: nat_add_distrib)
    with 2 show ?thesis by (auto simp: parse_amount_def assms(1) fin units_exact_def power_add)
  next
    case 3
    define k where "k = nat (- e)"
    have k: "nat (e + 8) = 8 - k" "k \<le> 8" using 3 by (auto simp: k_def)
    have "c * 10 ^ 8 = c * 10 ^ (8 - k) * 10 ^ k" using k(2) by (simp add: power_add [symmetric])
    then have "c * 10 ^ 8 mod 10 ^ k = 0" "c * 10 ^ 8 div 10 ^ k = c * 10 ^ (8 - k)" by (metis mod_mult_self2_is_0, metis nonzero_mult_div_cancel_right power_not_zero zero_neq_numeral)
    with 3 k show ?thesis by (auto simp: parse_amount_def assms(1) fin units_exact_def k_def [symmetric] simp del: of_nat_mult) simp_all
  next
    case 4
    define k where "k = nat (- e - 8)"
    have k: "nat (- e) = 8 + k" "nat (e + 8) = 0" using 4 by (auto simp: k_def)
    have "c * 10 ^ 8 mod 10 ^ (8 + k) = 0 \<longleftrightarrow> c mod 10 ^ k = 0"
      by (simp add: power_add mult.commute [of c] mod_mult_mult1)
    moreover have "c * 10 ^ 8 div 10 ^ (8 + k) = c div 10 ^ k" by (simp add: power_add mult.commute [of c])
    ultimately show ?thesis using 4 k div_exact [of "10 ^ k" n c]
      by (auto simp: parse_amount_def assms(1) fin units_exact_def k_def [symmetric])
  qed (auto simp: parse_amount_def assms(1) finalize_def units_exact_def)
qed

section \<open>Commands\<close>

text \<open>\<open>node.rpc_call\<close> on the service that answers at the URL: the request as JSON, the reply as JSON. The
  service comes back changed.\<close>

definition rpc_request :: "string \<Rightarrow> (string \<times> pyval) list \<Rightarrow> pyval" where
  "rpc_request m params = PDict [(''method'', PStr m), (''params'', PDict params), (''id'', PInt 1)]"

definition rpc_call ::
  "env \<Rightarrow> string option \<Rightarrow> string \<Rightarrow> string \<Rightarrow> (string \<times> pyval) list \<Rightarrow> int \<Rightarrow> nat \<Rightarrow> node_service \<Rightarrow>
   (node_service \<times> pyval client) option"
where
  "rpc_call E rpc_token token m params now k svc =
     (let body = json_default E False (rpc_request m params);
          auth = (if token = [] then [] else ''Bearer '' @ token)
      in case do_POST E rpc_token auth (Inr (int (length (utf8_encode body)))) body now k svc of
           None \<Rightarrow> None
         | Some (svc', Inl e) \<Rightarrow> Some (svc', Inl (Python e))
         | Some (svc', Inr (Rpc_Error i f)) \<Rightarrow> Some (svc', Inl Runtime_Error)
         | Some (svc', Inr (Rpc_Result i v)) \<Rightarrow>
             Some (svc',
               (case json_loads E (json_default E False (PDict [(''id'', i), (''result'', v)])) of
                  Some (PDict d) \<Rightarrow> raised (jfield d ''result'')
                | _ \<Rightarrow> Inl (Python (ValueError ''JSONDecodeError'')))))"

datatype command = Send string | Stake | Unstake

fun build_tx :: "env \<Rightarrow> wallet \<Rightarrow> command \<Rightarrow> int \<Rightarrow> int \<Rightarrow> int \<Rightarrow> nat \<Rightarrow> transaction res" where
  "build_tx E w (Send to) amt f n k = sign_tx E w k (new_tx (address E w) to amt f n [])"
| "build_tx E w Stake amt f n k = stake_tx E w amt f n k"
| "build_tx E w Unstake amt f n k = unstake_tx E w amt f n k"

text \<open>A command, from the secret it resolved on: amounts, the nonce of the node, a signed transaction,
  which is submitted. The value is the reply. A node answers \<open>nonce\<close> with an integer; the branch for
  another value does not occur.\<close>

definition wallet_command ::
  "env \<Rightarrow> string option \<Rightarrow> string \<Rightarrow> command \<Rightarrow> string \<Rightarrow> string \<Rightarrow> int \<Rightarrow> nat \<Rightarrow> nat \<Rightarrow> node_service \<Rightarrow>
   (node_service \<times> pyval client) option"
where
  "wallet_command E rpc_token secret_text cmd amount_text fee_text now k k' svc =
     (case cbind (raised (rbind (int16 secret_text) (from_secret E))) (\<lambda>w.
           cbind (parse_amount amount_text) (\<lambda>a. cbind (parse_amount fee_text) (\<lambda>f. Inr (w, a, f)))) of
        Inl e \<Rightarrow> Some (svc, Inl e)
      | Inr (w, a, f) \<Rightarrow>
          (case rpc_call E rpc_token [] ''nonce'' [(''address'', PStr (address E w))] now k svc of
             Some (svc', Inr (PInt n)) \<Rightarrow>
               (case build_tx E w cmd a f n k of
                  Inl e \<Rightarrow> Some (svc', Inl (Python e))
                | Inr tx \<Rightarrow> rpc_call E rpc_token [] ''submit_tx'' [(''tx'', encode_tx tx)] now k' svc')
           | Some (svc', Inr v) \<Rightarrow> Some (svc', Inl (Python (TypeError ''nonce must be an integer'')))
           | r \<Rightarrow> r))"

section \<open>A command ends in the pool of the node\<close>

lemma rpc_call_answer:
  assumes "params \<noteq> []" "jsonable E (PDict params)" "int (length (utf8_encode (json_default E False (rpc_request m params)))) \<le> MAX_RPC_BODY"
    and "rpc_token = None \<or> m \<notin> set WRITE_METHODS"
    and "dispatch E m (PDict params) now k svc = Some (svc', Inr v)" "jsonable E v"
  shows "rpc_call E rpc_token token m params now k svc = Some (svc', Inr v)"
proof -
  have "jsonable E (rpc_request m params)" using assms(2) by (simp add: rpc_request_def)
  then have req: "json_loads E (json_default E False (rpc_request m params)) = Some (rpc_request m params)"
    by (simp add: json_loads_default in_order_id del: json_default.simps)
  have body: "json_default E False (rpc_request m params) \<noteq> []" by (simp add: rpc_request_def)
  have auth: "authorized rpc_token auth (PStr m) = Inr True" for auth
    using assms(4) by (cases rpc_token) (auto simp: authorized_def)
  have "jsonable E (PDict [(''id'', PInt 1), (''result'', v)])" using assms(6) by simp
  then have reply: "json_loads E (json_default E False (PDict [(''id'', PInt 1), (''result'', v)])) =
      Some (PDict [(''id'', PInt 1), (''result'', v)])"
    by (simp add: json_loads_default in_order_id del: json_default.simps json_ok.simps)
  have "do_POST E rpc_token auth (Inr (int (length (utf8_encode (json_default E False (rpc_request m params))))))
      (json_default E False (rpc_request m params)) now k svc = Some (svc', Inr (Rpc_Result (PInt 1) v))" for auth
    unfolding do_POST_def serve_call_def
    using assms(1,3,5) body by (simp add: attempt_def mbind_def eval_def return_def req auth del: json_default.simps)
      (simp add: rpc_request_def jfield_def attempt_def mbind_def eval_def return_def auth Let_def)
  then show ?thesis
    by (simp add: rpc_call_def Let_def reply jfield_def del: json_default.simps)
qed

text \<open>The recipient a command writes into its transaction.\<close>

fun command_recipient :: "command \<Rightarrow> string" where
  "command_recipient (Send to) = to"
| "command_recipient Stake = STAKE_SENTINEL"
| "command_recipient Unstake = UNSTAKE_SENTINEL"

lemma build_tx_sign: "build_tx E w cmd amt f n k = sign_tx E w k (new_tx (address E w) (command_recipient cmd) amt f n [])"
  by (cases cmd) (simp_all add: stake_tx_def unstake_tx_def)

lemma build_tx_valid:
  assumes "ecdsa_laws E (secret w)" "0 < amt" "0 \<le> f" "0 \<le> n" "command_recipient cmd \<notin> {SLASH_SENTINEL, VOTE_SENTINEL}"
  shows "\<exists>tx. build_tx E w cmd amt f n k = Inr tx \<and> is_valid E tx = Inr True"
  using sign_tx_valid [OF assms(1), of "new_tx (address E w) (command_recipient cmd) amt f n []" amt f n "[]" k] assms(2-5)
  by (auto simp: build_tx_sign new_tx_def)

lemma rpc_nonce_answer:
  "dispatch E ''nonce'' (PDict [(''address'', PStr a)]) now k svc =
     Some (svc, Inr (PInt (dget (nonces (svc_chain svc)) (PStr a) 0)))"
  by (simp add: dispatch_def rpc_nonce_def by_address_def eval_def jfield_def)

lemma submit_tx_answer:
  assumes "is_valid E tx = Inr True" "MIN_FEE \<le> tx_fee tx" "dget (nonces (svc_chain svc)) (sender tx) 0 \<le> tx_nonce tx"
    and "length (pool (svc_mempool svc)) < MAX_POOL_SIZE" "\<not> svc_autoproduce svc"
  shows "\<exists>m. dispatch E ''submit_tx'' (PDict [(''tx'', encode_tx tx)]) now k svc =
      Some (svc\<lparr>svc_mempool := m\<rparr>, Inr (PDict [(''txid'', PStr (txid E tx)), (''mined'', PNone)])) \<and>
    dhas (pool m) (txid E tx)"
proof -
  have "\<exists>new m. mempool_add E tx (svc_chain svc) (svc_mempool svc) = Inr (new, m) \<and> dhas (pool m) (txid E tx)"
    using assms(1-4) by (auto simp: mempool_add_def)
  then obtain new m where m: "mempool_add E tx (svc_chain svc) (svc_mempool svc) = Inr (new, m)" "dhas (pool m) (txid E tx)"
    by blast
  have "submit_tx E (PDict [(''tx'', encode_tx tx)]) now k svc =
      Some (svc\<lparr>svc_mempool := m\<rparr>, Inr (PDict [(''txid'', PStr (txid E tx)), (''mined'', PNone)]))"
    using m(1) assms(5) by (simp add: submit_tx_def mbind_def eval_def jfield_def decode_encode_tx pool_add_def return_def)
  with m(2) show ?thesis by (auto simp: dispatch_def)
qed

lemma wallet_command_pools:
  assumes "int16 st = Inr s" "from_secret E s = Inr w" "ecdsa_laws E (secret w)"
    and "parse_amount at = Inr a" "0 < a" "parse_amount ft = Inr f" "MIN_FEE \<le> f"
    and "command_recipient cmd \<notin> {SLASH_SENTINEL, VOTE_SENTINEL}"
    and n: "n = dget (nonces (svc_chain svc)) (PStr (address E w)) 0" "0 \<le> n"
    and "length (pool (svc_mempool svc)) < MAX_POOL_SIZE" "\<not> svc_autoproduce svc"
    and short: "int (length (utf8_encode (json_default E False (rpc_request ''nonce'' [(''address'', PStr (address E w))])))) \<le> MAX_RPC_BODY"
      "\<And>tx. build_tx E w cmd a f n k = Inr tx \<Longrightarrow>
        int (length (utf8_encode (json_default E False (rpc_request ''submit_tx'' [(''tx'', encode_tx tx)])))) \<le> MAX_RPC_BODY"
  shows "\<exists>tx m. build_tx E w cmd a f n k = Inr tx \<and> is_valid E tx = Inr True \<and>
    wallet_command E None st cmd at ft now k k' svc =
      Some (svc\<lparr>svc_mempool := m\<rparr>, Inr (PDict [(''txid'', PStr (txid E tx)), (''mined'', PNone)])) \<and>
    dhas (pool m) (txid E tx)"
proof -
  have "0 \<le> f" using assms(7) by (simp add: MIN_FEE_def)
  then obtain tx where tx: "build_tx E w cmd a f n k = Inr tx" "is_valid E tx = Inr True"
    using build_tx_valid [OF assms(3,5) _ n(2) assms(8)] by blast
  note shape = signed_shape [OF tx(1) [unfolded build_tx_sign]]
  obtain m where m: "dispatch E ''submit_tx'' (PDict [(''tx'', encode_tx tx)]) now k' svc =
      Some (svc\<lparr>svc_mempool := m\<rparr>, Inr (PDict [(''txid'', PStr (txid E tx)), (''mined'', PNone)]))" "dhas (pool m) (txid E tx)"
    using submit_tx_answer [OF tx(2), of svc now k'] assms(7,11,12) n(1) by (auto simp: shape)
  have "rpc_call E None [] ''nonce'' [(''address'', PStr (address E w))] now k svc = Some (svc, Inr (PInt n))"
    by (rule rpc_call_answer) (use short(1) in \<open>simp_all add: rpc_nonce_answer n(1) del: json_default.simps\<close>)
  moreover have "rpc_call E None [] ''submit_tx'' [(''tx'', encode_tx tx)] now k' svc =
      Some (svc\<lparr>svc_mempool := m\<rparr>, Inr (PDict [(''txid'', PStr (txid E tx)), (''mined'', PNone)]))"
    by (rule rpc_call_answer) (use short(2) [OF tx(1)] m(1) shape(1) in \<open>simp_all del: json_default.simps\<close>)
  ultimately have "wallet_command E None st cmd at ft now k k' svc =
      Some (svc\<lparr>svc_mempool := m\<rparr>, Inr (PDict [(''txid'', PStr (txid E tx)), (''mined'', PNone)]))"
    by (simp add: wallet_command_def assms(1,2,4,6) tx(1))
  with tx m(2) show ?thesis by blast
qed

text \<open>The wallet sends no token: a node that asks for one refuses its transactions and stays as it was.\<close>

lemma wallet_locked_out:
  assumes "t \<noteq> []"
  shows "\<exists>e. wallet_command E (Some t) st cmd at ft now k k' svc = Some (svc, Inl e)"
proof -
  have reads: "\<exists>reply. do_POST E (Some t) [] len body now k s = Some (s, Inr reply)" for len body k s
  proof -
    have "bearer_token [] \<noteq> t" using assms by (simp add: bearer_token_def)
    then obtain r where r: "do_POST E (Some t) [] len body now k s = Some (s, r)"
      using ensuresE [OF do_POST_reads [OF assms], where s = s] by blast
    with do_POST_replies [OF r] show ?thesis by blast
  qed
  have nonce: "\<exists>v. rpc_call E (Some t) [] m ps now k svc = Some (svc, v)" for m ps k
  proof -
    let ?body = "json_default E False (rpc_request m ps)"
    obtain reply where "do_POST E (Some t) [] (Inr (int (length (utf8_encode ?body)))) ?body now k svc = Some (svc, Inr reply)"
      using reads by blast
    then show ?thesis by (cases reply) (simp_all add: rpc_call_def Let_def del: json_default.simps)
  qed
  have tx: "\<exists>e. rpc_call E (Some t) [] ''submit_tx'' [(''tx'', encode_tx tx)] now k svc = Some (svc, Inl e)"
    if "jsonable E (encode_tx tx)" for tx k
  proof -
    let ?body = "json_default E False (rpc_request ''submit_tx'' [(''tx'', encode_tx tx)])"
    have "jsonable E (rpc_request ''submit_tx'' [(''tx'', encode_tx tx)])" using that by (simp add: rpc_request_def)
    then have req: "json_loads E ?body = Some (rpc_request ''submit_tx'' [(''tx'', encode_tx tx)])"
      by (simp add: json_loads_default in_order_id del: json_default.simps)
    have "authorized (Some t) [] (PStr ''submit_tx'') \<noteq> Inr True"
      using assms by (auto simp: authorized_def WRITE_METHODS_def compare_digest_def bearer_token_def)
    moreover have "?body \<noteq> []" by (simp add: rpc_request_def)
    ultimately have "\<exists>i f. do_POST E (Some t) [] len ?body now k svc = Some (svc, Inr (Rpc_Error i f))" for len
      unfolding do_POST_def serve_call_def
      by (cases "authorized (Some t) [] (PStr ''submit_tx'')"; cases len;
          simp add: attempt_def mbind_def eval_def return_def req del: json_default.simps;
          auto simp: attempt_def mbind_def eval_def return_def rpc_request_def jfield_def Let_def)
    then obtain i f where "do_POST E (Some t) [] (Inr (int (length (utf8_encode ?body)))) ?body now k svc =
        Some (svc, Inr (Rpc_Error i f))" by blast
    then show ?thesis by (simp add: rpc_call_def Let_def del: json_default.simps)
  qed
  show ?thesis
  proof (cases "cbind (raised (rbind (int16 st) (from_secret E))) (\<lambda>w.
           cbind (parse_amount at) (\<lambda>a. cbind (parse_amount ft) (\<lambda>f. Inr (w, a, f))))")
    case (Inr waf)
    obtain w a f where waf: "waf = (w, a, f)" by (cases waf)
    obtain v where v: "rpc_call E (Some t) [] ''nonce'' [(''address'', PStr (address E w))] now k svc = Some (svc, v)"
      using nonce by blast
    show ?thesis
    proof (cases "\<exists>n tx. v = Inr (PInt n) \<and> build_tx E w cmd a f n k = Inr tx")
      case True
      then obtain n tx where vn: "v = Inr (PInt n)" "build_tx E w cmd a f n k = Inr tx" by blast
      with tx [OF signed_shape(1) [OF vn(2) [unfolded build_tx_sign]], of k'] Inr v show ?thesis
        by (auto simp: wallet_command_def waf)
    next
      case False
      with Inr v show ?thesis
        by (auto simp: wallet_command_def waf split: sum.splits pyval.splits)
    qed
  qed (simp add: wallet_command_def)
qed

end
