(* ===== verification/Tree_Runs.thy ===== *)
theory Tree_Runs
  imports Fork_Choice
begin

text \<open>
  A block tree over many blocks: what was final at any time stays on the canonical chain for ever,
  at its height, however many blocks and branches arrive afterwards.
\<close>

section \<open>Adding keeps the branches\<close>

lemma update_head_keeps:
  "update_head E t = Some (t', r) \<Longrightarrow> parent t' = parent t \<and> blocks t' = blocks t \<and>
   genesis_args t' = genesis_args t \<and> genesis_hash t' = genesis_hash t"
  by (auto simp: update_head_def Let_def split: option.splits sum.splits if_splits)

lemma advance_finality_keeps:
  "advance_finality E v t = Inr t' \<Longrightarrow> parent t' = parent t \<and> blocks t' = blocks t \<and>
   genesis_args t' = genesis_args t \<and> genesis_hash t' = genesis_hash t"
  by (auto simp: advance_finality_def Let_def split: if_splits prod.splits)

lemma add_block_keeps:
  assumes "add_block E t b = Some (t', r)"
  shows "genesis_args t' = genesis_args t" "genesis_hash t' = genesis_hash t"
    "t' = t \<or> \<not> dhas (weight t) (block_hash E b) \<and>
       (\<exists>ph. parent t' = AList.update (block_hash E b) ph (parent t)) \<and>
       blocks t' = AList.update (block_hash E b) b (blocks t)"
  using assms
  by (auto simp: add_block_def store_block_def Let_def insert_block_def
      split: if_splits sum.splits option.splits prod.splits
      dest!: update_head_keeps advance_finality_keeps)

lemma add_block_replay:
  assumes "tree_ok E t" "add_block E t b = Some (t', r)" "replay E t h st"
  shows "replay E t' h st"
proof (rule replay_mono [OF assms(3)])
  have ok: "nodes_ok E t" using assms(1) by (simp add: tree_ok_def)
  note keeps = add_block_keeps [OF assms(2)]
  show "genesis_args t' = genesis_args t" "genesis_hash t' = genesis_hash t" by (rule keeps)+
  show "map_of (parent t') h = Some p" if "map_of (parent t) h = Some p" for h p
    using keeps(3) that nodes_ok_maps(3) [OF ok, of h p] by (auto simp: update_conv')
  show "map_of (blocks t') h = Some c" if "map_of (blocks t) h = Some c" for h c
    using keeps(3) that nodes_ok_maps(4) [OF ok, of h c] by (auto simp: update_conv')
qed

section \<open>A block on a branch\<close>

text \<open>Adding a block that a branch accepts, wherever it is in the tree.\<close>

lemma store_block_frame:
  assumes "store_block E t bh ph b n ext (s, v) = Some (t', Inr True)"
  shows "weight t' = AList.update bh (dget (weight t) ph 0 + s) (weight t)" "ws_checkpoint t' = ws_checkpoint t"
    "genesis_args t' = genesis_args t" "genesis_hash t' = genesis_hash t"
    "(finalized_hash t', finalized_height t') = (if finalized_height t < snd (finalized_checkpoint v) then finalized_checkpoint v
       else (finalized_hash t, finalized_height t))"
    "ext \<Longrightarrow> canonical t' = v \<and> head_hash t' = bh"
  using assms
  by (auto simp: store_block_def Let_def insert_block_def advance_finality_def update_head_def
      split: if_splits sum.splits option.splits prod.splits)

lemma branch_add:
  assumes t: "tree_ok E t" "ws_checkpoint t = None" and ph: "replay E t ph st" "previous_hash b = PStr ph"
    and on: "on_chain E (chain st) (finalized_hash t) (finalized_height t)"
    and new: "\<not> dhas (weight t) (block_hash E b)" and sub: "submit_block E (pos_hooks E) st b = Inr st'"
    and val: "validator b = PStr a"
  shows "\<exists>t'. add_block E t b = Some (t', Inr True) \<and> tree_ok E t' \<and> replay E t' (block_hash E b) st' \<and>
    weight t' = AList.update (block_hash E b) (dget (weight t) ph 0 + stake_of st a) (weight t) \<and> ws_checkpoint t' = None \<and>
    genesis_args t' = genesis_args t \<and> genesis_hash t' = genesis_hash t \<and>
    (finalized_hash t', finalized_height t') = (if finalized_height t < snd (finalized_checkpoint st') then finalized_checkpoint st'
       else (finalized_hash t, finalized_height t)) \<and>
    (ph = head_hash t \<longrightarrow> canonical t' = st' \<and> head_hash t' = block_hash E b)"
proof -
  have ok: "nodes_ok E t" "frontier_ok E t" "head_ok E t" using t(1) by (simp_all add: tree_ok_def)
  have dph: "dhas (weight t) ph" by (rule replay_dhas [OF ok(1) ph(1)])
  note facts = node_facts [OF ok(1) ph(1)]
  have "dhas (height t) ph" using dph nodes_ok_maps(2) [OF ok(1)] by simp
  then have h: "dlookup (height t) ph = Inr (int (length (chain st)) - 1)"
    using facts(2) by (auto simp: dlookup_def dget_def dhas_iff_map_of)
  have el: "eligible E t ph" using dph ph(1) on by (auto simp: eligible_def)
  have "finalized_height t < int (length (chain st))" using on by (auto simp: on_chain_def)
  then have fr: "check_frontier t (block_hash E b) ph (int (length (chain st))) = Some (Inr ())"
    using descends_iff [OF ok(1,2) dph] el t(2) by (simp add: check_frontier_def)
  have base: "(if ph = head_hash t then Some (Inr (canonical t)) else chain_at E t ph) = Some (Inr st)"
    using ph(1) ok(3) facts(4) replay_det [of E t ph st "canonical t"] by (auto simp: head_ok_def)
  have vo: "validate_on E st b = Inr (stake_of st a, st')" using sub val by (simp add: validate_on_def stake_of_val_def)
  have n: "dget (height t) ph 0 + 1 = int (length (chain st))" using facts(2) by simp
  obtain t' where t': "store_block E t (block_hash E b) ph b (int (length (chain st))) (ph = head_hash t) (stake_of st a, st') = Some (t', Inr True)"
    "tree_ok E t'"
    using store_block_spec [OF t(1) new ph(1) on vo] t(2) unfolding n by (auto simp: ws_allows_def)
  have add: "add_block E t b = Some (t', Inr True)"
    using new dph h fr base vo t'(1) by (simp add: add_block_def Let_def known_parent_def ph(2))
  have "replay E t' ph st" by (rule add_block_replay [OF t(1) add ph(1)])
  then have "replay E t' (block_hash E b) st'"
  proof (rule replay_step [OF _ _ _ _ sub])
    note keeps = add_block_keeps [OF add]
    have ne: "t' \<noteq> t" using new store_block_frame(1) [OF t'(1)] by (metis dhas_update)
    show "block_hash E b \<noteq> genesis_hash t'" using nodes_ok_maps(1) [OF ok(1)] new keeps(2) by metis
    show "map_of (blocks t') (block_hash E b) = Some b" using keeps(3) ne by (auto simp: update_conv')
    show "map_of (parent t') (block_hash E b) = Some ph"
      using t'(1) by (auto simp: store_block_def Let_def insert_block_def advance_finality_def update_head_def update_conv'
          split: if_splits sum.splits option.splits prod.splits)
  qed
  then show ?thesis using add t'(2) store_block_frame [OF t'(1)] t(2) by auto
qed

text \<open>A block on the head becomes the new head.\<close>

lemma add_on_head:
  assumes "add_block E t b = Some (t', Inr new)" "\<not> dhas (weight t) (block_hash E b)" "previous_hash b = PStr (head_hash t)"
  shows "chain (canonical t') = chain (canonical t) @ [b]" "dhas (weight t') h \<longleftrightarrow> h = block_hash E b \<or> dhas (weight t) h"
proof -
  from assms obtain s v where v: "validate_on E (canonical t) b = Inr (s, v)"
    and store: "store_block E t (block_hash E b) (head_hash t) b (dget (height t) (head_hash t) 0 + 1) True (s, v) = Some (t', Inr new)"
    by (auto simp: add_block_def Let_def known_parent_def dlookup_def dget_map_of split: if_splits option.splits sum.splits)
  from v have sub: "submit_block E (pos_hooks E) (canonical t) b = Inr v" by (auto simp: validate_on_def rbind_eq_Inr)
  have "new" using store by (auto simp: store_block_def Let_def split: if_splits sum.splits option.splits)
  with store have "store_block E t (block_hash E b) (head_hash t) b (dget (height t) (head_hash t) 0 + 1) True (s, v) = Some (t', Inr True)"
    by simp
  note frame = store_block_frame [OF this]
  show "chain (canonical t') = chain (canonical t) @ [b]" using frame(6) pos.submit_block_chain [OF sub] by simp
  show "dhas (weight t') h \<longleftrightarrow> h = block_hash E b \<or> dhas (weight t) h" by (auto simp: frame(1))
qed

section \<open>What is settled\<close>

text \<open>A block below or at the finalized one, on the branch of the finalized one.\<close>

definition settled :: "env \<Rightarrow> block_tree \<Rightarrow> string \<Rightarrow> int \<Rightarrow> bool" where
  "settled E t h n \<longleftrightarrow> (\<exists>st. replay E t (finalized_hash t) st \<and> on_chain E (chain st) h n)"

lemma finalized_prefix:
  assumes "tree_ok E t"
  obtains st where "replay E t (finalized_hash t) st"
    "chain st = take (Suc (nat (finalized_height t))) (chain (canonical t))"
    "length (chain st) = Suc (nat (finalized_height t))"
proof -
  have ok: "nodes_ok E t" "replay E t (head_hash t) (canonical t)" "eligible E t (head_hash t)"
    using assms by (auto simp: tree_ok_def head_ok_def)
  then have on: "on_chain E (chain (canonical t)) (finalized_hash t) (finalized_height t)"
    using replay_det unfolding eligible_def by blast
  then have "nat (finalized_height t) < length (chain (canonical t))" by (simp add: on_chain_def)
  moreover obtain st where "replay E t (finalized_hash t) st"
    "chain st = take (Suc (nat (finalized_height t))) (chain (canonical t))"
    by (rule node_prefix [OF ok(1,2) on])
  ultimately show ?thesis by (intro that [of st]) simp_all
qed

lemma settled_iff:
  assumes "tree_ok E t"
  shows "settled E t h n \<longleftrightarrow> on_chain E (chain (canonical t)) h n \<and> n \<le> finalized_height t"
proof -
  obtain st where st: "replay E t (finalized_hash t) st"
    "chain st = take (Suc (nat (finalized_height t))) (chain (canonical t))"
    "length (chain st) = Suc (nat (finalized_height t))"
    by (rule finalized_prefix [OF assms])
  have "settled E t h n \<longleftrightarrow> on_chain E (chain st) h n"
    using st(1) by (auto simp: settled_def dest: replay_det)
  also have "\<dots> \<longleftrightarrow> on_chain E (chain (canonical t)) h n \<and> n \<le> finalized_height t"
    using st(2,3) assms by (auto simp: on_chain_def tree_ok_def frontier_ok_def)
  finally show ?thesis .
qed

lemma settled_add:
  assumes t: "tree_ok E t" and add: "add_block E t b = Some (t', r)" and h: "settled E t h n"
  shows "settled E t' h n"
proof -
  have t': "tree_ok E t'" "keeps_finality E t t'" using add_block_spec [OF t, of b] add by auto
  then have on: "on_chain E (chain (canonical t')) (finalized_hash t) (finalized_height t)"
    and le: "finalized_height t \<le> finalized_height t'" by (simp_all add: keeps_finality_def)
  obtain st where st: "replay E t (finalized_hash t) st" "on_chain E (chain st) h n"
    using h by (auto simp: settled_def)
  have "nodes_ok E t'" "replay E t' (head_hash t') (canonical t')"
    using t' by (auto simp: tree_ok_def head_ok_def)
  then obtain st1 where st1: "replay E t' (finalized_hash t) st1"
      "chain st1 = take (Suc (nat (finalized_height t))) (chain (canonical t'))"
    by (rule node_prefix [OF _ _ on])
  have "st1 = st" by (rule replay_det [OF add_block_replay [OF t add st(1)] st1(1)])
  with st(2) st1(2) have "on_chain E (chain (canonical t')) h n" by (auto simp: on_chain_def)
  moreover have "n \<le> finalized_height t'" using settled_iff [OF t] h le by simp
  ultimately show ?thesis using settled_iff [OF t'(1)] by simp
qed

lemma settled_for_ever:
  assumes "tree_reaches E t t'" "tree_ok E t" "settled E t h n"
  shows "settled E t' h n \<and> finalized_height t \<le> finalized_height t'"
  using assms
proof (induction rule: tree_reaches.induct)
  case (tree_add t' b t'' r)
  have ok: "tree_ok E t'" by (rule tree_reaches_ok [OF tree_add(1,4)])
  from add_block_spec [OF ok, of b] tree_add(2) have "finalized_height t' \<le> finalized_height t''"
    by (auto simp: keeps_finality_def)
  with tree_add settled_add [OF ok tree_add(2)] show ?case by simp
qed simp

lemma finalized_settled: "tree_ok E t \<Longrightarrow> settled E t (finalized_hash t) (finalized_height t)"
  by (simp add: settled_iff) (auto simp: tree_ok_def head_ok_def eligible_def dest: replay_det)

lemma finality_for_ever:
  assumes "tree_reaches E t t'" "tree_ok E t"
  shows "on_chain E (chain (canonical t')) (finalized_hash t) (finalized_height t)"
    "finalized_height t \<le> finalized_height t'"
  using settled_for_ever [OF assms finalized_settled [OF assms(2)]]
    settled_iff [OF tree_reaches_ok [OF assms]] by simp_all

end
