(* ===== verification/Chain_Driver.thy ===== *)
theory Chain_Driver
  imports Restart Wallet_Client Tree_Runs
begin

text \<open>
  The driver of \<open>gh_chain.py\<close>, which runs once per cycle on a store kept between cycles: it writes the
  genesis, or boots a node, votes, produces blocks in its turn, and writes a status file from a fresh
  boot. Its environment variable, the clock and the random numbers of ECDSA are arguments.

  Shown: what a cycle reports is what its node had reached, with the full supply, and finality does
  not fall from cycle to cycle.
\<close>

section \<open>The driver\<close>

definition EPOCH :: int where "EPOCH = 4"
definition UNBONDING :: int where "UNBONDING = 50"
definition STAKE_COINS :: int where "STAKE_COINS = 100000"

text \<open>The data directory: the store and the contents of \<open>status.json\<close>.\<close>

record data_dir =
  d_store :: store
  d_status :: "pyval option"

fun validator_wallet :: "env \<Rightarrow> string option \<Rightarrow> wallet client" where
  "validator_wallet E None = Inl System_Exit"
| "validator_wallet E (Some sec) =
     (if sec = [] then Inl System_Exit else raised (rbind (int16 sec) (from_secret E)))"

definition status_doc :: "env \<Rightarrow> int \<Rightarrow> node_service \<Rightarrow> pyval" where
  "status_doc E now svc =
     (let c = svc_chain svc
      in PDict
       [(''network'', PStr ''mindees''), (''ticker'', PStr ''MIND''),
        (''height'', index (head c)), (''head'', PStr (block_hash E (head c))),
        (''finalized_height'', PInt (finalized_height (svc_tree svc))),
        (''finalized_hash'', PStr (finalized_hash (svc_tree svc))),
        (''supply'', PInt (pos_total_supply c)), (''max_supply'', PInt MAX_SUPPLY_UNITS),
        (''supply_ok'', PBool (pos_total_supply c = MAX_SUPPLY_UNITS)),
        (''validators'', PList (map PStr (sort (map fst (stakes (pos c)))))),
        (''updated_unix'', PInt now), (''phase'', PStr ''mainnet-bootstrap''),
        (''note'', PStr
          (''Mindees mainnet, bootstrap phase: live and self-finalizing, but produced by a '' @
           ''single GitHub-Actions validator and UNAUDITED -- MIND has no guaranteed value. '' @
           ''Independent validators and an independent security audit are required before '' @
           ''relying on this network for anything of value.''))])"

text \<open>\<open>_write_status\<close>; \<open>None\<close> as for \<open>service_init\<close>.\<close>

definition write_status :: "env \<Rightarrow> int \<Rightarrow> data_dir \<Rightarrow> (data_dir \<times> unit client) option" where
  "write_status E now d =
     (case service_init E (d_store d) None False None of
        None \<Rightarrow> None
      | Some (Inl e) \<Rightarrow> Some (d, Inl (Python e))
      | Some (Inr svc) \<Rightarrow> Some (d\<lparr>d_status := Some (status_doc E now svc)\<rparr>, Inr ()))"

definition driver_genesis :: "string \<Rightarrow> genesis_args" where
  "driver_genesis a =
     ([(a, PInt MAX_SUPPLY_UNITS)], [(a, PInt (STAKE_COINS * COIN))], PInt 1700000000, [], UNBONDING, Some a, EPOCH)"

definition cmd_init :: "env \<Rightarrow> string option \<Rightarrow> int \<Rightarrow> data_dir \<Rightarrow> (data_dir \<times> unit client) option" where
  "cmd_init E sec now d =
     (case genesis_file (d_store d) of
        Some f \<Rightarrow> write_status E now d
      | None \<Rightarrow>
          (case validator_wallet E sec of
             Inl e \<Rightarrow> Some (d, Inl e)
           | Inr w \<Rightarrow>
               (case write_genesis E (driver_genesis (address E w)) (d_store d) of
                  Inl e \<Rightarrow> Some (d, Inl (Python e))
                | Inr st \<Rightarrow> write_status E now (d\<lparr>d_store := st\<rparr>))))"

text \<open>\<open>_auto_vote\<close>: the vote is queued in the pool of the node; a target already voted for on the chain is
  left alone.\<close>

definition driver_link :: "env \<Rightarrow> node_service \<Rightarrow> (wallet \<times> string \<times> int \<times> string \<times> int) option" where
  "driver_link E s =
     (let c = svc_chain s
      in case svc_validator s of
           None \<Rightarrow> None
         | Some v \<Rightarrow>
             if \<not> dhas (stakes (pos c)) (address E v) then None
             else (case vote_target c of
                     None \<Rightarrow> None
                   | Some t \<Rightarrow>
                       (let th = the_int (index t)
                        in if dhas (ffg_seen_target (pos c)) (address E v, th) then None
                           else (let (sh, shgt) = vote_source E c th
                                 in if th \<le> shgt then None else Some (v, sh, shgt, block_hash E t, th)))))"

definition pending :: "env \<Rightarrow> wallet \<Rightarrow> node_service \<Rightarrow> int" where
  "pending E v s = int (length (filter (\<lambda>(i, t). sender t = PStr (address E v)) (pool (svc_mempool s))))"

definition driver_vote :: "env \<Rightarrow> nat \<Rightarrow> (node_service, unit) proc" where
  "driver_vote E k =
     mbind (eval (\<lambda>s. Inr (driver_link E s))) (\<lambda>link.
     case link of
       None \<Rightarrow> return ()
     | Some (v, s, sh, t, th) \<Rightarrow>
         attempt (\<lambda>e. if is_validation e then Some (return ()) else None)
           (mbind (eval (\<lambda>svc. vote_tx E v s sh t th
                (dget (nonces (svc_chain svc)) (PStr (address E v)) 0 + pending E v svc) 0 k)) (\<lambda>tx.
            mbind (pool_add E tx) (\<lambda>_. return ()))))"

text \<open>The loop over the blocks of a cycle; the value is the number of blocks produced.\<close>

primrec tick_loop :: "env \<Rightarrow> int \<Rightarrow> (nat \<Rightarrow> nat) \<Rightarrow> nat list \<Rightarrow> nat \<Rightarrow> (node_service, nat) proc" where
  "tick_loop E base ks [] produced = return produced"
| "tick_loop E base ks (i # is) produced =
     mbind (driver_vote E (ks (2 * i))) (\<lambda>_.
     mbind (eval (is_our_turn E)) (\<lambda>turn.
     if turn
     then mbind (produce_block E [(''timestamp'', PInt (base + int i))] base (ks (2 * i + 1))) (\<lambda>_.
          tick_loop E base ks is (produced + 1))
     else tick_loop E base ks is produced))"

definition cmd_tick ::
  "env \<Rightarrow> string option \<Rightarrow> nat \<Rightarrow> int \<Rightarrow> int \<Rightarrow> (nat \<Rightarrow> nat) \<Rightarrow> data_dir \<Rightarrow> (data_dir \<times> nat client) option" where
  "cmd_tick E sec n base now ks d =
     (case validator_wallet E sec of
        Inl e \<Rightarrow> Some (d, Inl e)
      | Inr w \<Rightarrow>
          (case service_init E (d_store d) (Some w) False None of
             None \<Rightarrow> None
           | Some (Inl e) \<Rightarrow> Some (d, Inl (Python e))
           | Some (Inr svc) \<Rightarrow>
               (case tick_loop E base ks [0..<n] 0 svc of
                  None \<Rightarrow> None
                | Some (svc', r) \<Rightarrow>
                    (let d' = d\<lparr>d_store := svc_store svc'\<rparr>
                     in case r of
                          Inl e \<Rightarrow> Some (d', Inl (Python e))
                        | Inr produced \<Rightarrow>
                            (case write_status E now d' of
                               None \<Rightarrow> None
                             | Some (d'', Inl e) \<Rightarrow> Some (d'', Inl e)
                             | Some (d'', Inr u) \<Rightarrow> Some (d'', Inr produced))))))"

section \<open>A cycle keeps the node sound\<close>

text \<open>The pool of the driver only ever holds its own votes, so its blocks are ones JSON can hold.\<close>

definition driver_ok :: "env \<Rightarrow> node_service \<Rightarrow> bool" where
  "driver_ok E s \<longleftrightarrow> service_ok E s \<and> list_all (\<lambda>(i, tx). jsonable E (encode_tx tx)) (pool (svc_mempool s))"

definition driver_grows :: "env \<Rightarrow> node_service \<Rightarrow> node_service \<Rightarrow> bool" where
  "driver_grows E s s' \<longleftrightarrow> tree_reaches E (svc_tree s) (svc_tree s') \<and>
     genesis_file (svc_store s') = genesis_file (svc_store s) \<and>
     (\<exists>bs. persists E bs s s' \<and> list_all (\<lambda>b. jsonable E (encode_block b)) bs)"

lemma driver_grows_same: "svc_tree s' = svc_tree s \<Longrightarrow> svc_store s' = svc_store s \<Longrightarrow> driver_grows E s s'"
  by (auto simp: driver_grows_def tree_start intro: exI [of _ "[]"])

interpretation driver: contract "driver_ok E" "driver_grows E"
proof
  fix s s' s'' assume "driver_grows E s s'" "driver_grows E s' s''"
  then obtain bs bs' where "persists E bs s s'" "list_all (\<lambda>b. jsonable E (encode_block b)) bs"
    "persists E bs' s' s''" "list_all (\<lambda>b. jsonable E (encode_block b)) bs'"
    "tree_reaches E (svc_tree s) (svc_tree s')" "tree_reaches E (svc_tree s') (svc_tree s'')"
    "genesis_file (svc_store s'') = genesis_file (svc_store s)"
    by (auto simp: driver_grows_def)
  then show "driver_grows E s s''"
    unfolding driver_grows_def
    by (auto intro: tree_reaches_trans intro!: exI [of _ "bs @ bs'"] persists_append simp del: json_ok.simps)
qed (simp add: driver_grows_same)

lemma driver_adds: "jsonable E (encode_tx tx) \<Longrightarrow> ensures (driver_ok E) (driver_grows E) (pool_add E tx)"
  by (rule ensuresI)
    (auto simp: pool_add_def driver_ok_def service_ok_def driver_grows_same simp del: json_ok.simps
      split: sum.splits dest: mempool_add_ok mempool_add_all [where P = "\<lambda>(i, tx). jsonable E (encode_tx tx)"])

lemma vote_jsonable: "vote_tx E v s sh t th n f k = Inr tx \<Longrightarrow> jsonable E (encode_tx tx)"
  by (auto simp: vote_tx_def intro: signed_shape(1))

lemma driver_vote_ok: "ensures (driver_ok E) (driver_grows E) (driver_vote E k)"
  unfolding driver_vote_def
  by (auto split: option.splits prod.splits if_splits
      intro!: driver.ensures_if driver.ensures_eval_then driver_adds vote_jsonable simp del: json_ok.simps)

lemma produced_jsonable:
  assumes s: "driver_ok E s" and b: "next_block E w [(''timestamp'', PInt ts)] now k s = Inr b"
  shows "jsonable E (encode_block b)"
proof -
  let ?c = "svc_chain s"
  have "replay E (svc_tree s) (head_hash (svc_tree s)) ?c"
    using s by (simp add: driver_ok_def service_ok_def tree_ok_def head_ok_def svc_chain_def)
  then obtain g where "pos_reachable E g ?c" using replay_reachable by blast
  then have "int_index (index (head ?c))" using heights_ok_last [OF reachable_heights] by (simp add: head_def)
  then have succ: "py_succ E (index (head ?c)) = Inr (PInt (the_int (index (head ?c)) + 1))" by (rule py_succ_int)
  have "jsonable E (encode_tx tx)" if "tx \<in> set (select (svc_mempool s) ?c (unbonding_blocks ?c) MAX_TXS_PER_BLOCK)" for tx
  proof -
    have "0 \<le> tx_fee t" if "t \<in> snd ` set (pool (svc_mempool s))" for t
      using s that is_valid_nonneg by (fastforce simp: driver_ok_def service_ok_def pool_ok_def list_all_iff)
    from select_set [OF this that] s show ?thesis by (auto simp: driver_ok_def list_all_iff simp del: json_ok.simps)
  qed
  with b succ show ?thesis
    by (auto simp: next_block_def Let_def rbind_eq_Inr simp del: json_ok.simps intro: sealed_jsonable split: if_splits)
qed

lemma driver_produces: "ensures (driver_ok E) (driver_grows E) (produce_block E [(''timestamp'', PInt ts)] now k)"
proof (rule ensuresI)
  fix s assume s: "driver_ok E s"
  then have "service_ok E s" by (simp add: driver_ok_def)
  then show "\<exists>s' r. produce_block E [(''timestamp'', PInt ts)] now k s = Some (s', r) \<and> driver_ok E s' \<and> driver_grows E s s'"
  proof (cases rule: produce_block_cases [where params = "[(''timestamp'', PInt ts)]" and now = now and k = k])
    case (produced w b t new m)
    let ?s = "s\<lparr>svc_tree := t, svc_store := append_block E b (svc_store s), svc_mempool := m\<rparr>"
    have "persists E [b] s ?s"
      using produced(4) next_block_decodes [OF produced(3)] by (simp add: persists_def block_text_append)
    with tree_add [OF tree_start produced(4)] produced_jsonable [OF s produced(3)] have "driver_grows E s ?s"
      by (auto simp: driver_grows_def append_block_def simp del: json_ok.simps intro!: exI [of _ "[b]"])
    moreover have "driver_ok E ?s"
      using s produced(6,7,9) by (auto simp: driver_ok_def service_ok_def list_all_iff simp del: json_ok.simps)
    ultimately show ?thesis using produced(8) by blast
  qed (use s driver.same in auto)
qed

lemma tick_loop_ok: "ensures (driver_ok E) (driver_grows E) (tick_loop E base ks is produced)"
  by (induction "is" arbitrary: produced) (auto intro!: driver_vote_ok driver_produces driver.ensures_if)

text \<open>What a cycle made: each block is by the node's validator, in its tree and, if its hash is new, next on
  the chain; all of them are in the store, in order.\<close>

definition made :: "env \<Rightarrow> wallet \<Rightarrow> block list \<Rightarrow> node_service \<Rightarrow> node_service \<Rightarrow> bool" where
  "made E w bs s s' \<longleftrightarrow> persists E bs s s' \<and> list_all (\<lambda>b. jsonable E (encode_block b)) bs \<and>
     (\<forall>b \<in> set bs. validator b = PStr (address E w)) \<and>
     (distinct (map (block_hash E) bs) \<and> (\<forall>b \<in> set bs. \<not> dhas (weight (svc_tree s)) (block_hash E b)) \<longrightarrow>
        chain (svc_chain s') = chain (svc_chain s) @ bs)"

lemma made_Nil: "svc_tree s' = svc_tree s \<Longrightarrow> svc_store s' = svc_store s \<Longrightarrow> made E w [] s s'"
  by (simp add: made_def persists_def svc_chain_def block_lines_def)

lemma made_Cons:
  assumes "made E w [b] s s1" "made E w bs s1 s'"
    and "\<And>h. dhas (weight (svc_tree s1)) h \<Longrightarrow> h = block_hash E b \<or> dhas (weight (svc_tree s)) h"
  shows "made E w (b # bs) s s'"
proof -
  have "persists E (b # bs) s s'" using assms(1,2) persists_append [of E "[b]" s s1 bs s'] by (simp add: made_def)
  then show ?thesis using assms by (fastforce simp: made_def image_iff simp del: json_ok.simps)
qed

lemma driver_vote_frame:
  "driver_vote E k s = Some (s', r) \<Longrightarrow>
   svc_tree s' = svc_tree s \<and> svc_store s' = svc_store s \<and> svc_validator s' = svc_validator s"
  by (auto simp: driver_vote_def mbind_def eval_def attempt_def return_def pool_add_def
      split: option.splits sum.splits prod.splits if_splits)

lemma driver_makes:
  assumes s: "driver_ok E s" and run: "produce_block E [(''timestamp'', PInt ts)] now k s = Some (s', Inr v)"
    and w: "svc_validator s = Some w"
  shows "\<exists>b. made E w [b] s s' \<and> svc_validator s' = Some w \<and>
    (\<forall>h. dhas (weight (svc_tree s')) h \<longrightarrow> h = block_hash E b \<or> dhas (weight (svc_tree s)) h)"
proof -
  have ok: "service_ok E s" using s by (simp add: driver_ok_def)
  then show ?thesis
  proof (cases rule: produce_block_cases [where params = "[(''timestamp'', PInt ts)]" and now = now and k = k])
    case (produced w' b t new m)
    have s': "s' = s\<lparr>svc_tree := t, svc_store := append_block E b (svc_store s), svc_mempool := m\<rparr>" and w': "w' = w"
      using run w produced(1,8) by simp_all
    have b: "validator b = PStr (address E w)" "previous_hash b = PStr (block_hash E (head (svc_chain s)))"
      using produced(3) by (auto simp: next_block_def seal_block_def new_block_def rbind_eq_Inr Let_def w')
    have "replay E (svc_tree s) (head_hash (svc_tree s)) (svc_chain s)" "nodes_ok E (svc_tree s)"
      using ok by (simp_all add: service_ok_def tree_ok_def head_ok_def svc_chain_def)
    then have hd: "head_hash (svc_tree s) = block_hash E (head (svc_chain s))" using node_facts(1) by metis
    have keys: "dhas (weight t) h \<Longrightarrow> h = block_hash E b \<or> dhas (weight (svc_tree s)) h" for h
      using produced(4) add_on_head(2) [OF produced(4) _ b(2) [folded hd]]
      by (cases "dhas (weight (svc_tree s)) (block_hash E b)") (auto simp: add_block_def Let_def)
    have "persists E [b] s s'"
      using produced(4) next_block_decodes [OF produced(3)] by (simp add: s' persists_def block_text_append)
    moreover have "\<not> dhas (weight (svc_tree s)) (block_hash E b) \<Longrightarrow> chain (svc_chain s') = chain (svc_chain s) @ [b]"
      using add_on_head(1) [OF produced(4) _ b(2) [folded hd]] by (simp add: s' svc_chain_def)
    ultimately have "made E w [b] s s'"
      using produced_jsonable [OF s produced(3)] b(1) by (simp add: made_def del: json_ok.simps)
    with keys w show ?thesis by (auto simp: s')
  qed (use run in simp)
qed

lemma tick_loop_made:
  "tick_loop E base ks is n s = Some (s', Inr produced) \<Longrightarrow> driver_ok E s \<Longrightarrow> svc_validator s = Some w \<Longrightarrow>
   \<exists>bs. made E w bs s s' \<and> produced = n + length bs"
proof (induction "is" arbitrary: n s)
  case Nil
  then show ?case using made_Nil by (fastforce simp: return_def)
next
  case (Cons i "is")
  obtain s1 r where v: "driver_vote E (ks (2 * i)) s = Some (s1, r)" "driver_ok E s1"
    using driver_vote_ok Cons.prems(2) by (rule ensuresE)
  note frame = driver_vote_frame [OF v(1)]
  have w1: "svc_validator s1 = Some w" using frame Cons.prems(3) by simp
  from Cons.prems(1) v(1) consider "is_our_turn E s1 = Inr False" "tick_loop E base ks is n s1 = Some (s', Inr produced)"
    | s2 x where "is_our_turn E s1 = Inr True" "produce_block E [(''timestamp'', PInt (base + int i))] base (ks (2 * i + 1)) s1 = Some (s2, Inr x)"
      "tick_loop E base ks is (n + 1) s2 = Some (s', Inr produced)"
    by (auto simp: mbind_def eval_def split: sum.splits option.splits prod.splits if_splits)
  then show ?case
  proof cases
    case 1
    with Cons.IH [OF 1(2) v(2) w1] frame show ?thesis by (simp add: made_def persists_def svc_chain_def)
  next
    case 2
    obtain b where b: "made E w [b] s1 s2" "svc_validator s2 = Some w"
      "\<And>h. dhas (weight (svc_tree s2)) h \<Longrightarrow> h = block_hash E b \<or> dhas (weight (svc_tree s1)) h"
      using driver_makes [OF v(2) 2(2) w1] by blast
    have "driver_ok E s2" using ensuresD [OF driver_produces v(2) 2(2)] by simp
    from Cons.IH [OF 2(3) this b(2)] obtain bs where bs: "made E w bs s2 s'" "produced = n + 1 + length bs" by blast
    have "made E w (b # bs) s1 s'" by (rule made_Cons [OF b(1) bs(1) b(3)])
    then have "made E w (b # bs) s s'" using frame by (simp add: made_def persists_def svc_chain_def)
    with bs(2) show ?thesis by (intro exI [of _ "b # bs"]) simp
  qed
qed

lemma sound_supply:
  assumes "service_ok E svc" shows "pos_total_supply (svc_chain svc) = MAX_SUPPLY_UNITS"
proof -
  have "replay E (svc_tree svc) (head_hash (svc_tree svc)) (svc_chain svc)"
    using assms by (simp add: service_ok_def tree_ok_def head_ok_def svc_chain_def)
  with replay_reachable reachable_inv show ?thesis by blast
qed

lemma status_doc_fields:
  "service_ok E svc \<Longrightarrow> status_doc E now svc = PDict d \<Longrightarrow>
   dget d ''supply_ok'' PNone = PBool True \<and>
   dget d ''finalized_height'' PNone = PInt (finalized_height (svc_tree svc)) \<and>
   dget d ''finalized_hash'' PNone = PStr (finalized_hash (svc_tree svc))"
  using sound_supply [of E svc] by (auto simp: status_doc_def Let_def)

text \<open>A cycle over a store of complete lines: the node boots, the blocks it made are in the store behind
  the old ones, booting on the store gives the tree it reached, and the status is that of this boot.\<close>

lemma tick_reports:
  assumes fl: "\<And>f. printable (float_repr E f)"
    and run: "cmd_tick E sec n base now ks d = Some (d', Inr produced)"
    and stored: "block_text (d_store d) = block_lines E bs0"
    and bs0: "list_all (\<lambda>b. decode_block E (encode_block b) = Inr b \<and> jsonable E (encode_block b)) bs0"
  obtains w svc svc1 svc' bs where "validator_wallet E sec = Inr w" "service_init E (d_store d) (Some w) False None = Some (Inr svc)"
    "made E w bs svc svc1" "produced = length bs" "service_init E (d_store d') None False None = Some (Inr svc')"
    "svc_tree svc' = svc_tree svc1" "tree_reaches E (svc_tree svc) (svc_tree svc')" "service_ok E svc" "service_ok E svc'"
    "block_text (d_store d') = block_lines E (bs0 @ bs)" "d_status d' = Some (status_doc E now svc')"
proof -
  from run obtain w svc svc1 where wallet: "validator_wallet E sec = Inr w"
    and init: "service_init E (d_store d) (Some w) False None = Some (Inr svc)"
    and loop: "tick_loop E base ks [0..<n] 0 svc = Some (svc1, Inr produced)"
    and status: "write_status E now (d\<lparr>d_store := svc_store svc1\<rparr>) = Some (d', Inr ())"
    by (auto simp: cmd_tick_def Let_def split: sum.splits option.splits prod.splits)
  have ok: "service_ok E svc" by (rule service_init_reaches(5) [OF init])
  moreover have "svc_mempool svc = mempool_init" "svc_validator svc = Some w"
    using init unfolding service_init_replays by (metis node_service.select_convs(3), metis node_service.select_convs(4))
  ultimately have dok: "driver_ok E svc" "svc_validator svc = Some w" by (simp_all add: driver_ok_def mempool_init_def)
  obtain bs where bs: "made E w bs svc svc1" "produced = length bs" using tick_loop_made [OF loop dok] by auto
  from ensuresD [OF tick_loop_ok dok(1) loop] have tree: "tree_reaches E (svc_tree svc) (svc_tree svc1)"
    and gf: "genesis_file (svc_store svc1) = genesis_file (d_store d)"
    using service_init_store [OF init] by (auto simp: driver_grows_def)
  have st: "d_store d' = svc_store svc1" using status by (auto simp: write_status_def split: option.splits sum.splits)
  have per: "persists E bs svc svc1" and js: "list_all (\<lambda>b. jsonable E (encode_block b)) bs" using bs(1) by (simp_all add: made_def)
  note again = reboot [OF fl init gf per stored bs0]
  obtain s where s: "service_init E (svc_store svc1) None False None = Some (Inr s)" "svc_tree s = svc_tree svc1"
    using again(2) [OF js] by blast
  have report: "d_status d' = Some (status_doc E now s)" using status by (auto simp: write_status_def s(1))
  show ?thesis
    by (rule that [OF wallet init bs _ s(2) _ ok service_init_reaches(5) [OF s(1)] _ report])
      (use s tree again(1) in \<open>simp_all add: st\<close>)
qed

end
