(* ===== verification/Commands.thy ===== *)
theory Commands
  imports Chain_Driver Tokenomics
begin

text \<open>
  What the command lines and the launch scripts do behind the parsing of their arguments: they unlock a
  validator key, write genesis files, boot a node on its store, and run the loop of a network node.
  Models parts of \<open>node.py\<close>, \<open>p2p.py\<close>, \<open>tokenomics.py\<close>, \<open>run_testnet.py\<close> and \<open>launch_mainnet.py\<close>.

  Shown: a node that others can reach asks for a token; the loop of a network node makes only steps of
  \<open>peer_runs\<close>; the genesis files the scripts write are the same on every node, boot, and elect the
  validator whose key was unlocked.
\<close>

section \<open>Arguments\<close>

text \<open>\<open>int(s)\<close>\<close>

fun dec_groups :: "bool \<Rightarrow> nat \<Rightarrow> string \<Rightarrow> nat option" where
  "dec_groups digit n [] = (if digit then Some n else None)"
| "dec_groups digit n (c # s) =
     (if c = CHR ''_'' then if digit then dec_groups False n s else None
      else if is_digit c then dec_groups True (10 * n + digits_value [c]) s else None)"

definition int10 :: "string \<Rightarrow> int res" where
  "int10 s =
     (let t = int_strip s;
          neg = (take 1 t = ''-'');
          u = (if take 1 t = ''-'' \<or> take 1 t = ''+'' then drop 1 t else t)
      in case dec_groups False 0 u of
           Some n \<Rightarrow> Inr (if neg then - int n else int n)
         | None \<Rightarrow> Inl (ValueError ''invalid literal for int() with base 10''))"

text \<open>\<open>HASH:HEIGHT\<close> and \<open>host:port\<close>; without a colon the first part is empty.\<close>

definition last_colon :: "string \<Rightarrow> string \<times> string" where
  "last_colon s = (case rpartition s of None \<Rightarrow> ([], s) | Some p \<Rightarrow> p)"

fun checkpoint_arg :: "string option \<Rightarrow> (string \<times> int) option res" where
  "checkpoint_arg None = Inr None"
| "checkpoint_arg (Some s) =
     (if s = [] then Inr None
      else rbind (int10 (snd (last_colon s))) (\<lambda>n. Inr (Some (fst (last_colon s), n))))"

text \<open>The key of a validator: from a keystore, or from the secret of the command line, or none.\<close>

definition validator_arg ::
  "env \<Rightarrow> crypto \<Rightarrow> files \<Rightarrow> string option \<Rightarrow> string option \<Rightarrow> string option \<Rightarrow> wallet option client" where
  "validator_arg E C fs passphrase keystore_path inline_secret =
     cbind (case keystore_path of
              Some (p # ps) \<Rightarrow> cbind (resolve_secret E C fs passphrase keystore_path None) (\<lambda>s. Inr (Some s))
            | _ \<Rightarrow> Inr inline_secret) (\<lambda>sec.
     case sec of
       Some (c # cs) \<Rightarrow> cbind (raised (rbind (int16 (c # cs)) (from_secret E))) (\<lambda>w. Inr (Some w))
     | _ \<Rightarrow> Inr None)"

section \<open>Serving\<close>

definition LOOPBACK :: "string list" where
  "LOOPBACK = [''127.0.0.1'', ''localhost'', ''::1'']"

text \<open>\<open>node.py serve\<close>, up to the server it starts: the service, and the token of the server.\<close>

definition node_serve ::
  "env \<Rightarrow> crypto \<Rightarrow> files \<Rightarrow> string option \<Rightarrow> string option \<Rightarrow> string \<Rightarrow> string option \<Rightarrow> string option
   \<Rightarrow> string option \<Rightarrow> bool \<Rightarrow> store \<Rightarrow> (node_service \<times> string option) client option"
where
  "node_serve E C fs passphrase token host keystore_path inline_secret checkpoint auto st =
     (case validator_arg E C fs passphrase keystore_path inline_secret of
        Inl e \<Rightarrow> Some (Inl e)
      | Inr w \<Rightarrow>
          if host \<notin> set LOOPBACK \<and> (token = None \<or> token = Some []) then Some (Inl System_Exit)
          else (case checkpoint_arg checkpoint of
                  Inl e \<Rightarrow> Some (Inl (Python e))
                | Inr cp \<Rightarrow>
                    (case service_init E st w auto cp of
                       None \<Rightarrow> None
                     | Some (Inl e) \<Rightarrow> Some (Inl (Python e))
                     | Some (Inr svc) \<Rightarrow> Some (Inr (svc, token)))))"

text \<open>\<open>p2p.py serve\<close>, up to its loop; \<open>bound\<close> is the address the server is bound to.\<close>

definition p2p_serve ::
  "env \<Rightarrow> crypto \<Rightarrow> files \<Rightarrow> string option \<Rightarrow> string \<Rightarrow> string option \<Rightarrow> string option \<Rightarrow> string option
   \<Rightarrow> string option \<Rightarrow> string list \<Rightarrow> store \<Rightarrow> peer_node client option"
where
  "p2p_serve E C fs passphrase bound keystore_path inline_secret checkpoint advertise seeds st =
     (case validator_arg E C fs passphrase keystore_path inline_secret of
        Inl e \<Rightarrow> Some (Inl e)
      | Inr w \<Rightarrow>
          (case checkpoint_arg checkpoint of
             Inl e \<Rightarrow> Some (Inl (Python e))
           | Inr cp \<Rightarrow>
               (case service_init E st w False cp of
                  None \<Rightarrow> None
                | Some (Inl e) \<Rightarrow> Some (Inl (Python e))
                | Some (Inr svc) \<Rightarrow>
                    (case mapM (\<lambda>a. rbind (int10 (snd (last_colon a))) (\<lambda>n. Inr (fst (last_colon a), n))) seeds of
                       Inl e \<Rightarrow> Some (Inl (Python e))
                     | Inr ps \<Rightarrow>
                         (let adv = (case advertise of Some (c # cs) \<Rightarrow> c # cs | _ \<Rightarrow> bound)
                          in case for_each connect ps (peer_init svc adv) of
                               None \<Rightarrow> None
                             | Some (s, Inl e) \<Rightarrow> Some (Inl (Python e))
                             | Some (s, Inr u) \<Rightarrow> Some (Inr s))))))"

text \<open>One round of its loop: \<open>ups\<close> says which peers answer during each call, \<open>slot\<close> is the time, \<open>k\<close> and
  \<open>k'\<close> are the random numbers of ECDSA.\<close>

definition p2p_round ::
  "env \<Rightarrow> (nat \<Rightarrow> network) \<Rightarrow> int \<Rightarrow> int \<Rightarrow> nat \<Rightarrow> nat \<Rightarrow> (peer_node, unit) proc" where
  "p2p_round E ups slot now k k' =
     mbind (announce (ups 0)) (\<lambda>_.
     mbind (request_sync (ups 1)) (\<lambda>_.
     mbind (tick E (ups 2) slot now k) (\<lambda>_.
     auto_vote E (ups 3) k')))"

section \<open>Genesis files\<close>

text \<open>\<open>node.py init\<close>\<close>

definition node_init :: "env \<Rightarrow> string \<Rightarrow> int \<Rightarrow> int \<Rightarrow> store \<Rightarrow> store res" where
  "node_init E to stake ts =
     write_genesis E ([(to, PInt MAX_SUPPLY_UNITS)], (if stake \<noteq> 0 then [(to, PInt (stake * COIN))] else []),
       PInt ts, [], 0, None, 32)"

text \<open>\<open>tokenomics.py init\<close>: addresses that are not given are those of fresh secrets, which are printed.\<close>

definition fresh_address :: "env \<Rightarrow> nat list \<Rightarrow> string option \<Rightarrow> string client option" where
  "fresh_address E draws given =
     (case given of
        Some a \<Rightarrow> Some (Inr a)
      | None \<Rightarrow> map_option (\<lambda>t. cbind (raised (rbind (int16 t) (from_secret E))) (\<lambda>w. Inr (address E w)))
                 (new_secret E draws))"

definition tokenomics_init ::
  "env \<Rightarrow> nat list \<Rightarrow> nat list \<Rightarrow> nat list \<Rightarrow> string option \<Rightarrow> string option \<Rightarrow> string option
   \<Rightarrow> int \<Rightarrow> int \<Rightarrow> int \<Rightarrow> int \<Rightarrow> int \<Rightarrow> store \<Rightarrow> store client option"
where
  "tokenomics_init E d1 d2 d3 market_given founder_given treasury_given founder_stake cliff duration ub ts st =
     (case (fresh_address E d1 market_given, fresh_address E d2 founder_given, fresh_address E d3 treasury_given) of
        (Some m, Some f, Some t) \<Rightarrow>
          Some (cbind m (\<lambda>market. cbind f (\<lambda>founder. cbind t (\<lambda>treasury.
            cbind (raised (build_genesis market founder founder_stake cliff duration)) (\<lambda>(al, is, gr).
            raised (write_genesis E (al, is, PInt ts, gr, ub, Some treasury, 32) st))))))
      | _ \<Rightarrow> None)"

text \<open>The same genesis into every data directory; the stores written before an exception stay.\<close>

fun write_all :: "env \<Rightarrow> genesis_args \<Rightarrow> store list \<Rightarrow> store list \<times> unit res" where
  "write_all E args [] = ([], Inr ())"
| "write_all E args (s # ss) =
     (case write_genesis E args s of
        Inl e \<Rightarrow> (s # ss, Inl e)
      | Inr s' \<Rightarrow> (let (ss', r) = write_all E args ss in (s' # ss', r)))"

text \<open>\<open>build_genesis\<close> of \<open>run_testnet.py\<close>, with one store for each validator and follower.\<close>

definition testnet_args :: "env \<Rightarrow> wallet list \<Rightarrow> string \<Rightarrow> int \<Rightarrow> int \<Rightarrow> int \<Rightarrow> genesis_args" where
  "testnet_args E vs treasury stake_coins ep ub =
     (let stake = stake_coins * COIN;
          allot = fold (\<lambda>v. AList.update (address E v) (PInt stake)) vs
      in (allot [(treasury, PInt (MAX_SUPPLY_UNITS - int (length vs) * stake))], allot [], PInt 1700000000, [],
          ub, Some treasury, ep))"

definition build_testnet ::
  "env \<Rightarrow> wallet list \<Rightarrow> int \<Rightarrow> int \<Rightarrow> int \<Rightarrow> store list \<Rightarrow> store list \<times> unit res" where
  "build_testnet E vs stake_coins ep ub dirs =
     (case from_secret E 10000 of
        Inl e \<Rightarrow> (dirs, Inl e)
      | Inr t \<Rightarrow> write_all E (testnet_args E vs (address E t) stake_coins ep ub) dirs)"

text \<open>\<open>_gen_keystore\<close> of \<open>launch_mainnet.py\<close>: the files and the address; the random numbers are arguments.\<close>

definition gen_keystore ::
  "env \<Rightarrow> crypto \<Rightarrow> string \<Rightarrow> string \<Rightarrow> nat list \<times> bytes \<times> bytes \<Rightarrow> files \<Rightarrow> (files \<times> string client) option" where
  "gen_keystore E C path passphrase = (\<lambda>(draws, salt, nonce_bytes) fs.
     (case new_secret E draws of
        None \<Rightarrow> None
      | Some t \<Rightarrow>
          (case encrypt_secret C salt nonce_bytes t passphrase of
             Inl e \<Rightarrow> Some (fs, Inl (Python e))
           | Inr ks \<Rightarrow>
               Some (save_keystore E ks path fs,
                     cbind (raised (rbind (int16 t) (from_secret E))) (\<lambda>w. Inr (address E w))))))"

text \<open>\<open>os.path.join\<close> with a relative second part.\<close>

definition path_join :: "string \<Rightarrow> string \<Rightarrow> string" where
  "path_join d f = (if d = [] \<or> last d = CHR ''/'' then d @ f else d @ ''/'' @ f)"

text \<open>\<open>main\<close> of \<open>launch_mainnet.py\<close>, up to the processes it starts: the keystores, the data directories, and
  the addresses of the market, the treasury and the founder.\<close>

definition launch_genesis ::
  "env \<Rightarrow> crypto \<Rightarrow> string option \<Rightarrow> string \<Rightarrow> nat list \<times> bytes \<times> bytes \<Rightarrow> nat list \<times> bytes \<times> bytes
   \<Rightarrow> nat list \<times> bytes \<times> bytes \<Rightarrow> int \<Rightarrow> int \<Rightarrow> int \<Rightarrow> int \<Rightarrow> int
   \<Rightarrow> files \<Rightarrow> store list \<Rightarrow> (files \<times> store list \<times> (string \<times> string \<times> string) client) option"
where
  "launch_genesis E C passphrase keys r1 r2 r3 founder_stake cliff duration ub ep fs dirs =
     (case passphrase of
        Some (c # cs) \<Rightarrow>
          (case gen_keystore E C (path_join keys ''market.json'') (c # cs) r1 fs of
             None \<Rightarrow> None
           | Some (fs1, Inl e) \<Rightarrow> Some (fs1, dirs, Inl e)
           | Some (fs1, Inr market) \<Rightarrow>
          (case gen_keystore E C (path_join keys ''treasury.json'') (c # cs) r2 fs1 of
             None \<Rightarrow> None
           | Some (fs2, Inl e) \<Rightarrow> Some (fs2, dirs, Inl e)
           | Some (fs2, Inr treasury) \<Rightarrow>
          (case gen_keystore E C (path_join keys ''founder.json'') (c # cs) r3 fs2 of
             None \<Rightarrow> None
           | Some (fs3, Inl e) \<Rightarrow> Some (fs3, dirs, Inl e)
           | Some (fs3, Inr founder) \<Rightarrow>
               (case build_genesis market founder founder_stake cliff duration of
                  Inl e \<Rightarrow> Some (fs3, dirs, Inl (Python e))
                | Inr (al, is, gr) \<Rightarrow>
                    (case write_all E (al, is, PInt 1700000000, gr, ub, Some treasury, ep) dirs of
                       (dirs', Inl e) \<Rightarrow> Some (fs3, dirs', Inl (Python e))
                     | (dirs', Inr u) \<Rightarrow> Some (fs3, dirs', Inr (market, treasury, founder)))))))
      | _ \<Rightarrow> Some (fs, dirs, Inl System_Exit))"

section \<open>What is served\<close>

lemma node_serve_token:
  "node_serve E C fs passphrase token host keystore_path inline_secret checkpoint auto st = Some (Inr (svc, tok)) \<Longrightarrow>
   host \<notin> set LOOPBACK \<Longrightarrow> \<exists>t. tok = Some t \<and> t \<noteq> []"
  by (cases token) (auto simp: node_serve_def split: sum.splits option.splits if_splits)

lemma p2p_serve_boots:
  assumes "p2p_serve E C fs passphrase bound keystore_path inline_secret checkpoint advertise seeds st = Some (Inr s)"
  shows "\<exists>w cp adv ps. validator_arg E C fs passphrase keystore_path inline_secret = Inr w \<and>
    checkpoint_arg checkpoint = Inr cp \<and> node_boots E st w cp adv ps s"
  using assms unfolding p2p_serve_def node_boots_def Let_def
  by (auto split: sum.splits option.splits prod.splits)

text \<open>A round is four steps of the node, fewer when one of them raises.\<close>

lemma p2p_round_ok: "ensures (peer_ok E) (peer_grows E) (p2p_round E ups slot now k k')"
  unfolding p2p_round_def by (intro peer.ensures_mbind announce_ok request_sync_ok tick_ok auto_vote_ok)

lemma runs_mbind:
  assumes "\<And>s s' r. m s = Some (s', r) \<Longrightarrow> peer_runs E s s'" "\<And>x s s' r. f x s = Some (s', r) \<Longrightarrow> peer_runs E s s'"
    and "mbind m f s = Some (s', r)"
  shows "peer_runs E s s'"
proof -
  obtain s1 q where q: "m s = Some (s1, q)" using assms(3) by (auto simp: mbind_def split: option.splits)
  show ?thesis
  proof (cases q)
    case (Inl e)
    with q assms(1,3) show ?thesis by (auto simp: mbind_def)
  next
    case (Inr x)
    with q assms(3) have "f x s1 = Some (s', r)" by (simp add: mbind_def)
    from peer_runs_trans [OF assms(2) [OF this] assms(1) [OF q]] show ?thesis .
  qed
qed

lemma p2p_round_runs: "p2p_round E ups slot now k k' s = Some (s', r) \<Longrightarrow> peer_runs E s s'"
  unfolding p2p_round_def
  by (erule runs_mbind [rotated 2], (erule run_step [OF run_start step_announce] | erule runs_mbind [rotated 2]
      | erule run_step [OF run_start step_sync] | erule run_step [OF run_start step_slot] | erule run_step [OF run_start step_vote])+)

section \<open>Genesis files boot\<close>

lemma write_all_Inr:
  "write_all E args dirs = (dirs', Inr ()) \<Longrightarrow> d \<in> set dirs' \<Longrightarrow>
   genesis_file d = Some (json_default E True (genesis_payload args)) \<and> (\<exists>d0 \<in> set dirs. blocks_file d = blocks_file d0)"
  by (induction dirs arbitrary: dirs') (auto simp: write_genesis_def split: sum.splits option.splits prod.splits)

lemma write_all_length: "write_all E args dirs = (dirs', r) \<Longrightarrow> length dirs' = length dirs"
  by (induction dirs arbitrary: dirs' r) (auto split: sum.splits prod.splits)

text \<open>A node on a genesis without blocks.\<close>

definition fresh_service :: "store \<Rightarrow> wallet option \<Rightarrow> block_tree \<Rightarrow> node_service" where
  "fresh_service d w t =
     \<lparr>svc_store = d, svc_tree = t, svc_mempool = mempool_init, svc_validator = w, svc_autoproduce = False\<rparr>"

lemma fresh_boots:
  assumes "genesis_file d = Some (json_default E True (genesis_payload args))" "blocks_file d = None"
    and "json_ok reject_float E (genesis_payload args)" "block_tree_init E (sorted_args args) cp = Inr t"
  shows "service_init E d w False cp = Some (Inr (fresh_service d w t))"
proof -
  obtain raw where "genesis_params d = Some (Inr raw)" "typed_args raw = Some (sorted_args args)"
    using written_genesis_params [OF assms(1,3)] by blast
  moreover have "iter_blocks E d = []" using assms(2) by (simp add: iter_blocks_def committed_lines_def)
  ultimately show ?thesis using assms(4) by (simp add: service_init_def fresh_service_def)
qed

lemma genesis_tree: "new_chain E args = Inr g \<Longrightarrow> \<exists>t. block_tree_init E args cp = Inr t \<and> canonical t = g"
  by (simp add: block_tree_init_def Let_def)

lemma genesis_length: "pos_init E al is ts gr ub tr ep = Inr g \<Longrightarrow> length (chain g) = 1"
  by (erule pos_init_Inr) simp

text \<open>On a new chain somebody with stake is elected.\<close>

lemma genesis_elects:
  assumes "new_chain E args = Inr g" "0 < stake_of g a"
  shows "\<exists>v. next_validator E g = Inr v \<and> 0 < stake_of g v"
proof (rule next_validator_total [OF _ _ assms(2)])
  have "pos_reachable E g g" by (rule new_chain_reachable [OF assms(1)])
  then show "pos_inv g" "heights_ok (chain g)" using reachable_inv reachable_heights by blast+
  have "length (chain g) = 1" using assms(1) by (auto simp: new_chain_def genesis_length split: prod.splits)
  then show "int (length (chain g)) < 2 ^ 64" by simp
qed

section \<open>The launch of the main network\<close>

lemma gen_keystore_unlocks:
  assumes "gen_keystore E C path passphrase r fs = Some (fs', Inr a)" "path \<noteq> []"
    and "\<And>key n d. aes_decrypt C key n (aes_encrypt C key n d) = Inr (Some d)"
  shows "\<exists>w. validator_arg E C fs' (Some passphrase) (Some path) None = Inr (Some w) \<and> address E w = a"
proof -
  obtain draws salt nb where r: "r = (draws, salt, nb)" by (cases r)
  obtain t ks where t: "new_secret E draws = Some t" "encrypt_secret C salt nb t passphrase = Inr ks"
    "fs' = save_keystore E ks path fs" "cbind (raised (rbind (int16 t) (from_secret E))) (\<lambda>w. Inr (address E w)) = Inr a"
    using assms(1) by (auto simp: gen_keystore_def r split: option.splits sum.splits)
  obtain s w where w: "int16 t = Inr (int s)" "from_secret E (int s) = Inr w" "length t = 64"
    using new_secret_reads [OF t(1)] by blast
  obtain c cs where t': "t = c # cs" using w(3) by (cases t) auto
  obtain p ps where p: "path = p # ps" using assms(2) by (cases path) auto
  show ?thesis
    using resolve_saved [OF t(1,2) assms(3) assms(2), of fs None] t(4) w
    by (simp add: validator_arg_def t(3) p) (simp add: t')
qed

lemma sorted_pair:
  "sort_key fst [(a, x), (b, y)] = [(a, x), (b, y)] \<or> sort_key fst [(a, x), (b, y)] = [(b, y), (a, x)]"
  by simp

lemma policy_args:
  assumes "build_genesis market founder s cliff duration = Inr (al, is, gr)"
  shows "json_ok reject_float E (genesis_payload (al, is, PInt ts, gr, ub, tr, ep))"
    "\<exists>al'. sorted_args (al, is, PInt ts, gr, ub, tr, ep) = (al', is, PInt ts, gr, ub, tr, ep) \<and> (al' = al \<or> al' = rev al)"
  using assms sorted_pair
  by (auto simp: build_genesis_def Let_def genesis_payload_def sorted_args_def split: if_splits option.splits)

lemma path_join_nonempty: "f \<noteq> [] \<Longrightarrow> path_join d f \<noteq> []"
  by (simp add: path_join_def)

lemma launch_cases:
  assumes "launch_genesis E C (Some passphrase) keys r1 r2 r3 s cliff duration ub ep fs dirs =
      Some (fs', dirs', Inr (market, treasury, founder))"
  obtains fs2 al "is" gr where "gen_keystore E C (path_join keys ''founder.json'') passphrase r3 fs2 = Some (fs', Inr founder)"
    "build_genesis market founder s cliff duration = Inr (al, is, gr)"
    "write_all E (al, is, PInt 1700000000, gr, ub, Some treasury, ep) dirs = (dirs', Inr ())"
  using assms by (auto simp: launch_genesis_def split: list.splits option.splits prod.splits sum.splits)

lemma launched_node:
  assumes run: "launch_genesis E C (Some passphrase) keys r1 r2 r3 s cliff duration ub ep fs dirs =
      Some (fs', dirs', Inr (market, treasury, founder))"
    and law: "\<And>key n d. aes_decrypt C key n (aes_encrypt C key n d) = Inr (Some d)"
    and args: "0 < s" "0 \<le> cliff" "0 < ep" and fresh: "\<forall>d \<in> set dirs. blocks_file d = None" and d: "d \<in> set dirs'"
  obtains w t g where "validator_arg E C fs' (Some passphrase) (Some (path_join keys ''founder.json'')) None = Inr (Some w)"
    "address E w = founder" "service_init E d (Some w) False None = Some (Inr (fresh_service d (Some w) t))"
    "canonical t = g" "is_our_turn E (fresh_service d (Some w) t) = Inr True"
    "balance_of g (PStr market) = MARKET_SUPPLY * COIN"
    "balance_of g (PStr founder) + stake_of g founder = FOUNDER_SUPPLY * COIN" "stake_of g founder = s * COIN"
proof -
  obtain fs2 al "is" gr where ks: "gen_keystore E C (path_join keys ''founder.json'') passphrase r3 fs2 = Some (fs', Inr founder)"
    and bg: "build_genesis market founder s cliff duration = Inr (al, is, gr)"
    and wa: "write_all E (al, is, PInt 1700000000, gr, ub, Some treasury, ep) dirs = (dirs', Inr ())"
    using launch_cases [OF run] .
  let ?args = "(al, is, PInt 1700000000, gr, ub, Some treasury, ep)"
  obtain w where w: "validator_arg E C fs' (Some passphrase) (Some (path_join keys ''founder.json'')) None = Inr (Some w)"
    "address E w = founder"
    using gen_keystore_unlocks [OF ks path_join_nonempty law] by auto
  obtain al' where al': "sorted_args ?args = (al', is, PInt 1700000000, gr, ub, Some treasury, ep)" "al' = al \<or> al' = rev al"
    using policy_args(2) [OF bg] by blast
  obtain g where g: "pos_init E al' is (PInt 1700000000) gr ub (Some treasury) ep = Inr g"
    "balance_of g (PStr market) = MARKET_SUPPLY * COIN" "balance_of g (PStr founder) + stake_of g founder = FOUNDER_SUPPLY * COIN"
    "stakes (pos g) = (if s \<noteq> 0 then [(founder, s * COIN)] else [])"
    using build_genesis_accepted [OF bg args(2,3) al'(2), of E "PInt 1700000000" ub "Some treasury"]
    unfolding balance_of_def by blast
  have st: "stake_of g a = (if a = founder then s * COIN else 0)" for a
    using g(4) args(1) by (simp add: stake_of_def)
  have new: "new_chain E (sorted_args ?args) = Inr g" using g(1) by (simp add: new_chain_def al'(1))
  obtain t where tree: "block_tree_init E (sorted_args ?args) None = Inr t" and t: "canonical t = g"
    using genesis_tree [OF new] by blast
  have "genesis_file d = Some (json_default E True (genesis_payload ?args))" "blocks_file d = None"
    using write_all_Inr [OF wa d] fresh by auto
  note boot = fresh_boots [OF this policy_args(1) [OF bg] tree]
  have "0 < s * COIN" using args(1) COIN_pos by simp
  then obtain v where "next_validator E g = Inr v" "0 < stake_of g v"
    using genesis_elects [OF new, of founder] by (auto simp: st)
  then have "next_validator E g = Inr founder" by (simp add: st split: if_splits)
  then have "is_our_turn E (fresh_service d (Some w) t) = Inr True"
    by (simp add: is_our_turn_def fresh_service_def svc_chain_def t w(2))
  from that [OF w boot t this g(2,3)] st [of founder] show ?thesis by simp
qed

lemma raised_Inr: "raised r = Inr x \<longleftrightarrow> r = Inr x"
  by (cases r) simp_all

text \<open>What \<open>tokenomics.py init\<close> writes boots with the split, too.\<close>

lemma tokenomics_boots:
  assumes run: "tokenomics_init E d1 d2 d3 mg fg tg s cliff duration ub ts st = Some (Inr st')"
    and cliff: "0 \<le> cliff" and fresh: "blocks_file st = None"
  shows "\<exists>market founder t. service_init E st' w False None = Some (Inr (fresh_service st' w t)) \<and>
    fresh_address E d1 mg = Some (Inr market) \<and> fresh_address E d2 fg = Some (Inr founder) \<and>
    balance_of (canonical t) (PStr market) = MARKET_SUPPLY * COIN \<and>
    balance_of (canonical t) (PStr founder) + stake_of (canonical t) founder = FOUNDER_SUPPLY * COIN"
proof -
  obtain market founder treasury al "is" gr where addrs: "fresh_address E d1 mg = Some (Inr market)"
    "fresh_address E d2 fg = Some (Inr founder)"
    and bg: "build_genesis market founder s cliff duration = Inr (al, is, gr)"
    and wg: "write_genesis E (al, is, PInt ts, gr, ub, Some treasury, 32) st = Inr st'"
    using run by (auto simp: tokenomics_init_def cbind_def raised_Inr split: option.splits sum.splits)
  let ?args = "(al, is, PInt ts, gr, ub, Some treasury, 32)"
  obtain al' where al': "sorted_args ?args = (al', is, PInt ts, gr, ub, Some treasury, 32)" "al' = al \<or> al' = rev al"
    using policy_args(2) [OF bg] by blast
  obtain g where g: "pos_init E al' is (PInt ts) gr ub (Some treasury) 32 = Inr g"
    "balance_of g (PStr market) = MARKET_SUPPLY * COIN" "balance_of g (PStr founder) + stake_of g founder = FOUNDER_SUPPLY * COIN"
    using build_genesis_accepted [OF bg cliff _ al'(2), of 32 E "PInt ts" ub "Some treasury"]
    unfolding balance_of_def by auto
  have "new_chain E (sorted_args ?args) = Inr g" using g(1) by (simp add: new_chain_def al'(1))
  then obtain t where t: "block_tree_init E (sorted_args ?args) None = Inr t" "canonical t = g"
    using genesis_tree by blast
  have "genesis_file st' = Some (json_default E True (genesis_payload ?args))" "blocks_file st' = None"
    using wg fresh by (auto simp: write_genesis_def split: option.splits)
  from fresh_boots [OF this policy_args(1) [OF bg] t(1)] addrs g(2,3) t(2) show ?thesis by blast
qed

section \<open>The test network\<close>

lemma init_stakes_all:
  assumes "distinct (map fst xs)" "\<And>a x. (a, x) \<in> set xs \<Longrightarrow> x = PInt n \<and> dget bal (PStr a) 0 = n \<and> dhas bal (PStr a)"
    and "0 < n" "\<And>a. a \<in> fst ` set xs \<Longrightarrow> \<not> dhas stk a"
  shows "\<exists>bal' stk'. init_stakes xs bal stk = Inr (bal', stk') \<and>
    (\<forall>a. dget stk' a 0 = (if a \<in> fst ` set xs then n else dget stk a 0))"
  using assms
proof (induction xs arbitrary: bal stk)
  case (Cons p xs)
  obtain a x where p: "p = (a, x)" by (cases p)
  have x: "x = PInt n" "dget bal (PStr a) 0 = n" "dhas bal (PStr a)" using Cons.prems(2) [of a x] by (simp_all add: p)
  let ?bal = "AList.update (PStr a) 0 bal" and ?stk = "AList.update a n stk"
  have "\<exists>bal' stk'. init_stakes xs ?bal ?stk = Inr (bal', stk') \<and>
      (\<forall>b. dget stk' b 0 = (if b \<in> fst ` set xs then n else dget ?stk b 0))"
  proof (rule Cons.IH)
    show "distinct (map fst xs)" using Cons.prems(1) by simp
    fix b y assume b: "(b, y) \<in> set xs"
    then have "b \<noteq> a" using Cons.prems(1) by (force simp: p)
    with Cons.prems(2) [of b y] b show "y = PInt n \<and> dget ?bal (PStr b) 0 = n \<and> dhas ?bal (PStr b)"
      by (simp add: p)
  next
    fix b assume b: "b \<in> fst ` set xs"
    then have "b \<noteq> a" using Cons.prems(1) by (force simp: p)
    with Cons.prems(4) [of b] b show "\<not> dhas ?stk b" by (simp add: p)
  qed (rule Cons.prems(3))
  moreover have "dlookup bal (PStr a) = Inr n" using x(2,3) Cons.prems(3) by (auto simp: dlookup_def dget_def dhas_def split: option.splits)
  moreover have "dget stk a 0 = 0" using Cons.prems(4) [of a] by (auto simp: p dget_not_dhas)
  ultimately show ?case using x(1,2) Cons.prems(1,3) by (fastforce simp: p)
qed simp

lemma sum_list_sort: "sum_list (map h (sort_key f xs)) = (sum_list (map h xs) :: int)"
  by (metis mset_map mset_sort sum_mset_sum_list)

lemma genesis_balance:
  assumes "distinct (map fst al)" "(a, PInt n) \<in> set al"
  shows "dget (map (map_prod PStr the_int) al) (PStr a) 0 = n" "dhas (map (map_prod PStr the_int) al) (PStr a)"
proof -
  have "distinct (map fst (map (map_prod PStr the_int) al))"
    using assms(1) by (simp add: comp_def distinct_map inj_on_def)
  moreover have mem: "(PStr a, n) \<in> set (map (map_prod PStr the_int) al)" using assms(2) by force
  ultimately have "map_of (map (map_prod PStr the_int) al) (PStr a) = Some n" by (rule map_of_is_SomeI)
  then show "dget (map (map_prod PStr the_int) al) (PStr a) 0 = n" by (simp add: dget_def)
  show "dhas (map (map_prod PStr the_int) al) (PStr a)" unfolding dhas_def using mem by force
qed

lemma distinct_sort_fst: "distinct (map fst (sort_key f xs)) \<longleftrightarrow> distinct (map fst xs)"
  by (metis mset_eq_imp_distinct_iff mset_map mset_sort)

lemma testnet_accepted:
  fixes ub :: int
  assumes "distinct (treasury # map (address E) vs)" "0 < stake_coins" "int (length vs) * stake_coins \<le> MAX_SUPPLY" "0 < ep"
  defines "args \<equiv> testnet_args E vs treasury stake_coins ep ub"
  shows "json_ok reject_float E (genesis_payload args)"
    "\<exists>g. new_chain E (sorted_args args) = Inr g \<and>
      (\<forall>a. stake_of g a = (if a \<in> address E ` set vs then stake_coins * COIN else 0))"
proof -
  let ?n = "stake_coins * COIN" and ?is = "map (\<lambda>v. (address E v, PInt (stake_coins * COIN))) vs"
  let ?al = "(treasury, PInt (MAX_SUPPLY_UNITS - int (length vs) * ?n)) # ?is"
  have args: "args = (?al, ?is, PInt 1700000000, [], ub, Some treasury, ep)"
    using assms(1) fold_update_new [of "address E" vs "[(treasury, PInt (MAX_SUPPLY_UNITS - int (length vs) * ?n))]" "\<lambda>_. PInt ?n"]
      fold_update_new [of "address E" vs "[]" "\<lambda>_. PInt ?n"]
    by (force simp: args_def testnet_args_def Let_def)
  have n: "0 < ?n" using assms(2) COIN_pos by simp
  have "int (length vs) * stake_coins * COIN \<le> MAX_SUPPLY * COIN" using assms(3) COIN_pos by (intro mult_right_mono) simp_all
  then have left: "0 \<le> MAX_SUPPLY_UNITS - int (length vs) * ?n" by (simp add: MAX_SUPPLY_UNITS_def mult.assoc)
  show "json_ok reject_float E (genesis_payload args)"
    using assms(1) by (simp add: args genesis_payload_def comp_def list_all_iff)
  let ?sal = "sort_key fst ?al" and ?sis = "sort_key fst ?is"
  have sorted: "sorted_args args = (?sal, ?sis, PInt 1700000000, [], ub, Some treasury, ep)"
    by (simp add: args sorted_args_def comp_def map_prod_def)
  have dist: "distinct (map fst ?sal)" "distinct (map fst ?sis)"
    unfolding distinct_sort_fst using assms(1) by (simp_all add: comp_def)
  have sets: "set ?sal = set ?al" "set ?sis = set ?is" by (simp_all only: set_sort)
  have "dall is_units ?sal" unfolding dall_def list_all_iff sets using n left by (auto simp: is_units_iff)
  moreover have "dsum (map (map_prod PStr the_int) ?sal) = MAX_SUPPLY_UNITS"
  proof -
    have "dsum (map (map_prod PStr the_int) ?sal) = sum_list (map (\<lambda>p. the_int (snd p)) ?sal)"
      by (simp add: dsum_def comp_def)
    also have "\<dots> = sum_list (map (\<lambda>p. the_int (snd p)) ?al)" by (rule sum_list_sort)
    finally show ?thesis by (simp add: comp_def sum_list_triv)
  qed
  ultimately obtain b where b: "blockchain_init E ?sal (PInt 1700000000) = Inr b" "balances b = map (map_prod PStr the_int) ?sal"
    using blockchain_init_Inr by blast
  have "\<exists>bal' stk'. init_stakes ?sis (balances b) [] = Inr (bal', stk') \<and>
      (\<forall>a. dget stk' a 0 = (if a \<in> fst ` set ?sis then ?n else dget [] a 0))"
  proof (rule init_stakes_all [OF dist(2) _ n])
    fix a x assume "(a, x) \<in> set ?sis"
    then have "x = PInt ?n" "(a, PInt ?n) \<in> set ?sal" unfolding sets by auto
    with genesis_balance [OF dist(1)] show "x = PInt ?n \<and> dget (balances b) (PStr a) 0 = ?n \<and> dhas (balances b) (PStr a)"
      by (simp add: b(2))
  qed simp
  then obtain bal stk where s: "init_stakes ?sis (balances b) [] = Inr (bal, stk)"
    "\<forall>a. dget stk a 0 = (if a \<in> address E ` set vs then ?n else 0)"
    by (auto simp: image_image)
  show "\<exists>g. new_chain E (sorted_args args) = Inr g \<and> (\<forall>a. stake_of g a = (if a \<in> address E ` set vs then ?n else 0))"
    using b(1) s assms(4) by (simp add: sorted new_chain_def pos_init_def Let_def stake_of_def)
qed

lemma testnet_nodes:
  assumes run: "build_testnet E vs stake_coins ep ub dirs = (dirs', Inr ())" and t0: "from_secret E 10000 = Inr w0"
    and args: "distinct (address E w0 # map (address E) vs)" "0 < stake_coins" "int (length vs) * stake_coins \<le> MAX_SUPPLY" "0 < ep"
    and fresh: "\<forall>d \<in> set dirs. blocks_file d = None" and vs: "vs \<noteq> []"
  shows "\<exists>t v. v \<in> set vs \<and>
    (\<forall>d \<in> set dirs'. \<forall>w. service_init E d w False None = Some (Inr (fresh_service d w t))) \<and>
    (\<forall>d u. is_our_turn E (fresh_service d (Some u) t) = Inr (address E u = address E v)) \<and>
    (\<forall>u \<in> set vs. stake_of (canonical t) (address E u) = stake_coins * COIN)"
proof -
  let ?args = "testnet_args E vs (address E w0) stake_coins ep ub"
  have wa: "write_all E ?args dirs = (dirs', Inr ())" using run by (simp add: build_testnet_def t0)
  obtain g where g: "new_chain E (sorted_args ?args) = Inr g"
    "\<And>a. stake_of g a = (if a \<in> address E ` set vs then stake_coins * COIN else 0)"
    using testnet_accepted(2) [OF args] by blast
  obtain t where t: "block_tree_init E (sorted_args ?args) None = Inr t" "canonical t = g" using genesis_tree [OF g(1)] by blast
  have "0 < stake_of g (address E (hd vs))" using vs args(2) COIN_pos by (simp add: g(2))
  then obtain a where a: "next_validator E g = Inr a" "0 < stake_of g a" using genesis_elects [OF g(1)] by blast
  then obtain v where v: "v \<in> set vs" "a = address E v" by (auto simp: g(2) split: if_splits)
  have "service_init E d w False None = Some (Inr (fresh_service d w t))" if "d \<in> set dirs'" for d w
  proof -
    have "genesis_file d = Some (json_default E True (genesis_payload ?args))" "blocks_file d = None"
      using write_all_Inr [OF wa that] fresh by auto
    from fresh_boots [OF this testnet_accepted(1) [OF args] t(1)] show ?thesis .
  qed
  moreover have "is_our_turn E (fresh_service d (Some u) t) = Inr (address E u = address E v)" for d u
    using a(1) by (auto simp: is_our_turn_def fresh_service_def svc_chain_def t(2) v(2))
  moreover have "\<forall>u \<in> set vs. stake_of (canonical t) (address E u) = stake_coins * COIN" by (simp add: t(2) g(2))
  ultimately show ?thesis using v(1) by blast
qed

end
