(* ===== verification/Dict_Order.thy ===== *)
theory Dict_Order
  imports Signing Tokenomics Storage
begin

text \<open>
  The order of a dictionary does not matter. A node that reads the genesis file gets its addresses
  sorted, the program that wrote the file had them in an order of its own; the two chains hold the
  same dictionaries, accept the same blocks and stay the same. \<open>same_chain\<close> is that relation: equal
  but for the order of balances, nonces, stakes and grants. Every hook of \<open>consensus.py\<close> respects
  it, errors included.
\<close>

section \<open>Equal dictionaries\<close>

definition same_dict :: "('k \<times> 'v) list \<Rightarrow> ('k \<times> 'v) list \<Rightarrow> bool" where
  "same_dict d e \<longleftrightarrow> wf_dict d \<and> wf_dict e \<and> map_of d = map_of e"

lemma same_dict_refl: "wf_dict d \<Longrightarrow> same_dict d d"
  by (simp add: same_dict_def)

lemma same_dict_get:
  assumes "same_dict d e"
  shows "map_of e = map_of d" "dget e = dget d" "dhas e = dhas d" "dlookup e = dlookup d"
  using assms by (auto simp: same_dict_def dget_def dlookup_def dhas_iff_map_of fun_eq_iff)

lemma same_dict_mset: "same_dict d e \<Longrightarrow> mset e = mset d"
proof -
  assume d: "same_dict d e"
  then have "set e = set d" using map_of_inject_set [of e d] by (simp add: same_dict_def wf_dict_def)
  with d show ?thesis
    by (subst set_eq_iff_mset_eq_distinct [symmetric]) (auto simp: same_dict_def wf_dict_def distinct_map)
qed

lemma same_dict_perm: "mset e = mset d \<Longrightarrow> wf_dict d \<Longrightarrow> same_dict d e"
proof -
  assume m: "mset e = mset d" and d: "wf_dict d"
  have "mset (map fst e) = mset (map fst d)" using m by simp
  with d have e: "distinct (map fst e)" unfolding wf_dict_def by (metis mset_eq_imp_distinct_iff)
  have "set e = set d" using m by (metis set_mset_mset)
  with d e show ?thesis unfolding same_dict_def wf_dict_def using map_of_inject_set by metis
qed

lemma same_dict_sums:
  assumes "same_dict d e"
  shows "dsum e = dsum d" "length e = length d" "dall P e = dall P d"
    "dsum (filter Q e) = dsum (filter Q d)" "sort (map f (filter Q e)) = sort (map f (filter Q d))"
proof -
  note m = same_dict_mset [OF assms]
  have "mset (filter Q e) = mset (filter Q d)" by (simp add: m)
  then show "dsum (filter Q e) = dsum (filter Q d)" unfolding dsum_def by (metis mset_map sum_mset_sum_list)
  show "sort (map f (filter Q e)) = sort (map f (filter Q d))"
    by (rule properties_for_sort) (simp_all add: m)
  show "dsum e = dsum d" unfolding dsum_def by (metis m mset_map sum_mset_sum_list)
  show "length e = length d" by (rule mset_eq_length [OF m])
  show "dall P e = dall P d" using m by (simp add: dall_def list_all_iff) (metis m set_mset_mset)
qed

lemma same_dict_update: "same_dict d e \<Longrightarrow> same_dict (AList.update k x d) (AList.update k x e)"
  by (simp add: same_dict_def update_conv' fun_eq_iff)

lemma same_dict_delete: "same_dict d e \<Longrightarrow> same_dict (AList.delete k d) (AList.delete k e)"
  by (simp add: same_dict_def delete_conv' fun_eq_iff)

lemma same_dict_setdefault: "same_dict d e \<Longrightarrow> same_dict (dsetdefault d k x) (dsetdefault e k x)"
  by (simp add: dsetdefault_def same_dict_get(3) same_dict_update)

named_theorems same_intros \<open>operations that respect equality of dictionaries\<close>

declare same_dict_update [same_intros] same_dict_delete [same_intros] same_dict_setdefault [same_intros]

text \<open>The stake snapshots by checkpoint.\<close>

definition same_snapshots :: "(string \<times> stake_map) list \<Rightarrow> (string \<times> stake_map) list \<Rightarrow> bool" where
  "same_snapshots = list_all2 (\<lambda>p q. fst p = fst q \<and> same_dict (snd p) (snd q))"

lemma same_snapshots_update:
  "same_snapshots f g \<Longrightarrow> same_dict d e \<Longrightarrow> same_snapshots (AList.update k d f) (AList.update k e g)"
  unfolding same_snapshots_def by (induction rule: list_all2_induct) auto

lemma same_snapshots_get:
  "same_snapshots f g \<Longrightarrow> dhas g = dhas f \<and> (\<forall>s. same_dict (dget f s []) (dget g s []))"
  unfolding same_snapshots_def
proof (induction rule: list_all2_induct)
  case (Cons p f q g)
  then show ?case by (cases p; cases q) (auto simp: dhas_def fun_eq_iff)
qed (simp add: same_dict_def)

section \<open>Results\<close>

abbreviation same_res :: "('a \<Rightarrow> 'b \<Rightarrow> bool) \<Rightarrow> 'a res \<Rightarrow> 'b res \<Rightarrow> bool" where
  "same_res R \<equiv> rel_sum (=) R"

lemma same_res_bind:
  "same_res R m n \<Longrightarrow> (\<And>x y. R x y \<Longrightarrow> same_res S (f x) (g y)) \<Longrightarrow> same_res S (rbind m f) (rbind n g)"
  by (cases m; cases n) auto

lemma same_res_refl_bind:
  "(\<And>x. m = Inr x \<Longrightarrow> same_res S (f x) (g x)) \<Longrightarrow> same_res S (rbind m f) (rbind m g)"
  by (cases m) auto

lemma same_res_if:
  "(b \<Longrightarrow> same_res R m n) \<Longrightarrow> (\<not> b \<Longrightarrow> same_res R m' n') \<Longrightarrow> same_res R (if b then m else m') (if b then n else n')"
  by simp

lemma same_res_Inr: "same_res R (Inr x) (Inr y) \<longleftrightarrow> R x y" "same_res R (Inl e) (Inl e)"
  by simp_all

section \<open>Equal working copies and chains\<close>

definition same_aux :: "pos_aux \<Rightarrow> pos_aux \<Rightarrow> bool" where
  "same_aux x y \<longleftrightarrow> same_dict (stakes x) (stakes y) \<and> same_snapshots (ffg_stake x) (ffg_stake y) \<and>
     unbonding y = unbonding x \<and> slashed y = slashed x \<and> slashed_addrs y = slashed_addrs x \<and>
     ffg_height y = ffg_height x \<and> ffg_votes y = ffg_votes x \<and> ffg_seen_target y = ffg_seen_target x \<and>
     justified y = justified x \<and> justified_parent y = justified_parent x \<and> finalized y = finalized x"

definition same_work :: "pos_work \<Rightarrow> pos_work \<Rightarrow> bool" where
  "same_work w v \<longleftrightarrow> same_dict (w_balances w) (w_balances v) \<and> same_dict (w_nonces w) (w_nonces v) \<and>
     same_aux (w_aux w) (w_aux v)"

definition same_chain :: "pos_chain \<Rightarrow> pos_chain \<Rightarrow> bool" where
  "same_chain s t \<longleftrightarrow> same_dict (balances s) (balances t) \<and> same_dict (nonces s) (nonces t) \<and>
     chain t = chain s \<and> same_aux (pos s) (pos t) \<and> map_of (vesting t) = map_of (vesting s) \<and>
     unbonding_blocks t = unbonding_blocks s \<and> treasury_address t = treasury_address s \<and> epoch t = epoch s"

lemma same_workD:
  assumes "same_work w v"
  shows "same_dict (w_balances w) (w_balances v)" "same_dict (w_nonces w) (w_nonces v)" "same_aux (w_aux w) (w_aux v)"
    "same_dict (stakes (w_aux w)) (stakes (w_aux v))" "same_snapshots (ffg_stake (w_aux w)) (ffg_stake (w_aux v))"
    "unbonding (w_aux v) = unbonding (w_aux w)" "slashed (w_aux v) = slashed (w_aux w)"
    "slashed_addrs (w_aux v) = slashed_addrs (w_aux w)" "ffg_height (w_aux v) = ffg_height (w_aux w)"
    "ffg_votes (w_aux v) = ffg_votes (w_aux w)" "ffg_seen_target (w_aux v) = ffg_seen_target (w_aux w)"
    "justified (w_aux v) = justified (w_aux w)" "justified_parent (w_aux v) = justified_parent (w_aux w)"
    "finalized (w_aux v) = finalized (w_aux w)"
  using assms by (simp_all add: same_work_def same_aux_def)

lemma same_credit:
  "same_dict d e \<Longrightarrow> same_res same_dict (credit_validator b f d) (credit_validator b f e)"
  unfolding credit_validator_def
  by (rule same_res_refl_bind) (simp add: same_dict_get same_dict_update)

lemma same_base_tx:
  assumes "same_work w v"
  shows "same_res same_work (base_apply_tx s tx b w) (base_apply_tx t tx b v)"
proof -
  note same = same_workD [OF assms]
  show ?thesis
    unfolding base_apply_tx_def Let_def same_dict_get [OF same(1)]
    by (intro same_res_if same_res_refl_bind)
      (auto simp: same_dict_get [OF same_dict_update [OF same(1)]] same_dict_get [OF same_dict_update [OF same(2)]]
        same_work_def same intro!: same_res_bind [OF same_credit] same_intros same)
qed

lemma same_stake_tx:
  assumes "same_work w v"
  shows "same_res same_work (apply_stake s tx b w) (apply_stake t tx b v)"
proof -
  note same = same_workD [OF assms]
  show ?thesis
    unfolding apply_stake_def Let_def same_dict_get [OF same(1)]
    by (intro same_res_if same_res_refl_bind)
      (auto simp: same_work_def same_aux_def same same_dict_get [OF same(4)] intro!: same_res_bind [OF same_credit] same_intros same)
qed

lemma same_unstake_tx:
  assumes "same_work w v" "unbonding_blocks t = unbonding_blocks s"
  shows "same_res same_work (apply_unstake s tx b w) (apply_unstake t tx b v)"
proof -
  note same = same_workD [OF assms(1)]
  have upd: "dget (AList.update k x (stakes (w_aux v))) = dget (AList.update k x (stakes (w_aux w)))"
    "length (AList.update k x (stakes (w_aux v))) = length (AList.update k x (stakes (w_aux w)))"
    "dget (AList.update l y (w_balances v)) = dget (AList.update l y (w_balances w))" for k l x y
    using same_dict_get(2) same_dict_sums(2) same_dict_update [OF same(4)] same_dict_update [OF same(1)] by blast+
  show ?thesis
    unfolding apply_unstake_def Let_def same_dict_get [OF same(1)] same_dict_get [OF same(4)] same(6) upd assms(2)
    by (intro same_res_if same_res_refl_bind same_res_bind [OF same_credit])
      (auto simp: same_work_def same_aux_def same intro!: same_intros same)
qed

lemma same_record_vote:
  assumes "same_aux x y" "epoch t = epoch s"
  shows "same_aux (record_vote s a v x) (record_vote t a v y)"
proof -
  obtain c ch d dh where v: "v = (c, ch, d, dh)" by (cases v)
  have sn: "same_dict (dget (ffg_stake x) c []) (dget (ffg_stake y) c [])"
    using assms(1) same_snapshots_get by (auto simp: same_aux_def)
  have "supermajority (dget (ffg_stake y) c []) out vs = supermajority (dget (ffg_stake x) c []) out vs" for out vs
    by (simp add: supermajority_def quorum_stake_def voted_stake_def same_dict_sums(4) [OF sn] same_dict_get(2) [OF sn])
  with assms show ?thesis by (simp add: record_vote_def v same_aux_def Let_def)
qed

lemma same_vote_tx:
  assumes "same_work w v" "epoch t = epoch s"
  shows "same_res same_work (apply_vote E s tx b w) (apply_vote E t tx b v)"
proof -
  note same = same_workD [OF assms(1)]
  have sn: "dhas (ffg_stake (w_aux v)) = dhas (ffg_stake (w_aux w))"
    "dget (dget (ffg_stake (w_aux v)) c []) = dget (dget (ffg_stake (w_aux w)) c [])" for c
    using same_snapshots_get [OF same(5)] same_dict_get(2) by blast+
  have check: "check_vote t (w_aux v) = check_vote s (w_aux w)"
    by (intro ext) (simp only: check_vote_def sn same(8,9,11,13) assms(2))
  show ?thesis
    unfolding apply_vote_def Let_def same_dict_get [OF same(1)] check
    by (intro same_res_if same_res_refl_bind same_res_bind [OF same_credit])
      (auto simp: same_work_def same same_record_vote [OF same(3) assms(2)] intro!: same_intros same)
qed

lemma same_slash_tx:
  assumes "same_work w v" "treasury_address t = treasury_address s"
  shows "same_res same_work (apply_slash E s tx b w) (apply_slash E t tx b v)"
proof (cases "treasury_address s")
  case (Some a)
  note same = same_workD [OF assms(1)]
  show ?thesis
    unfolding apply_slash_def Let_def same_dict_get [OF same(1)] same_dict_get [OF same(4)] same(6,7) assms(2) Some option.case case_prod_beta
    by (intro same_res_if same_res_refl_bind same_res_bind [OF same_credit])
      (auto simp: same_work_def same_aux_def same same_dict_get intro!: same_intros same)
qed (simp add: apply_slash_def assms(2))

section \<open>Blocks\<close>

lemma same_mature_entries:
  "same_dict d e \<Longrightarrow> same_dict (fst (mature_entries h a q d)) (fst (mature_entries h a q e)) \<and>
     snd (mature_entries h a q e) = snd (mature_entries h a q d)"
proof (induction h a q d arbitrary: e rule: mature_entries.induct)
  case (2 h a amt bond_h release_h q d)
  show ?case
    using "2.IH"(1) [OF _ same_dict_update [OF "2.prems"]] "2.IH"(2) [OF _ "2.prems"]
    by (simp add: same_dict_get(2) [OF "2.prems"] case_prod_beta)
qed simp

lemma same_mature:
  "same_dict d e \<Longrightarrow> same_dict (fst (mature h u d)) (fst (mature h u e)) \<and> snd (mature h u e) = snd (mature h u d)"
proof (induction h u d arbitrary: e rule: mature.induct)
  case (2 h a q u d)
  obtain d1 q' where d: "mature_entries h a q d = (d1, q')" by fastforce
  obtain e1 where e: "mature_entries h a q e = (e1, q')" "same_dict d1 e1"
    using same_mature_entries [OF "2.prems", of h a q] d by (cases "mature_entries h a q e") simp
  from "2.IH" [OF d [symmetric] refl e(2)] show ?case by (simp add: d e(1) case_prod_beta)
qed simp

lemma same_pre:
  assumes "same_work w v" "epoch t = epoch s"
  shows "same_res same_work (pos_apply_block_pre E s b w) (pos_apply_block_pre E t b v)"
proof -
  note same = same_workD [OF assms(1)]
  obtain d u where d: "mature (the_int (index b)) (unbonding (w_aux w)) (w_balances w) = (d, u)" by fastforce
  obtain e where e: "mature (the_int (index b)) (unbonding (w_aux w)) (w_balances v) = (e, u)" "same_dict d e"
    using same_mature [OF same(1), of "the_int (index b)" "unbonding (w_aux w)"] d
    by (cases "mature (the_int (index b)) (unbonding (w_aux w)) (w_balances v)") simp
  show ?thesis
    using e(2) assms(2) same
    by (simp add: pos_apply_block_pre_def Let_def d e(1) same(6) same_work_def same_aux_def same_snapshots_update)
qed

lemma same_vesting:
  assumes "same_work w v" "map_of (vesting t) = map_of (vesting s)"
  shows "enforce_vesting t a h v = enforce_vesting s a h w"
proof -
  note same = same_workD [OF assms(1)]
  show ?thesis
    by (simp only: enforce_vesting_def assms(2) same(6) same_dict_get [OF same(1)] same_dict_get [OF same(4)])
qed

lemma same_tx:
  assumes "same_work w v" "same_chain s t"
  shows "same_res same_work (pos_apply_tx E s tx b w) (pos_apply_tx E t tx b v)"
proof -
  have t: "map_of (vesting t) = map_of (vesting s)" "unbonding_blocks t = unbonding_blocks s"
    "treasury_address t = treasury_address s" "epoch t = epoch s"
    using assms(2) by (simp_all add: same_chain_def)
  have rest: "same_res same_work (rbind (enforce_vesting s a h w') (\<lambda>_. Inr w')) (rbind (enforce_vesting t a h v') (\<lambda>_. Inr v'))"
    if "same_work w' v'" for a h w' v'
    using that by (simp add: same_vesting [OF that t(1)] same_res_refl_bind)
  show ?thesis
    unfolding pos_apply_tx_def
    by (intro same_res_if same_slash_tx same_vote_tx same_stake_tx same_unstake_tx same_base_tx same_res_bind [where R = same_work, OF _ rest]
        assms(1) t) assumption
qed

lemma same_txs:
  "same_work w v \<Longrightarrow> same_chain s t \<Longrightarrow>
   same_res same_work (apply_txs E (pos_hooks E) s b seen w txs) (apply_txs E (pos_hooks E) t b seen v txs)"
proof (induction txs arbitrary: seen w v)
  case (Cons tx txs)
  note same = same_workD [OF Cons.prems(1)]
  show ?case
    unfolding apply_txs.simps same_dict_get [OF same(2)]
    by (intro same_res_if same_res_refl_bind same_res_bind [OF _ Cons.IH])
      (simp_all add: pos_hooks_def same_tx Cons.prems)
qed simp

lemma same_validators: "same_dict d e \<Longrightarrow> active_validators e = active_validators d"
  by (simp add: active_validators_def same_dict_sums(5))

lemma same_elect: "same_chain s t \<Longrightarrow> elect E t p i = elect E s p i"
proof -
  assume "same_chain s t"
  then have st: "same_dict (stakes (pos s)) (stakes (pos t))" by (simp add: same_chain_def same_aux_def)
  have "pick_validator (stakes (pos t)) x c fin vs = pick_validator (stakes (pos s)) x c fin vs" for x c fin vs
    by (induction vs arbitrary: c) (simp_all add: same_dict_get(2) [OF st] Let_def cong: if_cong)
  then show ?thesis
    by (simp add: elect_def elect_validator_def same_validators [OF st] same_dict_get(2) [OF st] Let_def cong: if_cong)
qed

lemma same_start: "same_chain s t \<Longrightarrow> same_work (start_work (pos_hooks E) s) (start_work (pos_hooks E) t)"
  by (simp add: same_chain_def same_work_def same_aux_def start_work_def pos_hooks_def pos_snapshot_aux_def)

lemma same_commit:
  "same_work w v \<Longrightarrow> same_chain s t \<Longrightarrow> same_chain (commit_work (pos_hooks E) w s) (commit_work (pos_hooks E) v t)"
  by (simp add: same_chain_def same_work_def same_aux_def commit_work_def pos_hooks_def pos_commit_aux_def)

lemma same_supply: "same_work w v \<Longrightarrow> pos_check_supply v = pos_check_supply w"
  using same_workD(1,4,6) [of w v] same_dict_sums(1) [of "w_balances w"] same_dict_sums(1) [of "stakes (w_aux w)"]
  by (simp add: pos_check_supply_def)

theorem same_block:
  assumes "same_chain s t"
  shows "same_res same_chain (submit_block E (pos_hooks E) s b) (submit_block E (pos_hooks E) t b)"
proof -
  have c: "chain t = chain s" "head t = head s" "epoch t = epoch s"
    using assms by (simp_all add: same_chain_def head_def)
  have cp: "check_proposer (pos_hooks E) t b = check_proposer (pos_hooks E) s b"
    by (simp add: pos_hooks_def pos_check_proposer_def same_elect [OF assms])
  have pre: "same_res same_work (apply_block_pre (pos_hooks E) s b (start_work (pos_hooks E) s))
      (apply_block_pre (pos_hooks E) t b (start_work (pos_hooks E) t))"
    using same_pre [OF same_start [OF assms] c(3)] by (simp add: pos_hooks_def)
  have rest: "same_res same_chain (rbind (check_supply (pos_hooks E) w) (\<lambda>_. Inr (commit_work (pos_hooks E) w s)))
      (rbind (check_supply (pos_hooks E) v) (\<lambda>_. Inr (commit_work (pos_hooks E) v t)))" if "same_work w v" for w v
  proof -
    have "check_supply (pos_hooks E) v = check_supply (pos_hooks E) w" using same_supply [OF that] by (simp add: pos_hooks_def)
    then show ?thesis by (simp add: same_res_refl_bind same_commit [OF that assms])
  qed
  have "same_res same_chain (apply_block E (pos_hooks E) s b) (apply_block E (pos_hooks E) t b)"
    unfolding apply_block_def c cp
    by (intro same_res_if same_res_refl_bind same_res_bind [OF pre] same_res_bind [OF same_txs [OF _ assms] rest]) simp_all
  then show ?thesis
    unfolding submit_block_def by (rule same_res_bind) (simp add: same_chain_def same_aux_def)
qed

lemma same_blocks:
  "same_chain s t \<Longrightarrow> same_res same_chain (submit_all E s bs) (submit_all E t bs)"
  by (induction bs arbitrary: s t) (simp, simp, rule same_res_bind [OF same_block])

lemma same_chain_observed:
  assumes "same_chain s t"
  shows "chain t = chain s" "balance_of t = balance_of s" "stake_of t = stake_of s"
    "dget (nonces t) a 0 = dget (nonces s) a 0" "next_validator E t = next_validator E s"
    "finalized_checkpoint t = finalized_checkpoint s"
proof -
  have d: "same_dict (balances s) (balances t)" "same_dict (nonces s) (nonces t)" "same_dict (stakes (pos s)) (stakes (pos t))"
    and c: "chain t = chain s" "finalized (pos t) = finalized (pos s)"
    using assms by (simp_all add: same_chain_def same_aux_def)
  show "chain t = chain s" by (rule c(1))
  show "balance_of t = balance_of s" "stake_of t = stake_of s" "dget (nonces t) a 0 = dget (nonces s) a 0"
    using same_dict_get(2) [OF d(1)] same_dict_get(2) [OF d(2)] same_dict_get(2) [OF d(3)]
    by (auto simp: balance_of_def stake_of_def)
  show "next_validator E t = next_validator E s"
    by (simp add: next_validator_def head_def c(1) same_elect [OF assms])
  show "finalized_checkpoint t = finalized_checkpoint s" by (simp add: finalized_checkpoint_def c(2))
qed

section \<open>Genesis in any order\<close>

lemma same_dictI:
  assumes "wf_dict d" "wf_dict e" "\<And>k. dhas d k \<longleftrightarrow> dhas e k" "\<And>k. dget d k x = dget e k x"
  shows "same_dict d e"
proof -
  have "map_of d k = map_of e k" for k
    using assms(3,4) [of k] by (auto simp: dhas_iff_map_of dget_def split: option.splits)
  with assms(1,2) show ?thesis by (auto simp: same_dict_def)
qed

text \<open>The constructor moves the initial stakes one after the other; with every address once, what it
  checks of one does not depend on the others.\<close>

abbreviation unstaked :: "string \<times> pyval \<Rightarrow> ledger \<Rightarrow> ledger" where
  "unstaked p bal \<equiv> AList.update (PStr (fst p)) (dget bal (PStr (fst p)) 0 - the_int (snd p)) bal"

abbreviation staked :: "string \<times> pyval \<Rightarrow> stake_map \<Rightarrow> stake_map" where
  "staked p stk \<equiv> AList.update (fst p) (dget stk (fst p) 0 + the_int (snd p)) stk"

lemma init_stakes_fold:
  "distinct (map fst xs) \<Longrightarrow>
   init_stakes xs bal stk = Inr r \<longleftrightarrow>
     (\<forall>p \<in> set xs. is_units (snd p) \<and> 0 < the_int (snd p) \<and> the_int (snd p) \<le> dget bal (PStr (fst p)) 0) \<and>
     r = (fold unstaked xs bal, fold staked xs stk)"
proof (induction xs arbitrary: bal stk)
  case (Cons p xs)
  obtain a x where p: "p = (a, x)" by (cases p)
  have key: "fst q \<noteq> a" if "q \<in> set xs" for q using Cons.prems that by (auto simp: p)
  have look: "dlookup bal (PStr a) = Inr (dget bal (PStr a) 0)" if "0 < dget bal (PStr a) 0"
    using that by (auto simp: dlookup_def dget_def split: option.splits)
  have "distinct (map fst xs)" using Cons.prems by simp
  note IH = Cons.IH [OF this, of "unstaked p bal" "staked p stk"]
  show ?case
  proof (cases "is_units x \<and> 0 < the_int x \<and> the_int x \<le> dget bal (PStr a) 0")
    case True
    then have "init_stakes (p # xs) bal stk = init_stakes xs (unstaked p bal) (staked p stk)"
      using look by (simp add: p)
    with IH True key show ?thesis by (fastforce simp: p)
  next
    case False
    then show ?thesis by (auto simp: p is_units_iff rbind_eq_Inr)
  qed
qed auto

lemma dget_unstaked:
  "dget (fold unstaked xs bal) k 0 = dget bal k 0 - sum_list (map (\<lambda>p. the_int (snd p)) (filter (\<lambda>p. PStr (fst p) = k) xs))"
  "dhas (fold unstaked xs bal) k \<longleftrightarrow> (\<exists>p \<in> set xs. k = PStr (fst p)) \<or> dhas bal k"
  "wf_dict bal \<Longrightarrow> wf_dict (fold unstaked xs bal)"
  by (induction xs arbitrary: bal) auto

lemma dget_staked:
  "dget (fold staked xs stk) a 0 = dget stk a 0 + sum_list (map (\<lambda>p. the_int (snd p)) (filter (\<lambda>p. fst p = a) xs))"
  "dhas (fold staked xs stk) a \<longleftrightarrow> (\<exists>p \<in> set xs. a = fst p) \<or> dhas stk a"
  "wf_dict stk \<Longrightarrow> wf_dict (fold staked xs stk)"
  by (induction xs arbitrary: stk) auto

lemma sum_list_perm: "mset xs = mset ys \<Longrightarrow> sum_list (map f xs) = (sum_list (map f ys) :: int)"
  by (metis mset_map sum_mset_sum_list)

lemma same_init_stakes:
  assumes "init_stakes xs bal [] = Inr (bal', stk')" "mset ys = mset xs" "distinct (map fst xs)" "same_dict bal d"
  shows "\<exists>d' e'. init_stakes ys d [] = Inr (d', e') \<and> same_dict bal' d' \<and> same_dict stk' e'"
proof -
  have dist: "distinct (map fst ys)" using assms(2,3) by (metis mset_eq_imp_distinct_iff mset_map)
  have set: "set ys = set xs" using assms(2) by (metis set_mset_mset)
  have f: "mset (filter P ys) = mset (filter P xs)" for P using assms(2) by simp
  note res = init_stakes_fold [OF assms(3), of bal "[]" "(bal', stk')", unfolded assms(1), simplified]
  have "init_stakes ys d [] = Inr (fold unstaked ys d, fold staked ys [])"
    using init_stakes_fold [OF dist, of d "[]"] res by (simp add: set same_dict_get(2) [OF assms(4)])
  moreover have "same_dict bal' (fold unstaked ys d)"
    unfolding res [THEN conjunct2, THEN conjunct1]
    using assms(4) sum_list_perm [OF f]
    by (intro same_dictI [where x = 0]) (auto simp: dget_unstaked same_dict_get [OF assms(4)] set same_dict_def)
  moreover have "same_dict stk' (fold staked ys [])"
    unfolding res [THEN conjunct2, THEN conjunct2]
    using sum_list_perm [OF f]
    by (intro same_dictI [where x = 0]) (auto simp: dget_staked set)
  ultimately show ?thesis by blast
qed

text \<open>The grants are checked against the ledger one by one, too.\<close>

definition grant_ok :: "ledger \<Rightarrow> stake_map \<Rightarrow> string \<times> pyval list \<Rightarrow> bool" where
  "grant_ok bal stk p \<longleftrightarrow> length (snd p) = 4 \<and> list_all is_units (snd p) \<and>
     the_int (snd p ! 0) \<le> dget bal (PStr (fst p)) 0 + dget stk (fst p) 0"

definition grant_of :: "string \<times> pyval list \<Rightarrow> string \<times> int \<times> int \<times> int \<times> int" where
  "grant_of p = (fst p, the_int (snd p ! 0), the_int (snd p ! 1), the_int (snd p ! 2), the_int (snd p ! 3))"

lemma init_vesting_map:
  "init_vesting gs bal stk = Inr v \<longleftrightarrow> (\<forall>p \<in> set gs. grant_ok bal stk p) \<and> v = map grant_of gs"
  by (induction gs arbitrary: v) (fastforce simp: grant_ok_def grant_of_def rbind_eq_Inr split: if_splits)+

theorem same_genesis:
  assumes init: "pos_init E al is ts gr ub tr ep = Inr g"
    and perm: "mset al' = mset al" "mset is' = mset is" "mset gr' = mset gr"
    and keys: "distinct (map fst al)" "distinct (map fst is)" "distinct (map fst gr)"
  shows "\<exists>g'. pos_init E al' is' ts gr' ub tr ep = Inr g' \<and> same_chain g g'"
proof -
  obtain base bal stk c where b: "blockchain_init E al ts = Inr base" "init_stakes is (balances base) [] = Inr (bal, stk)"
    "init_vesting gr bal stk = Inr (vesting g)" "0 < ep" "chain base = [c]"
    and g: "balances g = (case tr of None \<Rightarrow> bal | Some t \<Rightarrow> dsetdefault bal (PStr t) 0)"
    "nonces g = nonces base" "chain g = chain base"
    "pos g = \<lparr>stakes = stk, unbonding = [], slashed = [], slashed_addrs = [],
       ffg_stake = [(block_hash E c, stk)], ffg_height = [(block_hash E c, 0)], ffg_votes = [], ffg_seen_target = [],
       justified = [block_hash E c], justified_parent = [], finalized = (block_hash E c, 0)\<rparr>"
    "unbonding_blocks g = ub" "treasury_address g = tr" "epoch g = ep"
    using pos_init_Inr [OF init] by metis
  let ?amounts = "map (map_prod PStr the_int)"
  have all: "dall is_units al'" "dall is_units al" "dsum (?amounts al') = dsum (?amounts al)"
    using b(1) perm(1) mset_eq_setD [OF perm(1)] sum_list_perm [OF perm(1), of "\<lambda>p. the_int (snd p)"]
    by (auto simp: blockchain_init_def dall_def list_all_iff dsum_def comp_def split: if_splits)
  have bal0: "balances base = ?amounts al" "nonces base = map (\<lambda>p. (fst p, 0)) (?amounts al)"
    "dsum (?amounts al) = MAX_SUPPLY_UNITS"
    using b(1) by (auto simp: blockchain_init_def Let_def new_block_def split: if_splits)
  have wf: "wf_dict (?amounts al)" using keys(1) by (simp add: wf_dict_def comp_def distinct_map inj_on_def)
  then have wf': "wf_dict (map (\<lambda>p. (fst p, 0 :: int)) (?amounts al))" by (simp add: wf_dict_def comp_def)
  have "blockchain_init E al' ts = Inr (base\<lparr>balances := ?amounts al', nonces := map (\<lambda>p. (fst p, 0)) (?amounts al')\<rparr>)"
    using b(1) all bal0(3) by (auto simp: blockchain_init_def Let_def new_block_def dall_def list_all_iff is_units_iff split: if_splits)
  moreover have bal: "same_dict (balances base) (?amounts al')" unfolding bal0(1)
    by (rule same_dict_perm [OF _ wf]) (simp add: perm(1) del: map_map)
  moreover have non: "same_dict (nonces base) (map (\<lambda>p. (fst p, 0)) (?amounts al'))" unfolding bal0(2)
    by (rule same_dict_perm [OF _ wf']) (simp add: perm(1) del: map_map)
  moreover obtain d e where de: "init_stakes is' (?amounts al') [] = Inr (d, e)" "same_dict bal d" "same_dict stk e"
    using same_init_stakes [OF b(2) perm(2) keys(2) bal] by blast
  moreover have "init_vesting gr' d e = Inr (map grant_of gr')"
    using b(3) mset_eq_setD [OF perm(3)]
    by (auto simp: init_vesting_map grant_ok_def same_dict_get(2) [OF de(2)] same_dict_get(2) [OF de(3)])
  moreover have "map_of (map grant_of gr') = map_of (vesting g)"
  proof -
    have v: "vesting g = map grant_of gr" using b(3) by (simp add: init_vesting_map)
    have "wf_dict (map grant_of gr)" using keys(3) by (simp add: wf_dict_def grant_of_def comp_def)
    then have "same_dict (map grant_of gr) (map grant_of gr')" by (rule same_dict_perm [rotated]) (simp add: perm(3))
    then show ?thesis unfolding v by (rule same_dict_get(1))
  qed
  ultimately show ?thesis
    using b(4,5) g by (auto simp: pos_init_def head_def Let_def same_chain_def same_aux_def same_snapshots_def
        intro!: same_intros split: option.splits)
qed

section \<open>What was stored loads back\<close>

lemma in_order_units: "is_units v \<Longrightarrow> in_order srt v = v"
  by (cases v) simp_all

lemma sorted_genesis:
  assumes "new_chain E args = Inr g" "json_ok reject_float E (genesis_payload args)"
    and "in_order True (fst (snd (snd args))) = fst (snd (snd args))"
  shows "\<exists>g'. new_chain E (sorted_args args) = Inr g' \<and> same_chain g g'"
proof -
  obtain al "is" ts gr ub tr ep where args: "args = (al, is, ts, gr, ub, tr, ep)" by (cases args)
  have init: "pos_init E al is ts gr ub tr ep = Inr g" using assms(1) by (simp add: new_chain_def args)
  have keys: "distinct (map fst al)" "distinct (map fst is)" "distinct (map fst gr)"
    using assms(2) by (simp_all add: args genesis_payload_def comp_def)
  obtain base bal stk where b: "blockchain_init E al ts = Inr base" "init_stakes is (balances base) [] = Inr (bal, stk)"
    "init_vesting gr bal stk = Inr (vesting g)" using pos_init_Inr [OF init] by metis
  have "\<forall>p \<in> set al. is_units (snd p)"
    using b(1) by (auto simp: blockchain_init_def dall_def list_all_iff split: if_splits)
  then have al: "map (map_prod id (in_order True)) al = al"
    by (intro map_idI) (auto simp: in_order_units map_prod_def split_def)
  have "\<forall>p \<in> set is. is_units (snd p)" using b(2) by (auto simp: init_stakes_fold [OF keys(2)])
  then have is_: "map (map_prod id (in_order True)) is = is"
    by (intro map_idI) (auto simp: in_order_units map_prod_def split_def)
  have "\<forall>p \<in> set gr. \<forall>x \<in> set (snd p). is_units x" using b(3) by (auto simp: init_vesting_map grant_ok_def list_all_iff)
  then have gr: "map (map_prod id (map (in_order True))) gr = gr"
    by (intro map_idI) (auto simp: in_order_units map_prod_def split_def intro!: map_idI)
  have "sorted_args args = (sort_key fst al, sort_key fst is, ts, sort_key fst gr, ub, tr, ep)"
    using assms(3) by (simp add: sorted_args_def args al is_ gr)
  then show ?thesis
    using same_genesis [OF init _ _ _ keys, of "sort_key fst al" "sort_key fst is" "sort_key fst gr"]
    by (simp add: new_chain_def)
qed

lemma stored_chain_loads:
  assumes fl: "\<And>f. printable (float_repr E f)" and part: "printable part"
    and written: "write_genesis E args \<lparr>genesis_file = None, blocks_file = None\<rparr> = Inr s0"
    and args: "json_ok reject_float E (genesis_payload args)" "in_order True (fst (snd (snd args))) = fst (snd (snd args))"
    and run: "new_chain E args = Inr g" "reaches E (pos_hooks E) g st"
    and js: "list_all (\<lambda>b. jsonable E (encode_block b)) (tl (chain st))"
    and s: "s = fold (append_block E) (tl (chain st)) s0"
  shows "\<exists>st'. load E (s\<lparr>blocks_file := Some ((case blocks_file s of None \<Rightarrow> [] | Some f \<Rightarrow> f) @ part)\<rparr>) = Some (Inr st') \<and>
    same_chain st st'"
proof -
  obtain bs where bs: "submit_all E g bs = Inr st" "chain st = chain g @ bs" using reaches_blocks [OF run(2)] by blast
  obtain al "is" ts gr ub tr ep where "pos_init E al is ts gr ub tr ep = Inr g"
    using run(1) by (auto simp: new_chain_def split: prod.splits)
  then obtain c where "chain g = [c]" using pos_init_Inr by metis
  then have tl: "tl (chain st) = bs" by (simp add: bs(2))
  have "pos_reachable E g st" using run new_chain_reachable [OF run(1)] by (auto simp: pos_reachable_def)
  then have decodes: "\<forall>b \<in> set bs. decode_block E (encode_block b) = Inr b" using reachable_decodes bs(2) by simp
  let ?s = "s\<lparr>blocks_file := Some ((case blocks_file s of None \<Rightarrow> [] | Some f \<Rightarrow> f) @ part)\<rparr>"
  have s0: "s0 = \<lparr>genesis_file = Some (json_default E True (genesis_payload args)), blocks_file = None\<rparr>"
    using written by (simp add: write_genesis_def)
  have gf: "genesis_file ?s = Some (json_default E True (genesis_payload args))"
    unfolding s s0 tl by (induction bs rule: rev_induct) (simp_all add: append_block_def)
  from written_genesis_params [OF this args(1)] obtain raw
    where raw: "genesis_params ?s = Some (Inr raw)" "typed_args raw = Some (sorted_args args)" by auto
  have "blocks_file ?s = Some (concat (map (\<lambda>b. block_line E b @ [newline]) bs) @ part)"
  proof (cases bs)
    case (Cons b bs')
    have "append_block E b s0 = s0\<lparr>blocks_file := Some (block_line E b @ [newline])\<rparr>"
      by (simp add: append_block_def s0 block_line_def)
    then show ?thesis using fold_append [where bs = bs' and s = s0] by (simp add: s tl Cons)
  qed (simp add: s s0 tl)
  from committed_lines_appended [OF fl part this] have lines: "committed_lines ?s = map (block_line E) bs" .
  obtain g' where g': "new_chain E (sorted_args args) = Inr g'" "same_chain g g'"
    using sorted_genesis [OF run(1) args] by blast
  obtain st' where st': "submit_all E g' bs = Inr st'" "same_chain st st'"
    using same_blocks [OF g'(2), of E bs] bs(1) by (cases "submit_all E g' bs") auto
  have "load_lines E g' (map (block_line E) bs) = Inr st'"
    using load_lines_blocks [OF st'(1)] decodes js by (simp add: list_all_iff block_line_reads tl)
  with raw lines g'(1) st'(2) show ?thesis by (simp add: load_def)
qed

text \<open>With no line cut off.\<close>

lemma stored_loads:
  assumes "\<And>f. printable (float_repr E f)"
    and "write_genesis E args \<lparr>genesis_file = None, blocks_file = None\<rparr> = Inr s0"
    and "json_ok reject_float E (genesis_payload args)" "in_order True (fst (snd (snd args))) = fst (snd (snd args))"
    and "new_chain E args = Inr g" "reaches E (pos_hooks E) g st"
    and "list_all (\<lambda>b. jsonable E (encode_block b)) (tl (chain st))"
    and "s = fold (append_block E) (tl (chain st)) s0"
  shows "\<exists>st'. load E s = Some (Inr st') \<and> same_chain st st'"
proof -
  let ?s = "s\<lparr>blocks_file := Some (case blocks_file s of None \<Rightarrow> [] | Some f \<Rightarrow> f)\<rparr>"
  have "committed_lines ?s = committed_lines s" by (simp add: committed_lines_def split: option.split)
  then have "load E ?s = load E s" by (simp only: load_def genesis_params_blocks)
  with stored_chain_loads [OF assms(1) _ assms(2-8), of "[]"] show ?thesis by simp
qed

end
