(* ===== verification/Vote_Live.thy ===== *)
theory Vote_Live
  imports Dict_Order
begin

text \<open>
  Finality votes that arrive: the transactions \<open>_votes\<close> of \<open>finality.py\<close> builds are accepted, all in one
  block, when the link is open and each voter may vote, and they justify the target and finalize the
  source as soon as the stake behind them is a supermajority.
\<close>

section \<open>One vote\<close>

definition votes ::
  "env \<Rightarrow> pos_chain \<Rightarrow> (wallet \<times> nat) list \<Rightarrow> string \<Rightarrow> int \<Rightarrow> string \<Rightarrow> int \<Rightarrow> transaction list res" where
  "votes E st vs s sh t th =
     mapM (\<lambda>(v, k). vote_tx E v s sh t th (dget (nonces st) (PStr (address E v)) 0) 0 k) vs"

text \<open>A link between two checkpoints whose source is justified, and a voter that may still cast it.\<close>

definition link_open :: "pos_chain \<Rightarrow> pos_aux \<Rightarrow> string \<times> int \<times> string \<times> int \<Rightarrow> bool" where
  "link_open st aux = (\<lambda>(s, sh, t, th). 0 \<le> sh \<and> sh < th \<and> sh mod epoch st = 0 \<and> th mod epoch st = 0 \<and>
     map_of (ffg_height aux) s = Some sh \<and> map_of (ffg_height aux) t = Some th \<and>
     dhas (ffg_stake aux) s \<and> dhas (ffg_stake aux) t \<and> s \<in> set (justified_parent aux))"

definition may_vote :: "pos_aux \<Rightarrow> string \<Rightarrow> string \<times> int \<times> string \<times> int \<Rightarrow> bool" where
  "may_vote aux a = (\<lambda>(s, sh, t, th). a \<notin> set (slashed_addrs aux) \<and> 0 < dget (dget (ffg_stake aux) s []) a 0 \<and>
     dget (ffg_seen_target aux) (a, th) (s, t) = (s, t))"

lemma check_vote_ok:
  "link_open st aux (s, sh, t, th) \<Longrightarrow> may_vote aux a (s, sh, t, th) \<Longrightarrow>
   check_vote st aux a \<lparr>link_s = PStr s, link_sh = PInt sh, link_t = PStr t, link_th = PInt th\<rparr> = Inr (s, sh, t, th)"
  by (simp add: link_open_def may_vote_def check_vote_def Let_def dlookup_def)

text \<open>The evidence of a vote.\<close>

definition link_text :: "env \<Rightarrow> string \<Rightarrow> int \<Rightarrow> string \<Rightarrow> int \<Rightarrow> string" where
  "link_text E s sh t th = json_dumps E (PDict [(''s'', PStr s), (''sh'', PInt sh), (''t'', PStr t), (''th'', PInt th)])"

lemma vote_evidence:
  "load_json E (PStr (link_text E s sh t th)) =
     Inr [(''s'', PStr s), (''sh'', PInt sh), (''t'', PStr t), (''th'', PInt th)]"
  "vote_link msg [(''s'', PStr s), (''sh'', PInt sh), (''t'', PStr t), (''th'', PInt th)] =
     Inr \<lparr>link_s = PStr s, link_sh = PInt sh, link_t = PStr t, link_th = PInt th\<rparr>"
  using json_loads_dumps [of E "PDict [(''s'', PStr s), (''sh'', PInt sh), (''t'', PStr t), (''th'', PInt th)]"]
  by (simp_all add: vote_link_def jfield_def link_text_def)

lemma vote_tx_shape:
  assumes "vote_tx E v s sh t th n f k = Inr tx"
  shows "jsonable E (encode_tx tx)" "sender tx = PStr (address E v)" "recipient tx = PStr VOTE_SENTINEL" "amount tx = PInt 0"
    "fee tx = PInt f" "nonce tx = PInt n"
    "evidence tx = PStr (link_text E s sh t th)"
  using signed_shape [of E v k VOTE_SENTINEL 0 f n] assms
  by (auto simp: vote_tx_def link_text_def) (auto simp: sign_tx_def new_tx_def rbind_eq_Inr Let_def split: if_splits)

lemma vote_tx_signs:
  assumes "ecdsa_laws E (secret v)" "0 \<le> n" "0 \<le> f"
  shows "\<exists>tx. vote_tx E v s sh t th n f k = Inr tx \<and> is_valid E tx = Inr True"
proof -
  have "link_text E s sh t th \<noteq> []"
    by (simp add: link_text_def json_dumps_print)
  with sign_tx_valid [OF assms(1), of "new_tx (address E v) VOTE_SENTINEL 0 f n
      (link_text E s sh t th)" 0 f n _ k] assms(2,3)
  show ?thesis by (auto simp: vote_tx_def new_tx_def link_text_def)
qed

lemma votes_sign:
  assumes "\<And>v k. (v, k) \<in> set vs \<Longrightarrow> ecdsa_laws E (secret v)" "\<And>a. 0 \<le> dget (nonces st) a 0"
  shows "\<exists>txs. votes E st vs s sh t th = Inr txs \<and> (\<forall>tx \<in> set txs. is_valid E tx = Inr True)"
  using assms(1)
proof (induction vs)
  case (Cons p vs)
  obtain v k where p: "p = (v, k)" by fastforce
  obtain tx where "vote_tx E v s sh t th (dget (nonces st) (PStr (address E v)) 0) 0 k = Inr tx" "is_valid E tx = Inr True"
    using vote_tx_signs [OF Cons.prems [of v k] assms(2) order_refl] p by fastforce
  moreover obtain txs where "votes E st vs s sh t th = Inr txs" "\<forall>tx \<in> set txs. is_valid E tx = Inr True"
    using Cons.IH Cons.prems by fastforce
  ultimately show ?case by (auto simp: votes_def p)
qed (simp add: votes_def)

text \<open>A vote without a fee changes the nonce of the voter and the votes, and no balance.\<close>

lemma vote_applies:
  assumes tx: "vote_tx E v s sh t th n 0 k = Inr tx"
    and ready: "link_open st (w_aux w) (s, sh, t, th)" "may_vote (w_aux w) (address E v) (s, sh, t, th)"
    and bal: "dhas (w_balances w) (PStr (address E v))" "0 \<le> dget (w_balances w) (PStr (address E v)) 0"
    and b: "hash_key (validator b) = Inr u"
  shows "\<exists>w'. pos_apply_tx E st tx b w = Inr w' \<and> w_aux w' = record_vote st (address E v) (s, sh, t, th) (w_aux w) \<and>
    w_nonces w' = AList.update (PStr (address E v)) (n + 1) (w_nonces w) \<and>
    (\<forall>x. dget (w_balances w') x 0 = dget (w_balances w) x 0) \<and> (\<forall>x. dhas (w_balances w) x \<longrightarrow> dhas (w_balances w') x)"
proof -
  note shape = vote_tx_shape [OF tx]
  obtain x where x: "dlookup (w_balances w) (PStr (address E v)) = Inr x" "dget (w_balances w) (PStr (address E v)) 0 = x"
    using bal(1) by (auto simp: dlookup_def dget_def dhas_iff_map_of)
  have "VOTE_SENTINEL \<noteq> SLASH_SENTINEL" by (simp add: VOTE_SENTINEL_def SLASH_SENTINEL_def)
  moreover have "check_vote st (w_aux w) (address E v)
      \<lparr>link_s = PStr s, link_sh = PInt sh, link_t = PStr t, link_th = PInt th\<rparr> = Inr (s, sh, t, th)"
    by (rule check_vote_ok [OF ready])
  ultimately show ?thesis
    using x bal(2) b
    by (auto simp: pos_apply_tx_def shape apply_vote_def vote_evidence Let_def credit_validator_def
        simp del: load_json.simps)
qed

section \<open>A block of votes\<close>

definition record_votes ::
  "env \<Rightarrow> pos_chain \<Rightarrow> string \<times> int \<times> string \<times> int \<Rightarrow> (wallet \<times> nat) list \<Rightarrow> pos_aux \<Rightarrow> pos_aux" where
  "record_votes E st l = fold (\<lambda>(v, k). record_vote st (address E v) l)"

lemma record_votes_simps [simp]:
  "record_votes E st l [] aux = aux" "record_votes E st l ((v, k) # vs) aux = record_votes E st l vs (record_vote st (address E v) l aux)"
  "record_votes E st l (us @ vs) aux = record_votes E st l vs (record_votes E st l us aux)"
  by (simp_all add: record_votes_def)

lemma mapM_all2: "mapM f xs = Inr ys \<Longrightarrow> list_all2 (\<lambda>x y. f x = Inr y) xs ys"
  by (induction xs arbitrary: ys) (auto simp: rbind_eq_Inr)

lemma record_vote_keeps:
  assumes "address E v \<noteq> a"
  shows "link_open st (record_vote st (address E v) l aux) l' = link_open st aux l'"
    "may_vote aux a l \<Longrightarrow> may_vote (record_vote st (address E v) l aux) a l"
  using assms by (cases l; auto simp: link_open_def may_vote_def record_vote_def Let_def)+

lemma votes_apply:
  assumes "list_all2 (\<lambda>(v, k) tx. \<exists>n. vote_tx E v s sh t th n 0 k = Inr tx \<and> is_valid E tx = Inr True \<and>
        n = dget (w_nonces w) (PStr (address E v)) 0) vs txs"
    and "distinct (map (address E \<circ> fst) vs)" "distinct (map (txid E) txs)" "set seen \<inter> txid E ` set txs = {}"
    and "link_open st (w_aux w) (s, sh, t, th)"
    and "\<And>v k. (v, k) \<in> set vs \<Longrightarrow> may_vote (w_aux w) (address E v) (s, sh, t, th) \<and>
        dhas (w_balances w) (PStr (address E v)) \<and> 0 \<le> dget (w_balances w) (PStr (address E v)) 0"
    and "hash_key (validator b) = Inr u"
  shows "\<exists>w'. apply_txs E (pos_hooks E) st b seen w txs = Inr w' \<and>
    w_aux w' = record_votes E st (s, sh, t, th) vs (w_aux w) \<and>
    (\<forall>x. dget (w_balances w') x 0 = dget (w_balances w) x 0) \<and> (\<forall>x. dhas (w_balances w) x \<longrightarrow> dhas (w_balances w') x) \<and>
    (\<forall>x. dget (w_nonces w') x 0 = dget (w_nonces w) x 0 + (if x \<in> PStr ` address E ` fst ` set vs then 1 else 0))"
  using assms(1-6)
proof (induction vs arbitrary: w txs seen)
  case (Cons p vs)
  obtain v k where p: "p = (v, k)" by fastforce
  obtain tx txs' where txs: "txs = tx # txs'" using Cons.prems(1) by (cases txs) auto
  let ?a = "PStr (address E v)"
  have tx: "vote_tx E v s sh t th (dget (w_nonces w) ?a 0) 0 k = Inr tx" "is_valid E tx = Inr True"
    using Cons.prems(1) by (auto simp: p txs)
  note shape = vote_tx_shape [OF tx(1)]
  obtain w1 where w1: "pos_apply_tx E st tx b w = Inr w1" "w_aux w1 = record_vote st (address E v) (s, sh, t, th) (w_aux w)"
    "w_nonces w1 = AList.update ?a (dget (w_nonces w) ?a 0 + 1) (w_nonces w)"
    "\<And>x. dget (w_balances w1) x 0 = dget (w_balances w) x 0" "\<And>x. dhas (w_balances w) x \<Longrightarrow> dhas (w_balances w1) x"
    using vote_applies [OF tx(1) Cons.prems(5) _ _ _ assms(7)] Cons.prems(6) [of v k] by (auto simp: p)
  have other: "address E v' \<noteq> address E v" if "(v', k') \<in> set vs" for v' k'
    using Cons.prems(2) that by (force simp: p)
  have later: "list_all2 (\<lambda>(v, k) tx. \<exists>n. vote_tx E v s sh t th n 0 k = Inr tx \<and> is_valid E tx = Inr True \<and>
        n = dget (w_nonces w1) (PStr (address E v)) 0) vs txs'"
  proof (rule list.rel_mono_strong)
    show "list_all2 (\<lambda>(v, k) tx. \<exists>n. vote_tx E v s sh t th n 0 k = Inr tx \<and> is_valid E tx = Inr True \<and>
        n = dget (w_nonces w) (PStr (address E v)) 0) vs txs'"
      using Cons.prems(1) by (simp add: txs)
  qed (use other in \<open>auto simp: w1(3)\<close>)
  have "\<exists>w'. apply_txs E (pos_hooks E) st b (txid E tx # seen) w1 txs' = Inr w' \<and>
    w_aux w' = record_votes E st (s, sh, t, th) vs (w_aux w1) \<and>
    (\<forall>x. dget (w_balances w') x 0 = dget (w_balances w1) x 0) \<and> (\<forall>x. dhas (w_balances w1) x \<longrightarrow> dhas (w_balances w') x) \<and>
    (\<forall>x. dget (w_nonces w') x 0 = dget (w_nonces w1) x 0 + (if x \<in> PStr ` address E ` fst ` set vs then 1 else 0))"
  proof (rule Cons.IH [OF later])
    show "link_open st (w_aux w1) (s, sh, t, th)"
      using Cons.prems(5) by (simp add: w1(2) link_open_def record_vote_def Let_def)
    show "may_vote (w_aux w1) (address E v') (s, sh, t, th) \<and> dhas (w_balances w1) (PStr (address E v')) \<and>
        0 \<le> dget (w_balances w1) (PStr (address E v')) 0" if "(v', k') \<in> set vs" for v' k'
      using Cons.prems(6) [of v' k'] that other [OF that] record_vote_keeps(2) [of E v "address E v'"] w1 by simp
  qed (use Cons.prems in \<open>auto simp: txs p\<close>)
  then obtain w' where w': "apply_txs E (pos_hooks E) st b (txid E tx # seen) w1 txs' = Inr w'"
    "w_aux w' = record_votes E st (s, sh, t, th) vs (w_aux w1)"
    "\<And>x. dget (w_balances w') x 0 = dget (w_balances w1) x 0" "\<And>x. dhas (w_balances w1) x \<Longrightarrow> dhas (w_balances w') x"
    "\<And>x. dget (w_nonces w') x 0 = dget (w_nonces w1) x 0 + (if x \<in> PStr ` address E ` fst ` set vs then 1 else 0)" by blast
  have "apply_txs E (pos_hooks E) st b seen w txs = Inr w'"
    using tx(2) w1(1) w'(1) Cons.prems(4) shape by (simp add: txs pos_hooks_def)
  moreover have "?a \<notin> PStr ` address E ` fst ` set vs" by (fastforce dest: other)
  then have "dget (w_nonces w') x 0 = dget (w_nonces w) x 0 + (if x \<in> PStr ` address E ` fst ` set (p # vs) then 1 else 0)" for x
    by (auto simp: w'(5) w1(3) p)
  ultimately show ?case
    using w'(2-4) w1(2,4,5) by (intro exI [of _ w']) (simp add: p)
qed simp

text \<open>What the votes of a block amount to.\<close>

lemma record_votes_frame:
  "ffg_stake (record_votes E st l vs aux) = ffg_stake aux"
  "ffg_height (record_votes E st l vs aux) = ffg_height aux"
  "slashed_addrs (record_votes E st l vs aux) = slashed_addrs aux"
  "stakes (record_votes E st l vs aux) = stakes aux"
  "unbonding (record_votes E st l vs aux) = unbonding aux"
  by (induction vs arbitrary: aux) auto

lemma record_votes_votes:
  "dget (ffg_votes (record_votes E st (s, sh, t, th) vs aux)) (s, t) [] =
     fold List.insert (map (address E \<circ> fst) vs) (dget (ffg_votes aux) (s, t) [])"
  by (induction vs arbitrary: aux) (auto simp: record_vote_votes simp del: dget_update)

lemma record_votes_final:
  "finalized (record_votes E st (s, sh, t, th) vs aux) = finalized aux \<or>
   th = sh + epoch st \<and> snd (finalized aux) < sh \<and>
     finalized (record_votes E st (s, sh, t, th) vs aux) = (s, sh)"
proof (induction vs rule: rev_induct)
  case (snoc p vs)
  then show ?case
    using record_vote_cases [of st "address E (fst p)" s sh t th "record_votes E st (s, sh, t, th) vs aux"]
    by (cases p) (auto split: if_splits)
qed simp

lemma record_vote_decides:
  assumes "supermajority (dget (ffg_stake aux) s []) (slashed_addrs aux) (List.insert a (dget (ffg_votes aux) (s, t) []))"
  shows "justified (record_vote st a (s, sh, t, th) aux) = List.insert t (justified aux)"
    "finalized (record_vote st a (s, sh, t, th) aux) =
      (if th = sh + epoch st \<and> snd (finalized aux) < sh then (s, sh) else finalized aux)"
  using assms by (simp_all add: record_vote_def Let_def)

lemma record_votes_decides:
  assumes "vs \<noteq> []" "supermajority (dget (ffg_stake aux) s []) (slashed_addrs aux)
      (fold List.insert (map (address E \<circ> fst) vs) (dget (ffg_votes aux) (s, t) []))"
  shows "t \<in> set (justified (record_votes E st (s, sh, t, th) vs aux))"
    "th = sh + epoch st \<Longrightarrow> snd (finalized aux) < sh \<Longrightarrow>
       finalized (record_votes E st (s, sh, t, th) vs aux) = (s, sh)"
proof -
  obtain us v k where vs: "vs = us @ [(v, k)]" using assms(1) by (metis append_butlast_last_id surj_pair)
  let ?aux = "record_votes E st (s, sh, t, th) us aux"
  have "supermajority (dget (ffg_stake ?aux) s []) (slashed_addrs ?aux) (List.insert (address E v) (dget (ffg_votes ?aux) (s, t) []))"
    using assms(2) by (simp add: vs record_votes_frame record_votes_votes)
  note step = record_vote_decides [OF this, where st = st and sh = sh and th = th]
  show "t \<in> set (justified (record_votes E st (s, sh, t, th) vs aux))"
    by (simp add: vs step(1))
  show "finalized (record_votes E st (s, sh, t, th) vs aux) = (s, sh)"
    if "th = sh + epoch st" "snd (finalized aux) < sh"
  proof -
    have "snd (finalized ?aux) < sh \<or> finalized ?aux = (s, sh)"
      using that(2) record_votes_final [where vs = us and aux = aux and E = E and st = st and s = s and sh = sh and t = t and th = th]
      by auto
    then show ?thesis unfolding vs record_votes_simps step(2) using that(1) by auto
  qed
qed

lemma mature_has:
  "mature h u bal = (bal', u') \<Longrightarrow> dhas bal x \<Longrightarrow> dhas bal' x"
proof (induction h u bal arbitrary: bal' u' rule: mature.induct)
  case (2 h a q u bal)
  have entries: "mature_entries h a q bal = (bal1, q') \<Longrightarrow> dhas bal x \<Longrightarrow> dhas bal1 x" for bal1 q'
    by (induction h a q bal arbitrary: bal1 q' rule: mature_entries.induct) (auto split: if_splits prod.splits)
  with 2 show ?case by (auto split: if_splits prod.splits)
qed simp

theorem votes_block:
  assumes reach: "pos_reachable E g st" and laws: "ecdsa_laws E (secret w)" and turn: "next_validator E st = Inr (address E w)"
    and each: "\<And>v. v \<in> fst ` set vs \<Longrightarrow> ecdsa_laws E (secret v) \<and> dhas (balances st) (PStr (address E v)) \<and>
        may_vote (pos st) (address E v) (s, sh, t, th)"
    and "distinct (map (address E \<circ> fst) vs)"
    and link: "link_open st ((pos st)\<lparr>justified_parent := justified (pos st)\<rparr>) (s, sh, t, th)"
    and txs: "votes E st vs s sh t th = Inr txs" "distinct (map (txid E) txs)"
    and fresh: "\<And>b. seal_block E (PStr (block_hash E (head st))) (PInt (int (length (chain st)))) w txs ts non k = Inr b \<Longrightarrow>
        block_hash E b \<noteq> s \<and> block_hash E b \<noteq> t"
  shows "\<exists>b w1 w2. seal_block E (PStr (block_hash E (head st))) (PInt (int (length (chain st)))) w txs ts non k = Inr b \<and>
    pos_apply_block_pre E st b (start_work (pos_hooks E) st) = Inr w1 \<and>
    apply_txs E (pos_hooks E) st b [] w1 txs = Inr w2 \<and>
    w_aux w2 = record_votes E st (s, sh, t, th) vs (w_aux w1) \<and>
    (\<forall>x. dget (w_balances w2) x 0 = dget (w_balances w1) x 0) \<and> (\<forall>x. dhas (w_balances w1) x \<longrightarrow> dhas (w_balances w2) x) \<and>
    (\<forall>x. dget (w_nonces w2) x 0 = dget (nonces st) x 0 + (if x \<in> PStr ` address E ` fst ` set vs then 1 else 0)) \<and>
    submit_block E (pos_hooks E) st b = pos_add_block E st txs w ts non k \<and>
    pos_add_block E st txs w ts non k = Inr ((commit_work (pos_hooks E) w2 st)\<lparr>chain := chain st @ [b]\<rparr>)"
proof -
  have voters: "ecdsa_laws E (secret v) \<and> dhas (balances st) (PStr (address E v)) \<and> may_vote (pos st) (address E v) (s, sh, t, th)"
    if "(v, k) \<in> set vs" for v k using each [of v] that by force
  obtain b w1 where b: "seal_block E (PStr (block_hash E (head st))) (PInt (int (length (chain st)))) w txs ts non k = Inr b"
    "validator b = PStr (address E w)" "transactions b = txs"
    "pos_apply_block_pre E st b (start_work (pos_hooks E) st) = Inr w1"
    "submit_block E (pos_hooks E) st b = pos_add_block E st txs w ts non k"
    "pos_add_block E st txs w ts non k =
      rbind (apply_txs E (pos_hooks E) st b [] w1 txs) (\<lambda>w2. Inr ((commit_work (pos_hooks E) w2 st)\<lparr>chain := chain st @ [b]\<rparr>))"
    using add_block_eq [OF reach laws turn] by blast
  have inv: "pos_inv st" using reachable_inv [OF reach] by simp
  have n0: "0 \<le> dget (nonces st) a 0" for a using reachable_nonces [OF reach] by (simp add: nonces_counted_def)
  obtain bal unb where m: "mature (the_int (index b)) (unbonding (pos st)) (balances st) = (bal, unb)" by fastforce
  have w1: "w_nonces w1 = nonces st" "w_balances w1 = bal" "justified_parent (w_aux w1) = justified (pos st)"
    "slashed_addrs (w_aux w1) = slashed_addrs (pos st)" "ffg_seen_target (w_aux w1) = ffg_seen_target (pos st)"
    "\<And>h. h \<noteq> block_hash E b \<Longrightarrow> map_of (ffg_stake (w_aux w1)) h = map_of (ffg_stake (pos st)) h \<and>
       map_of (ffg_height (w_aux w1)) h = map_of (ffg_height (pos st)) h"
    using b(4) m by (auto simp: pos_apply_block_pre_def Let_def start_work_def pos_hooks_def pos_snapshot_aux_def update_conv' split: if_splits)
  have fr: "s \<noteq> block_hash E b" "t \<noteq> block_hash E b" using fresh [OF b(1)] by auto
  have at: "dhas (ffg_stake (w_aux w1)) s = dhas (ffg_stake (pos st)) s" "dhas (ffg_stake (w_aux w1)) t = dhas (ffg_stake (pos st)) t"
    "dget (ffg_stake (w_aux w1)) s [] = dget (ffg_stake (pos st)) s []"
    using w1(6) [OF fr(1)] w1(6) [OF fr(2)] by (simp_all add: dhas_iff_map_of dget_def)
  have "list_all2 (\<lambda>(v, k) tx. \<exists>n. vote_tx E v s sh t th n 0 k = Inr tx \<and> is_valid E tx = Inr True \<and>
        n = dget (w_nonces w1) (PStr (address E v)) 0) vs txs"
  proof -
    have "vote_tx E v s sh t th (dget (nonces st) (PStr (address E v)) 0) 0 k = Inr tx \<Longrightarrow> (v, k) \<in> set vs \<Longrightarrow> is_valid E tx = Inr True" for v k tx
      using vote_tx_signs [of E v "dget (nonces st) (PStr (address E v)) 0" 0 s sh t th k] voters n0 by fastforce
    moreover have "list_all2 (\<lambda>p tx. (\<lambda>(v, k). vote_tx E v s sh t th (dget (nonces st) (PStr (address E v)) 0) 0 k) p = Inr tx) vs txs"
      using txs(1) unfolding votes_def by (rule mapM_all2)
    ultimately show ?thesis by (auto simp: w1(1) elim!: list.rel_mono_strong)
  qed
  moreover have "link_open st (w_aux w1) (s, sh, t, th)"
    using link w1(6) [OF fr(1)] w1(6) [OF fr(2)] at(1,2) by (simp add: link_open_def w1(3))
  moreover have "may_vote (w_aux w1) (address E v) (s, sh, t, th) \<and> dhas (w_balances w1) (PStr (address E v)) \<and>
      0 \<le> dget (w_balances w1) (PStr (address E v)) 0" if "(v, k) \<in> set vs" for v k
  proof -
    have "0 \<le> dget (balances st) x 0" for x using inv dall_dget [of "\<lambda>v. 0 \<le> v" "balances st" 0] by (simp add: pos_inv_def)
    moreover have "dget (balances st) x 0 \<le> dget bal x 0" for x
      using mature_balance_mono [OF m] inv by (simp add: pos_inv_def)
    ultimately have "0 \<le> dget (w_balances w1) x 0" for x unfolding w1(2) by (meson order_trans)
    then show ?thesis using voters [OF that] mature_has [OF m] by (simp add: may_vote_def w1 at(3))
  qed
  ultimately have "\<exists>w2. apply_txs E (pos_hooks E) st b [] w1 txs = Inr w2 \<and>
    w_aux w2 = record_votes E st (s, sh, t, th) vs (w_aux w1) \<and>
    (\<forall>x. dget (w_balances w2) x 0 = dget (w_balances w1) x 0) \<and> (\<forall>x. dhas (w_balances w1) x \<longrightarrow> dhas (w_balances w2) x) \<and>
    (\<forall>x. dget (w_nonces w2) x 0 = dget (w_nonces w1) x 0 + (if x \<in> PStr ` address E ` fst ` set vs then 1 else 0))"
    using votes_apply [where seen = "[]" and u = "PStr (address E w)", OF _ assms(5) txs(2)] b(2) by simp
  with b w1(1) show ?thesis by auto
qed

end
