(* ===== verification/Fuzz.thy ===== *)
theory Fuzz
  imports Dict_Order
begin

text \<open>
  The gate \<open>fuzz.py\<close>: random rounds on a chain of six wallets, half of them a block built from the
  mempool that has to be accepted, half of them a block with a defect that has to be rejected, with
  assertions on the supply after each. What the generator draws is a list of numbers, so a statement
  about every list covers every seed; the numbers of ECDSA are drawn from it, too.

  Shown: the gate passes whatever is drawn. So the assertions hold in all states of this kind, not only
  in the ones that were tried.
\<close>

section \<open>Assertions and random numbers\<close>

text \<open>\<open>Failed\<close> is an \<open>AssertionError\<close>, \<open>Raised\<close> any other exception of the code under test.\<close>

datatype gate_error = Failed string | Raised perror

type_synonym 'a gate = "gate_error + 'a"

definition gbind :: "'a gate \<Rightarrow> ('a \<Rightarrow> 'b gate) \<Rightarrow> 'b gate" where
  "gbind r f = (case r of Inl e \<Rightarrow> Inl e | Inr x \<Rightarrow> f x)"

lemma gbind_simps [simp]: "gbind (Inl e) f = Inl e" "gbind (Inr x) f = f x"
  by (simp_all add: gbind_def)

fun raises :: "'a res \<Rightarrow> 'a gate" where
  "raises (Inl e) = Inl (Raised e)"
| "raises (Inr x) = Inr x"

definition check :: "bool \<Rightarrow> string \<Rightarrow> unit gate" where
  "check b m = (if b then Inr () else Inl (Failed m))"

lemma check_simps [simp]: "check True m = Inr ()" "check b m = Inr () \<longleftrightarrow> b"
  by (simp_all add: check_def)

text \<open>The next number; a list that ran out goes on with zeros.\<close>

fun draw :: "nat list \<Rightarrow> nat \<times> nat list" where
  "draw [] = (0, [])"
| "draw (d # ds) = (d, ds)"

definition randint :: "int \<Rightarrow> int \<Rightarrow> nat list \<Rightarrow> int \<times> nat list" where
  "randint a b ds = (let (d, ds') = draw ds in (a + int d mod (b - a + 1), ds'))"

definition choice :: "'a list \<Rightarrow> nat list \<Rightarrow> 'a \<times> nat list" where
  "choice xs ds = (let (d, ds') = draw ds in (xs ! (d mod length xs), ds'))"

primrec sample :: "nat \<Rightarrow> 'a list \<Rightarrow> nat list \<Rightarrow> 'a list \<times> nat list" where
  "sample 0 xs ds = ([], ds)"
| "sample (Suc n) xs ds =
     (let (d, ds1) = draw ds; i = d mod length xs; (ys, ds2) = sample n (take i xs @ drop (Suc i) xs) ds1
      in (xs ! i # ys, ds2))"

section \<open>The chain of the gate\<close>

definition fuzz_wallets :: "env \<Rightarrow> wallet list res" where
  "fuzz_wallets E = mapM (from_secret E) [1, 2, 3, 4, 5, 6]"

definition fuzz_pariah :: "env \<Rightarrow> wallet res" where
  "fuzz_pariah E = from_secret E 100"

definition by_addr :: "env \<Rightarrow> wallet list \<Rightarrow> (string \<times> wallet) list" where
  "by_addr E ws = fold (\<lambda>w. AList.update (address E w) w) ws []"

definition FUZZ_STAKE :: int where
  "FUZZ_STAKE = 1000 * COIN"

definition FUZZ_LIQUID :: int where
  "FUZZ_LIQUID = 2000 * COIN"

definition FUZZ_TS :: int where
  "FUZZ_TS = 1700000000"

definition fuzz_params :: "env \<Rightarrow> wallet list \<Rightarrow> (string \<times> pyval) list \<times> (string \<times> pyval) list" where
  "fuzz_params E ws =
     (let liquid = fold (\<lambda>w. AList.update (address E w) (PInt FUZZ_LIQUID)) ws [];
          remainder = MAX_SUPPLY_UNITS - FUZZ_LIQUID * (int (length ws) - 1)
      in (AList.update (address E (ws ! 0)) (PInt remainder) liquid,
          fold (\<lambda>w. AList.update (address E w) (PInt FUZZ_STAKE)) [ws ! 0, ws ! 1, ws ! 2] []))"

definition fuzz_args :: "env \<Rightarrow> wallet list \<Rightarrow> genesis_args" where
  "fuzz_args E ws = (fst (fuzz_params E ws), snd (fuzz_params E ws), PInt FUZZ_TS, [], 0, None, DEFAULT_EPOCH)"

definition fresh_chain :: "env \<Rightarrow> wallet list \<Rightarrow> pos_chain res" where
  "fresh_chain E ws = new_chain E (fuzz_args E ws)"

definition check_invariants :: "env \<Rightarrow> pos_chain \<Rightarrow> unit gate" where
  "check_invariants E st =
     gbind (check (pos_total_supply st = MAX_SUPPLY_UNITS) ''I1: supply drifted!'') (\<lambda>_.
     gbind (check (dall (\<lambda>v. 0 \<le> v) (balances st)) ''I2: negative balance'') (\<lambda>_.
     gbind (check (dall (\<lambda>v. 0 < v) (stakes (pos st))) ''I3: non-positive stake recorded'') (\<lambda>_.
     gbind (check (dsum (balances st) + dsum (stakes (pos st)) = MAX_SUPPLY_UNITS) ''I4'') (\<lambda>_.
     gbind (raises (is_valid_chain E st)) (\<lambda>valid.
     check valid ''I5: chain no longer valid'')))))"

text \<open>Two snapshots are compared as Python compares dictionaries: whatever the order.\<close>

definition dict_eq :: "('k \<times> 'v) list \<Rightarrow> ('k \<times> 'v) list \<Rightarrow> bool" where
  "dict_eq d e \<longleftrightarrow> length d = length e \<and> list_all (\<lambda>(k, v). map_of e k = Some v) d"

definition same_snapshot :: "env \<Rightarrow> pos_chain \<Rightarrow> pos_chain \<Rightarrow> bool" where
  "same_snapshot E s t \<longleftrightarrow> dict_eq (balances s) (balances t) \<and> dict_eq (stakes (pos s)) (stakes (pos t)) \<and>
     dict_eq (nonces s) (nonces t) \<and> block_hash E (head s) = block_hash E (head t) \<and>
     length (chain s) = length (chain t)"

section \<open>Rounds\<close>

definition elected_wallet :: "env \<Rightarrow> wallet list \<Rightarrow> pos_chain \<Rightarrow> wallet res" where
  "elected_wallet E ws st = rbind (next_validator E st) (dlookup (by_addr E ws))"

text \<open>The transaction a sender draws, \<open>None\<close> when it has too little for the kind it drew.\<close>

definition random_tx ::
  "env \<Rightarrow> wallet list \<Rightarrow> pos_chain \<Rightarrow> wallet \<Rightarrow> nat list \<Rightarrow> transaction option res \<times> nat list" where
  "random_tx E ws st s ds =
     (let bal_coins = balance_of st (PStr (address E s)) div COIN;
          stk_coins = stake_of st (address E s) div COIN;
          (op, ds) = choice ([''transfer'', ''stake''] @ (if 2 \<le> stk_coins then [''unstake''] else [])) ds;
          n = dget (nonces st) (PStr (address E s)) 0
      in if op = ''transfer'' then
           if bal_coins < 1 then (Inr None, ds)
           else (let (m, ds) = randint 1 (min 10 bal_coins) ds;
                     (r, ds) = choice (filter (\<lambda>w. w \<noteq> s) ws) ds;
                     (k, ds) = draw ds
                 in (map_sum id Some (sign_tx E s k (new_tx (address E s) (address E r) (m * COIN) 0 n [])), ds))
         else if op = ''stake'' then
           if bal_coins < 1 then (Inr None, ds)
           else (let (m, ds) = randint 1 (min 10 bal_coins) ds; (k, ds) = draw ds
                 in (map_sum id Some (stake_tx E s (m * COIN) 0 n k), ds))
         else (let (m, ds) = randint 1 (stk_coins - 1) ds; (k, ds) = draw ds
               in (map_sum id Some (unstake_tx E s (m * COIN) 0 n k), ds)))"

text \<open>The loop over the senders; a \<open>ValidationError\<close> skips one.\<close>

primrec fill_pool ::
  "env \<Rightarrow> wallet list \<Rightarrow> pos_chain \<Rightarrow> wallet list \<Rightarrow> mempool \<Rightarrow> nat list \<Rightarrow> mempool gate \<times> nat list" where
  "fill_pool E ws st [] m ds = (Inr m, ds)"
| "fill_pool E ws st (s # ss) m ds =
     (let (r, ds) = random_tx E ws st s ds
      in case rbind r (\<lambda>tx. case tx of None \<Rightarrow> Inr m | Some t \<Rightarrow> map_sum id snd (mempool_add E t st m)) of
           Inl (ValidationError e) \<Rightarrow> fill_pool E ws st ss m ds
         | Inl e \<Rightarrow> (Inl (Raised e), ds)
         | Inr m' \<Rightarrow> fill_pool E ws st ss m' ds)"

definition valid_round ::
  "env \<Rightarrow> wallet list \<Rightarrow> pos_chain \<Rightarrow> int \<Rightarrow> nat list \<Rightarrow> (pos_chain \<times> bool) gate \<times> nat list" where
  "valid_round E ws st ts ds =
     (let (n, ds) = randint 0 (int (length ws)) ds;
          (senders, ds) = sample (nat n) ws ds;
          (pool, ds) = fill_pool E ws st senders mempool_init ds;
          (k, ds) = draw ds
      in (gbind pool (\<lambda>m.
          let selected = select m st (unbonding_blocks st) MAX_TXS_PER_BLOCK
          in gbind (raises (elected_wallet E ws st)) (\<lambda>proposer.
             gbind (raises (pos_add_block E st selected proposer (PInt ts) (PInt 0) k)) (\<lambda>st'.
             gbind (check_invariants E st') (\<lambda>_. Inr (st', 0 < length selected))))), ds))"

text \<open>The block with a defect, of a sender \<open>s\<close>; \<open>k\<close> and \<open>k'\<close> are the numbers of ECDSA.\<close>

definition defect_block ::
  "env \<Rightarrow> wallet \<Rightarrow> pos_chain \<Rightarrow> wallet \<Rightarrow> wallet \<Rightarrow> string \<Rightarrow> int \<Rightarrow> nat \<Rightarrow> nat \<Rightarrow> pos_chain res" where
  "defect_block E pariah st proposer s kind ts k k' =
     (let n = dget (nonces st) (PStr (address E s)) 0;
          bal = balance_of st (PStr (address E s));
          pay = (\<lambda>amt n. sign_tx E s k (new_tx (address E s) (address E proposer) amt 0 n []));
          add = (\<lambda>txs. pos_add_block E st txs proposer (PInt ts) (PInt 0) k')
      in if kind = ''proposer'' then pos_add_block E st [] pariah (PInt ts) (PInt 0) k'
         else if kind = ''overspend'' then rbind (pay (bal + 1000 * COIN) n) (\<lambda>tx. add [tx])
         else if kind = ''nonce'' then rbind (pay (1 * COIN) (n + 5)) (\<lambda>tx. add [tx])
         else if kind = ''tamper''
         then rbind (pay (1 * COIN) n) (\<lambda>tx. add [tx\<lparr>amount := PInt (bal + 999 * COIN)\<rparr>])
         else rbind (pay (1 * COIN) n) (\<lambda>tx. add [tx, tx]))"

definition invalid_round ::
  "env \<Rightarrow> wallet list \<Rightarrow> wallet \<Rightarrow> pos_chain \<Rightarrow> int \<Rightarrow> nat list \<Rightarrow> pos_chain gate \<times> nat list" where
  "invalid_round E ws pariah st ts ds =
     (case elected_wallet E ws st of
        Inl e \<Rightarrow> (Inl (Raised e), ds)
      | Inr proposer \<Rightarrow>
          (let (s, ds) = choice ws ds;
               (kind, ds) = choice [''proposer'', ''overspend'', ''nonce'', ''tamper'', ''dup''] ds;
               (k, ds) = draw ds; (k', ds) = draw ds
           in (gbind (case defect_block E pariah st proposer s kind ts k k' of
                        Inr st' \<Rightarrow> Inl (Failed ''invalid block was accepted!'')
                      | Inl (ValidationError e) \<Rightarrow> Inr st
                      | Inl e \<Rightarrow> Inl (Raised e)) (\<lambda>st'.
               gbind (check (same_snapshot E st' st) ''I6: rejected block mutated state'') (\<lambda>_.
               gbind (check_invariants E st') (\<lambda>_. Inr st'))), ds)))"

text \<open>The rounds of one seed, from number \<open>i\<close> on; the counters are blocks accepted, blocks with
  transactions, and defects rejected.\<close>

primrec fuzz_rounds ::
  "env \<Rightarrow> wallet list \<Rightarrow> wallet \<Rightarrow> nat \<Rightarrow> nat \<Rightarrow> pos_chain \<Rightarrow> int \<Rightarrow> nat \<times> nat \<times> nat \<Rightarrow> nat list
   \<Rightarrow> (pos_chain \<times> nat \<times> nat \<times> nat) gate" where
  "fuzz_rounds E ws pariah 0 i st ts counts ds = Inr (st, counts)"
| "fuzz_rounds E ws pariah (Suc n) i st ts counts ds =
     (let ts = ts + 1; (accepted, nonempty, rejected) = counts
      in if i mod 2 = 0
         then (let (r, ds) = valid_round E ws st ts ds
               in gbind r (\<lambda>(st', full). fuzz_rounds E ws pariah n (i + 1) st' ts
                    (accepted + 1, (if full then nonempty + 1 else nonempty), rejected) ds))
         else (let (r, ds) = invalid_round E ws pariah st ts ds
               in gbind r (\<lambda>st'. fuzz_rounds E ws pariah n (i + 1) st' ts (accepted, nonempty, rejected + 1) ds)))"

text \<open>A seed is what its generator draws.\<close>

primrec fuzz_seeds ::
  "env \<Rightarrow> wallet list \<Rightarrow> wallet \<Rightarrow> nat \<Rightarrow> nat list list \<Rightarrow> pos_chain option \<Rightarrow> nat \<times> nat \<times> nat
   \<Rightarrow> (pos_chain option \<times> nat \<times> nat \<times> nat) gate" where
  "fuzz_seeds E ws pariah iters [] final counts = Inr (final, counts)"
| "fuzz_seeds E ws pariah iters (ds # seeds) final counts =
     gbind (raises (fresh_chain E ws)) (\<lambda>st.
     gbind (check_invariants E st) (\<lambda>_.
     gbind (fuzz_rounds E ws pariah iters 0 st FUZZ_TS counts ds) (\<lambda>(st', counts').
     fuzz_seeds E ws pariah iters seeds (Some st') counts')))"

definition fuzz ::
  "env \<Rightarrow> wallet list \<Rightarrow> wallet \<Rightarrow> nat list list \<Rightarrow> nat \<Rightarrow> (pos_chain option \<times> nat \<times> nat \<times> nat) gate" where
  "fuzz E ws pariah seeds iters = fuzz_seeds E ws pariah iters seeds None (0, 0, 0)"

section \<open>Persistence and throughput\<close>

text \<open>\<open>None\<close> is a store without a genesis file, or with arguments of other types than declared.\<close>

definition persistence_under_fuzz :: "env \<Rightarrow> wallet list \<Rightarrow> pos_chain \<Rightarrow> unit gate option" where
  "persistence_under_fuzz E ws st =
     (case write_genesis E (fuzz_args E ws) \<lparr>genesis_file = None, blocks_file = None\<rparr> of
        Inl e \<Rightarrow> Some (Inl (Raised e))
      | Inr s \<Rightarrow>
          map_option (\<lambda>r. gbind (raises r) (\<lambda>reloaded.
            gbind (check (block_hash E (head reloaded) = block_hash E (head st)) ''head'') (\<lambda>_.
            gbind (check (pos_total_supply reloaded = MAX_SUPPLY_UNITS) ''supply'') (\<lambda>_.
            check_invariants E reloaded))))
          (load E (fold (append_block E) (tl (chain st)) s)))"

definition benchmark_txs :: "env \<Rightarrow> wallet list \<Rightarrow> nat \<Rightarrow> (nat \<Rightarrow> nat) \<Rightarrow> transaction list res" where
  "benchmark_txs E ws n ks =
     mapM (\<lambda>i. sign_tx E (ws ! 0) (ks i)
       (new_tx (address E (ws ! 0)) (address E (ws ! 1)) (1 * COIN) 0 (int i) [])) [0..<n]"

definition benchmark :: "env \<Rightarrow> wallet list \<Rightarrow> nat \<Rightarrow> (nat \<Rightarrow> nat) \<Rightarrow> nat \<Rightarrow> unit gate" where
  "benchmark E ws n ks k =
     gbind (raises (fresh_chain E ws)) (\<lambda>st.
     gbind (raises (benchmark_txs E ws n ks)) (\<lambda>txs.
     gbind (raises (elected_wallet E ws st)) (\<lambda>proposer.
     gbind (raises (pos_add_block E st txs proposer (PInt (FUZZ_TS + 1)) (PInt 0) k)) (\<lambda>st'.
     check_invariants E st'))))"

text \<open>The program: three seeds, 500 rounds each, then the store and 1000 payments.\<close>

definition fuzz_main ::
  "env \<Rightarrow> wallet list \<Rightarrow> wallet \<Rightarrow> nat list \<Rightarrow> nat list \<Rightarrow> nat list \<Rightarrow> (nat \<Rightarrow> nat) \<Rightarrow> nat \<Rightarrow> unit gate option" where
  "fuzz_main E ws pariah d1 d2 d3 ks k =
     (case fuzz E ws pariah [d1, d2, d3] 500 of
        Inl e \<Rightarrow> Some (Inl e)
      | Inr (None, counts) \<Rightarrow> Some (Inl (Raised (AttributeError ''object has no attribute chain'')))
      | Inr (Some st, counts) \<Rightarrow>
          map_option (\<lambda>r. gbind r (\<lambda>_. benchmark E ws 1000 ks k)) (persistence_under_fuzz E ws st))"

section \<open>Blocks that have to be accepted\<close>

text \<open>A transaction of the gate that the working copies \<open>w\<close> can take: a transfer or stake its sender can
  pay, or an unstake that leaves something staked.\<close>

definition fits :: "env \<Rightarrow> pos_chain \<Rightarrow> pos_work \<Rightarrow> transaction \<Rightarrow> bool" where
  "fits E st w t \<longleftrightarrow> is_valid E t = Inr True \<and> tx_fee t = 0 \<and> tx_nonce t = dget (w_nonces w) (sender t) 0 \<and>
     (plain st t \<and> tx_amount t \<le> dget (w_balances w) (sender t) 0 \<or>
      recipient t = PStr UNSTAKE_SENTINEL \<and> tx_amount t < dget (stakes (w_aux w)) (the_str (sender t)) 0 \<and>
      dhas (w_balances w) (sender t) \<and> 0 \<le> dget (w_balances w) (sender t) 0)"

text \<open>What it changes: nothing that another sender needs.\<close>

definition others_keep :: "pyval \<Rightarrow> pos_work \<Rightarrow> pos_work \<Rightarrow> bool" where
  "others_keep a w w' \<longleftrightarrow> unbonding (w_aux w') = unbonding (w_aux w) \<and>
     (\<forall>c. dhas (stakes (w_aux w)) c \<longrightarrow> dhas (stakes (w_aux w')) c) \<and>
     (\<forall>c. dhas (stakes (w_aux w')) c \<longrightarrow> dhas (stakes (w_aux w)) c \<or> PStr c = a) \<and>
     (\<forall>c. dhas (w_balances w) c \<longrightarrow> dhas (w_balances w') c) \<and>
     (\<forall>c. c \<noteq> a \<longrightarrow> dget (w_nonces w') c 0 = dget (w_nonces w) c 0 \<and> dget (w_balances w) c 0 \<le> dget (w_balances w') c 0) \<and>
     (\<forall>c. PStr c \<noteq> a \<longrightarrow> dget (stakes (w_aux w')) c 0 = dget (stakes (w_aux w)) c 0)"

lemma fits_kept: "fits E st w u \<Longrightarrow> others_keep a w w' \<Longrightarrow> sender u \<noteq> a \<Longrightarrow> fits E st w' u"
  by (auto simp: fits_def others_keep_def dest!: is_valid_sender intro: order_trans)

lemma fits_applies:
  assumes fits: "fits E st w t" and st: "vesting st = []" "unbonding_blocks st = 0" and v: "hash_key (validator b) = Inr v"
  shows "\<exists>w'. pos_apply_tx E st t b w = Inr w' \<and> others_keep (sender t) w w'"
proof -
  have valid: "is_valid E t = Inr True" and fee: "tx_fee t = 0" using fits by (simp_all add: fits_def)
  obtain a where a: "sender t = PStr a" using is_valid_sender [OF valid] by blast
  have novest: "enforce_vesting st c h u = Inr ()" for c h u by (simp add: enforce_vesting_def st(1))
  consider (plain) "plain st t" "tx_amount t \<le> dget (w_balances w) (sender t) 0"
    | (unstake) "recipient t = PStr UNSTAKE_SENTINEL" "tx_amount t < dget (stakes (w_aux w)) a 0" "dhas (w_balances w) (sender t)"
      "0 \<le> dget (w_balances w) (sender t) 0"
    using fits by (auto simp: fits_def a)
  then show ?thesis
  proof cases
    case plain
    then obtain r where r: "recipient t = PStr r" "r \<noteq> SLASH_SENTINEL" "r \<noteq> VOTE_SENTINEL" "r \<noteq> UNSTAKE_SENTINEL"
      by (auto simp: plain_def is_str_iff)
    then have pos: "0 < tx_amount t" using valid by (auto elim!: is_validE)
    with plain(2) obtain x where x: "map_of (w_balances w) (sender t) = Some x" "dget (w_balances w) (sender t) 0 = x"
      by (cases "map_of (w_balances w) (sender t)") (auto simp: dget_def)
    show ?thesis
      using r pos plain(2) v x fee
      by (auto simp: pos_apply_tx_def novest apply_stake_def base_apply_tx_def Let_def dlookup_def credit_validator_def
          others_keep_def a)
  next
    case unstake
    then have pos: "0 < tx_amount t" using valid by (auto elim!: is_validE)
    obtain x where x: "map_of (w_balances w) (sender t) = Some x" using unstake(3) by (auto simp: dhas_iff_map_of)
    obtain y where y: "map_of (stakes (w_aux w)) a = Some y" "tx_amount t < y"
      using unstake(2) pos by (auto simp: dget_def split: option.splits)
    have left: "dget (AList.update a (y - tx_amount t) (stakes (w_aux w))) a 0 \<noteq> 0" using y(2) by simp
    have lookups: "dlookup (w_balances w) (sender t) = Inr x" "dlookup (stakes (w_aux w)) a = Inr y"
      "dget (w_balances w) (sender t) 0 = x" "dget (stakes (w_aux w)) a 0 = y"
      using x y(1) by (simp_all add: dlookup_def dget_def)
    show ?thesis
      using unstake(1,4) pos y(2) v fee left lookups st(2)
      by (auto simp: pos_apply_tx_def novest apply_unstake_def Let_def credit_validator_def others_keep_def a)
  qed
qed

lemma fits_all:
  assumes "distinct (map sender txs)" "\<And>t. t \<in> set txs \<Longrightarrow> fits E st w t"
    and "distinct (map (txid E) txs)" "set seen \<inter> txid E ` set txs = {}"
    and st: "vesting st = []" "unbonding_blocks st = 0" and v: "hash_key (validator b) = Inr v"
  shows "\<exists>w'. apply_txs E (pos_hooks E) st b seen w txs = Inr w' \<and> unbonding (w_aux w') = unbonding (w_aux w) \<and>
    (\<forall>c. dhas (stakes (w_aux w)) c \<longrightarrow> dhas (stakes (w_aux w')) c) \<and>
    (\<forall>c. dhas (stakes (w_aux w')) c \<longrightarrow> dhas (stakes (w_aux w)) c \<or> PStr c \<in> sender ` set txs)"
  using assms(1-4)
proof (induction txs arbitrary: w seen)
  case (Cons t txs)
  have fits: "fits E st w t" using Cons.prems(2) by simp
  obtain w1 where w1: "pos_apply_tx E st t b w = Inr w1" "others_keep (sender t) w w1"
    using fits_applies [OF fits st v] by blast
  have "\<exists>w'. apply_txs E (pos_hooks E) st b (txid E t # seen) w1 txs = Inr w' \<and> unbonding (w_aux w') = unbonding (w_aux w1) \<and>
      (\<forall>c. dhas (stakes (w_aux w1)) c \<longrightarrow> dhas (stakes (w_aux w')) c) \<and>
      (\<forall>c. dhas (stakes (w_aux w')) c \<longrightarrow> dhas (stakes (w_aux w1)) c \<or> PStr c \<in> sender ` set txs)"
  proof (rule Cons.IH)
    fix u assume u: "u \<in> set txs"
    moreover have "sender t \<notin> sender ` set txs" using Cons.prems(1) by simp
    ultimately have "sender u \<noteq> sender t" by (metis image_eqI)
    with Cons.prems(2) u show "fits E st w1 u" by (intro fits_kept [OF _ w1(2)]) simp_all
  qed (use Cons.prems in auto)
  then obtain w' where w': "apply_txs E (pos_hooks E) st b (txid E t # seen) w1 txs = Inr w'"
    "unbonding (w_aux w') = unbonding (w_aux w1)" "\<forall>c. dhas (stakes (w_aux w1)) c \<longrightarrow> dhas (stakes (w_aux w')) c"
    "\<forall>c. dhas (stakes (w_aux w')) c \<longrightarrow> dhas (stakes (w_aux w1)) c \<or> PStr c \<in> sender ` set txs" by blast
  have "apply_txs E (pos_hooks E) st b seen w (t # txs) = Inr w'"
    using fits w1(1) w'(1) Cons.prems(4) by (simp add: fits_def pos_hooks_def)
  with w'(2-4) w1(2) show ?case unfolding others_keep_def by (intro exI [of _ w']) auto
qed simp

section \<open>The states of the gate\<close>

definition fuzz_world :: "env \<Rightarrow> wallet list \<Rightarrow> wallet \<Rightarrow> bool" where
  "fuzz_world E ws pariah \<longleftrightarrow> fuzz_wallets E = Inr ws \<and> fuzz_pariah E = Inr pariah \<and>
     (\<forall>w \<in> set (pariah # ws). ecdsa_laws E (secret w)) \<and> distinct (map (address E) (pariah # ws))"

lemma fuzz_worldD:
  assumes "fuzz_world E ws pariah"
  shows "length ws = 6" "distinct (map (address E) ws)" "distinct ws" "address E pariah \<notin> address E ` set ws"
    "ecdsa_laws E (secret pariah)" "w \<in> set ws \<Longrightarrow> ecdsa_laws E (secret w)"
    "w \<in> set ws \<Longrightarrow> v \<in> set ws \<Longrightarrow> address E w = address E v \<longleftrightarrow> w = v"
  using assms
  by (auto simp: fuzz_world_def fuzz_wallets_def rbind_eq_Inr distinct_map dest: inj_onD)

lemma by_addr_lookup:
  assumes "fuzz_world E ws pariah" "w \<in> set ws"
  shows "dlookup (by_addr E ws) (address E w) = Inr w"
proof -
  note d = fuzz_worldD(2) [OF assms(1)]
  have "by_addr E ws = map (\<lambda>w. (address E w, w)) ws"
    unfolding by_addr_def using fold_update_new [where f = "address E" and h = id and d = "[]", OF d] by simp
  moreover from this have "map_of (by_addr E ws) (address E w) = Some w"
    using d assms(2) by (intro map_of_is_SomeI) (auto simp: comp_def)
  ultimately show ?thesis by (simp add: dlookup_def)
qed

text \<open>What every chain of the gate satisfies.\<close>

definition fuzz_state :: "env \<Rightarrow> wallet list \<Rightarrow> pos_chain \<Rightarrow> pos_chain \<Rightarrow> bool" where
  "fuzz_state E ws g st \<longleftrightarrow> fresh_chain E ws = Inr g \<and> reaches E (pos_hooks E) g st \<and> same_chain st st \<and>
     vesting st = [] \<and> unbonding_blocks st = 0 \<and> unbonding (pos st) = [] \<and> stakes (pos st) \<noteq> [] \<and>
     (\<forall>a. dhas (stakes (pos st)) a \<longrightarrow> a \<in> address E ` set ws) \<and>
     list_all (\<lambda>b. jsonable E (encode_block b)) (tl (chain st))"

lemma fuzz_state_reachable: "fuzz_state E ws g st \<Longrightarrow> pos_reachable E g st"
  using new_chain_reachable [of E "fuzz_args E ws" g] by (auto simp: fuzz_state_def fresh_chain_def pos_reachable_def)

lemma reachable_invariants: "pos_reachable E g st \<Longrightarrow> unbonding (pos st) = [] \<Longrightarrow> check_invariants E st = Inr ()"
  using reachable_inv reachable_links(2)
  by (fastforce simp: check_invariants_def pos_inv_def is_valid_chain_def pos_total_supply_def check_def)

lemma fuzz_invariants: "fuzz_state E ws g st \<Longrightarrow> check_invariants E st = Inr ()"
  by (rule reachable_invariants [OF fuzz_state_reachable], assumption) (simp add: fuzz_state_def)

lemma fuzz_elected:
  assumes "fuzz_world E ws pariah" "fuzz_state E ws g st" "int (length (chain st)) < 2 ^ 64"
  obtains w where "w \<in> set ws" "next_validator E st = Inr (address E w)" "elected_wallet E ws st = Inr w"
proof -
  note reach = fuzz_state_reachable [OF assms(2)]
  have inv: "pos_inv st" using reachable_inv [OF reach] by simp
  obtain a x d where d: "stakes (pos st) = (a, x) # d" using assms(2) by (cases "stakes (pos st)") (auto simp: fuzz_state_def)
  then have "0 < stake_of st a" using inv by (simp add: stake_of_def pos_inv_def)
  then obtain v where v: "next_validator E st = Inr v" "0 < stake_of st v"
    using next_validator_total [OF inv reachable_heights [OF reach] _ assms(3)] by blast
  have "dhas (stakes (pos st)) v" using v(2) dget_not_dhas by (fastforce simp: stake_of_def)
  then obtain w where "w \<in> set ws" "v = address E w" using assms(2) by (auto simp: fuzz_state_def)
  with that v(1) by_addr_lookup [OF assms(1)] show ?thesis by (simp add: elected_wallet_def)
qed

text \<open>A round with transactions that fit.\<close>

lemma fuzz_accepts:
  assumes world: "fuzz_world E ws pariah" and st: "fuzz_state E ws g st"
    and w: "w \<in> set ws" "next_validator E st = Inr (address E w)"
    and txs: "distinct (map sender txs)" "distinct (map (txid E) txs)"
    and each: "\<And>t. t \<in> set txs \<Longrightarrow> fits E st (start_work (pos_hooks E) st) t \<and> sender t \<in> PStr ` address E ` set ws \<and>
        jsonable E (encode_tx t)"
  shows "\<exists>st'. pos_add_block E st txs w (PInt ts) (PInt 0) k = Inr st' \<and> fuzz_state E ws g st' \<and>
    length (chain st') = Suc (length (chain st))"
proof -
  note reach = fuzz_state_reachable [OF st]
  obtain b w1 where b: "seal_block E (PStr (block_hash E (head st))) (PInt (int (length (chain st)))) w txs (PInt ts) (PInt 0) k = Inr b"
    "validator b = PStr (address E w)" "transactions b = txs"
    "pos_apply_block_pre E st b (start_work (pos_hooks E) st) = Inr w1"
    "submit_block E (pos_hooks E) st b = pos_add_block E st txs w (PInt ts) (PInt 0) k"
    "pos_add_block E st txs w (PInt ts) (PInt 0) k =
      rbind (apply_txs E (pos_hooks E) st b [] w1 txs) (\<lambda>w2. Inr ((commit_work (pos_hooks E) w2 st)\<lparr>chain := chain st @ [b]\<rparr>))"
    using add_block_eq [OF reach fuzz_worldD(6) [OF world w(1)] w(2)] by blast
  have st0: "vesting st = []" "unbonding_blocks st = 0" "unbonding (pos st) = []"
    using st by (simp_all add: fuzz_state_def)
  have w1: "w_balances w1 = balances st" "w_nonces w1 = nonces st" "unbonding (w_aux w1) = []" "stakes (w_aux w1) = stakes (pos st)"
    using b(4) st0(3) by (auto simp: pos_apply_block_pre_def Let_def start_work_def pos_hooks_def pos_snapshot_aux_def split: if_splits)
  have "fits E st w1 t" if "t \<in> set txs" for t
    using each [OF that] by (simp add: fits_def w1) (simp add: start_work_def pos_hooks_def pos_snapshot_aux_def)
  then have "\<exists>w2. apply_txs E (pos_hooks E) st b [] w1 txs = Inr w2 \<and> unbonding (w_aux w2) = unbonding (w_aux w1) \<and>
      (\<forall>c. dhas (stakes (w_aux w1)) c \<longrightarrow> dhas (stakes (w_aux w2)) c) \<and>
      (\<forall>c. dhas (stakes (w_aux w2)) c \<longrightarrow> dhas (stakes (w_aux w1)) c \<or> PStr c \<in> sender ` set txs)"
    by (rule fits_all [OF txs(1) _ txs(2) _ st0(1,2)]) (simp_all add: b(2))
  then obtain w2 where w2: "apply_txs E (pos_hooks E) st b [] w1 txs = Inr w2" "unbonding (w_aux w2) = []"
    "\<forall>c. dhas (stakes (pos st)) c \<longrightarrow> dhas (stakes (w_aux w2)) c"
    "\<forall>c. dhas (stakes (w_aux w2)) c \<longrightarrow> dhas (stakes (pos st)) c \<or> PStr c \<in> sender ` set txs"
    unfolding w1 by blast
  let ?st' = "(commit_work (pos_hooks E) w2 st)\<lparr>chain := chain st @ [b]\<rparr>"
  have add: "pos_add_block E st txs w (PInt ts) (PInt 0) k = Inr ?st'" using b(6) w2(1) by simp
  have "reaches E (pos_hooks E) g ?st'"
    using st add b(5) by (auto simp: fuzz_state_def intro: reaches_step)
  moreover have "same_chain ?st' ?st'"
    using same_block [of st st E b] add b(5) st by (simp add: fuzz_state_def)
  moreover have "stakes (w_aux w2) \<noteq> []" using w2(3) st by (cases "stakes (pos st)") (auto simp: fuzz_state_def dhas_def)
  moreover have "dhas (stakes (w_aux w2)) c \<longrightarrow> c \<in> address E ` set ws" for c
    using w2(4) st each by (force simp: fuzz_state_def)
  moreover have "jsonable E (encode_block b)" using sealed_jsonable [OF b(1)] each by blast
  ultimately have "fuzz_state E ws g ?st'"
    using st w2(2) reachable_links(1) [OF reach] unfolding fuzz_state_def
    by (auto simp: commit_work_def pos_hooks_def pos_commit_aux_def simp del: json_ok.simps)
  with add show ?thesis by (intro exI [of _ ?st']) (simp add: commit_work_def)
qed

text \<open>What a sender draws fits, and is its own.\<close>

lemma randint_range: "a \<le> b \<Longrightarrow> \<exists>x ds'. randint a b ds = (x, ds') \<and> a \<le> x \<and> x \<le> b"
proof -
  assume "a \<le> b"
  then have "0 \<le> int n mod (b - a + 1)" "int n mod (b - a + 1) < b - a + 1" for n
    using pos_mod_sign [of "b - a + 1" "int n"] pos_mod_bound [of "b - a + 1" "int n"] by linarith+
  from this [of "fst (draw ds)"] show ?thesis by (cases "draw ds") (simp add: randint_def)
qed

lemma choice_in: "xs \<noteq> [] \<Longrightarrow> \<exists>x ds'. choice xs ds = (x, ds') \<and> x \<in> set xs"
  by (cases "draw ds") (simp add: choice_def)

lemma coins_below: "m \<le> u div COIN \<Longrightarrow> m * COIN \<le> u"
  using COIN_pos by (metis div_mult_mod_eq dual_order.trans le_add_same_cancel1 mult_right_mono less_imp_le pos_mod_sign)

lemma signed_fits:
  assumes st: "fuzz_state E ws g st" and laws: "ecdsa_laws E (secret s)"
    and amt: "0 < amt" "to \<noteq> SLASH_SENTINEL" "to \<noteq> VOTE_SENTINEL"
    and pay: "if to = UNSTAKE_SENTINEL then amt < stake_of st (address E s) else amt \<le> balance_of st (PStr (address E s))"
  shows "\<exists>t. sign_tx E s k (new_tx (address E s) to amt 0 (dget (nonces st) (PStr (address E s)) 0) []) = Inr t \<and>
    fits E st (start_work (pos_hooks E) st) t \<and> sender t = PStr (address E s) \<and> jsonable E (encode_tx t)"
proof -
  note reach = fuzz_state_reachable [OF st]
  let ?n = "dget (nonces st) (PStr (address E s)) 0"
  have inv: "pos_inv st" using reachable_inv [OF reach] by simp
  have n: "0 \<le> ?n" using reachable_nonces [OF reach] by (simp add: nonces_counted_def)
  obtain t where t: "sign_tx E s k (new_tx (address E s) to amt 0 ?n []) = Inr t" "is_valid E t = Inr True"
    using sign_tx_valid [OF laws, of "new_tx (address E s) to amt 0 ?n []" amt 0 ?n "[]" k] amt n by (auto simp: new_tx_def)
  note shape = signed_shape [OF t(1)]
  have "vesting st = []" using st by (simp add: fuzz_state_def)
  moreover have "dhas (balances st) (PStr (address E s)) \<and> 0 \<le> dget (balances st) (PStr (address E s)) 0"
    if "to = UNSTAKE_SENTINEL"
  proof -
    have "0 < stake_of st (address E s)" using pay amt(1) that by simp
    then have "dhas (stakes (pos st)) (address E s)" using dget_not_dhas by (fastforce simp: stake_of_def)
    with inv dall_dget [of "\<lambda>v. 0 \<le> v" "balances st" 0] show ?thesis by (simp add: pos_inv_def)
  qed
  ultimately have "fits E st (start_work (pos_hooks E) st) t"
    using t(2) shape amt pay
    by (auto simp: fits_def plain_def start_work_def pos_hooks_def pos_snapshot_aux_def balance_of_def stake_of_def split: if_splits)
  with t(1) shape show ?thesis by blast
qed

lemma random_tx_fits:
  assumes world: "fuzz_world E ws pariah" and st: "fuzz_state E ws g st" and s: "s \<in> set ws"
  shows "\<exists>r ds'. random_tx E ws st s ds = (Inr r, ds') \<and> (case r of None \<Rightarrow> True | Some t \<Rightarrow>
    fits E st (start_work (pos_hooks E) st) t \<and> sender t = PStr (address E s) \<and> jsonable E (encode_tx t))"
proof -
  let ?a = "address E s"
  let ?bal = "balance_of st (PStr ?a) div COIN" and ?stk = "stake_of st ?a div COIN"
  note laws = fuzz_worldD(6) [OF world s]
  note signed = signed_fits [OF st laws]
  obtain op ds1 where op: "choice ([''transfer'', ''stake''] @ (if 2 \<le> ?stk then [''unstake''] else [])) ds = (op, ds1)"
    "op = ''transfer'' \<or> op = ''stake'' \<or> op = ''unstake'' \<and> 2 \<le> ?stk"
    using choice_in [of "[''transfer'', ''stake''] @ (if 2 \<le> ?stk then [''unstake''] else [])" ds]
    by (auto split: if_splits)
  show ?thesis
  proof (cases "op = ''unstake''")
    case True
    with op(2) have stk: "2 \<le> ?stk" by simp
    obtain m ds2 where m: "randint 1 (?stk - 1) ds1 = (m, ds2)" "1 \<le> m" "m \<le> ?stk - 1"
      using randint_range [of 1 "?stk - 1" ds1] stk by auto
    obtain k ds3 where k: "draw ds2 = (k, ds3)" by fastforce
    have "m * COIN < (m + 1) * COIN" "(m + 1) * COIN \<le> stake_of st ?a" using m(3) COIN_pos coins_below [of "m + 1"] by simp_all
    with signed [of "m * COIN" UNSTAKE_SENTINEL k] m(2) COIN_pos show ?thesis
      using op(1) True by (auto simp: random_tx_def Let_def m(1) k unstake_tx_def)
  next
    case False
    show ?thesis
    proof (cases "?bal < 1")
      case True
      with op False show ?thesis by (auto simp: random_tx_def Let_def)
    next
      case bal: False
      obtain m ds2 where m: "randint 1 (min 10 ?bal) ds1 = (m, ds2)" "1 \<le> m" "m \<le> ?bal"
        using randint_range [of 1 "min 10 ?bal" ds1] bal by auto
      have pay: "m * COIN \<le> balance_of st (PStr ?a)" "0 < m * COIN" using coins_below [OF m(3)] m(2) COIN_pos by simp_all
      show ?thesis
      proof (cases "op = ''stake''")
        case True
        obtain k ds3 where k: "draw ds2 = (k, ds3)" by fastforce
        with signed [of "m * COIN" STAKE_SENTINEL k] pay op(1) True bal show ?thesis
          by (auto simp: random_tx_def Let_def m(1) stake_tx_def)
      next
        case stake: False
        have "filter (\<lambda>w. w \<noteq> s) ws \<noteq> []"
        proof
          assume "filter (\<lambda>w. w \<noteq> s) ws = []"
          then have "set ws \<subseteq> {s}" by (auto simp: filter_empty_conv)
          then have "card (set ws) \<le> 1" using card_mono [of "{s}" "set ws"] by simp
          with fuzz_worldD(1,3) [OF world] show False by (simp add: distinct_card)
        qed
        then obtain r ds3 where r: "choice (filter (\<lambda>w. w \<noteq> s) ws) ds2 = (r, ds3)" using choice_in by blast
        obtain k ds4 where k: "draw ds3 = (k, ds4)" by fastforce
        with signed [of "m * COIN" "address E r" k] address_not_reserved [of E r] pay op stake False bal show ?thesis
          by (auto simp: random_tx_def Let_def m(1) r)
      qed
    qed
  qed
qed

section \<open>A valid round passes\<close>

lemma sample_distinct:
  "distinct xs \<Longrightarrow> n \<le> length xs \<Longrightarrow> sample n xs ds = (ys, ds') \<Longrightarrow> distinct ys \<and> set ys \<subseteq> set xs"
proof (induction n arbitrary: xs ds ys ds')
  case (Suc n)
  obtain d ds1 where d: "draw ds = (d, ds1)" by fastforce
  let ?i = "d mod length xs"
  let ?rest = "take ?i xs @ drop (Suc ?i) xs"
  have "0 < length xs" using Suc.prems(2) by linarith
  then have i: "?i < length xs" by simp
  obtain zs ds2 where zs: "sample n ?rest ds1 = (zs, ds2)" by fastforce
  have xs: "xs = take ?i xs @ xs ! ?i # drop (Suc ?i) xs" by (rule id_take_nth_drop [OF i])
  then have "distinct (take ?i xs @ xs ! ?i # drop (Suc ?i) xs)" using Suc.prems(1) by metis
  then have rest: "distinct ?rest" "xs ! ?i \<notin> set ?rest" by auto
  have sub: "set ?rest \<subseteq> set xs" by (auto dest: in_set_takeD in_set_dropD)
  have "n \<le> length ?rest" using Suc.prems(2) i by simp
  note IH = Suc.IH [OF rest(1) this zs]
  have "ys = xs ! ?i # zs" using Suc.prems(3) by (simp add: d zs Let_def)
  moreover have "xs ! ?i \<notin> set zs" using IH rest(2) by blast
  moreover have "set zs \<subseteq> set xs" using IH sub by blast
  ultimately show ?case using IH i by simp
qed simp

text \<open>The pool of a round: one transaction for each sender that has come, each of which fits.\<close>

definition round_pool :: "env \<Rightarrow> wallet list \<Rightarrow> pos_chain \<Rightarrow> mempool \<Rightarrow> bool" where
  "round_pool E ws st m \<longleftrightarrow> pool_ok E m \<and> distinct (map (sender \<circ> snd) (pool m)) \<and>
     (\<forall>t \<in> snd ` set (pool m). fits E st (start_work (pos_hooks E) st) t \<and>
        sender t \<in> PStr ` address E ` set ws \<and> jsonable E (encode_tx t))"

lemma round_pool_length:
  assumes "round_pool E ws st m"
  shows "length (pool m) \<le> length ws"
proof -
  have "length (pool m) = card (set (map (sender \<circ> snd) (pool m)))"
    using distinct_card [of "map (sender \<circ> snd) (pool m)"] assms by (simp add: round_pool_def del: set_map)
  also have "\<dots> \<le> card (PStr ` address E ` set ws)"
    using assms by (intro card_mono) (auto simp: round_pool_def)
  also have "\<dots> \<le> length ws"
    by (meson card_image_le card_length finite_imageI finite_set order_trans)
  finally show ?thesis .
qed

lemma round_pool_add:
  assumes world: "fuzz_world E ws pariah" and m: "round_pool E ws st m"
    and t: "fits E st (start_work (pos_hooks E) st) t" "sender t \<in> PStr ` address E ` set ws" "jsonable E (encode_tx t)"
    and new: "sender t \<notin> (sender \<circ> snd) ` set (pool m)"
  shows "\<exists>b m'. mempool_add E t st m = Inr (b, m') \<and> round_pool E ws st m' \<and>
    (sender \<circ> snd) ` set (pool m') \<subseteq> insert (sender t) ((sender \<circ> snd) ` set (pool m))"
proof -
  have tx: "is_valid E t = Inr True" "tx_fee t = 0" "tx_nonce t = dget (nonces st) (sender t) 0"
    using t(1) by (simp_all add: fits_def start_work_def)
  have "length (pool m) < MAX_POOL_SIZE"
    using round_pool_length [OF m] fuzz_worldD(1) [OF world] by (simp add: MAX_POOL_SIZE_def)
  then have add: "mempool_add E t st m =
      (if dhas (pool m) (txid E t) then Inr (False, m) else Inr (True, m\<lparr>pool := AList.update (txid E t) t (pool m)\<rparr>))"
    using tx by (simp add: mempool_add_def MIN_FEE_def)
  show ?thesis
  proof (cases "dhas (pool m) (txid E t)")
    case True
    with add m show ?thesis by auto
  next
    case False
    let ?m = "m\<lparr>pool := AList.update (txid E t) t (pool m)\<rparr>"
    have ok: "pool_ok E ?m"
      by (rule mempool_add_ok [where new = True, where st = st and tx = t and m = m]) (use m add False in \<open>auto simp: round_pool_def\<close>)
    have pool: "pool ?m = pool m @ [(txid E t, t)]" using False by (simp add: update_new)
    have "round_pool E ws st ?m"
      using m ok new t unfolding round_pool_def pool by auto
    with add False pool show ?thesis by (intro exI [of _ True] exI [of _ ?m]) auto
  qed
qed

lemma disjoint_grown: "A \<inter> S = {} \<Longrightarrow> S' \<subseteq> insert x S \<Longrightarrow> x \<notin> A \<Longrightarrow> A \<inter> S' = {}"
  by blast

lemma fill_pool_fits:
  "fuzz_world E ws pariah \<Longrightarrow> fuzz_state E ws g st \<Longrightarrow> distinct ss \<Longrightarrow> set ss \<subseteq> set ws \<Longrightarrow> round_pool E ws st m \<Longrightarrow>
   PStr ` address E ` set ss \<inter> (sender \<circ> snd) ` set (pool m) = {} \<Longrightarrow>
   \<exists>m' ds'. fill_pool E ws st ss m ds = (Inr m', ds') \<and> round_pool E ws st m'"
proof (induction ss arbitrary: m ds)
  case (Cons s ss)
  have s: "s \<in> set ws" using Cons.prems(4) by simp
  have other: "PStr (address E s) \<notin> PStr ` address E ` set ss"
    using Cons.prems(3,4) fuzz_worldD(7) [OF Cons.prems(1) s] by auto
  obtain r ds1 where r: "random_tx E ws st s ds = (Inr r, ds1)" "case r of None \<Rightarrow> True | Some t \<Rightarrow>
      fits E st (start_work (pos_hooks E) st) t \<and> sender t = PStr (address E s) \<and> jsonable E (encode_tx t)"
    using random_tx_fits [OF Cons.prems(1,2) s] by blast
  note IH = Cons.IH [OF Cons.prems(1,2)]
  have "\<exists>m'. rbind (Inr r) (\<lambda>tx. case tx of None \<Rightarrow> Inr m | Some t \<Rightarrow> map_sum id snd (mempool_add E t st m)) = Inr m' \<and>
      round_pool E ws st m' \<and>
      (sender \<circ> snd) ` set (pool m') \<subseteq> insert (PStr (address E s)) ((sender \<circ> snd) ` set (pool m))"
  proof (cases r)
    case (Some t)
    with r(2) have t: "fits E st (start_work (pos_hooks E) st) t" "sender t = PStr (address E s)" "jsonable E (encode_tx t)" by simp_all
    have "sender t \<in> PStr ` address E ` set ws" "sender t \<notin> (sender \<circ> snd) ` set (pool m)"
      using s Cons.prems(6) by (auto simp: t(2))
    from round_pool_add [OF Cons.prems(1,5) t(1) this(1) t(3) this(2)]
    obtain b m' where "mempool_add E t st m = Inr (b, m')" "round_pool E ws st m'"
      "(sender \<circ> snd) ` set (pool m') \<subseteq> insert (PStr (address E s)) ((sender \<circ> snd) ` set (pool m))"
      unfolding t(2) by blast
    then show ?thesis using Some by simp
  qed (use Cons.prems(5) in auto)
  then obtain m' where m': "rbind (Inr r) (\<lambda>tx. case tx of None \<Rightarrow> Inr m | Some t \<Rightarrow> map_sum id snd (mempool_add E t st m)) = Inr m'"
    "round_pool E ws st m'" "(sender \<circ> snd) ` set (pool m') \<subseteq> insert (PStr (address E s)) ((sender \<circ> snd) ` set (pool m))" by blast
  have "fill_pool E ws st (s # ss) m ds = fill_pool E ws st ss m' ds1"
    using m'(1) by (simp add: r(1))
  moreover have "PStr ` address E ` set ss \<inter> (sender \<circ> snd) ` set (pool m') = {}"
  proof -
    have "PStr ` address E ` set ss \<inter> (sender \<circ> snd) ` set (pool m) = {}" using Cons.prems(6) by auto
    from disjoint_grown [OF this m'(3) other] show ?thesis .
  qed
  moreover have "distinct ss" "set ss \<subseteq> set ws" using Cons.prems(3,4) by simp_all
  ultimately show ?case using IH [OF _ _ m'(2), of ds1] by metis
qed auto

lemma round_pool_select:
  assumes "round_pool E ws st m"
  shows "distinct (map sender (select m st ub k))" "distinct (map (txid E) (select m st ub k))"
    "\<And>t. t \<in> set (select m st ub k) \<Longrightarrow> fits E st (start_work (pos_hooks E) st) t \<and> sender t \<in> PStr ` address E ` set ws \<and> jsonable E (encode_tx t)"
proof -
  have ok: "pool_ok E m" using assms(1) by (simp add: round_pool_def)
  note ids = select_txids [OF ok]
  show "distinct (map (txid E) (select m st ub k))" by (rule ids(1))
  have sub: "t \<in> snd ` set (pool m)" if "t \<in> set (select m st ub k)" for t using ids(2) [OF that] by blast
  show "fits E st (start_work (pos_hooks E) st) t \<and> sender t \<in> PStr ` address E ` set ws \<and> jsonable E (encode_tx t)"
    if "t \<in> set (select m st ub k)" for t using sub [OF that] assms(1) unfolding round_pool_def by blast
  have "inj_on (sender \<circ> snd) (set (pool m))" using assms(1) by (simp add: round_pool_def distinct_map)
  then have "inj_on sender (snd ` set (pool m))" by (rule inj_on_imageI)
  then have "inj_on sender (set (select m st ub k))" using sub by (meson inj_on_subset subsetI)
  with ids(1) show "distinct (map sender (select m st ub k))" by (auto simp: distinct_map)
qed

lemma valid_round_passes:
  assumes world: "fuzz_world E ws pariah" and st: "fuzz_state E ws g st" and bound: "int (length (chain st)) < 2 ^ 64"
  shows "\<exists>st' full ds'. valid_round E ws st ts ds = (Inr (st', full), ds') \<and> fuzz_state E ws g st' \<and>
    length (chain st') = Suc (length (chain st))"
proof -
  obtain n ds1 where n: "randint 0 (int (length ws)) ds = (n, ds1)" "0 \<le> n" "n \<le> int (length ws)"
    using randint_range [of 0 "int (length ws)" ds] by auto
  obtain ss ds2 where ss: "sample (nat n) ws ds1 = (ss, ds2)" by fastforce
  have senders: "distinct ss" "set ss \<subseteq> set ws"
    using sample_distinct [OF fuzz_worldD(3) [OF world] _ ss] n(2,3) by auto
  have "round_pool E ws st mempool_init" by (simp add: round_pool_def pool_ok_init) (simp add: mempool_init_def)
  moreover have "PStr ` address E ` set ss \<inter> (sender \<circ> snd) ` set (pool mempool_init) = {}" by (simp add: mempool_init_def)
  ultimately obtain m ds3 where
    m: "fill_pool E ws st ss mempool_init ds2 = (Inr m, ds3)" "round_pool E ws st m"
    using fill_pool_fits [OF world st senders] by blast
  obtain k ds4 where k: "draw ds3 = (k, ds4)" by fastforce
  obtain w where w: "w \<in> set ws" "next_validator E st = Inr (address E w)" "elected_wallet E ws st = Inr w"
    using fuzz_elected [OF world st bound] .
  let ?sel = "select m st (unbonding_blocks st) MAX_TXS_PER_BLOCK"
  note sel = round_pool_select [OF m(2), where ub = "unbonding_blocks st" and k = MAX_TXS_PER_BLOCK]
  obtain st' where st': "pos_add_block E st ?sel w (PInt ts) (PInt 0) k = Inr st'" "fuzz_state E ws g st'"
    "length (chain st') = Suc (length (chain st))"
    using fuzz_accepts [OF world st w(1,2) sel] by blast
  then show ?thesis
    by (simp add: valid_round_def n(1) ss m(1) k w(3) Let_def fuzz_invariants [OF st'(2)])
qed

section \<open>An invalid round passes\<close>

definition refused :: "'a res \<Rightarrow> bool" where
  "refused r \<longleftrightarrow> (\<exists>m. r = Inl (ValidationError m))"

lemma refused_bind: "refused r \<Longrightarrow> refused (rbind r f)"
  by (auto simp: refused_def)

lemma pay_outcome:
  assumes "vesting st = []" "recipient t = PStr (address E p)" "hash_key (validator b) = Inr v" "fee t = PInt 0"
  shows "dget (w_balances w) (sender t) 0 < tx_amount t \<Longrightarrow> refused (pos_apply_tx E st t b w)"
    "tx_amount t \<le> dget (w_balances w) (sender t) 0 \<Longrightarrow> \<exists>w'. pos_apply_tx E st t b w = Inr w'"
  using assms
  by (auto simp: refused_def pos_apply_tx_def base_apply_tx_def address_not_reserved Let_def credit_validator_def enforce_vesting_def)

text \<open>A signed transaction reads as one, also when its amount was changed: whether it is valid is decided
  without an exception.\<close>

lemma signed_decides:
  assumes "sign_tx E s k tx = Inr t" "fee tx = PInt f" "nonce tx = PInt n" "evidence tx = PStr ev"
  shows "\<exists>ok. is_valid E (t\<lparr>amount := PInt a\<rparr>) = Inr ok"
proof -
  obtain sig where t: "t = tx\<lparr>public_key := PStr (hex (public_key_bytes E s)), signature := PStr (hex sig)\<rparr>"
    using assms(1) by (auto simp: sign_tx_def Let_def rbind_eq_Inr public_key_hex_def split: if_splits)
  show ?thesis using assms(2-4) by (auto simp: t is_valid_def)
qed

lemma apply_txs_refused:
  "refused (pos_apply_tx E st t b w) \<Longrightarrow> is_valid E t = Inr ok \<Longrightarrow> refused (apply_txs E (pos_hooks E) st b seen w (t # txs))"
  "is_valid E t = Inr False \<Longrightarrow> refused (apply_txs E (pos_hooks E) st b seen w (t # txs))"
  "is_valid E t = Inr ok \<Longrightarrow> dget (w_nonces w) (sender t) 0 \<noteq> tx_nonce t \<Longrightarrow> refused (apply_txs E (pos_hooks E) st b seen w (t # txs))"
proof -
  have "apply_tx (pos_hooks E) = pos_apply_tx E" by (simp add: pos_hooks_def)
  then show "refused (pos_apply_tx E st t b w) \<Longrightarrow> is_valid E t = Inr ok \<Longrightarrow> refused (apply_txs E (pos_hooks E) st b seen w (t # txs))"
    "is_valid E t = Inr False \<Longrightarrow> refused (apply_txs E (pos_hooks E) st b seen w (t # txs))"
    "is_valid E t = Inr ok \<Longrightarrow> dget (w_nonces w) (sender t) 0 \<noteq> tx_nonce t \<Longrightarrow> refused (apply_txs E (pos_hooks E) st b seen w (t # txs))"
    by (auto simp: refused_def)
qed

lemma fuzz_refuses:
  assumes world: "fuzz_world E ws pariah" and st: "fuzz_state E ws g st"
    and w: "w \<in> set ws" "next_validator E st = Inr (address E w)"
    and txs: "\<And>b w1. validator b = PStr (address E w) \<Longrightarrow> w_balances w1 = balances st \<Longrightarrow> w_nonces w1 = nonces st \<Longrightarrow>
      refused (apply_txs E (pos_hooks E) st b [] w1 txs)"
  shows "refused (pos_add_block E st txs w ts non k)"
proof -
  obtain b w1 where b: "validator b = PStr (address E w)" "pos_apply_block_pre E st b (start_work (pos_hooks E) st) = Inr w1"
    "pos_add_block E st txs w ts non k =
      rbind (apply_txs E (pos_hooks E) st b [] w1 txs) (\<lambda>w2. Inr ((commit_work (pos_hooks E) w2 st)\<lparr>chain := chain st @ [b]\<rparr>))"
    using add_block_eq [OF fuzz_state_reachable [OF st] fuzz_worldD(6) [OF world w(1)] w(2)] by blast
  have "unbonding (pos st) = []" using st by (simp add: fuzz_state_def)
  then have "w_balances w1 = balances st" "w_nonces w1 = nonces st"
    using b(2) by (auto simp: pos_apply_block_pre_def Let_def start_work_def pos_hooks_def pos_snapshot_aux_def split: if_splits)
  from txs [OF b(1) this] show ?thesis unfolding b(3) by (rule refused_bind)
qed

text \<open>Every kind of defect is refused with a \<open>ValidationError\<close>.\<close>

lemma defect_refused:
  assumes world: "fuzz_world E ws pariah" and st: "fuzz_state E ws g st"
    and w: "w \<in> set ws" "next_validator E st = Inr (address E w)" and s: "s \<in> set ws"
  shows "refused (defect_block E pariah st w s kind ts k k')"
proof -
  let ?n = "dget (nonces st) (PStr (address E s)) 0" and ?bal = "balance_of st (PStr (address E s))"
  note reach = fuzz_state_reachable [OF st]
  have novest: "vesting st = []" using st by (simp add: fuzz_state_def)
  have inv: "pos_inv st" using reachable_inv [OF reach] by simp
  have n: "0 \<le> ?n" using reachable_nonces [OF reach] by (simp add: nonces_counted_def)
  have bal: "0 \<le> ?bal"
    using inv dall_dget [of "\<lambda>v. 0 \<le> v" "balances st" 0] by (simp add: pos_inv_def balance_of_def)
  have pay: "\<exists>t. sign_tx E s k (new_tx (address E s) (address E w) amt 0 m []) = Inr t \<and> is_valid E t = Inr True"
    if "0 < amt" "0 \<le> m" for amt m
    using sign_tx_valid [OF fuzz_worldD(6) [OF world s], of "new_tx (address E s) (address E w) amt 0 m []" amt 0 m "[]" k]
      that address_not_reserved [of E w] by (auto simp: new_tx_def)
  note refuses = fuzz_refuses [OF world st w]
  have over: "refused (apply_txs E (pos_hooks E) st b [] w1 (t # txs))"
    if "validator b = PStr (address E w)" "w_balances w1 = balances st" "is_valid E t = Inr ok" "recipient t = PStr (address E w)"
      "sender t = PStr (address E s)" "fee t = PInt 0" "?bal < tx_amount t" for b w1 t txs ok
    by (rule apply_txs_refused(1) [OF pay_outcome(1) [OF novest that(4) _ that(6)] that(3)])
      (use that in \<open>simp_all add: balance_of_def\<close>)
  consider "kind = ''proposer''" | "kind = ''overspend''" | "kind = ''nonce''" | "kind = ''tamper''"
    | (dup) "kind \<notin> {''proposer'', ''overspend'', ''nonce'', ''tamper''}" by blast
  then show ?thesis
  proof cases
    case 1
    have "address E w \<noteq> address E pariah" using fuzz_worldD(4) [OF world] w(1) by (metis imageI)
    from add_block_out_of_turn [OF reach fuzz_worldD(5) [OF world] w(2) this] show ?thesis
      using 1 by (simp add: defect_block_def refused_def)
  next
    case 2
    obtain t where t: "sign_tx E s k (new_tx (address E s) (address E w) (?bal + 1000 * COIN) 0 ?n []) = Inr t" "is_valid E t = Inr True"
      using pay [of "?bal + 1000 * COIN" ?n] bal n COIN_pos by fastforce
    have "refused (pos_add_block E st [t] w (PInt ts) (PInt 0) k')"
      using signed_shape [OF t(1)] COIN_pos by (intro refuses over [OF _ _ t(2)]) simp_all
    then show ?thesis using 2 t(1) by (simp add: defect_block_def)
  next
    case 3
    obtain t where t: "sign_tx E s k (new_tx (address E s) (address E w) (1 * COIN) 0 (?n + 5) []) = Inr t" "is_valid E t = Inr True"
      using pay [of "1 * COIN" "?n + 5"] n COIN_pos by fastforce
    have "refused (pos_add_block E st [t] w (PInt ts) (PInt 0) k')"
      using signed_shape [OF t(1)] by (intro refuses apply_txs_refused(3) [OF t(2)]) simp_all
    then show ?thesis using 3 t(1) by (simp add: defect_block_def)
  next
    case 4
    obtain t where t: "sign_tx E s k (new_tx (address E s) (address E w) (1 * COIN) 0 ?n []) = Inr t" "is_valid E t = Inr True"
      using pay [of "1 * COIN" ?n] n COIN_pos by fastforce
    obtain ok where "is_valid E (t\<lparr>amount := PInt (?bal + 999 * COIN)\<rparr>) = Inr ok"
      using signed_decides [OF t(1), of 0 ?n "[]" "?bal + 999 * COIN"] by (auto simp: new_tx_def)
    then have "refused (pos_add_block E st [t\<lparr>amount := PInt (?bal + 999 * COIN)\<rparr>] w (PInt ts) (PInt 0) k')"
      using signed_shape [OF t(1)] COIN_pos by (intro refuses over) simp_all
    then show ?thesis using 4 t(1) by (simp add: defect_block_def)
  next
    case dup
    obtain t where t: "sign_tx E s k (new_tx (address E s) (address E w) (1 * COIN) 0 ?n []) = Inr t" "is_valid E t = Inr True"
      using pay [of "1 * COIN" ?n] n COIN_pos by fastforce
    note shape = signed_shape [OF t(1)]
    have "refused (pos_add_block E st [t, t] w (PInt ts) (PInt 0) k')"
    proof (rule refuses)
      fix b :: block and w1 :: pos_work
      assume b: "validator b = PStr (address E w)" "w_balances w1 = balances st" "w_nonces w1 = nonces st"
      show "refused (apply_txs E (pos_hooks E) st b [] w1 [t, t])"
      proof (cases "?bal < 1 * COIN")
        case True
        with b shape show ?thesis by (intro over [OF _ _ t(2)]) simp_all
      next
        case False
        then obtain w2 where "pos_apply_tx E st t b w1 = Inr w2"
          using pay_outcome(2) [OF novest shape(3) _ shape(5), of b _ w1] b shape by (auto simp: balance_of_def)
        then show ?thesis using b(3) t(2) shape by (simp add: refused_def pos_hooks_def)
      qed
    qed
    then show ?thesis using dup t(1) by (simp add: defect_block_def)
  qed
qed

lemma dict_eq_refl: "wf_dict d \<Longrightarrow> dict_eq d d"
  by (auto simp: dict_eq_def list_all_iff wf_dict_def)

lemma same_snapshot_refl: "same_chain st st \<Longrightarrow> same_snapshot E st st"
  by (simp add: same_snapshot_def same_chain_def same_aux_def same_dict_def dict_eq_refl)

lemma invalid_round_passes:
  assumes world: "fuzz_world E ws pariah" and st: "fuzz_state E ws g st" and bound: "int (length (chain st)) < 2 ^ 64"
  shows "\<exists>ds'. invalid_round E ws pariah st ts ds = (Inr st, ds')"
proof -
  obtain w where w: "w \<in> set ws" "next_validator E st = Inr (address E w)" "elected_wallet E ws st = Inr w"
    using fuzz_elected [OF world st bound] .
  have "ws \<noteq> []" using w(1) by auto
  then obtain s ds1 where s: "choice ws ds = (s, ds1)" "s \<in> set ws" using choice_in by blast
  obtain kind ds2 where kind: "choice [''proposer'', ''overspend'', ''nonce'', ''tamper'', ''dup''] ds1 = (kind, ds2)" by fastforce
  obtain k ds3 k' ds4 where k: "draw ds2 = (k, ds3)" "draw ds3 = (k', ds4)" by fastforce
  obtain m where "defect_block E pariah st w s kind ts k k' = Inl (ValidationError m)"
    using defect_refused [OF world st w(1,2) s(2), of kind ts k k'] by (auto simp: refused_def)
  moreover have "same_snapshot E st st" using st by (intro same_snapshot_refl) (simp add: fuzz_state_def)
  ultimately show ?thesis
    by (simp add: invalid_round_def w(3) s(1) kind k Let_def fuzz_invariants [OF st])
qed

section \<open>The gate passes\<close>

lemma fuzz_rounds_pass:
  "fuzz_world E ws pariah \<Longrightarrow> fuzz_state E ws g st \<Longrightarrow> int (length (chain st)) + int n \<le> 2 ^ 64 \<Longrightarrow>
   \<exists>st' full. fuzz_rounds E ws pariah n i st ts (a, f, r) ds =
       Inr (st', a + (n + (if i mod 2 = 0 then 1 else 0)) div 2, full, r + (n + (if i mod 2 = 0 then 0 else 1)) div 2) \<and>
     fuzz_state E ws g st'"
proof (induction n arbitrary: i st ts a f r ds)
  case (Suc n)
  have bound: "int (length (chain st)) < 2 ^ 64" using Suc.prems(3) by simp
  have odd: "(if (i + 1) mod 2 = 0 then 1 else 0 :: nat) = (if i mod 2 = 0 then 0 else 1)"
    "(if (i + 1) mod 2 = 0 then 0 else 1 :: nat) = (if i mod 2 = 0 then 1 else 0)" by presburger+
  show ?case
  proof (cases "i mod 2 = 0")
    case True
    obtain st1 full ds1 where v: "valid_round E ws st (ts + 1) ds = (Inr (st1, full), ds1)" "fuzz_state E ws g st1"
      "length (chain st1) = Suc (length (chain st))"
      using valid_round_passes [OF Suc.prems(1,2) bound] by blast
    have "int (length (chain st1)) + int n \<le> 2 ^ 64" using Suc.prems(3) v(3) by simp
    from Suc.IH [OF Suc.prems(1) v(2) this, of "i + 1" "ts + 1" "a + 1" "if full then f + 1 else f" r ds1] True odd
    show ?thesis by (simp add: v(1) Let_def)
  next
    case False
    obtain ds1 where v: "invalid_round E ws pariah st (ts + 1) ds = (Inr st, ds1)"
      using invalid_round_passes [OF Suc.prems(1,2) bound] by blast
    have "int (length (chain st)) + int n \<le> 2 ^ 64" using Suc.prems(3) by simp
    from Suc.IH [OF Suc.prems(1,2) this, of "i + 1" "ts + 1" a f "r + 1" ds1] False odd
    show ?thesis by (simp add: v Let_def)
  qed
qed auto

text \<open>The chain of a seed: the constructor accepts the parameters.\<close>

lemma fuzz_args_eq:
  assumes "fuzz_world E ws pariah"
  obtains w0 w1 w2 w3 w4 w5 where "ws = [w0, w1, w2, w3, w4, w5]"
    "fuzz_args E ws = ([(address E w0, PInt (MAX_SUPPLY_UNITS - FUZZ_LIQUID * 5)), (address E w1, PInt FUZZ_LIQUID),
       (address E w2, PInt FUZZ_LIQUID), (address E w3, PInt FUZZ_LIQUID), (address E w4, PInt FUZZ_LIQUID),
       (address E w5, PInt FUZZ_LIQUID)],
       [(address E w0, PInt FUZZ_STAKE), (address E w1, PInt FUZZ_STAKE), (address E w2, PInt FUZZ_STAKE)],
       PInt FUZZ_TS, [], 0, None, DEFAULT_EPOCH)"
proof -
  from fuzz_worldD(1) [OF assms] obtain w0 w1 w2 w3 w4 w5 where ws: "ws = [w0, w1, w2, w3, w4, w5]"
    by (auto simp: length_Suc_conv numeral_eq_Suc)
  with that [OF ws] fuzz_worldD(2) [OF assms] show ?thesis
    by (simp add: fuzz_args_def fuzz_params_def Let_def)
qed

lemma fuzz_units: "FUZZ_STAKE = 100000000000" "FUZZ_LIQUID = 200000000000" "MAX_SUPPLY_UNITS = 100000000000000"
  by (simp_all add: FUZZ_STAKE_def FUZZ_LIQUID_def MAX_SUPPLY_UNITS_def MAX_SUPPLY_def COIN_def)

lemma fuzz_starts:
  assumes "fuzz_world E ws pariah"
  shows "\<exists>g. fuzz_state E ws g g \<and> fresh_chain E ws = Inr g \<and> length (chain g) = 1 \<and>
    balance_of g (PStr (address E (ws ! 0))) = MAX_SUPPLY_UNITS - FUZZ_LIQUID * 5 - FUZZ_STAKE \<and>
    (\<forall>a. dget (nonces g) a 0 = 0)"
proof -
  obtain w0 w1 w2 w3 w4 w5 where ws: "ws = [w0, w1, w2, w3, w4, w5]" and
    args: "fuzz_args E ws = ([(address E w0, PInt (MAX_SUPPLY_UNITS - FUZZ_LIQUID * 5)), (address E w1, PInt FUZZ_LIQUID),
       (address E w2, PInt FUZZ_LIQUID), (address E w3, PInt FUZZ_LIQUID), (address E w4, PInt FUZZ_LIQUID),
       (address E w5, PInt FUZZ_LIQUID)],
       [(address E w0, PInt FUZZ_STAKE), (address E w1, PInt FUZZ_STAKE), (address E w2, PInt FUZZ_STAKE)],
       PInt FUZZ_TS, [], 0, None, DEFAULT_EPOCH)" using fuzz_args_eq [OF assms] .
  let ?al = "fst (fuzz_args E ws)" and ?is = "fst (snd (fuzz_args E ws))"
  have keys: "distinct (map fst ?al)" "distinct (map fst ?is)"
    unfolding args using fuzz_worldD(2) [OF assms] by (simp_all add: ws)
  obtain base where b: "blockchain_init E ?al (PInt FUZZ_TS) = Inr base" "balances base = map (map_prod PStr the_int) ?al"
    using blockchain_init_Inr [of ?al E "PInt FUZZ_TS"] by (auto simp: args fuzz_units)
  have st: "init_stakes ?is (balances base) [] = Inr (fold unstaked ?is (balances base), fold staked ?is [])"
    unfolding init_stakes_fold [OF keys(2)] unfolding b(2) args using fuzz_worldD(2) [OF assms] by (simp add: fuzz_units ws)
  obtain g where g: "pos_init E ?al ?is (PInt FUZZ_TS) [] 0 None DEFAULT_EPOCH = Inr g" "balances g = fold unstaked ?is (balances base)"
    "vesting g = []" "unbonding_blocks g = 0" "unbonding (pos g) = []" "stakes (pos g) = fold staked ?is []" "chain g = chain base"
    "nonces g = nonces base"
    using b(1) st by (simp add: pos_init_def DEFAULT_EPOCH_def Let_def)
  then have fresh: "fresh_chain E ws = Inr g" by (simp add: fresh_chain_def new_chain_def args)
  obtain c where c: "chain g = [c]" using genesis_block(4) [OF b(1)] g(7) by auto
  have same: "same_chain g g" using same_genesis [OF g(1) refl refl refl keys] g(1) by simp
  have stakers: "dhas (stakes (pos g)) a \<longleftrightarrow> a \<in> {address E w0, address E w1, address E w2}" for a
    unfolding g(6) dget_staked(2) by (auto simp: args)
  have "stakes (pos g) \<noteq> []" using stakers [of "address E w0"] by auto
  then have "fuzz_state E ws g g"
    using fresh same g(3-5) stakers c by (auto simp: fuzz_state_def ws intro: reaches_start)
  moreover have "balance_of g (PStr (address E w0)) = MAX_SUPPLY_UNITS - FUZZ_LIQUID * 5 - FUZZ_STAKE"
    unfolding balance_of_def g(2) dget_unstaked(1) b(2) args using fuzz_worldD(2) [OF assms] by (auto simp: ws)
  moreover have "dget (nonces g) a 0 = 0" for a
    using dall_dget [OF genesis_block(3) [OF b(1)], of 0] g(8) by simp
  ultimately show ?thesis using fresh c by (auto simp: ws)
qed

lemma fuzz_seeds_pass:
  assumes world: "fuzz_world E ws pariah" and iters: "int iters < 2 ^ 64"
  shows "\<exists>final' full. fuzz_seeds E ws pariah iters seeds final (a, f, r) =
      Inr (final', a + length seeds * ((iters + 1) div 2), full, r + length seeds * (iters div 2)) \<and>
    (seeds \<noteq> [] \<longrightarrow> (\<exists>g st. final' = Some st \<and> fuzz_state E ws g st)) \<and> (seeds = [] \<longrightarrow> final' = final)"
proof (induction seeds arbitrary: final a f r)
  case (Cons ds seeds)
  obtain g where g: "fuzz_state E ws g g" "fresh_chain E ws = Inr g" "length (chain g) = 1"
    using fuzz_starts [OF world] by blast
  have "int (length (chain g)) + int iters \<le> 2 ^ 64" using iters g(3) by simp
  from fuzz_rounds_pass [OF world g(1) this, of 0 FUZZ_TS a f r ds] obtain st full where
    rounds: "fuzz_rounds E ws pariah iters 0 g FUZZ_TS (a, f, r) ds =
      Inr (st, a + (iters + 1) div 2, full, r + iters div 2)" "fuzz_state E ws g st" by auto
  from Cons.IH [of "Some st" "a + (iters + 1) div 2" full "r + iters div 2"] obtain final' full' where
    rest: "fuzz_seeds E ws pariah iters seeds (Some st) (a + (iters + 1) div 2, full, r + iters div 2) =
      Inr (final', a + (iters + 1) div 2 + length seeds * ((iters + 1) div 2), full', r + iters div 2 + length seeds * (iters div 2))"
    "seeds \<noteq> [] \<longrightarrow> (\<exists>g st. final' = Some st \<and> fuzz_state E ws g st)" "seeds = [] \<longrightarrow> final' = Some st" by blast
  have "fuzz_seeds E ws pariah iters (ds # seeds) final (a, f, r) =
      Inr (final', a + length (ds # seeds) * ((iters + 1) div 2), full', r + length (ds # seeds) * (iters div 2))"
    using rest(1) by (simp add: g(2) fuzz_invariants [OF g(1)] rounds(1) algebra_simps)
  with rest(2,3) rounds(2) show ?case by blast
qed auto

lemma persistence_passes:
  assumes world: "fuzz_world E ws pariah" and st: "fuzz_state E ws g st" and fl: "\<And>f. printable (float_repr E f)"
  shows "persistence_under_fuzz E ws st = Some (Inr ())"
proof -
  obtain w0 w1 w2 w3 w4 w5 where ws: "ws = [w0, w1, w2, w3, w4, w5]" and
    args: "fuzz_args E ws = ([(address E w0, PInt (MAX_SUPPLY_UNITS - FUZZ_LIQUID * 5)), (address E w1, PInt FUZZ_LIQUID),
       (address E w2, PInt FUZZ_LIQUID), (address E w3, PInt FUZZ_LIQUID), (address E w4, PInt FUZZ_LIQUID),
       (address E w5, PInt FUZZ_LIQUID)],
       [(address E w0, PInt FUZZ_STAKE), (address E w1, PInt FUZZ_STAKE), (address E w2, PInt FUZZ_STAKE)],
       PInt FUZZ_TS, [], 0, None, DEFAULT_EPOCH)" using fuzz_args_eq [OF world] .
  let ?empty = "\<lparr>genesis_file = None, blocks_file = None\<rparr>"
  obtain s0 where s0: "write_genesis E (fuzz_args E ws) ?empty = Inr s0" by (simp add: write_genesis_def)
  have json: "json_ok reject_float E (genesis_payload (fuzz_args E ws))"
    unfolding args genesis_payload_def using fuzz_worldD(2) [OF world] by (simp add: ws)
  have ts: "in_order True (fst (snd (snd (fuzz_args E ws)))) = fst (snd (snd (fuzz_args E ws)))" unfolding args by simp
  have g: "new_chain E (fuzz_args E ws) = Inr g" "reaches E (pos_hooks E) g st" "list_all (\<lambda>b. jsonable E (encode_block b)) (tl (chain st))"
    using st by (simp_all add: fuzz_state_def fresh_chain_def)
  let ?s = "fold (append_block E) (tl (chain st)) s0"
  obtain st' where st': "load E ?s = Some (Inr st')" "same_chain st st'"
    using stored_loads [OF fl s0 json ts g refl] by blast
  obtain g' where reach: "pos_reachable E g' st'" using load_reachable [OF st'(1)] by blast
  have same: "head st' = head st" "unbonding (pos st') = []"
    using st'(2) st by (simp_all add: same_chain_def same_aux_def head_def fuzz_state_def)
  have "check_invariants E st' = Inr ()" "pos_total_supply st' = MAX_SUPPLY_UNITS"
    using reachable_invariants [OF reach same(2)] reachable_inv [OF reach] by simp_all
  then show ?thesis by (simp add: persistence_under_fuzz_def s0 st'(1) same(1))
qed

text \<open>A run of payments by one sender who has enough for all.\<close>

lemma payments_schedule:
  "(\<And>t. t \<in> set txs \<Longrightarrow> sender t = a \<and> cost t ub = (c, - c)) \<Longrightarrow> map tx_nonce txs = [m .. m + int (length txs) - 1] \<Longrightarrow>
   non a = m \<Longrightarrow> int (length txs) * c \<le> bal a \<Longrightarrow> 0 \<le> c \<Longrightarrow> schedule_ok ub bal non txs"
proof (induction txs arbitrary: m bal non)
  case (Cons t txs)
  have t: "sender t = a" "cost t ub = (c, - c)" using Cons.prems(1) by simp_all
  have "[m .. m + int (length (t # txs)) - 1] = m # [m + 1 .. (m + 1) + int (length txs) - 1]"
    by (subst upto_rec1) (simp_all add: algebra_simps)
  then have n: "tx_nonce t = m" "map tx_nonce txs = [m + 1 .. (m + 1) + int (length txs) - 1]" using Cons.prems(2) by simp_all
  have le: "c + int (length txs) * c \<le> bal a" using Cons.prems(4) by (simp add: algebra_simps)
  moreover have "0 \<le> int (length txs) * c" using Cons.prems(5) by simp
  ultimately have "c \<le> bal a" by linarith
  moreover have "schedule_ok ub (bal(a := bal a - c)) (non(a := m + 1)) txs"
    by (rule Cons.IH [OF _ n(2)]) (use Cons.prems(1,5) le in auto)
  ultimately show ?case using t n(1) Cons.prems(3) by simp
qed simp

lemma map_int_upt: "map int [0..<n] = [0 .. int n - 1]"
  by (induction n) (simp_all add: upto_rec2)

lemma payments_unbonding:
  "apply_txs E (pos_hooks E) st b seen w txs = Inr w' \<Longrightarrow> (\<And>t. t \<in> set txs \<Longrightarrow> \<exists>p. recipient t = PStr (address E p)) \<Longrightarrow>
   w_aux w' = w_aux w"
proof (induction txs arbitrary: seen w)
  case (Cons t txs)
  obtain w1 where w1: "pos_apply_tx E st t b w = Inr w1"
    and rest: "apply_txs E (pos_hooks E) st b (txid E t # seen) w1 txs = Inr w'"
    using Cons.prems(1) by (auto simp: pos_hooks_def rbind_eq_Inr split: if_splits)
  obtain p where "recipient t = PStr (address E p)" using Cons.prems(2) by auto
  then have "base_apply_tx st t b w = Inr w1" using w1 by (auto simp: pos_apply_tx_def address_not_reserved rbind_eq_Inr)
  then have "w_aux w1 = w_aux w" by (rule base_apply_tx_Inr)
  with Cons.IH [OF rest] Cons.prems(2) show ?case by simp
qed simp

lemma benchmark_passes:
  assumes world: "fuzz_world E ws pariah" and n: "int n \<le> 989000"
    and ids: "\<And>txs. benchmark_txs E ws n ks = Inr txs \<Longrightarrow> distinct (map (txid E) txs)"
  shows "benchmark E ws n ks k = Inr ()"
proof -
  let ?a = "PStr (address E (ws ! 0))" and ?new = "\<lambda>i. new_tx (address E (ws ! 0)) (address E (ws ! 1)) (1 * COIN) 0 (int i) []"
  obtain g where g: "fuzz_state E ws g g" "fresh_chain E ws = Inr g" "length (chain g) = 1"
    "balance_of g ?a = MAX_SUPPLY_UNITS - FUZZ_LIQUID * 5 - FUZZ_STAKE"
    "\<And>a. dget (nonces g) a 0 = 0" using fuzz_starts [OF world] by blast
  note reach = fuzz_state_reachable [OF g(1)]
  have g0: "vesting g = []" "unbonding (pos g) = []" using g(1) by (simp_all add: fuzz_state_def)
  have w0: "ws ! 0 \<in> set ws" using fuzz_worldD(1) [OF world] by simp
  have signs: "\<exists>t. sign_tx E (ws ! 0) (ks i) (?new i) = Inr t \<and> is_valid E t = Inr True" for i
    using sign_tx_valid [OF fuzz_worldD(6) [OF world w0], of "?new i" "1 * COIN" 0 "int i" "[]" "ks i"]
      address_not_reserved [of E "ws ! 1"] COIN_pos by (auto simp: new_tx_def)
  then obtain T where T: "\<And>i. sign_tx E (ws ! 0) (ks i) (?new i) = Inr (T i)" "\<And>i. is_valid E (T i) = Inr True" by metis
  let ?txs = "map T [0..<n]"
  have txs: "benchmark_txs E ws n ks = Inr ?txs"
    unfolding benchmark_txs_def by (rule mapM_Inr) (rule T(1))
  note shape = signed_shape [OF T(1)]
  obtain w where w: "w \<in> set ws" "next_validator E g = Inr (address E w)" "elected_wallet E ws g = Inr w"
    using fuzz_elected [OF world g(1)] g(3) by auto
  obtain b w1 where b: "validator b = PStr (address E w)" "pos_apply_block_pre E g b (start_work (pos_hooks E) g) = Inr w1"
    "submit_block E (pos_hooks E) g b = pos_add_block E g ?txs w (PInt (FUZZ_TS + 1)) (PInt 0) k"
    "pos_add_block E g ?txs w (PInt (FUZZ_TS + 1)) (PInt 0) k =
      rbind (apply_txs E (pos_hooks E) g b [] w1 ?txs) (\<lambda>w2. Inr ((commit_work (pos_hooks E) w2 g)\<lparr>chain := chain g @ [b]\<rparr>))"
    using add_block_eq [OF reach fuzz_worldD(6) [OF world w(1)] w(2)] by blast
  have w1: "w_balances w1 = balances g" "w_nonces w1 = nonces g" "unbonding (w_aux w1) = []"
    using b(2) g0(2) by (auto simp: pos_apply_block_pre_def Let_def start_work_def pos_hooks_def pos_snapshot_aux_def split: if_splits)
  have plain: "plain g (T i)" for i
    using g0(1) address_not_reserved by (auto simp: plain_def shape)
  have "int n * COIN \<le> 989000 * COIN" using n COIN_pos by (intro mult_right_mono) simp_all
  then have "int n * COIN \<le> balance_of g ?a" by (simp add: g(4) fuzz_units COIN_def)
  moreover have "map tx_nonce ?txs = [0 .. int n - 1]" by (simp add: shape comp_def map_int_upt)
  ultimately have "schedule_ok 0 (balance_of g) (\<lambda>a. dget (nonces g) a 0) ?txs"
    using COIN_pos plain_cost [OF plain] by (intro payments_schedule [where a = ?a and c = COIN and m = 0]) (auto simp: shape g(5))
  moreover have "\<exists>w2. apply_txs E (pos_hooks E) g b [] w1 ?txs = Inr w2"
    if "schedule_ok 0 (balance_of g) (\<lambda>a. dget (nonces g) a 0) ?txs"
    using ids [OF txs] T(2) plain b(1)
    by (intro schedule_accepted [OF that, where v = "PStr (address E w)"]) (auto simp: w1 balance_of_def)
  ultimately obtain w2 where w2: "apply_txs E (pos_hooks E) g b [] w1 ?txs = Inr w2" by blast
  let ?st = "(commit_work (pos_hooks E) w2 g)\<lparr>chain := chain g @ [b]\<rparr>"
  have add: "pos_add_block E g ?txs w (PInt (FUZZ_TS + 1)) (PInt 0) k = Inr ?st" using b(4) w2 by simp
  have reach': "pos_reachable E g ?st" using pos_reachable_step [OF reach] b(3) add by simp
  have "w_aux w2 = w_aux w1" by (rule payments_unbonding [OF w2]) (auto simp: shape)
  then have "unbonding (pos ?st) = []" using w1(3) by (simp add: commit_work_def pos_hooks_def pos_commit_aux_def)
  then have "check_invariants E ?st = Inr ()" by (rule reachable_invariants [OF reach'])
  then show ?thesis by (simp add: benchmark_def g(2) fuzz_invariants txs w(3) add)
qed

lemma fuzz_main_passes:
  assumes world: "fuzz_world E ws pariah" and fl: "\<And>f. printable (float_repr E f)"
    and ids: "\<And>txs. benchmark_txs E ws 1000 ks = Inr txs \<Longrightarrow> distinct (map (txid E) txs)"
  shows "fuzz_main E ws pariah d1 d2 d3 ks k = Some (Inr ())"
proof -
  obtain g st counts where "fuzz E ws pariah [d1, d2, d3] 500 = Inr (Some st, counts)" "fuzz_state E ws g st"
    using fuzz_seeds_pass [OF world, of 500 "[d1, d2, d3]" None 0 0 0] by (auto simp: fuzz_def)
  with persistence_passes [OF world this(2) fl] benchmark_passes [OF world _ ids] show ?thesis
    by (simp add: fuzz_main_def)
qed

end
