(* ===== verification/Finality_Gates.thy ===== *)
theory Finality_Gates
  imports Vote_Live Fuzz
begin

text \<open>
  The gates \<open>finality.py\<close> runs on a chain: scripts of three validators that justify and finalize
  checkpoints, and of votes and slashes that have to be refused. Whatever ECDSA draws is \<open>ks\<close>: the n-th
  signature of a gate takes \<open>ks n\<close>.

  Shown: the gates pass, whatever the hash function and the keys are, as long as no two blocks of the
  gates collide.
\<close>

section \<open>The cast\<close>

definition GATE_TS :: int where
  "GATE_TS = 1700000000"

definition GATE_STAKE :: int where
  "GATE_STAKE = 1000 * COIN"

record cast =
  V1 :: wallet
  V2 :: wallet
  V3 :: wallet
  ALICE :: wallet
  TREASURY :: wallet

definition gate_cast :: "env \<Rightarrow> cast res" where
  "gate_cast E =
     rbind (from_secret E 1) (\<lambda>w1. rbind (from_secret E 2) (\<lambda>w2. rbind (from_secret E 3) (\<lambda>w3.
     rbind (from_secret E 4) (\<lambda>w4. rbind (from_secret E 5) (\<lambda>w5.
     Inr \<lparr>V1 = w1, V2 = w2, V3 = w3, ALICE = w4, TREASURY = w5\<rparr>)))))"

definition vals :: "env \<Rightarrow> cast \<Rightarrow> (string \<times> wallet) list" where
  "vals E c = fold (\<lambda>w. AList.update (address E w) w) [V1 c, V2 c, V3 c] []"

definition gate_args :: "env \<Rightarrow> cast \<Rightarrow> int \<Rightarrow> int \<Rightarrow> genesis_args" where
  "gate_args E c ep ub =
     (let put = (\<lambda>(w, u). AList.update (address E w) (PInt u))
      in (fold put [(ALICE c, MAX_SUPPLY_UNITS - 3 * GATE_STAKE), (V1 c, GATE_STAKE), (V2 c, GATE_STAKE), (V3 c, GATE_STAKE)] [],
          fold put [(V1 c, GATE_STAKE), (V2 c, GATE_STAKE), (V3 c, GATE_STAKE)] [],
          PInt GATE_TS, [], ub, Some (address E (TREASURY c)), ep))"

definition make_chain :: "env \<Rightarrow> cast \<Rightarrow> pos_chain res" where
  "make_chain E c = new_chain E (gate_args E c 2 10)"

definition produce :: "env \<Rightarrow> cast \<Rightarrow> pos_chain \<Rightarrow> transaction list \<Rightarrow> int \<Rightarrow> nat \<Rightarrow> pos_chain res" where
  "produce E c st txs ts k =
     rbind (next_validator E st) (\<lambda>v. rbind (dlookup (vals E c) v) (\<lambda>w.
     pos_add_block E st txs w (PInt ts) (PInt 0) k))"

text \<open>A call in a \<open>try\<close> that has to end with a \<open>ValidationError\<close>.\<close>

fun rejected :: "'a res \<Rightarrow> string \<Rightarrow> unit gate" where
  "rejected (Inr x) m = Inl (Failed m)"
| "rejected (Inl (ValidationError e)) m = Inr ()"
| "rejected (Inl e) m = Inl (Raised e)"

section \<open>Gates on a chain\<close>

definition happy_path ::
  "env \<Rightarrow> cast \<Rightarrow> (nat \<Rightarrow> nat) \<Rightarrow> pos_chain \<Rightarrow> (pos_chain \<times> string \<times> string \<times> string) res" where
  "happy_path E c ks st =
     (let g = block_hash E (head st)
      in rbind (produce E c st [] (GATE_TS + 1) (ks 0)) (\<lambda>st.
         rbind (produce E c st [] (GATE_TS + 2) (ks 1)) (\<lambda>st.
         let c2 = block_hash E (head st)
         in rbind (votes E st [(V1 c, ks 2), (V2 c, ks 3)] g 0 c2 2) (\<lambda>txs.
         rbind (produce E c st txs (GATE_TS + 3) (ks 4)) (\<lambda>st.
         rbind (produce E c st [] (GATE_TS + 4) (ks 5)) (\<lambda>st.
         let c4 = block_hash E (head st)
         in rbind (votes E st [(V1 c, ks 6), (V2 c, ks 7)] c2 2 c4 4) (\<lambda>txs.
         rbind (produce E c st txs (GATE_TS + 5) (ks 8)) (\<lambda>st. Inr (st, g, c2, c4)))))))))"

definition gate_justify_finalize :: "env \<Rightarrow> cast \<Rightarrow> (nat \<Rightarrow> nat) \<Rightarrow> unit gate" where
  "gate_justify_finalize E c ks =
     gbind (raises (make_chain E c)) (\<lambda>st.
     gbind (raises (happy_path E c ks st)) (\<lambda>(st, g, c2, c4).
     gbind (check (is_justified st c2 \<and> is_justified st c4) ''justified'') (\<lambda>_.
     gbind (check (finalized_checkpoint st = (c2, 2)) ''finalized'') (\<lambda>_.
     check (pos_total_supply st = MAX_SUPPLY_UNITS) ''supply''))))"

text \<open>Six blocks without votes; \<open>chain.chain[n]\<close> is there when \<open>produce\<close> has not raised.\<close>

primrec produce_empty :: "env \<Rightarrow> cast \<Rightarrow> (nat \<Rightarrow> nat) \<Rightarrow> nat \<Rightarrow> pos_chain \<Rightarrow> pos_chain res" where
  "produce_empty E c ks 0 st = Inr st"
| "produce_empty E c ks (Suc n) st =
     rbind (produce_empty E c ks n st) (\<lambda>st. produce E c st [] (GATE_TS + int (Suc n)) (ks n))"

definition gate_liveness :: "env \<Rightarrow> cast \<Rightarrow> (nat \<Rightarrow> nat) \<Rightarrow> unit gate" where
  "gate_liveness E c ks =
     gbind (raises (make_chain E c)) (\<lambda>st.
     let g = block_hash E (head st)
     in gbind (raises (produce_empty E c ks 6 st)) (\<lambda>st.
        gbind (check (py_eq (index (head st)) (PInt 6)) ''index'') (\<lambda>_.
        gbind (check (finalized_checkpoint st = (g, 0)) ''stalled'') (\<lambda>_.
        let c2 = block_hash E (chain st ! 2); c4 = block_hash E (chain st ! 4)
        in gbind (raises (votes E st [(V1 c, ks 6), (V2 c, ks 7)] g 0 c2 2)) (\<lambda>txs.
           gbind (raises (produce E c st txs (GATE_TS + 7) (ks 8))) (\<lambda>st.
           gbind (check (is_justified st c2) ''justified'') (\<lambda>_.
           gbind (raises (votes E st [(V1 c, ks 9), (V2 c, ks 10)] c2 2 c4 4)) (\<lambda>txs.
           gbind (raises (produce E c st txs (GATE_TS + 8) (ks 11))) (\<lambda>st.
           check (finalized_checkpoint st = (c2, 2)) ''finalized'')))))))))"

definition nonce_of :: "env \<Rightarrow> pos_chain \<Rightarrow> wallet \<Rightarrow> int" where
  "nonce_of E st w = dget (nonces st) (PStr (address E w)) 0"

definition gate_vote_admission :: "env \<Rightarrow> cast \<Rightarrow> (nat \<Rightarrow> nat) \<Rightarrow> unit gate" where
  "gate_vote_admission E c ks =
     gbind (raises (make_chain E c)) (\<lambda>st.
     let g = block_hash E (head st); a1 = address E (V1 c)
     in gbind (raises (produce E c st [] (GATE_TS + 1) (ks 0))) (\<lambda>st.
        gbind (raises (produce E c st [] (GATE_TS + 2) (ks 1))) (\<lambda>st.
        let c2 = block_hash E (head st)
        in gbind (raises (rbind (sign_tx E (V1 c) (ks 2) (new_tx a1 VOTE_SENTINEL 5 0 0 ''x'')) (is_valid E))) (\<lambda>ok.
           gbind (check (\<not> ok) ''vote with an amount'') (\<lambda>_.
           gbind (raises (rbind (sign_tx E (V1 c) (ks 3) (new_tx a1 VOTE_SENTINEL 0 0 0 [])) (is_valid E))) (\<lambda>ok.
           gbind (check (\<not> ok) ''vote without evidence'') (\<lambda>_.
           let n = nonce_of E st (V1 c)
           in gbind (rejected (rbind (vote_tx E (V1 c) g 0 c2 3 n 0 (ks 4)) (\<lambda>t. produce E c st [t] (GATE_TS + 3) (ks 5)))
                 ''non-epoch target must be rejected'') (\<lambda>_.
              gbind (rejected (rbind (vote_tx E (ALICE c) g 0 c2 2 (nonce_of E st (ALICE c)) 0 (ks 6))
                 (\<lambda>t. produce E c st [t] (GATE_TS + 4) (ks 7))) ''zero-stake voter must be rejected'') (\<lambda>_.
              gbind (raises (produce E c st [] (GATE_TS + 5) (ks 8))) (\<lambda>st.
              gbind (raises (produce E c st [] (GATE_TS + 6) (ks 9))) (\<lambda>st.
              let c4 = block_hash E (head st)
              in gbind (rejected (rbind (vote_tx E (V1 c) c2 2 c4 4 (nonce_of E st (V1 c)) 0 (ks 10))
                    (\<lambda>t. produce E c st [t] (GATE_TS + 7) (ks 11))) ''vote from an unjustified source must be rejected'') (\<lambda>_.
                 gbind (raises (votes E st [(V1 c, ks 12), (V2 c, ks 13)] g 0 c2 2)) (\<lambda>txs.
                 gbind (raises (produce E c st txs (GATE_TS + 8) (ks 14))) (\<lambda>st.
                 rejected (rbind (vote_tx E (V1 c) g 0 (concat (replicate 32 ''ff'')) 2 (nonce_of E st (V1 c)) 0 (ks 15))
                    (\<lambda>t. produce E c st [t] (GATE_TS + 9) (ks 16))) ''a conflicting second vote must be rejected''))))))))))))))"

definition gate_vote_fault_slashing :: "env \<Rightarrow> cast \<Rightarrow> (nat \<Rightarrow> nat) \<Rightarrow> unit gate" where
  "gate_vote_fault_slashing E c ks =
     (let a3 = address E (V3 c); ta = address E (TREASURY c); aa = address E (ALICE c);
          rep = (\<lambda>s. concat (replicate 32 s))
      in gbind (raises (make_chain E c)) (\<lambda>st.
         gbind (raises (happy_path E c ks st)) (\<lambda>(st, g, c2, c4).
         gbind (raises (vote_tx E (V3 c) g 0 (rep ''aa'') 2 0 0 (ks 9))) (\<lambda>da.
         gbind (raises (vote_tx E (V3 c) g 0 (rep ''bb'') 2 0 0 (ks 10))) (\<lambda>db.
         gbind (raises (verify_vote_fault E da db)) (\<lambda>(offender, offense_id).
         gbind (check (offender = PStr a3) ''double vote'') (\<lambda>_.
         gbind (raises (vote_tx E (V3 c) g 0 (rep ''cc'') 8 0 0 (ks 11))) (\<lambda>sa.
         gbind (raises (vote_tx E (V3 c) (rep ''dd'') 2 (rep ''ee'') 4 0 0 (ks 12))) (\<lambda>sb.
         gbind (raises (verify_vote_fault E sa sb)) (\<lambda>(off2, _).
         gbind (check (off2 = PStr a3) ''surround vote'') (\<lambda>_.
         gbind (raises (vote_tx E (V1 c) g 0 c2 2 0 0 (ks 13))) (\<lambda>h1.
         gbind (raises (vote_tx E (V1 c) c2 2 c4 4 0 0 (ks 14))) (\<lambda>h2.
         gbind (rejected (verify_vote_fault E h1 h2) ''honest non-overlapping votes must not be a fault'') (\<lambda>_.
         let v3_stake = stake_of st a3;
             treas_before = balance_of st (PStr ta);
             rep_before = balance_of st (PStr aa)
         in gbind (raises (vote_slash_tx E (ALICE c) da db (nonce_of E st (ALICE c)) 0 (ks 15))) (\<lambda>slash.
            gbind (raises (produce E c st [slash] (GATE_TS + 10) (ks 16))) (\<lambda>st.
            gbind (check (stake_of st a3 = 0) ''stake'') (\<lambda>_.
            gbind (check (balance_of st (PStr aa) = rep_before + v3_stake * REPORTER_BPS div 10000) ''reporter'') (\<lambda>_.
            gbind (check (balance_of st (PStr ta) = treas_before + v3_stake - v3_stake * REPORTER_BPS div 10000) ''treasury'') (\<lambda>_.
            gbind (check (pos_total_supply st = MAX_SUPPLY_UNITS) ''supply'') (\<lambda>_.
            rejected (rbind (vote_slash_tx E (ALICE c) da db (nonce_of E st (ALICE c)) 0 (ks 17))
               (\<lambda>t. produce E c st [t] (GATE_TS + 11) (ks 18))) ''double slash must be rejected''))))))))))))))))))))"

section \<open>The world of the gates\<close>

text \<open>The chains blocks are sealed on, and these blocks.\<close>

inductive built :: "env \<Rightarrow> cast \<Rightarrow> pos_chain \<Rightarrow> bool" for E c where
  built_start: "make_chain E c = Inr g \<Longrightarrow> built E c g"
| built_step: "built E c st \<Longrightarrow>
    seal_block E (PStr (block_hash E (head st))) (PInt (int (length (chain st)))) w txs (PInt ts) (PInt 0) k = Inr b \<Longrightarrow>
    submit_block E (pos_hooks E) st b = Inr st' \<Longrightarrow> built E c st'"

definition sealed :: "env \<Rightarrow> cast \<Rightarrow> block \<Rightarrow> bool" where
  "sealed E c b \<longleftrightarrow> (\<exists>g. make_chain E c = Inr g \<and> b = head g) \<or>
     (\<exists>st w txs ts k. built E c st \<and>
        seal_block E (PStr (block_hash E (head st))) (PInt (int (length (chain st)))) w txs (PInt ts) (PInt 0) k = Inr b)"

definition NO_HASH :: string where
  "NO_HASH = concat (replicate 32 ''ff'')"

definition collision_free :: "env \<Rightarrow> cast \<Rightarrow> bool" where
  "collision_free E c \<longleftrightarrow>
     (\<forall>b b'. sealed E c b \<longrightarrow> sealed E c b' \<longrightarrow> block_hash E b = block_hash E b' \<longrightarrow>
        index b = index b' \<and> timestamp b = timestamp b') \<and>
     (\<forall>b. sealed E c b \<longrightarrow> block_hash E b \<noteq> NO_HASH) \<and>
     (\<forall>v w s sh t th n n' k k' x y. vote_tx E v s sh t th n 0 k = Inr x \<longrightarrow> vote_tx E w s sh t th n' 0 k' = Inr y \<longrightarrow>
        address E v \<noteq> address E w \<longrightarrow> txid E x \<noteq> txid E y)"

definition finality_world :: "env \<Rightarrow> cast \<Rightarrow> bool" where
  "finality_world E c \<longleftrightarrow> gate_cast E = Inr c \<and> (\<forall>w \<in> {V1 c, V2 c, V3 c, ALICE c, TREASURY c}. ecdsa_laws E (secret w)) \<and>
     distinct (map (address E) [V1 c, V2 c, V3 c, ALICE c, TREASURY c]) \<and> collision_free E c"

lemma finality_worldD:
  assumes "finality_world E c"
  shows "distinct (map (address E) [V1 c, V2 c, V3 c, ALICE c, TREASURY c])"
    "ecdsa_laws E (secret (V1 c))" "ecdsa_laws E (secret (V2 c))" "ecdsa_laws E (secret (V3 c))"
    "ecdsa_laws E (secret (ALICE c))"
    "\<And>b b'. sealed E c b \<Longrightarrow> sealed E c b' \<Longrightarrow> block_hash E b = block_hash E b' \<Longrightarrow> index b = index b' \<and> timestamp b = timestamp b'"
    "\<And>b. sealed E c b \<Longrightarrow> block_hash E b \<noteq> NO_HASH"
    "vote_tx E v s sh t th n 0 k = Inr x \<Longrightarrow> vote_tx E w s sh t th n' 0 k' = Inr y \<Longrightarrow> address E v \<noteq> address E w \<Longrightarrow> txid E x \<noteq> txid E y"
  using assms unfolding finality_world_def collision_free_def by blast+

lemma vals_lookup:
  assumes "finality_world E c"
  shows "vals E c = [(address E (V1 c), V1 c), (address E (V2 c), V2 c), (address E (V3 c), V3 c)]"
    "w \<in> {V1 c, V2 c, V3 c} \<Longrightarrow> dlookup (vals E c) (address E w) = Inr w"
proof -
  show "vals E c = [(address E (V1 c), V1 c), (address E (V2 c), V2 c), (address E (V3 c), V3 c)]"
    using finality_worldD(1) [OF assms] by (simp add: vals_def)
  then show "w \<in> {V1 c, V2 c, V3 c} \<Longrightarrow> dlookup (vals E c) (address E w) = Inr w"
    using finality_worldD(1) [OF assms] by (auto simp: dlookup_def)
qed

lemma built_reaches: "built E c st \<Longrightarrow> \<exists>g. make_chain E c = Inr g \<and> reaches E (pos_hooks E) g st"
  by (induction rule: built.induct) (blast intro: reaches_start reaches_step)+

lemma built_reachable: "built E c st \<Longrightarrow> \<exists>g. pos_reachable E g st"
  using built_reaches [of E c st] new_chain_reachable
  unfolding make_chain_def pos_reachable_def by blast

section \<open>The states of the gates\<close>

definition gate_stakes :: "env \<Rightarrow> cast \<Rightarrow> stake_map" where
  "gate_stakes E c = [(address E (V1 c), GATE_STAKE), (address E (V2 c), GATE_STAKE), (address E (V3 c), GATE_STAKE)]"

text \<open>Every block at an even height is a checkpoint with the stakes of genesis.\<close>

definition checkpointed :: "env \<Rightarrow> stake_map \<Rightarrow> block list \<Rightarrow> pos_aux \<Rightarrow> bool" where
  "checkpointed E stk ch aux \<longleftrightarrow> (\<forall>n < length ch. even n \<longrightarrow>
     map_of (ffg_height aux) (block_hash E (ch ! n)) = Some (int n) \<and> map_of (ffg_stake aux) (block_hash E (ch ! n)) = Some stk)"

definition gate_state :: "env \<Rightarrow> cast \<Rightarrow> pos_chain \<Rightarrow> bool" where
  "gate_state E c st \<longleftrightarrow> built E c st \<and> same_chain st st \<and> stakes (pos st) = gate_stakes E c \<and> unbonding (pos st) = [] \<and>
     slashed (pos st) = [] \<and> slashed_addrs (pos st) = [] \<and> vesting st = [] \<and> epoch st = 2 \<and>
     treasury_address st = Some (address E (TREASURY c)) \<and> checkpointed E (gate_stakes E c) (chain st) (pos st) \<and>
     list_all (\<lambda>b. jsonable E (encode_block b)) (tl (chain st)) \<and> list_all (sealed E c) (chain st) \<and>
     (\<forall>w \<in> {V1 c, V2 c, V3 c, ALICE c}. dhas (balances st) (PStr (address E w)))"

lemma gate_reach:
  assumes "gate_state E c st"
  shows "\<exists>g. make_chain E c = Inr g \<and> reaches E (pos_hooks E) g st \<and> pos_reachable E g st"
proof -
  obtain g where g: "make_chain E c = Inr g" "reaches E (pos_hooks E) g st"
    using assms built_reaches unfolding gate_state_def by blast
  with new_chain_reachable [of E _ g] show ?thesis unfolding make_chain_def pos_reachable_def by blast
qed

text \<open>What the votes of a chain have come to.\<close>

definition vote_state ::
  "pos_chain \<Rightarrow> ((string \<times> string) \<times> string list) list \<times> ((string \<times> int) \<times> string \<times> string) list \<times> string list \<times> string \<times> int" where
  "vote_state st = (ffg_votes (pos st), ffg_seen_target (pos st), justified (pos st), finalized (pos st))"

lemma sealed_index: "sealed E c b \<Longrightarrow> \<exists>n. index b = PInt n"
  unfolding sealed_def
proof (elim disjE exE conjE)
  fix g assume g: "make_chain E c = Inr g" "b = head g"
  obtain al "is" ts gr ub tr ep where "pos_init E al is ts gr ub tr ep = Inr g"
    using g(1) by (auto simp: make_chain_def new_chain_def split: prod.splits)
  then obtain base where "blockchain_init E al ts = Inr base" "chain g = chain base" using pos_init_Inr by metis
  then show ?thesis using g(2) by (auto simp: blockchain_init_def head_def new_block_def rbind_eq_Inr Let_def split: if_splits)
qed (auto simp: seal_block_def new_block_def rbind_eq_Inr Let_def)

lemma gate_hashes:
  assumes world: "finality_world E c" and st: "gate_state E c st" and n: "n < length (chain st)"
  shows "index (chain st ! n) = PInt (int n)"
    "m < length (chain st) \<Longrightarrow> block_hash E (chain st ! m) = block_hash E (chain st ! n) \<longleftrightarrow> m = n"
    "sealed E c b \<Longrightarrow> index b = PInt (int (length (chain st))) \<Longrightarrow> block_hash E b \<noteq> block_hash E (chain st ! n)"
proof -
  obtain g where reach: "pos_reachable E g st" using gate_reach [OF st] by blast
  have sl: "sealed E c (chain st ! m)" if "m < length (chain st)" for m
    using st that by (simp add: gate_state_def list_all_length)
  have ix: "index (chain st ! m) = PInt (int m)" if "m < length (chain st)" for m
    using sealed_index [OF sl [OF that]] reachable_heights [OF reach] that by (fastforce simp: heights_ok_def)
  show "index (chain st ! n) = PInt (int n)" by (rule ix [OF n])
  show "block_hash E (chain st ! m) = block_hash E (chain st ! n) \<longleftrightarrow> m = n" if "m < length (chain st)"
    using finality_worldD(6) [OF world sl [OF that] sl [OF n]] ix [OF that] ix [OF n] by auto
  show "block_hash E b \<noteq> block_hash E (chain st ! n)" if "sealed E c b" "index b = PInt (int (length (chain st)))"
    using finality_worldD(6) [OF world that(1) sl [OF n]] that(2) ix [OF n] n by auto
qed

text \<open>The genesis of the gates.\<close>

lemma gate_args_eq:
  assumes "finality_world E c"
  shows "gate_args E c ep ub =
    ([(address E (ALICE c), PInt (MAX_SUPPLY_UNITS - 3 * GATE_STAKE)), (address E (V1 c), PInt GATE_STAKE),
      (address E (V2 c), PInt GATE_STAKE), (address E (V3 c), PInt GATE_STAKE)],
     [(address E (V1 c), PInt GATE_STAKE), (address E (V2 c), PInt GATE_STAKE), (address E (V3 c), PInt GATE_STAKE)],
     PInt GATE_TS, [], ub, Some (address E (TREASURY c)), ep)"
  using finality_worldD(1) [OF assms] by (auto simp: gate_args_def Let_def)

lemma gate_units: "GATE_STAKE = 100000000000" "MAX_SUPPLY_UNITS = 100000000000000"
  by (simp_all add: GATE_STAKE_def MAX_SUPPLY_UNITS_def MAX_SUPPLY_def COIN_def)

lemma gate_starts:
  assumes "finality_world E c"
  shows "\<exists>g. make_chain E c = Inr g \<and> gate_state E c g \<and> length (chain g) = 1 \<and>
    vote_state g = ([], [], [block_hash E (head g)], (block_hash E (head g), 0))"
proof -
  define al where "al = [(address E (ALICE c), PInt (MAX_SUPPLY_UNITS - 3 * GATE_STAKE)), (address E (V1 c), PInt GATE_STAKE),
      (address E (V2 c), PInt GATE_STAKE), (address E (V3 c), PInt GATE_STAKE)]"
  define "is" where "is = [(address E (V1 c), PInt GATE_STAKE), (address E (V2 c), PInt GATE_STAKE), (address E (V3 c), PInt GATE_STAKE)]"
  let ?t = "address E (TREASURY c)"
  have args: "gate_args E c 2 10 = (al, is, PInt GATE_TS, [], 10, Some ?t, 2)"
    by (simp add: gate_args_eq [OF assms] al_def is_def)
  note addrs = finality_worldD(1) [OF assms]
  have keys: "distinct (map fst al)" "distinct (map fst is)" using addrs by (auto simp: al_def is_def)
  have "dall is_units al" "dsum (map (map_prod PStr the_int) al) = MAX_SUPPLY_UNITS"
    by (simp_all add: al_def gate_units dall_def dsum_def)
  then obtain base where b: "blockchain_init E al (PInt GATE_TS) = Inr base" "balances base = map (map_prod PStr the_int) al"
    using blockchain_init_Inr [of al E "PInt GATE_TS"] by auto
  have st: "init_stakes is (balances base) [] = Inr (fold unstaked is (balances base), fold staked is [])"
    unfolding init_stakes_fold [OF keys(2)] unfolding b(2) using addrs by (auto simp: gate_units al_def is_def)
  obtain h where h: "chain base = [h]" using genesis_block(4) [OF b(1)] by auto
  obtain g where g: "pos_init E al is (PInt GATE_TS) [] 10 (Some ?t) 2 = Inr g"
    "balances g = dsetdefault (fold unstaked is (balances base)) (PStr ?t) 0" "chain g = [h]" "vesting g = []"
    "pos g = \<lparr>stakes = fold staked is [], unbonding = [], slashed = [], slashed_addrs = [],
               ffg_stake = [(block_hash E h, fold staked is [])], ffg_height = [(block_hash E h, 0)],
               ffg_votes = [], ffg_seen_target = [], justified = [block_hash E h],
               justified_parent = [], finalized = (block_hash E h, 0)\<rparr>"
    "treasury_address g = Some ?t" "epoch g = 2"
    using b(1) st h by (simp add: pos_init_def Let_def head_def)
  have made: "make_chain E c = Inr g" using g(1) by (simp add: make_chain_def new_chain_def args)
  have stk: "fold staked is [] = gate_stakes E c" using addrs by (auto simp: is_def gate_stakes_def)
  have has: "dhas (balances g) (PStr (address E w))" if "w \<in> {V1 c, V2 c, V3 c, ALICE c}" for w
    using that by (auto simp: g(2) dget_unstaked(2) b(2) is_def al_def dhas_def dsetdefault_def)
  have "same_chain g g" using same_genesis [OF g(1) refl refl refl keys] g(1) by simp
  moreover have "sealed E c h" using made g(3) by (auto simp: sealed_def head_def)
  ultimately have "gate_state E c g"
    using made g(3-7) has by (simp add: gate_state_def stk built_start checkpointed_def)
  then show ?thesis using made g(3,5) by (simp add: vote_state_def head_def)
qed

section \<open>A block more\<close>

lemma gate_elected:
  assumes world: "finality_world E c" and reach: "pos_reachable E g st" and len: "int (length (chain st)) < 2 ^ 64"
    and stakers: "stakes (pos st) \<noteq> []" "\<And>a. dhas (stakes (pos st)) a \<Longrightarrow> a \<in> address E ` {V1 c, V2 c, V3 c}"
  shows "\<exists>w \<in> {V1 c, V2 c, V3 c}. next_validator E st = Inr (address E w) \<and> ecdsa_laws E (secret w) \<and>
    dlookup (vals E c) (address E w) = Inr w"
proof -
  have inv: "pos_inv st" using reachable_inv [OF reach] by simp
  obtain a x d where d: "stakes (pos st) = (a, x) # d" using stakers(1) by (cases "stakes (pos st)") auto
  then have "0 < stake_of st a" using inv by (simp add: stake_of_def pos_inv_def)
  then obtain v where v: "next_validator E st = Inr v" "0 < stake_of st v"
    using next_validator_total [OF inv reachable_heights [OF reach] _ len] by blast
  have "dhas (stakes (pos st)) v" using v(2) dget_not_dhas by (fastforce simp: stake_of_def)
  then obtain w where "w \<in> {V1 c, V2 c, V3 c}" "v = address E w" using stakers(2) by blast
  then show ?thesis using v(1) vals_lookup(2) [OF world] finality_worldD(2-4) [OF world] by auto
qed

lemma gate_state_elected:
  assumes "finality_world E c" "gate_state E c st" "length (chain st) < 100"
  shows "\<exists>w \<in> {V1 c, V2 c, V3 c}. next_validator E st = Inr (address E w) \<and> ecdsa_laws E (secret w) \<and>
    dlookup (vals E c) (address E w) = Inr w"
proof -
  obtain g where "pos_reachable E g st" using gate_reach [OF assms(2)] by blast
  moreover have "int (length (chain st)) < 2 ^ 64" using assms(3) by simp
  ultimately show ?thesis
    by (rule gate_elected [OF assms(1)]) (use assms(2) in \<open>auto simp: gate_state_def gate_stakes_def dhas_def\<close>)
qed

lemma checkpointed_snoc:
  assumes "checkpointed E stk ch aux" "\<And>n. n < length ch \<Longrightarrow> block_hash E (ch ! n) \<noteq> block_hash E b"
  shows "even (length ch) \<Longrightarrow> checkpointed E stk (ch @ [b])
      (aux\<lparr>ffg_stake := AList.update (block_hash E b) stk (ffg_stake aux), ffg_height := AList.update (block_hash E b) (int (length ch)) (ffg_height aux)\<rparr>)"
    "odd (length ch) \<Longrightarrow> checkpointed E stk (ch @ [b]) aux"
  using assms by (auto simp: checkpointed_def nth_append less_Suc_eq update_conv')

lemma checkpointed_cong:
  "ffg_stake aux' = ffg_stake aux \<Longrightarrow> ffg_height aux' = ffg_height aux \<Longrightarrow> checkpointed E stk ch aux' = checkpointed E stk ch aux"
  by (simp add: checkpointed_def)

lemma gate_step:
  assumes world: "finality_world E c" and st: "gate_state E c st"
    and seal: "seal_block E (PStr (block_hash E (head st))) (PInt (int (length (chain st)))) w txs (PInt ts) (PInt 0) k = Inr b"
    and pre: "pos_apply_block_pre E st b (start_work (pos_hooks E) st) = Inr w1"
    and sub: "submit_block E (pos_hooks E) st b = Inr st'"
    and st': "st' = (commit_work (pos_hooks E) w2 st)\<lparr>chain := chain st @ [b]\<rparr>"
    and frame: "ffg_stake (w_aux w2) = ffg_stake (w_aux w1)" "ffg_height (w_aux w2) = ffg_height (w_aux w1)"
      "stakes (w_aux w2) = stakes (w_aux w1)" "unbonding (w_aux w2) = unbonding (w_aux w1)" "slashed (w_aux w2) = slashed (w_aux w1)"
      "slashed_addrs (w_aux w2) = slashed_addrs (w_aux w1)" "\<And>x. dhas (w_balances w1) x \<Longrightarrow> dhas (w_balances w2) x"
    and txs: "\<And>t. t \<in> set txs \<Longrightarrow> jsonable E (encode_tx t)"
  shows "gate_state E c st'"
proof -
  let ?n = "length (chain st)"
  have ix: "index b = PInt (int ?n)" using seal by (auto simp: seal_block_def new_block_def rbind_eq_Inr Let_def)
  have sealed: "sealed E c b" using st seal by (auto simp: sealed_def gate_state_def)
  have new: "block_hash E (chain st ! n) \<noteq> block_hash E b" if "n < ?n" for n
    using gate_hashes(3) [OF world st that sealed ix] by simp
  have w1: "w_balances w1 = balances st" "stakes (w_aux w1) = gate_stakes E c" "unbonding (w_aux w1) = []"
    "slashed (w_aux w1) = []" "slashed_addrs (w_aux w1) = []"
    using pre st by (auto simp: gate_state_def pos_apply_block_pre_def Let_def start_work_def pos_hooks_def pos_snapshot_aux_def split: if_splits)
  have "checkpointed E (gate_stakes E c) (chain st @ [b]) (w_aux w1)"
  proof -
    have old: "checkpointed E (gate_stakes E c) (chain st) (pos st)" and ep: "epoch st = 2" "stakes (pos st) = gate_stakes E c"
      using st by (simp_all add: gate_state_def)
    note snoc = checkpointed_snoc [OF old new]
    have even: "int ?n mod 2 = 0 \<longleftrightarrow> even ?n" by presburger
    show ?thesis
    proof (cases "even ?n")
      case True
      then have "ffg_stake (w_aux w1) = AList.update (block_hash E b) (gate_stakes E c) (ffg_stake (pos st))"
        "ffg_height (w_aux w1) = AList.update (block_hash E b) (int ?n) (ffg_height (pos st))"
        using pre ix ep even by (auto simp: pos_apply_block_pre_def Let_def start_work_def pos_hooks_def pos_snapshot_aux_def split: prod.splits)
      then show ?thesis using snoc(1) [OF _ True] by (simp add: checkpointed_def)
    next
      case False
      then have "ffg_stake (w_aux w1) = ffg_stake (pos st)" "ffg_height (w_aux w1) = ffg_height (pos st)"
        using pre ix ep even by (auto simp: pos_apply_block_pre_def Let_def start_work_def pos_hooks_def pos_snapshot_aux_def split: prod.splits)
      then show ?thesis using snoc(2) [OF _ False] by (simp add: checkpointed_def)
    qed
  qed
  then have "checkpointed E (gate_stakes E c) (chain st @ [b]) ((w_aux w2)\<lparr>justified_parent := []\<rparr>)"
    using frame(1,2) by (simp add: checkpointed_def)
  moreover have "built E c st'" using st built_step [OF _ seal sub] by (simp add: gate_state_def)
  moreover have "same_chain st' st'" using same_block [of st st E b] sub st by (simp add: gate_state_def)
  moreover have "jsonable E (encode_block b)" using sealed_jsonable [OF seal] txs by blast
  moreover have "chain st \<noteq> []" using gate_reach [OF st] reachable_links(1) by blast
  ultimately show ?thesis
    using st w1 frame(3-7) sealed
    by (simp add: gate_state_def st' commit_work_def pos_hooks_def pos_commit_aux_def del: json_ok.simps)
qed

text \<open>An empty block.\<close>

lemma produce_empty_block:
  assumes world: "finality_world E c" and st: "gate_state E c st" and len: "length (chain st) < 100"
  shows "\<exists>st' b. produce E c st [] ts k = Inr st' \<and> gate_state E c st' \<and> chain st' = chain st @ [b] \<and> vote_state st' = vote_state st"
proof -
  obtain w where w: "next_validator E st = Inr (address E w)" "ecdsa_laws E (secret w)" "dlookup (vals E c) (address E w) = Inr w"
    using gate_state_elected [OF world st len] by blast
  obtain g where reach: "pos_reachable E g st" using gate_reach [OF st] by blast
  obtain b w1 where b: "seal_block E (PStr (block_hash E (head st))) (PInt (int (length (chain st)))) w [] (PInt ts) (PInt 0) k = Inr b"
    "pos_apply_block_pre E st b (start_work (pos_hooks E) st) = Inr w1"
    "submit_block E (pos_hooks E) st b = pos_add_block E st [] w (PInt ts) (PInt 0) k"
    "pos_add_block E st [] w (PInt ts) (PInt 0) k =
      rbind (apply_txs E (pos_hooks E) st b [] w1 []) (\<lambda>w2. Inr ((commit_work (pos_hooks E) w2 st)\<lparr>chain := chain st @ [b]\<rparr>))"
    using add_block_eq [OF reach w(2,1)] by blast
  let ?st = "(commit_work (pos_hooks E) w1 st)\<lparr>chain := chain st @ [b]\<rparr>"
  have "gate_state E c ?st" by (rule gate_step [OF world st b(1,2) _ refl]) (use b(3,4) in auto)
  moreover have "vote_state ?st = vote_state st"
    using b(2) by (auto simp: vote_state_def commit_work_def pos_commit_aux_def pos_apply_block_pre_def Let_def start_work_def
        pos_hooks_def pos_snapshot_aux_def split: prod.splits if_splits)
  moreover have "produce E c st [] ts k = Inr ?st" using w b(4) by (simp add: produce_def)
  ultimately show ?thesis by (intro exI [of _ ?st] exI [of _ b]) (simp add: commit_work_def)
qed

text \<open>A block with the votes of two of the three.\<close>

lemma two_thirds:
  assumes "distinct [a, b, d]" "0 < S"
  shows "supermajority [(a, S), (b, S), (d, S)] [] [b, a]" "\<not> supermajority [(a, S), (b, S), (d, S)] [] [a]"
  using assms by (simp_all add: supermajority_def quorum_stake_def voted_stake_def FFG_NUM_def FFG_DEN_def dget_def dsum_def)

lemma record_two_votes:
  fixes st :: pos_chain and sh th :: int and k k' :: nat
  assumes a: "distinct [address E v, address E w, d]" and S: "0 < S"
    and aux: "dget (ffg_stake aux) s [] = [(address E v, S), (address E w, S), (d, S)]" "slashed_addrs aux = []"
      "dget (ffg_votes aux) (s, t) [] = []"
  defines "aux' \<equiv> record_votes E st (s, sh, t, th) [(v, k), (w, k')] aux"
  shows "justified aux' = List.insert t (justified aux)"
    "finalized aux' = (if th = sh + epoch st \<and> snd (finalized aux) < sh then (s, sh) else finalized aux)"
    "x \<noteq> (s, t) \<Longrightarrow> dget (ffg_votes aux') x [] = dget (ffg_votes aux) x []"
    "ffg_seen_target aux' = AList.update (address E w, th) (s, t) (AList.update (address E v, th) (s, t) (ffg_seen_target aux))"
    "slashed aux' = slashed aux"
proof -
  let ?aux = "record_vote st (address E v) (s, sh, t, th) aux"
  have first: "justified ?aux = justified aux" "finalized ?aux = finalized aux"
    "ffg_votes ?aux = AList.update (s, t) [address E v] (ffg_votes aux)"
    "ffg_seen_target ?aux = AList.update (address E v, th) (s, t) (ffg_seen_target aux)"
    using two_thirds(2) [OF a S] aux by (simp_all add: record_vote_def Let_def)
  have "supermajority (dget (ffg_stake ?aux) s []) (slashed_addrs ?aux) (List.insert (address E w) (dget (ffg_votes ?aux) (s, t) []))"
    using two_thirds(1) [OF a S] aux a by (auto simp: first(3) List.insert_def)
  note second = record_vote_decides [OF this, where st = st and sh = sh and th = th]
  show "justified aux' = List.insert t (justified aux)" "slashed aux' = slashed aux" by (simp_all add: aux'_def second first)
  show "finalized aux' = (if th = sh + epoch st \<and> snd (finalized aux) < sh then (s, sh) else finalized aux)"
    unfolding aux'_def record_votes_simps second(2) first(2) ..
  show "x \<noteq> (s, t) \<Longrightarrow> dget (ffg_votes aux') x [] = dget (ffg_votes aux) x []"
    by (simp add: aux'_def record_vote_votes del: dget_update)
  show "ffg_seen_target aux' = AList.update (address E w, th) (s, t) (AList.update (address E v, th) (s, t) (ffg_seen_target aux))"
    unfolding aux'_def record_votes_simps by (simp add: record_vote_def [of st "address E w"] Let_def first(4))
qed

definition votes_added :: "env \<Rightarrow> cast \<Rightarrow> string \<Rightarrow> nat \<Rightarrow> string \<Rightarrow> nat \<Rightarrow> pos_chain \<Rightarrow> pos_chain \<Rightarrow> bool" where
  "votes_added E c s m t n st st' \<longleftrightarrow> justified (pos st') = List.insert t (justified (pos st)) \<and>
     finalized (pos st') = (if n = m + 2 \<and> snd (finalized (pos st)) < int m then (s, int m) else finalized (pos st)) \<and>
     (\<forall>x. x \<noteq> (s, t) \<longrightarrow> dget (ffg_votes (pos st')) x [] = dget (ffg_votes (pos st)) x []) \<and>
     ffg_seen_target (pos st') =
       AList.update (address E (V2 c), int n) (s, t) (AList.update (address E (V1 c), int n) (s, t) (ffg_seen_target (pos st)))"

lemma produce_votes_block:
  assumes world: "finality_world E c" and st: "gate_state E c st" and len: "length (chain st) < 100"
    and mn: "m < n" "n < length (chain st)" "even m" "even n"
    and s: "s = block_hash E (chain st ! m)" "s \<in> set (justified (pos st))" and t: "t = block_hash E (chain st ! n)"
    and fresh: "dget (ffg_votes (pos st)) (s, t) [] = []" "\<And>a. dget (ffg_seen_target (pos st)) (a, int n) (s, t) = (s, t)"
  shows "\<exists>txs st' b. votes E st [(V1 c, k1), (V2 c, k2)] s (int m) t (int n) = Inr txs \<and> produce E c st txs ts k = Inr st' \<and>
    gate_state E c st' \<and> chain st' = chain st @ [b] \<and> votes_added E c s m t n st st'"
proof -
  obtain w where w: "next_validator E st = Inr (address E w)" "ecdsa_laws E (secret w)" "dlookup (vals E c) (address E w) = Inr w"
    using gate_state_elected [OF world st len] by blast
  obtain g where reach: "pos_reachable E g st" using gate_reach [OF st] by blast
  note addrs = finality_worldD(1) [OF world]
  let ?vs = "[(V1 c, k1), (V2 c, k2)]" and ?l = "(s, int m, t, int n)"
  have n0: "0 \<le> dget (nonces st) a 0" for a using reachable_nonces [OF reach] by (simp add: nonces_counted_def)
  obtain x y where tx: "vote_tx E (V1 c) s (int m) t (int n) (dget (nonces st) (PStr (address E (V1 c))) 0) 0 k1 = Inr x"
    "vote_tx E (V2 c) s (int m) t (int n) (dget (nonces st) (PStr (address E (V2 c))) 0) 0 k2 = Inr y"
    using vote_tx_signs [OF finality_worldD(2) [OF world] n0] vote_tx_signs [OF finality_worldD(3) [OF world] n0] by blast
  then have txs: "votes E st ?vs s (int m) t (int n) = Inr [x, y]" by (simp add: votes_def)
  have ids: "distinct (map (txid E) [x, y])" using finality_worldD(8) [OF world tx] addrs by simp
  have chk: "map_of (ffg_height (pos st)) s = Some (int m)" "map_of (ffg_stake (pos st)) s = Some (gate_stakes E c)"
    "map_of (ffg_height (pos st)) t = Some (int n)" "map_of (ffg_stake (pos st)) t = Some (gate_stakes E c)"
    using st mn by (auto simp: gate_state_def checkpointed_def s(1) t)
  have snap: "dget (ffg_stake (pos st)) s [] = gate_stakes E c" using chk(2) by (simp add: dget_def)
  have S: "0 < GATE_STAKE" by (simp add: gate_units)
  have new: "block_hash E b \<noteq> s \<and> block_hash E b \<noteq> t"
    if "seal_block E (PStr (block_hash E (head st))) (PInt (int (length (chain st)))) w [x, y] (PInt ts) (PInt 0) k = Inr b" for b
  proof -
    have "index b = PInt (int (length (chain st)))" using that by (auto simp: seal_block_def new_block_def rbind_eq_Inr Let_def)
    moreover have "sealed E c b" using st that by (auto simp: sealed_def gate_state_def)
    ultimately show ?thesis using gate_hashes(3) [OF world st] mn by (auto simp: s(1) t)
  qed
  have vt: "ecdsa_laws E (secret v) \<and> dhas (balances st) (PStr (address E v)) \<and> may_vote (pos st) (address E v) ?l"
    if "v \<in> fst ` set ?vs" for v
  proof -
    have "0 < dget (gate_stakes E c) (address E v) 0"
      using that addrs S by (auto simp: gate_stakes_def dget_def)
    then show ?thesis
      using that finality_worldD(2,3) [OF world] st fresh(2) by (auto simp: may_vote_def snap gate_state_def)
  qed
  have link: "link_open st ((pos st)\<lparr>justified_parent := justified (pos st)\<rparr>) ?l"
    using chk s(2) mn st by (auto simp: link_open_def gate_state_def dhas_iff_map_of even_iff_mod_2_eq_zero zmod_int)
  have dist: "distinct (map (address E \<circ> fst) ?vs)" using addrs by simp
  obtain b w1 w2 where b: "seal_block E (PStr (block_hash E (head st))) (PInt (int (length (chain st)))) w [x, y] (PInt ts) (PInt 0) k = Inr b"
    "pos_apply_block_pre E st b (start_work (pos_hooks E) st) = Inr w1"
    "w_aux w2 = record_votes E st ?l ?vs (w_aux w1)" "\<And>x. dhas (w_balances w1) x \<Longrightarrow> dhas (w_balances w2) x"
    "submit_block E (pos_hooks E) st b = pos_add_block E st [x, y] w (PInt ts) (PInt 0) k"
    "pos_add_block E st [x, y] w (PInt ts) (PInt 0) k = Inr ((commit_work (pos_hooks E) w2 st)\<lparr>chain := chain st @ [b]\<rparr>)"
    using votes_block [OF reach w(2,1) vt dist link txs ids new] by blast
  let ?st = "(commit_work (pos_hooks E) w2 st)\<lparr>chain := chain st @ [b]\<rparr>"
  have w1: "dget (ffg_stake (w_aux w1)) s [] = gate_stakes E c" "slashed_addrs (w_aux w1) = []" "ffg_votes (w_aux w1) = ffg_votes (pos st)"
    "ffg_seen_target (w_aux w1) = ffg_seen_target (pos st)" "justified (w_aux w1) = justified (pos st)" "finalized (w_aux w1) = finalized (pos st)"
    using b(2) st snap new [OF b(1)]
    by (auto simp: gate_state_def pos_apply_block_pre_def Let_def start_work_def pos_hooks_def pos_snapshot_aux_def split: prod.splits if_splits)
  have "distinct [address E (V1 c), address E (V2 c), address E (V3 c)]" using addrs by simp
  note rec = record_two_votes [OF this S w1(1) [unfolded gate_stakes_def] w1(2), where t = t, unfolded w1(3-6), OF fresh(1),
      where st = st and sh = "int m" and th = "int n" and k = k1 and k' = k2]
  have "gate_state E c ?st"
    by (rule gate_step [OF world st b(1,2) _ refl])
      (use b(3-6) rec(5) vote_tx_shape(1) tx in \<open>auto simp: record_votes_frame simp del: json_ok.simps record_votes_simps\<close>)
  moreover have "votes_added E c s m t n st ?st"
    using rec(1-4) st unfolding votes_added_def
    by (simp add: commit_work_def pos_hooks_def pos_commit_aux_def b(3) gate_state_def del: record_votes_simps)
  moreover have "produce E c st [x, y] ts k = Inr ?st" using w b(6) by (simp add: produce_def)
  ultimately show ?thesis using txs by (intro exI [of _ "[x, y]"] exI [of _ ?st] exI [of _ b]) (simp add: commit_work_def)
qed

section \<open>The gates pass\<close>

lemma head_nth: "chain st = ch @ [b] \<Longrightarrow> head st = b"
  by (simp add: head_def)

lemma gate_supply: "gate_state E c st \<Longrightarrow> pos_total_supply st = MAX_SUPPLY_UNITS"
  using gate_reach reachable_inv by blast

lemma happy_path_ok:
  assumes world: "finality_world E c" and g: "gate_state E c g" "length (chain g) = 1"
    "vote_state g = ([], [], [block_hash E (head g)], (block_hash E (head g), 0))"
  shows "\<exists>st c2 c4. happy_path E c ks g = Inr (st, block_hash E (head g), c2, c4) \<and> gate_state E c st \<and> length (chain st) = 6 \<and>
    block_hash E (chain st ! 0) = block_hash E (head g) \<and> block_hash E (chain st ! 2) = c2 \<and> block_hash E (chain st ! 4) = c4 \<and>
    is_justified st c2 \<and> is_justified st c4 \<and> finalized_checkpoint st = (c2, 2)"
proof -
  let ?g = "block_hash E (head g)"
  obtain b0 where b0: "chain g = [b0]" using g(2) by (auto simp: length_Suc_conv)
  then have hg: "?g = block_hash E b0" by (simp add: head_def)
  obtain s1 b1 where s1: "produce E c g [] (GATE_TS + 1) (ks 0) = Inr s1" "gate_state E c s1" "chain s1 = [b0, b1]" "vote_state s1 = vote_state g"
    using produce_empty_block [OF world g(1), of "GATE_TS + 1" "ks 0"] b0 by auto
  obtain s2 b2 where s2: "produce E c s1 [] (GATE_TS + 2) (ks 1) = Inr s2" "gate_state E c s2" "chain s2 = [b0, b1, b2]" "vote_state s2 = vote_state g"
    using produce_empty_block [OF world s1(2), of "GATE_TS + 2" "ks 1"] s1(3,4) by auto
  let ?c2 = "block_hash E b2"
  have h2: "block_hash E (head s2) = ?c2" using s2(3) by (simp add: head_def)
  have v2: "ffg_votes (pos s2) = []" "ffg_seen_target (pos s2) = []" "justified (pos s2) = [?g]" "finalized (pos s2) = (?g, 0)"
    using s2(4) g(3) by (simp_all add: vote_state_def)
  obtain x s3 b3 where s3: "votes E s2 [(V1 c, ks 2), (V2 c, ks 3)] ?g 0 ?c2 2 = Inr x" "produce E c s2 x (GATE_TS + 3) (ks 4) = Inr s3"
    "gate_state E c s3" "chain s3 = [b0, b1, b2, b3]" "votes_added E c ?g 0 ?c2 2 s2 s3"
    using produce_votes_block [OF world s2(2), of 0 2 ?g ?c2 "ks 2" "ks 3" "GATE_TS + 3" "ks 4"] s2(3) v2 hg by auto
  obtain s4 b4 where s4: "produce E c s3 [] (GATE_TS + 4) (ks 5) = Inr s4" "gate_state E c s4" "chain s4 = [b0, b1, b2, b3, b4]"
    "vote_state s4 = vote_state s3"
    using produce_empty_block [OF world s3(3), of "GATE_TS + 4" "ks 5"] s3(4) by auto
  let ?c4 = "block_hash E b4"
  have h4: "block_hash E (head s4) = ?c4" using s4(3) by (simp add: head_def)
  have "?g \<noteq> ?c2" using gate_hashes(2) [OF world s4(2), of 0 2] s4(3) hg by simp
  then have v4: "dget (ffg_votes (pos s4)) (?c2, ?c4) [] = []" "dget (ffg_seen_target (pos s4)) (a, 4) (?c2, ?c4) = (?c2, ?c4)"
    "justified (pos s4) = List.insert ?c2 [?g]" "finalized (pos s4) = (?g, 0)" for a
    using s4(4) s3(5) v2 by (auto simp: vote_state_def votes_added_def)
  obtain y s5 b5 where s5: "votes E s4 [(V1 c, ks 6), (V2 c, ks 7)] ?c2 2 ?c4 4 = Inr y" "produce E c s4 y (GATE_TS + 5) (ks 8) = Inr s5"
    "gate_state E c s5" "chain s5 = [b0, b1, b2, b3, b4, b5]" "votes_added E c ?c2 2 ?c4 4 s4 s5"
    using produce_votes_block [OF world s4(2), of 2 4 ?c2 ?c4 "ks 6" "ks 7" "GATE_TS + 5" "ks 8"] s4(3) v4 by auto
  have "happy_path E c ks g = Inr (s5, ?g, ?c2, ?c4)"
    using s1(1) s2(1) h2 s3(1,2) s4(1) h4 s5(1,2) by (simp add: happy_path_def Let_def)
  moreover have "is_justified s5 ?c2" "is_justified s5 ?c4" "finalized_checkpoint s5 = (?c2, 2)"
    using s5(5) v4(3,4) by (auto simp: votes_added_def is_justified_def finalized_checkpoint_def)
  ultimately show ?thesis using s5(3,4) hg by auto
qed

theorem justify_finalize_passes:
  assumes "finality_world E c"
  shows "gate_justify_finalize E c ks = Inr ()"
proof -
  obtain g where g: "make_chain E c = Inr g" "gate_state E c g" "length (chain g) = 1"
    "vote_state g = ([], [], [block_hash E (head g)], (block_hash E (head g), 0))" using gate_starts [OF assms] by blast
  obtain st c2 c4 where "happy_path E c ks g = Inr (st, block_hash E (head g), c2, c4)" "gate_state E c st"
    "is_justified st c2" "is_justified st c4" "finalized_checkpoint st = (c2, 2)" using happy_path_ok [OF assms g(2-4)] by blast
  then show ?thesis by (simp add: gate_justify_finalize_def g(1) gate_supply)
qed

lemma produce_empty_ok:
  assumes world: "finality_world E c"
  shows "gate_state E c g \<Longrightarrow> length (chain g) = 1 \<Longrightarrow> n < 90 \<Longrightarrow>
    \<exists>st bs. produce_empty E c ks n g = Inr st \<and> gate_state E c st \<and> chain st = chain g @ bs \<and> length bs = n \<and> vote_state st = vote_state g"
proof (induction n)
  case (Suc n)
  then obtain st bs where st: "produce_empty E c ks n g = Inr st" "gate_state E c st" "chain st = chain g @ bs" "length bs = n"
    "vote_state st = vote_state g" by auto
  have "length (chain st) < 100" using st(3,4) Suc.prems by simp
  from produce_empty_block [OF world st(2) this] show ?case
    using st by fastforce
qed simp

theorem liveness_passes:
  assumes world: "finality_world E c"
  shows "gate_liveness E c ks = Inr ()"
proof -
  obtain g where g: "make_chain E c = Inr g" "gate_state E c g" "length (chain g) = 1"
    "vote_state g = ([], [], [block_hash E (head g)], (block_hash E (head g), 0))" using gate_starts [OF world] by blast
  let ?g = "block_hash E (head g)"
  obtain b0 where b0: "chain g = [b0]" using g(3) by (auto simp: length_Suc_conv)
  then have hg: "?g = block_hash E b0" by (simp add: head_def)
  obtain st bs where st: "produce_empty E c ks 6 g = Inr st" "gate_state E c st" "chain st = b0 # bs" "length bs = 6" "vote_state st = vote_state g"
    using produce_empty_ok [OF world g(2,3), of 6 ks] b0 by auto
  have len: "length (chain st) = 7" using st(3,4) by simp
  let ?c2 = "block_hash E (chain st ! 2)" and ?c4 = "block_hash E (chain st ! 4)"
  have v: "ffg_votes (pos st) = []" "ffg_seen_target (pos st) = []" "justified (pos st) = [?g]" "finalized (pos st) = (?g, 0)"
    using st(5) g(4) by (simp_all add: vote_state_def)
  have ch0: "block_hash E (chain st ! 0) = ?g" using st(3) hg by simp
  have "head st = chain st ! 6" using len by (cases "chain st" rule: rev_cases) (auto simp: head_def nth_append)
  then have ix: "index (head st) = PInt 6" using gate_hashes(1) [OF world st(2), of 6] len by simp
  obtain x s7 b7 where s7: "votes E st [(V1 c, ks 6), (V2 c, ks 7)] ?g 0 ?c2 2 = Inr x" "produce E c st x (GATE_TS + 7) (ks 8) = Inr s7"
    "gate_state E c s7" "chain s7 = chain st @ [b7]" "votes_added E c ?g 0 ?c2 2 st s7"
    using produce_votes_block [OF world st(2), of 0 2 ?g ?c2 "ks 6" "ks 7" "GATE_TS + 7" "ks 8"] len v ch0 by auto
  have "?g \<noteq> ?c2" using gate_hashes(2) [OF world st(2), of 2 0] len ch0 by simp
  then have v7: "dget (ffg_votes (pos s7)) (?c2, ?c4) [] = []" "dget (ffg_seen_target (pos s7)) (a, 4) (?c2, ?c4) = (?c2, ?c4)"
    "justified (pos s7) = List.insert ?c2 [?g]" "finalized (pos s7) = (?g, 0)" for a
    using s7(5) v by (auto simp: votes_added_def)
  have at: "chain s7 ! 2 = chain st ! 2" "chain s7 ! 4 = chain st ! 4" using len by (simp_all add: s7(4) nth_append)
  obtain y s8 b8 where s8: "votes E s7 [(V1 c, ks 9), (V2 c, ks 10)] ?c2 2 ?c4 4 = Inr y" "produce E c s7 y (GATE_TS + 8) (ks 11) = Inr s8"
    "votes_added E c ?c2 2 ?c4 4 s7 s8"
    using produce_votes_block [OF world s7(3), of 2 4 ?c2 ?c4 "ks 9" "ks 10" "GATE_TS + 8" "ks 11"] len v7 at by (auto simp: s7(4))
  have "is_justified s7 ?c2" "finalized_checkpoint s8 = (?c2, 2)"
    using s8(3) v7(3,4) by (auto simp: votes_added_def is_justified_def finalized_checkpoint_def)
  then show ?thesis
    using st(1) ix v(4) s7(1,2) s8(1,2) by (simp add: gate_liveness_def g(1) Let_def finalized_checkpoint_def)
qed

section \<open>Votes that are refused\<close>

lemma pre_checkpoints:
  assumes world: "finality_world E c" and st: "gate_state E c st"
    and seal: "seal_block E (PStr (block_hash E (head st))) (PInt (int (length (chain st)))) w txs (PInt ts) (PInt 0) k = Inr b"
    and pre: "pos_apply_block_pre E st b (start_work (pos_hooks E) st) = Inr w1"
  shows "n < length (chain st) \<Longrightarrow> even n \<Longrightarrow> map_of (ffg_height (w_aux w1)) (block_hash E (chain st ! n)) = Some (int n) \<and>
      map_of (ffg_stake (w_aux w1)) (block_hash E (chain st ! n)) = Some (gate_stakes E c)"
    "justified_parent (w_aux w1) = justified (pos st)" "slashed_addrs (w_aux w1) = []" "slashed (w_aux w1) = []"
    "stakes (w_aux w1) = gate_stakes E c" "unbonding (w_aux w1) = []"
    "w_nonces w1 = nonces st" "w_balances w1 = balances st" "\<not> dhas (ffg_stake (w_aux w1)) NO_HASH"
proof -
  let ?n = "length (chain st)"
  have ix: "index b = PInt (int ?n)" using seal by (auto simp: seal_block_def new_block_def rbind_eq_Inr Let_def)
  have sealed: "sealed E c b" using st seal by (auto simp: sealed_def gate_state_def)
  have new: "block_hash E (chain st ! n) \<noteq> block_hash E b" if "n < ?n" for n
    using gate_hashes(3) [OF world st that sealed ix] by simp
  show "map_of (ffg_height (w_aux w1)) (block_hash E (chain st ! n)) = Some (int n) \<and>
      map_of (ffg_stake (w_aux w1)) (block_hash E (chain st ! n)) = Some (gate_stakes E c)" if "n < ?n" "even n"
    using pre st that new [OF that(1)]
    by (auto simp: gate_state_def checkpointed_def pos_apply_block_pre_def Let_def start_work_def pos_hooks_def pos_snapshot_aux_def
        update_conv' split: prod.splits if_splits)
  show "justified_parent (w_aux w1) = justified (pos st)" "slashed_addrs (w_aux w1) = []" "slashed (w_aux w1) = []"
    "stakes (w_aux w1) = gate_stakes E c" "unbonding (w_aux w1) = []" "w_nonces w1 = nonces st" "w_balances w1 = balances st"
    using pre st by (auto simp: gate_state_def pos_apply_block_pre_def Let_def start_work_def pos_hooks_def pos_snapshot_aux_def split: if_splits)
  have "\<not> dhas (ffg_stake (pos st)) NO_HASH"
  proof
    obtain g where reach: "pos_reachable E g st" using gate_reach [OF st] by blast
    note ffg = reachable_ffg [OF reach, unfolded ffg_inv_def]
    assume "dhas (ffg_stake (pos st)) NO_HASH"
    then obtain n where "map_of (ffg_height (pos st)) NO_HASH = Some n" using ffg by (auto simp: dhas_iff_map_of)
    then have "on_chain E (chain st) NO_HASH n" using ffg by blast
    then obtain b where "b \<in> set (chain st)" "block_hash E b = NO_HASH" unfolding on_chain_def using nth_mem by blast
    then show False using st finality_worldD(7) [OF world, of b] by (auto simp: gate_state_def list_all_iff)
  qed
  then show "\<not> dhas (ffg_stake (w_aux w1)) NO_HASH"
    using pre finality_worldD(7) [OF world sealed]
    by (auto simp: pos_apply_block_pre_def Let_def start_work_def pos_hooks_def pos_snapshot_aux_def split: prod.splits if_splits)
qed

lemma vote_refused:
  assumes world: "finality_world E c" and st: "gate_state E c st" and len: "length (chain st) < 100"
    and laws: "ecdsa_laws E (secret v)"
    and bad: "\<And>x w b w1. seal_block E (PStr (block_hash E (head st))) (PInt (int (length (chain st)))) w [x] (PInt ts) (PInt 0) k' = Inr b \<Longrightarrow>
        pos_apply_block_pre E st b (start_work (pos_hooks E) st) = Inr w1 \<Longrightarrow>
        \<exists>e. check_vote st (w_aux w1) (address E v) \<lparr>link_s = PStr s, link_sh = PInt sh, link_t = PStr t, link_th = PInt th\<rparr> = Inl (ValidationError e)"
  shows "rejected (rbind (vote_tx E v s sh t th (nonce_of E st v) 0 k) (\<lambda>x. produce E c st [x] ts k')) m = Inr ()"
proof -
  obtain w where w: "next_validator E st = Inr (address E w)" "ecdsa_laws E (secret w)" "dlookup (vals E c) (address E w) = Inr w"
    using gate_state_elected [OF world st len] by blast
  obtain g where reach: "pos_reachable E g st" using gate_reach [OF st] by blast
  have n0: "0 \<le> nonce_of E st v" using reachable_nonces [OF reach] by (simp add: nonces_counted_def nonce_of_def)
  obtain x where x: "vote_tx E v s sh t th (nonce_of E st v) 0 k = Inr x" "is_valid E x = Inr True"
    using vote_tx_signs [OF laws n0] by blast
  note shape = vote_tx_shape [OF x(1)]
  obtain b w1 where b: "seal_block E (PStr (block_hash E (head st))) (PInt (int (length (chain st)))) w [x] (PInt ts) (PInt 0) k' = Inr b"
    "pos_apply_block_pre E st b (start_work (pos_hooks E) st) = Inr w1"
    "pos_add_block E st [x] w (PInt ts) (PInt 0) k' =
      rbind (apply_txs E (pos_hooks E) st b [] w1 [x]) (\<lambda>w2. Inr ((commit_work (pos_hooks E) w2 st)\<lparr>chain := chain st @ [b]\<rparr>))"
    using add_block_eq [OF reach w(2,1)] by blast
  obtain e where e: "check_vote st (w_aux w1) (address E v) \<lparr>link_s = PStr s, link_sh = PInt sh, link_t = PStr t, link_th = PInt th\<rparr> =
      Inl (ValidationError e)" using bad [OF b(1,2)] by blast
  have "VOTE_SENTINEL \<noteq> SLASH_SENTINEL" by (simp add: VOTE_SENTINEL_def SLASH_SENTINEL_def)
  then have "apply_txs E (pos_hooks E) st b [] w1 [x] = Inl (ValidationError e)"
    using x(2) e pre_checkpoints(7) [OF world st b(1,2)]
    by (simp add: pos_hooks_def pos_apply_tx_def shape apply_vote_def vote_evidence Let_def nonce_of_def del: load_json.simps)
  then have "produce E c st [x] ts k' = Inl (ValidationError e)" using w b(3) by (simp add: produce_def)
  then show ?thesis by (simp add: x(1))
qed

lemma misshaped_vote:
  assumes "ecdsa_laws E (secret w)" "amt \<noteq> 0 \<or> ev = []"
  shows "\<exists>x. sign_tx E w k (new_tx (address E w) VOTE_SENTINEL amt 0 n ev) = Inr x \<and> is_valid E x = Inr False"
proof -
  let ?tx = "(new_tx (address E w) VOTE_SENTINEL amt 0 n ev)\<lparr>public_key := PStr (public_key_hex E w)\<rparr>"
  obtain sig where "wallet_sign E w (signing_payload E ?tx) k = Inr sig" using wallet_sign_verifies [OF assms(1)] by blast
  then show ?thesis using assms(2) by (auto simp: sign_tx_def new_tx_def is_valid_def)
qed

theorem vote_admission_passes:
  assumes world: "finality_world E c"
  shows "gate_vote_admission E c ks = Inr ()"
proof -
  obtain g where g: "make_chain E c = Inr g" "gate_state E c g" "length (chain g) = 1"
    "vote_state g = ([], [], [block_hash E (head g)], (block_hash E (head g), 0))" using gate_starts [OF world] by blast
  let ?g = "block_hash E (head g)"
  note addrs = finality_worldD(1) [OF world]
  obtain b0 where b0: "chain g = [b0]" using g(3) by (auto simp: length_Suc_conv)
  then have hg: "?g = block_hash E b0" by (simp add: head_def)
  obtain s1 b1 where s1: "produce E c g [] (GATE_TS + 1) (ks 0) = Inr s1" "gate_state E c s1" "chain s1 = [b0, b1]" "vote_state s1 = vote_state g"
    using produce_empty_block [OF world g(2), of "GATE_TS + 1" "ks 0"] b0 by auto
  obtain s2 b2 where s2: "produce E c s1 [] (GATE_TS + 2) (ks 1) = Inr s2" "gate_state E c s2" "chain s2 = [b0, b1, b2]" "vote_state s2 = vote_state g"
    using produce_empty_block [OF world s1(2), of "GATE_TS + 2" "ks 1"] s1(3,4) by auto
  let ?c2 = "block_hash E b2"
  have h2: "block_hash E (head s2) = ?c2" using s2(3) by (simp add: head_def)
  have even_bad: "rejected (rbind (vote_tx E (V1 c) ?g 0 ?c2 3 (nonce_of E s2 (V1 c)) 0 (ks 4)) (\<lambda>t. produce E c s2 [t] (GATE_TS + 3) (ks 5))) m = Inr ()" for m
    by (rule vote_refused [OF world s2(2) _ finality_worldD(2) [OF world]])
      (use s2(2,3) in \<open>auto simp: check_vote_def gate_state_def Let_def\<close>)
  have no_stake: "rejected (rbind (vote_tx E (ALICE c) ?g 0 ?c2 2 (nonce_of E s2 (ALICE c)) 0 (ks 6)) (\<lambda>t. produce E c s2 [t] (GATE_TS + 4) (ks 7))) m = Inr ()" for m
  proof (rule vote_refused [OF world s2(2) _ finality_worldD(5) [OF world]])
    fix x w b w1 assume "seal_block E (PStr (block_hash E (head s2))) (PInt (int (length (chain s2)))) w [x] (PInt (GATE_TS + 4)) (PInt 0) (ks 7) = Inr b"
      "pos_apply_block_pre E s2 b (start_work (pos_hooks E) s2) = Inr w1"
    note pre = pre_checkpoints [OF world s2(2) this]
    have "dget (gate_stakes E c) (address E (ALICE c)) 0 = 0" using addrs by (auto simp: gate_stakes_def dget_def)
    then show "\<exists>e. check_vote s2 (w_aux w1) (address E (ALICE c))
        \<lparr>link_s = PStr ?g, link_sh = PInt 0, link_t = PStr ?c2, link_th = PInt 2\<rparr> = Inl (ValidationError e)"
      using pre(1) [of 0] pre(1) [of 2] pre(2,3) s2 hg g(4)
      by (simp add: check_vote_def Let_def dhas_iff_map_of dlookup_def dget_def gate_state_def vote_state_def)
  qed (simp add: s2(3))
  obtain s3 b3 where s3: "produce E c s2 [] (GATE_TS + 5) (ks 8) = Inr s3" "gate_state E c s3" "chain s3 = [b0, b1, b2, b3]" "vote_state s3 = vote_state g"
    using produce_empty_block [OF world s2(2), of "GATE_TS + 5" "ks 8"] s2(3,4) by auto
  obtain s4 b4 where s4: "produce E c s3 [] (GATE_TS + 6) (ks 9) = Inr s4" "gate_state E c s4" "chain s4 = [b0, b1, b2, b3, b4]"
    "vote_state s4 = vote_state g" using produce_empty_block [OF world s3(2), of "GATE_TS + 6" "ks 9"] s3(3,4) by auto
  let ?c4 = "block_hash E b4"
  have h4: "block_hash E (head s4) = ?c4" using s4(3) by (simp add: head_def)
  have ne: "?g \<noteq> ?c2" using gate_hashes(2) [OF world s4(2), of 0 2] s4(3) hg by simp
  have unjustified: "rejected (rbind (vote_tx E (V1 c) ?c2 2 ?c4 4 (nonce_of E s4 (V1 c)) 0 (ks 10)) (\<lambda>t. produce E c s4 [t] (GATE_TS + 7) (ks 11))) m = Inr ()" for m
  proof (rule vote_refused [OF world s4(2) _ finality_worldD(2) [OF world]])
    fix x w b w1 assume "seal_block E (PStr (block_hash E (head s4))) (PInt (int (length (chain s4)))) w [x] (PInt (GATE_TS + 7)) (PInt 0) (ks 11) = Inr b"
      "pos_apply_block_pre E s4 b (start_work (pos_hooks E) s4) = Inr w1"
    note pre = pre_checkpoints [OF world s4(2) this]
    show "\<exists>e. check_vote s4 (w_aux w1) (address E (V1 c))
        \<lparr>link_s = PStr ?c2, link_sh = PInt 2, link_t = PStr ?c4, link_th = PInt 4\<rparr> = Inl (ValidationError e)"
      using pre(1) [of 2] pre(1) [of 4] pre(2) s4 ne g(4)
      by (simp add: check_vote_def Let_def dhas_iff_map_of dlookup_def gate_state_def vote_state_def)
  qed (simp add: s4(3))
  have v4: "ffg_votes (pos s4) = []" "ffg_seen_target (pos s4) = []" "justified (pos s4) = [?g]"
    using s4(4) g(4) by (simp_all add: vote_state_def)
  obtain x s5 b5 where s5: "votes E s4 [(V1 c, ks 12), (V2 c, ks 13)] ?g 0 ?c2 2 = Inr x" "produce E c s4 x (GATE_TS + 8) (ks 14) = Inr s5"
    "gate_state E c s5" "chain s5 = [b0, b1, b2, b3, b4, b5]"
    using produce_votes_block [OF world s4(2), of 0 2 ?g ?c2 "ks 12" "ks 13" "GATE_TS + 8" "ks 14"] s4(3) v4 hg by auto
  have conflict: "rejected (rbind (vote_tx E (V1 c) ?g 0 NO_HASH 2 (nonce_of E s5 (V1 c)) 0 (ks 15)) (\<lambda>t. produce E c s5 [t] (GATE_TS + 9) (ks 16))) m = Inr ()" for m
  proof (rule vote_refused [OF world s5(3) _ finality_worldD(2) [OF world]])
    fix x w b w1 assume "seal_block E (PStr (block_hash E (head s5))) (PInt (int (length (chain s5)))) w [x] (PInt (GATE_TS + 9)) (PInt 0) (ks 16) = Inr b"
      "pos_apply_block_pre E s5 b (start_work (pos_hooks E) s5) = Inr w1"
    note pre = pre_checkpoints [OF world s5(3) this]
    show "\<exists>e. check_vote s5 (w_aux w1) (address E (V1 c))
        \<lparr>link_s = PStr ?g, link_sh = PInt 0, link_t = PStr NO_HASH, link_th = PInt 2\<rparr> = Inl (ValidationError e)"
      using pre(9) s5(3) by (simp add: check_vote_def Let_def gate_state_def)
  qed (simp add: s5(4))
  obtain x5 where x5: "sign_tx E (V1 c) (ks 2) (new_tx (address E (V1 c)) VOTE_SENTINEL 5 0 0 ''x'') = Inr x5" "is_valid E x5 = Inr False"
    using misshaped_vote [OF finality_worldD(2) [OF world], of 5 "''x''" "ks 2" 0] by auto
  obtain x0 where x0: "sign_tx E (V1 c) (ks 3) (new_tx (address E (V1 c)) VOTE_SENTINEL 0 0 0 []) = Inr x0" "is_valid E x0 = Inr False"
    using misshaped_vote [OF finality_worldD(2) [OF world], of 0 "[]" "ks 3" 0] by auto
  have start: "gbind (raises (make_chain E c)) f = f g" for f by (simp add: g(1))
  show ?thesis
    unfolding gate_vote_admission_def start Let_def s1(1) raises.simps gbind_simps s2(1) h2 x5(1) x0(1) rbind_simps x5(2) x0(2)
    by (simp add: even_bad no_stake s3(1) s4(1) h4 unjustified s5(1,2) conflict NO_HASH_def [symmetric])
qed

section \<open>Votes that are slashed\<close>

lemma vote_fault_verdict:
  assumes laws: "ecdsa_laws E (secret v)"
    and x: "vote_tx E v s sh t th 0 0 k = Inr x" and y: "vote_tx E v s' sh' t' th' 0 0 k' = Inr y"
  shows "verify_vote_fault E x y =
    (if th = th' \<and> (t \<noteq> t' \<or> s \<noteq> s') \<or> sh < sh' \<and> th' < th \<or> sh' < sh \<and> th < th'
     then Inr (PStr (address E v), hex (sha256 E (Encoding.canonical E (PList (map PStr (sort [txid E x, txid E y]))))))
     else Inl (ValidationError ''vote-fault: votes are neither a double nor a surround''))"
proof -
  have valid: "is_valid E x = Inr True" "is_valid E y = Inr True"
    using vote_tx_signs [OF laws order_refl order_refl] x y by (metis sum.inject(2))+
  note sx = vote_tx_shape [OF x] and sy = vote_tx_shape [OF y]
  have "double_vote \<lparr>link_s = PStr s, link_sh = PInt sh, link_t = PStr t, link_th = PInt th\<rparr>
      \<lparr>link_s = PStr s', link_sh = PInt sh', link_t = PStr t', link_th = PInt th'\<rparr> \<longleftrightarrow> th = th' \<and> (t \<noteq> t' \<or> s \<noteq> s')"
    by (simp add: double_vote_def)
  moreover have "surround_vote \<lparr>link_s = PStr s, link_sh = PInt sh, link_t = PStr t, link_th = PInt th\<rparr>
      \<lparr>link_s = PStr s', link_sh = PInt sh', link_t = PStr t', link_th = PInt th'\<rparr> = Inr (sh < sh' \<and> th' < th \<or> sh' < sh \<and> th < th')"
    by (simp add: surround_vote_def or_else_def and_then_def)
  ultimately show ?thesis
    using valid by (simp add: verify_vote_fault_def or_else_def sx(2,3,7) sy(2,3,7) vote_evidence del: load_json.simps sort_key_simps)
qed

lemma signed_scalars:
  assumes "vote_tx E v s sh t th n f k = Inr x"
  shows "decode_tx (in_order True (encode_tx x)) = Inr x"
proof -
  obtain p g where "public_key x = PStr p" "signature x = PStr g"
    using assms by (auto simp: vote_tx_def sign_tx_def new_tx_def rbind_eq_Inr Let_def split: if_splits)
  then have "in_order True (encode_tx x) = PDict
     [(''amount'', amount x), (''evidence'', evidence x), (''fee'', fee x), (''nonce'', nonce x),
      (''public_key'', public_key x), (''recipient'', recipient x), (''sender'', sender x), (''signature'', signature x)]"
    by (simp add: encode_tx_def vote_tx_shape [OF assms])
  then show ?thesis by (simp add: jfield_def)
qed

lemma slash_reads:
  assumes x: "vote_tx E v s sh t th n f k = Inr x" and y: "vote_tx E v' s' sh' t' th' n' f' k' = Inr y"
    and fault: "verify_vote_fault E x y = Inr (o', dig)"
    and z: "vote_slash_tx E r x y m 0 j = Inr z"
  shows "sender z = PStr (address E r)" "recipient z = PStr SLASH_SENTINEL" "amount z = PInt 0" "fee z = PInt 0" "nonce z = PInt m"
    "truthy (evidence z)" "jsonable E (encode_tx z)"
    "\<exists>d. load_json E (evidence z) = Inr d \<and> slash_evidence E d = Inr (o', VoteOffense dig)"
proof -
  let ?d = "[(''kind'', PStr ''vote''), (''a'', encode_tx x), (''b'', encode_tx y)]"
  show shape: "sender z = PStr (address E r)" "recipient z = PStr SLASH_SENTINEL" "amount z = PInt 0" "fee z = PInt 0" "nonce z = PInt m"
    "jsonable E (encode_tx z)"
    using signed_shape [of E r j SLASH_SENTINEL 0 0 m _ z] z by (auto simp: vote_slash_tx_def)
  have ev: "evidence z = PStr (json_dumps E (PDict ?d))"
    using z by (auto simp: vote_slash_tx_def sign_tx_def new_tx_def rbind_eq_Inr Let_def split: if_splits)
  then show "truthy (evidence z)" by (simp add: json_dumps_print)
  have "jsonable E (PDict ?d)" using vote_tx_shape(1) [OF x] vote_tx_shape(1) [OF y] by (simp del: encode_tx_def)
  then have "json_loads E (json_dumps E (PDict ?d)) = Some (in_order True (PDict ?d))" by (rule json_loads_dumps)
  also have "in_order True (PDict ?d) = PDict [(''a'', in_order True (encode_tx x)), (''b'', in_order True (encode_tx y)), (''kind'', PStr ''vote'')]"
    by simp
  finally have "load_json E (evidence z) =
      Inr [(''a'', in_order True (encode_tx x)), (''b'', in_order True (encode_tx y)), (''kind'', PStr ''vote'')]"
    unfolding ev load_json.simps by simp
  moreover have "slash_evidence E [(''a'', in_order True (encode_tx x)), (''b'', in_order True (encode_tx y)), (''kind'', PStr ''vote'')] =
      Inr (o', VoteOffense dig)"
    using fault by (simp add: slash_evidence_def jfield_def dget_def signed_scalars [OF x] signed_scalars [OF y])
  ultimately show "\<exists>d. load_json E (evidence z) = Inr d \<and> slash_evidence E d = Inr (o', VoteOffense dig)" by blast
qed

lemma slash_applies:
  assumes z: "sender z = PStr r" "recipient z = PStr SLASH_SENTINEL" "amount z = PInt 0" "fee z = PInt 0" "nonce z = PInt m" "truthy (evidence z)"
    and ev: "load_json E (evidence z) = Inr d" "slash_evidence E d = Inr (PStr off, key)"
    and w: "key \<notin> set (slashed (w_aux w))" "dhas (w_balances w) (PStr r)" "0 \<le> dget (w_balances w) (PStr r) 0"
    and st: "treasury_address st = Some ta" and b: "hash_key (validator b) = Inr u" and ne: "off \<noteq> r" "ta \<noteq> r"
  shows "\<exists>w'. pos_apply_tx E st z b w = Inr w' \<and> stakes (w_aux w') = AList.delete off (stakes (w_aux w)) \<and>
    slashed (w_aux w') = List.insert key (slashed (w_aux w)) \<and>
    (let s = dget (stakes (w_aux w)) off 0 + unbonding_total (unbonding (w_aux w)) off; x = s * REPORTER_BPS div 10000
     in dget (w_balances w') (PStr r) 0 = dget (w_balances w) (PStr r) 0 + x \<and>
        dget (w_balances w') (PStr ta) 0 = dget (w_balances w) (PStr ta) 0 + (s - x)) \<and>
    dhas (w_balances w') (PStr r)"
proof -
  obtain x where x: "dlookup (w_balances w) (PStr r) = Inr x" "dget (w_balances w) (PStr r) 0 = x"
    using w(2) by (auto simp: dlookup_def dget_def dhas_iff_map_of)
  have "(PStr r :: pyval) \<noteq> PStr ta" using ne(2) by simp
  then show ?thesis
    using x w ev st b ne
    by (auto simp: pos_apply_tx_def z apply_slash_def Let_def credit_validator_def simp del: load_json.simps)
qed

lemma slash_signs:
  assumes "ecdsa_laws E (secret r)" "0 \<le> m"
  shows "\<exists>z. vote_slash_tx E r x y m 0 j = Inr z \<and> is_valid E z = Inr True"
proof -
  let ?ev = "json_dumps E (PDict [(''kind'', PStr ''vote''), (''a'', encode_tx x), (''b'', encode_tx y)])"
  have "?ev \<noteq> []" by (simp add: json_dumps_print)
  with sign_tx_valid [OF assms(1), of "new_tx (address E r) SLASH_SENTINEL 0 0 m ?ev" 0 0 m ?ev j] assms(2)
  show ?thesis unfolding vote_slash_tx_def by (auto simp: new_tx_def)
qed

lemma slash_block:
  assumes world: "finality_world E c" and st: "gate_state E c st" and len: "length (chain st) < 100"
    and x: "vote_tx E v s sh t th n f k = Inr x" and y: "vote_tx E v' s' sh' t' th' n' f' k' = Inr y"
    and fault: "verify_vote_fault E x y = Inr (PStr (address E (V3 c)), dig)"
    and z: "vote_slash_tx E (ALICE c) x y (nonce_of E st (ALICE c)) 0 j = Inr z"
  shows "\<exists>g st'. produce E c st [z] ts i = Inr st' \<and> pos_reachable E g st' \<and> length (chain st') = Suc (length (chain st)) \<and>
    stakes (pos st') = [(address E (V1 c), GATE_STAKE), (address E (V2 c), GATE_STAKE)] \<and> stake_of st' (address E (V3 c)) = 0 \<and>
    VoteOffense dig \<in> set (slashed (pos st')) \<and> treasury_address st' = treasury_address st \<and>
    balance_of st' (PStr (address E (ALICE c))) = balance_of st (PStr (address E (ALICE c))) + GATE_STAKE * REPORTER_BPS div 10000 \<and>
    balance_of st' (PStr (address E (TREASURY c))) =
      balance_of st (PStr (address E (TREASURY c))) + (GATE_STAKE - GATE_STAKE * REPORTER_BPS div 10000)"
proof -
  note addrs = finality_worldD(1) [OF world]
  obtain w where w: "next_validator E st = Inr (address E w)" "ecdsa_laws E (secret w)" "dlookup (vals E c) (address E w) = Inr w"
    using gate_state_elected [OF world st len] by blast
  obtain g where reach: "pos_reachable E g st" using gate_reach [OF st] by blast
  have inv: "pos_inv st" using reachable_inv [OF reach] by simp
  have n0: "0 \<le> nonce_of E st (ALICE c)" using reachable_nonces [OF reach] by (simp add: nonces_counted_def nonce_of_def)
  have valid: "is_valid E z = Inr True"
    using slash_signs [OF finality_worldD(5) [OF world] n0] z by (metis sum.inject(2))
  note reads = slash_reads [OF x y fault z]
  obtain d where d: "load_json E (evidence z) = Inr d" "slash_evidence E d = Inr (PStr (address E (V3 c)), VoteOffense dig)"
    using reads(8) by blast
  obtain b w1 where b: "seal_block E (PStr (block_hash E (head st))) (PInt (int (length (chain st)))) w [z] (PInt ts) (PInt 0) i = Inr b"
    "validator b = PStr (address E w)" "pos_apply_block_pre E st b (start_work (pos_hooks E) st) = Inr w1"
    "submit_block E (pos_hooks E) st b = pos_add_block E st [z] w (PInt ts) (PInt 0) i"
    "pos_add_block E st [z] w (PInt ts) (PInt 0) i =
      rbind (apply_txs E (pos_hooks E) st b [] w1 [z]) (\<lambda>w2. Inr ((commit_work (pos_hooks E) w2 st)\<lparr>chain := chain st @ [b]\<rparr>))"
    using add_block_eq [OF reach w(2,1)] by blast
  note pre = pre_checkpoints [OF world st b(1,3)]
  have has: "dhas (w_balances w1) (PStr (address E (ALICE c)))" "0 \<le> dget (w_balances w1) (PStr (address E (ALICE c))) 0"
    using st inv dall_dget [of "\<lambda>v. 0 \<le> v" "balances st" 0] by (simp_all add: pre(8) gate_state_def pos_inv_def)
  have tre: "treasury_address st = Some (address E (TREASURY c))" using st by (simp add: gate_state_def)
  have ne: "address E (V3 c) \<noteq> address E (ALICE c)" "address E (TREASURY c) \<noteq> address E (ALICE c)" using addrs by auto
  have "VoteOffense dig \<notin> set (slashed (w_aux w1))" "hash_key (validator b) = Inr (PStr (address E w))" by (simp_all add: pre(4) b(2))
  from slash_applies [OF reads(1-6) d this(1) has tre this(2) ne] obtain w2 where
    w2: "pos_apply_tx E st z b w1 = Inr w2" "stakes (w_aux w2) = AList.delete (address E (V3 c)) (gate_stakes E c)"
    "slashed (w_aux w2) = [VoteOffense dig]"
    "dget (w_balances w2) (PStr (address E (ALICE c))) 0 = dget (balances st) (PStr (address E (ALICE c))) 0 +
       dget (gate_stakes E c) (address E (V3 c)) 0 * REPORTER_BPS div 10000"
    "dget (w_balances w2) (PStr (address E (TREASURY c))) 0 = dget (balances st) (PStr (address E (TREASURY c))) 0 +
       (dget (gate_stakes E c) (address E (V3 c)) 0 - dget (gate_stakes E c) (address E (V3 c)) 0 * REPORTER_BPS div 10000)"
    by (auto simp: pre Let_def unbonding_total_def unbonding_sum_def)
  have S: "dget (gate_stakes E c) (address E (V3 c)) 0 = GATE_STAKE" "AList.delete (address E (V3 c)) (gate_stakes E c) =
      [(address E (V1 c), GATE_STAKE), (address E (V2 c), GATE_STAKE)]"
    using addrs by (auto simp: gate_stakes_def dget_def)
  have "apply_txs E (pos_hooks E) st b [] w1 [z] = Inr w2"
    using valid w2(1) reads(1,5) pre(7) by (simp add: pos_hooks_def nonce_of_def)
  then have add: "pos_add_block E st [z] w (PInt ts) (PInt 0) i = Inr ((commit_work (pos_hooks E) w2 st)\<lparr>chain := chain st @ [b]\<rparr>)"
    using b(5) by simp
  let ?st = "(commit_work (pos_hooks E) w2 st)\<lparr>chain := chain st @ [b]\<rparr>"
  have "pos_reachable E g ?st" using pos_reachable_step [OF reach] b(4) add by simp
  moreover have "produce E c st [z] ts i = Inr ?st" using w add by (simp add: produce_def)
  ultimately show ?thesis
    using w2(2-5) S addrs
    by (intro exI [of _ g] exI [of _ ?st])
      (auto simp: commit_work_def pos_hooks_def pos_commit_aux_def stake_of_def balance_of_def dget_def)
qed

lemma slash_again:
  assumes world: "finality_world E c" and reach: "pos_reachable E g st" and len: "length (chain st) < 100"
    and stakes: "stakes (pos st) = [(address E (V1 c), GATE_STAKE), (address E (V2 c), GATE_STAKE)]"
    and key: "VoteOffense dig \<in> set (slashed (pos st))" and tre: "treasury_address st = Some ta"
    and x: "vote_tx E v s sh t th n f k = Inr x" and y: "vote_tx E v' s' sh' t' th' n' f' k' = Inr y"
    and fault: "verify_vote_fault E x y = Inr (PStr (address E (V3 c)), dig)"
  shows "rejected (rbind (vote_slash_tx E (ALICE c) x y (nonce_of E st (ALICE c)) 0 j) (\<lambda>z. produce E c st [z] ts i)) m = Inr ()"
proof -
  have "int (length (chain st)) < 2 ^ 64" using len by simp
  then obtain w where w: "next_validator E st = Inr (address E w)" "ecdsa_laws E (secret w)" "dlookup (vals E c) (address E w) = Inr w"
    using gate_elected [OF world reach] stakes by (auto simp: dhas_def)
  have n0: "0 \<le> nonce_of E st (ALICE c)" using reachable_nonces [OF reach] by (simp add: nonces_counted_def nonce_of_def)
  obtain z where z: "vote_slash_tx E (ALICE c) x y (nonce_of E st (ALICE c)) 0 j = Inr z" "is_valid E z = Inr True"
    using slash_signs [OF finality_worldD(5) [OF world] n0] by blast
  note reads = slash_reads [OF x y fault z(1)]
  obtain d where d: "load_json E (evidence z) = Inr d" "slash_evidence E d = Inr (PStr (address E (V3 c)), VoteOffense dig)"
    using reads(8) by blast
  obtain b w1 where b: "pos_apply_block_pre E st b (start_work (pos_hooks E) st) = Inr w1"
    "pos_add_block E st [z] w (PInt ts) (PInt 0) i =
      rbind (apply_txs E (pos_hooks E) st b [] w1 [z]) (\<lambda>w2. Inr ((commit_work (pos_hooks E) w2 st)\<lparr>chain := chain st @ [b]\<rparr>))"
    using add_block_eq [OF reach w(2,1)] by blast
  have w1: "w_nonces w1 = nonces st" "slashed (w_aux w1) = slashed (pos st)"
    using b(1) by (auto simp: pos_apply_block_pre_def Let_def start_work_def pos_hooks_def pos_snapshot_aux_def split: if_splits prod.splits)
  have "pos_apply_tx E st z b w1 = Inl (ValidationError ''offense already slashed'')"
    using d key reads(2,6) tre by (simp add: pos_apply_tx_def apply_slash_def w1 del: load_json.simps)
  then have "produce E c st [z] ts i = Inl (ValidationError ''offense already slashed'')"
    using w b(2) z(2) reads(1,5) by (simp add: produce_def w1 pos_hooks_def nonce_of_def)
  then show ?thesis by (simp add: z(1))
qed

theorem vote_fault_slashing_passes:
  assumes world: "finality_world E c"
  shows "gate_vote_fault_slashing E c ks = Inr ()"
proof -
  obtain g where g: "make_chain E c = Inr g" "gate_state E c g" "length (chain g) = 1"
    "vote_state g = ([], [], [block_hash E (head g)], (block_hash E (head g), 0))" using gate_starts [OF world] by blast
  let ?g = "block_hash E (head g)" and ?rep = "\<lambda>s. concat (replicate 32 s) :: string"
  obtain st c2 c4 where st: "happy_path E c ks g = Inr (st, ?g, c2, c4)" "gate_state E c st" "length (chain st) = 6"
    using happy_path_ok [OF world g(2-4)] by blast
  note addrs = finality_worldD(1) [OF world]
  note signs1 = vote_tx_signs [OF finality_worldD(2) [OF world] order_refl order_refl]
  note signs3 = vote_tx_signs [OF finality_worldD(4) [OF world] order_refl order_refl]
  obtain da where da: "vote_tx E (V3 c) ?g 0 (?rep ''aa'') 2 0 0 (ks 9) = Inr da" using signs3 by blast
  obtain db where db: "vote_tx E (V3 c) ?g 0 (?rep ''bb'') 2 0 0 (ks 10) = Inr db" using signs3 by blast
  obtain sa where sa: "vote_tx E (V3 c) ?g 0 (?rep ''cc'') 8 0 0 (ks 11) = Inr sa" using signs3 by blast
  obtain sb where sb: "vote_tx E (V3 c) (?rep ''dd'') 2 (?rep ''ee'') 4 0 0 (ks 12) = Inr sb" using signs3 by blast
  obtain h1 where h1: "vote_tx E (V1 c) ?g 0 c2 2 0 0 (ks 13) = Inr h1" using signs1 by blast
  obtain h2 where h2: "vote_tx E (V1 c) c2 2 c4 4 0 0 (ks 14) = Inr h2" using signs1 by blast
  have reps: "?rep ''aa'' \<noteq> ?rep ''bb''" by (simp add: numeral_eq_Suc)
  obtain dig where double: "verify_vote_fault E da db = Inr (PStr (address E (V3 c)), dig)"
    using vote_fault_verdict [OF finality_worldD(4) [OF world] da db] reps by auto
  obtain dig2 where surround: "verify_vote_fault E sa sb = Inr (PStr (address E (V3 c)), dig2)"
    using vote_fault_verdict [OF finality_worldD(4) [OF world] sa sb] by auto
  obtain e where honest: "verify_vote_fault E h1 h2 = Inl (ValidationError e)"
    using vote_fault_verdict [OF finality_worldD(2) [OF world] h1 h2] by auto
  obtain gg where reach: "pos_reachable E gg st" using gate_reach [OF st(2)] by blast
  have n0: "0 \<le> nonce_of E st (ALICE c)" using reachable_nonces [OF reach] by (simp add: nonces_counted_def nonce_of_def)
  obtain z where z: "vote_slash_tx E (ALICE c) da db (nonce_of E st (ALICE c)) 0 (ks 15) = Inr z"
    using slash_signs [OF finality_worldD(5) [OF world] n0] by blast
  have len: "length (chain st) < 100" using st(3) by simp
  obtain g' st' where st': "produce E c st [z] (GATE_TS + 10) (ks 16) = Inr st'" "pos_reachable E g' st'" "length (chain st') = 7"
    "stakes (pos st') = [(address E (V1 c), GATE_STAKE), (address E (V2 c), GATE_STAKE)]" "stake_of st' (address E (V3 c)) = 0"
    "VoteOffense dig \<in> set (slashed (pos st'))" "treasury_address st' = treasury_address st"
    "balance_of st' (PStr (address E (ALICE c))) = balance_of st (PStr (address E (ALICE c))) + GATE_STAKE * REPORTER_BPS div 10000"
    "balance_of st' (PStr (address E (TREASURY c))) =
      balance_of st (PStr (address E (TREASURY c))) + (GATE_STAKE - GATE_STAKE * REPORTER_BPS div 10000)"
    using slash_block [OF world st(2) len da db double z, of "GATE_TS + 10" "ks 16"] st(3) by auto
  have "pos_total_supply st' = MAX_SUPPLY_UNITS" using reachable_inv [OF st'(2)] by simp
  moreover have "stake_of st (address E (V3 c)) = GATE_STAKE"
    using st(2) addrs by (auto simp: gate_state_def gate_stakes_def stake_of_def dget_def)
  moreover have len': "length (chain st') < 100" using st'(3) by simp
  have tre: "treasury_address st' = Some (address E (TREASURY c))" using st'(7) st(2) by (simp add: gate_state_def)
  note slash_again [OF world st'(2) len' st'(4,6) tre da db double]
  ultimately show ?thesis
    using st'(1,5,8,9)
    by (simp add: gate_vote_fault_slashing_def Let_def g(1) st(1) da db double sa sb surround h1 h2 honest z)
qed

end
