(* ===== verification/Tree_Gates.thy ===== *)
theory Tree_Gates
  imports Finality_Gates Tree_Runs
begin

text \<open>
  The gates \<open>finality.py\<close> runs on a block tree: finality is the same on the canonical chain, on a replay and
  after a reload, a block below the finalized one is refused, and finality wins against weight.
\<close>

section \<open>Gates on a tree\<close>

definition tprod ::
  "env \<Rightarrow> cast \<Rightarrow> block_tree \<Rightarrow> transaction list \<Rightarrow> int \<Rightarrow> nat \<Rightarrow> block_tree res option" where
  "tprod E c t txs ts k =
     (let hd = head (canonical t)
      in case rbind (next_validator E (canonical t)) (\<lambda>v. rbind (dlookup (vals E c) v) (\<lambda>w.
              rbind (py_succ E (index hd)) (\<lambda>i. seal_block E (PStr (block_hash E hd)) i w txs (PInt ts) (PInt 0) k))) of
           Inl e \<Rightarrow> Some (Inl e)
         | Inr b \<Rightarrow> map_option (\<lambda>(t', r). map_sum id (\<lambda>_. t') r) (add_block E t b))"

text \<open>One call after another, where a walk up the tree may not end.\<close>

definition obind :: "'a res option \<Rightarrow> ('a \<Rightarrow> 'b res option) \<Rightarrow> 'b res option" where
  "obind m f = (case m of None \<Rightarrow> None | Some (Inl e) \<Rightarrow> Some (Inl e) | Some (Inr x) \<Rightarrow> f x)"

definition tree_path ::
  "env \<Rightarrow> cast \<Rightarrow> (nat \<Rightarrow> nat) \<Rightarrow> block_tree \<Rightarrow> (block_tree \<times> string \<times> string) res option" where
  "tree_path E c ks t =
     (let g = genesis_hash t
      in obind (tprod E c t [] (GATE_TS + 1) (ks 0)) (\<lambda>t.
         obind (tprod E c t [] (GATE_TS + 2) (ks 1)) (\<lambda>t.
         let c2 = block_hash E (head (canonical t))
         in obind (Some (votes E (canonical t) [(V1 c, ks 2), (V2 c, ks 3)] g 0 c2 2)) (\<lambda>txs.
         obind (tprod E c t txs (GATE_TS + 3) (ks 4)) (\<lambda>t.
         obind (tprod E c t [] (GATE_TS + 4) (ks 5)) (\<lambda>t.
         let c4 = block_hash E (head (canonical t))
         in obind (Some (votes E (canonical t) [(V1 c, ks 6), (V2 c, ks 7)] c2 2 c4 4)) (\<lambda>txs.
         obind (tprod E c t txs (GATE_TS + 5) (ks 8)) (\<lambda>t. Some (Inr (t, c2, c4))))))))))"

text \<open>The same for a gate, whose assertions may fail.\<close>

definition ogbind :: "'a gate option \<Rightarrow> ('a \<Rightarrow> 'b gate option) \<Rightarrow> 'b gate option" where
  "ogbind m f = (case m of None \<Rightarrow> None | Some (Inl e) \<Rightarrow> Some (Inl e) | Some (Inr x) \<Rightarrow> f x)"

lemma ogbind_simps [simp]: "ogbind None f = None" "ogbind (Some (Inl e)) f = Some (Inl e)" "ogbind (Some (Inr x)) f = f x"
  by (simp_all add: ogbind_def)

definition gate_determinism :: "env \<Rightarrow> cast \<Rightarrow> (nat \<Rightarrow> nat) \<Rightarrow> unit gate option" where
  "gate_determinism E c ks =
     ogbind (Some (raises (block_tree_init E (gate_args E c 2 10) None))) (\<lambda>t.
     ogbind (map_option raises (tree_path E c ks t)) (\<lambda>(t, c2, c4).
     ogbind (Some (check (finalized_checkpoint (canonical t) = (c2, 2)) ''canonical'')) (\<lambda>_.
     ogbind (Some (check (finalized_hash t = c2 \<and> finalized_height t = 2) ''tree'')) (\<lambda>_.
     ogbind (map_option raises (chain_at E t (head_hash t))) (\<lambda>replayed.
     ogbind (Some (check (finalized_checkpoint replayed = (c2, 2)) ''replayed'')) (\<lambda>_.
     ogbind (Some (raises (write_genesis E (gate_args E c 2 10) \<lparr>genesis_file = None, blocks_file = None\<rparr>))) (\<lambda>s.
     ogbind (map_option raises (load E (fold (append_block E) (tl (chain (canonical t))) s))) (\<lambda>reloaded.
     ogbind (Some (check (finalized_checkpoint reloaded = (c2, 2)) ''reloaded'')) (\<lambda>_.
     ogbind (Some (check (is_justified reloaded c2 \<and> is_justified reloaded c4) ''justified'')) (\<lambda>_.
     Some (check (pos_total_supply reloaded = MAX_SUPPLY_UNITS) ''supply'')))))))))))"

definition add_ok :: "env \<Rightarrow> block_tree \<Rightarrow> block \<Rightarrow> block_tree gate option" where
  "add_ok E t b = map_option (\<lambda>(t', r). raises (map_sum id (\<lambda>_. t') r)) (add_block E t b)"

definition proposer_of :: "env \<Rightarrow> cast \<Rightarrow> pos_chain \<Rightarrow> wallet res" where
  "proposer_of E c st = rbind (next_validator E st) (dlookup (vals E c))"

text \<open>A block sealed on another one, by the validator elected there.\<close>

definition seal_on :: "env \<Rightarrow> cast \<Rightarrow> block_tree \<Rightarrow> block \<Rightarrow> int \<Rightarrow> int \<Rightarrow> nat \<Rightarrow> block gate option" where
  "seal_on E c t b n ts k =
     map_option (\<lambda>r. raises (rbind r (\<lambda>st. rbind (proposer_of E c st) (\<lambda>w.
       seal_block E (PStr (block_hash E b)) (PInt n) w [] (PInt ts) (PInt 0) k)))) (chain_at E t (block_hash E b))"

definition gate_finalized_prefix :: "env \<Rightarrow> cast \<Rightarrow> (nat \<Rightarrow> nat) \<Rightarrow> unit gate option" where
  "gate_finalized_prefix E c ks =
     ogbind (Some (raises (block_tree_init E (gate_args E c 2 10) None))) (\<lambda>t.
     ogbind (Some (raises (proposer_of E c (canonical t)))) (\<lambda>h1_proposer.
     ogbind (map_option raises (tree_path E c ks t)) (\<lambda>(t', c2, c4).
     ogbind (Some (check (finalized_height t' = 2) ''height'')) (\<lambda>_.
     ogbind (Some (raises (seal_block E (PStr (genesis_hash t)) (PInt 1) h1_proposer [] (PInt (GATE_TS + 999)) (PInt 0) (ks 9)))) (\<lambda>conflicting.
     ogbind (map_option (\<lambda>(t', r). map_sum id (\<lambda>_. t') (rejected r ''a block below the finalized height must be rejected''))
               (add_block E t' conflicting)) (\<lambda>t'.
     ogbind (Some (raises (py_lt (index (head (canonical t'))) (PInt 4)))) (\<lambda>low.
     ogbind (Some (check (\<not> low) ''head'')) (\<lambda>_.
     Some (check (pos_total_supply (canonical t') = MAX_SUPPLY_UNITS) ''supply'')))))))))"

definition gate_finality_beats_weight :: "env \<Rightarrow> cast \<Rightarrow> (nat \<Rightarrow> nat) \<Rightarrow> unit gate option" where
  "gate_finality_beats_weight E c ks =
     ogbind (Some (raises (block_tree_init E (gate_args E c 2 10) None))) (\<lambda>t.
     ogbind (Some (raises (proposer_of E c (canonical t)))) (\<lambda>p1.
     ogbind (Some (raises (seal_block E (PStr (genesis_hash t)) (PInt 1) p1 [] (PInt (GATE_TS + 1)) (PInt 0) (ks 10)))) (\<lambda>a1.
     ogbind (add_ok E t a1) (\<lambda>t.
     ogbind (Some (raises (seal_block E (PStr (genesis_hash t)) (PInt 1) p1 [] (PInt (GATE_TS + 2)) (PInt 0) (ks 11)))) (\<lambda>b1.
     ogbind (add_ok E t b1) (\<lambda>t.
     ogbind (seal_on E c t b1 2 (GATE_TS + 3) (ks 12)) (\<lambda>b2.
     ogbind (add_ok E t b2) (\<lambda>t.
     ogbind (seal_on E c t b2 3 (GATE_TS + 4) (ks 13)) (\<lambda>b3.
     ogbind (add_ok E t b3) (\<lambda>t.
     ogbind (Some (check (head_hash t = block_hash E b3) ''heavier branch'')) (\<lambda>_.
     ogbind (map_option (\<lambda>(t', r). raises (map_sum id (\<lambda>_. t') r))
               (update_head E (t\<lparr>finalized_hash := block_hash E a1, finalized_height := 1\<rparr>))) (\<lambda>t.
     Some (check (head_hash t = block_hash E a1) ''finality beats weight'')))))))))))))"

definition gate_irreversibility :: "env \<Rightarrow> cast \<Rightarrow> (nat \<Rightarrow> nat) \<Rightarrow> unit gate option" where
  "gate_irreversibility E c ks = ogbind (gate_finalized_prefix E c ks) (\<lambda>_. gate_finality_beats_weight E c ks)"

section \<open>Blocks on the head\<close>

lemma obind_simps [simp]: "obind None f = None" "obind (Some (Inl e)) f = Some (Inl e)" "obind (Some (Inr x)) f = f x"
  by (simp_all add: obind_def)

lemma produce_parts:
  assumes "produce E c st txs ts k = Inr st'" "chain st' = chain st @ [b]"
  shows "\<exists>v w i. next_validator E st = Inr v \<and> dlookup (vals E c) v = Inr w \<and> py_succ E (index (head st)) = Inr i \<and>
    seal_block E (PStr (block_hash E (head st))) i w txs (PInt ts) (PInt 0) k = Inr b \<and> submit_block E (pos_hooks E) st b = Inr st'"
    "timestamp b = PInt ts" "previous_hash b = PStr (block_hash E (head st))" "\<exists>w. validator b = PStr (address E w)"
proof -
  obtain v w i b' where p: "next_validator E st = Inr v" "dlookup (vals E c) v = Inr w" "py_succ E (index (head st)) = Inr i"
    "seal_block E (PStr (block_hash E (head st))) i w txs (PInt ts) (PInt 0) k = Inr b'" "submit_block E (pos_hooks E) st b' = Inr st'"
    using assms(1) by (auto simp: produce_def pos_add_block_def rbind_eq_Inr)
  have "b' = b" using pos.submit_block_chain [OF p(5)] assms(2) by simp
  with p show "\<exists>v w i. next_validator E st = Inr v \<and> dlookup (vals E c) v = Inr w \<and> py_succ E (index (head st)) = Inr i \<and>
    seal_block E (PStr (block_hash E (head st))) i w txs (PInt ts) (PInt 0) k = Inr b \<and> submit_block E (pos_hooks E) st b = Inr st'"
    by blast
  show "timestamp b = PInt ts" "previous_hash b = PStr (block_hash E (head st))" "\<exists>w. validator b = PStr (address E w)"
    using p(4) \<open>b' = b\<close> by (auto simp: seal_block_def new_block_def rbind_eq_Inr Let_def)
qed

text \<open>A tree that is one branch, a chain of the gates.\<close>

definition tree_state :: "env \<Rightarrow> cast \<Rightarrow> block_tree \<Rightarrow> pos_chain \<Rightarrow> bool" where
  "tree_state E c t st \<longleftrightarrow> tree_ok E t \<and> ws_checkpoint t = None \<and> genesis_args t = gate_args E c 2 10 \<and> canonical t = st \<and>
     gate_state E c st \<and> (finalized_hash t, finalized_height t) = finalized_checkpoint st \<and>
     (\<forall>h. dhas (weight t) h \<longrightarrow> h \<in> block_hash E ` set (chain st))"

lemma tree_state_head:
  assumes "tree_state E c t st"
  shows "replay E t (head_hash t) st" "head_hash t = block_hash E (head st)"
    "on_chain E (chain st) (finalized_hash t) (finalized_height t)"
proof -
  have ok: "nodes_ok E t" "head_ok E t" and st: "canonical t = st" using assms by (simp_all add: tree_state_def tree_ok_def)
  show rep: "replay E t (head_hash t) st" using ok(2) st by (simp add: head_ok_def)
  then show "head_hash t = block_hash E (head st)" using node_facts(1) [OF ok(1)] by simp
  obtain st' where "replay E t (head_hash t) st'" "on_chain E (chain st') (finalized_hash t) (finalized_height t)"
    using ok(2) by (auto simp: head_ok_def eligible_def)
  with replay_det [OF rep] show "on_chain E (chain st) (finalized_hash t) (finalized_height t)" by blast
qed

lemma produced_sealed:
  assumes st: "gate_state E c st" and p: "produce E c st txs ts k = Inr st'" "chain st' = chain st @ [b]"
  shows "sealed E c b" "index b = PInt (int (length (chain st)))"
proof -
  obtain g where reach: "pos_reachable E g st" using gate_reach [OF st] by blast
  have "py_succ E (index (head st)) = Inr (PInt (int (length (chain st))))"
    using heights_ok_last [OF reachable_heights [OF reach]] by (simp add: head_def py_succ_int)
  then obtain w where w: "seal_block E (PStr (block_hash E (head st))) (PInt (int (length (chain st)))) w txs (PInt ts) (PInt 0) k = Inr b"
    using produce_parts(1) [OF p] by auto
  moreover have "built E c st" using st by (simp add: gate_state_def)
  ultimately show "sealed E c b" unfolding sealed_def by blast
  show "index b = PInt (int (length (chain st)))" using w by (auto simp: seal_block_def new_block_def rbind_eq_Inr Let_def)
qed

lemma tprod_ok:
  assumes world: "finality_world E c" and t: "tree_state E c t st" and p: "produce E c st txs ts k = Inr st'" "chain st' = chain st @ [b]"
    and st': "gate_state E c st'" and fin: "finalized (pos st') = finalized (pos st) \<or> snd (finalized (pos st)) < snd (finalized (pos st'))"
  shows "\<exists>t'. tprod E c t txs ts k = Some (Inr t') \<and> tree_state E c t' st' \<and> genesis_hash t' = genesis_hash t"
proof -
  have st: "gate_state E c st" "canonical t = st" "tree_ok E t" "ws_checkpoint t = None" using t by (simp_all add: tree_state_def)
  note parts = produce_parts [OF p] and head = tree_state_head [OF t]
  obtain v w i where q: "next_validator E st = Inr v" "dlookup (vals E c) v = Inr w" "py_succ E (index (head st)) = Inr i"
    "seal_block E (PStr (block_hash E (head st))) i w txs (PInt ts) (PInt 0) k = Inr b" "submit_block E (pos_hooks E) st b = Inr st'"
    using parts(1) by blast
  obtain a where a: "validator b = PStr a" using parts(4) by blast
  have new: "\<not> dhas (weight t) (block_hash E b)"
    using gate_hashes(3) [OF world st(1) _ produced_sealed [OF st(1) p]] t by (force simp: tree_state_def in_set_conv_nth)
  obtain t' where t': "add_block E t b = Some (t', Inr True)" "tree_ok E t'"
    "weight t' = AList.update (block_hash E b) (dget (weight t) (head_hash t) 0 + stake_of st a) (weight t)" "ws_checkpoint t' = None"
    "genesis_args t' = genesis_args t" "genesis_hash t' = genesis_hash t"
    "(finalized_hash t', finalized_height t') = (if finalized_height t < snd (finalized_checkpoint st') then finalized_checkpoint st'
       else (finalized_hash t, finalized_height t))" "canonical t' = st'"
    using branch_add [OF st(3,4) head(1) _ head(3) new q(5) a] parts(3) head(2) by auto
  have ft: "(finalized_hash t, finalized_height t) = finalized (pos st)" using t by (simp add: tree_state_def finalized_checkpoint_def)
  then have "finalized_height t = snd (finalized (pos st))" by (metis snd_conv)
  then have "(finalized_hash t', finalized_height t') = finalized_checkpoint st'"
    using t'(7) ft fin by (auto simp: finalized_checkpoint_def split: if_splits)
  then have "tree_state E c t' st'" using t t'(2-6,8) st' p(2) by (auto simp: tree_state_def)
  moreover have "tprod E c t txs ts k = Some (Inr t')" using q t'(1) st(2) by (simp add: tprod_def)
  ultimately show ?thesis using t'(6) by blast
qed

lemma tprod_empty_block:
  assumes world: "finality_world E c" and t: "tree_state E c t st" and len: "length (chain st) < 100"
  shows "\<exists>t' st' b. tprod E c t [] ts k = Some (Inr t') \<and> tree_state E c t' st' \<and> chain st' = chain st @ [b] \<and> vote_state st' = vote_state st \<and>
    genesis_hash t' = genesis_hash t \<and> timestamp b = PInt ts"
proof -
  have st: "gate_state E c st" using t by (simp add: tree_state_def)
  obtain st' b where b: "produce E c st [] ts k = Inr st'" "gate_state E c st'" "chain st' = chain st @ [b]" "vote_state st' = vote_state st"
    using produce_empty_block [OF world st len] by blast
  then have "finalized (pos st') = finalized (pos st)" by (simp add: vote_state_def)
  with tprod_ok [OF world t b(1,3,2)] produce_parts(2) [OF b(1,3)] b(3,4) show ?thesis by metis
qed

lemma tprod_votes_block:
  assumes world: "finality_world E c" and t: "tree_state E c t st" and len: "length (chain st) < 100"
    and "m < n" "n < length (chain st)" "even m" "even n"
    and "s = block_hash E (chain st ! m)" "s \<in> set (justified (pos st))" "d = block_hash E (chain st ! n)"
    and "dget (ffg_votes (pos st)) (s, d) [] = []" "\<And>a. dget (ffg_seen_target (pos st)) (a, int n) (s, d) = (s, d)"
  shows "\<exists>txs t' st' b. votes E st [(V1 c, k1), (V2 c, k2)] s (int m) d (int n) = Inr txs \<and> tprod E c t txs ts k = Some (Inr t') \<and>
    tree_state E c t' st' \<and> chain st' = chain st @ [b] \<and> votes_added E c s m d n st st' \<and> genesis_hash t' = genesis_hash t"
proof -
  have st: "gate_state E c st" using t by (simp add: tree_state_def)
  obtain txs st' b where b: "votes E st [(V1 c, k1), (V2 c, k2)] s (int m) d (int n) = Inr txs" "produce E c st txs ts k = Inr st'"
    "gate_state E c st'" "chain st' = chain st @ [b]" "votes_added E c s m d n st st'"
    using produce_votes_block [OF world st assms(3-12)] by blast
  then have "finalized (pos st') = finalized (pos st) \<or> snd (finalized (pos st)) < snd (finalized (pos st'))"
    by (simp add: votes_added_def)
  from tprod_ok [OF world t b(2,4,3) this] b(1,4,5) show ?thesis by blast
qed

lemma tree_starts:
  assumes "finality_world E c"
  shows "\<exists>t g. block_tree_init E (gate_args E c 2 10) None = Inr t \<and> make_chain E c = Inr g \<and> tree_state E c t g \<and> length (chain g) = 1 \<and>
    vote_state g = ([], [], [block_hash E (head g)], (block_hash E (head g), 0)) \<and> genesis_hash t = block_hash E (head g) \<and>
    weight t = [(block_hash E (head g), 0)]"
proof -
  obtain g where g: "make_chain E c = Inr g" "gate_state E c g" "length (chain g) = 1"
    "vote_state g = ([], [], [block_hash E (head g)], (block_hash E (head g), 0))" using gate_starts [OF assms] by blast
  obtain t where t: "block_tree_init E (gate_args E c 2 10) None = Inr t" "canonical t = g" "ws_checkpoint t = None"
    "genesis_args t = gate_args E c 2 10" "genesis_hash t = block_hash E (head g)" "weight t = [(block_hash E (head g), 0)]"
    "(finalized_hash t, finalized_height t) = (block_hash E (head g), 0)"
    using g(1) by (simp add: block_tree_init_def make_chain_def Let_def)
  have "head g \<in> set (chain g)" using g(3) by (cases "chain g") (auto simp: head_def)
  then have "tree_state E c t g"
    using block_tree_init_ok [OF t(1)] t g(2,4) by (auto simp: tree_state_def finalized_checkpoint_def vote_state_def dhas_def)
  then show ?thesis using t g by blast
qed

lemma tree_path_ok:
  assumes world: "finality_world E c" and t: "tree_state E c t g" "length (chain g) = 1"
    "vote_state g = ([], [], [block_hash E (head g)], (block_hash E (head g), 0))" "genesis_hash t = block_hash E (head g)"
  shows "\<exists>t' st c2 c4. tree_path E c ks t = Some (Inr (t', c2, c4)) \<and> tree_state E c t' st \<and> length (chain st) = 6 \<and>
    chain st ! 0 = head g \<and> timestamp (chain st ! 1) = PInt (GATE_TS + 1) \<and> genesis_hash t' = genesis_hash t \<and>
    is_justified st c2 \<and> is_justified st c4 \<and> finalized_checkpoint st = (c2, 2)"
proof -
  let ?g = "block_hash E (head g)"
  have canon: "canonical t' = st" "gate_state E c st" if "tree_state E c t' st" for t' st using that by (simp_all add: tree_state_def)
  obtain b0 where b0: "chain g = [b0]" using t(2) by (auto simp: length_Suc_conv)
  then have hg: "head g = b0" by (simp add: head_def)
  obtain t1 s1 b1 where s1: "tprod E c t [] (GATE_TS + 1) (ks 0) = Some (Inr t1)" "tree_state E c t1 s1" "chain s1 = [b0, b1]"
    "vote_state s1 = vote_state g" "genesis_hash t1 = genesis_hash t" "timestamp b1 = PInt (GATE_TS + 1)"
    using tprod_empty_block [OF world t(1), of "GATE_TS + 1" "ks 0"] b0 by auto
  obtain t2 s2 b2 where s2: "tprod E c t1 [] (GATE_TS + 2) (ks 1) = Some (Inr t2)" "tree_state E c t2 s2" "chain s2 = [b0, b1, b2]"
    "vote_state s2 = vote_state g" "genesis_hash t2 = genesis_hash t"
    using tprod_empty_block [OF world s1(2), of "GATE_TS + 2" "ks 1"] s1(3-5) by auto
  let ?c2 = "block_hash E b2"
  have h2: "block_hash E (head s2) = ?c2" using s2(3) by (simp add: head_def)
  have v2: "ffg_votes (pos s2) = []" "ffg_seen_target (pos s2) = []" "justified (pos s2) = [?g]" "finalized (pos s2) = (?g, 0)"
    using s2(4) t(3) by (simp_all add: vote_state_def)
  obtain x t3 s3 b3 where s3: "votes E s2 [(V1 c, ks 2), (V2 c, ks 3)] ?g 0 ?c2 2 = Inr x" "tprod E c t2 x (GATE_TS + 3) (ks 4) = Some (Inr t3)"
    "tree_state E c t3 s3" "chain s3 = [b0, b1, b2, b3]" "votes_added E c ?g 0 ?c2 2 s2 s3" "genesis_hash t3 = genesis_hash t"
    using tprod_votes_block [OF world s2(2), of 0 2 ?g ?c2 "ks 2" "ks 3" "GATE_TS + 3" "ks 4"] s2(3,5) v2 hg by auto
  obtain t4 s4 b4 where s4: "tprod E c t3 [] (GATE_TS + 4) (ks 5) = Some (Inr t4)" "tree_state E c t4 s4" "chain s4 = [b0, b1, b2, b3, b4]"
    "vote_state s4 = vote_state s3" "genesis_hash t4 = genesis_hash t"
    using tprod_empty_block [OF world s3(3), of "GATE_TS + 4" "ks 5"] s3(4,6) by auto
  let ?c4 = "block_hash E b4"
  have h4: "block_hash E (head s4) = ?c4" using s4(3) by (simp add: head_def)
  have "?g \<noteq> ?c2" using gate_hashes(2) [OF world canon(2) [OF s4(2)], of 0 2] s4(3) hg by simp
  then have v4: "dget (ffg_votes (pos s4)) (?c2, ?c4) [] = []" "dget (ffg_seen_target (pos s4)) (a, 4) (?c2, ?c4) = (?c2, ?c4)"
    "justified (pos s4) = List.insert ?c2 [?g]" "finalized (pos s4) = (?g, 0)" for a
    using s4(4) s3(5) v2 by (auto simp: vote_state_def votes_added_def)
  obtain y t5 s5 b5 where s5: "votes E s4 [(V1 c, ks 6), (V2 c, ks 7)] ?c2 2 ?c4 4 = Inr y" "tprod E c t4 y (GATE_TS + 5) (ks 8) = Some (Inr t5)"
    "tree_state E c t5 s5" "chain s5 = [b0, b1, b2, b3, b4, b5]" "votes_added E c ?c2 2 ?c4 4 s4 s5" "genesis_hash t5 = genesis_hash t"
    using tprod_votes_block [OF world s4(2), of 2 4 ?c2 ?c4 "ks 6" "ks 7" "GATE_TS + 5" "ks 8"] s4(3,5) v4 by auto
  have "tree_path E c ks t = Some (Inr (t5, ?c2, ?c4))"
    using s1(1) s2(1) h2 s3(1,2) s4(1) h4 s5(1,2) t(4) by (simp add: tree_path_def Let_def canon(1) [OF s2(2)] canon(1) [OF s4(2)])
  moreover have "is_justified s5 ?c2" "is_justified s5 ?c4" "finalized_checkpoint s5 = (?c2, 2)"
    using s5(5) v4(3,4) by (auto simp: votes_added_def is_justified_def finalized_checkpoint_def)
  ultimately show ?thesis using s5(3,4,6) s1(6) hg by auto
qed

section \<open>The gates pass\<close>

theorem determinism_passes:
  assumes world: "finality_world E c" and fl: "\<And>f. printable (float_repr E f)"
  shows "gate_determinism E c ks = Some (Inr ())"
proof -
  obtain t0 g where t0: "block_tree_init E (gate_args E c 2 10) None = Inr t0" "make_chain E c = Inr g" "tree_state E c t0 g" "length (chain g) = 1"
    "vote_state g = ([], [], [block_hash E (head g)], (block_hash E (head g), 0))" "genesis_hash t0 = block_hash E (head g)"
    using tree_starts [OF world] by blast
  obtain t st c2 c4 where t: "tree_path E c ks t0 = Some (Inr (t, c2, c4))" "tree_state E c t st" "is_justified st c2" "is_justified st c4"
    "finalized_checkpoint st = (c2, 2)" using tree_path_ok [OF world t0(3-6)] by blast
  have ok: "nodes_ok E t" and canon: "canonical t = st" and st: "gate_state E c st" and fin: "(finalized_hash t, finalized_height t) = finalized_checkpoint st"
    using t(2) by (simp_all add: tree_state_def tree_ok_def)
  have at: "chain_at E t (head_hash t) = Some (Inr st)" by (rule node_facts(4) [OF ok tree_state_head(1) [OF t(2)]])
  let ?args = "gate_args E c 2 10"
  obtain s0 where s0: "write_genesis E ?args \<lparr>genesis_file = None, blocks_file = None\<rparr> = Inr s0" by (simp add: write_genesis_def)
  have json: "json_ok reject_float E (genesis_payload ?args)"
    unfolding gate_args_eq [OF world] genesis_payload_def using finality_worldD(1) [OF world] by auto
  have ts: "in_order True (fst (snd (snd ?args))) = fst (snd (snd ?args))" unfolding gate_args_eq [OF world] by simp
  have run: "new_chain E ?args = Inr g" "reaches E (pos_hooks E) g st" "list_all (\<lambda>b. jsonable E (encode_block b)) (tl (chain st))"
    using t0(2) gate_reach [OF st] st by (auto simp: make_chain_def gate_state_def simp del: json_ok.simps)
  obtain st' where st': "load E (fold (append_block E) (tl (chain st)) s0) = Some (Inr st')" "same_chain st st'"
    using stored_loads [OF fl s0 json ts run refl] by blast
  obtain g' where "pos_reachable E g' st'" using load_reachable [OF st'(1)] by blast
  then have "pos_total_supply st' = MAX_SUPPLY_UNITS" using reachable_inv by blast
  moreover have "finalized_checkpoint st' = finalized_checkpoint st" "is_justified st' = is_justified st"
    using st'(2) by (auto simp: same_chain_def same_aux_def finalized_checkpoint_def is_justified_def fun_eq_iff)
  ultimately show ?thesis
    using t0(1) t(1,3-5) canon at s0 st'(1) fin by (simp add: gate_determinism_def)
qed

lemma proposer_produces:
  assumes "produce E c st [] ts k = Inr st'" "chain st' = chain st @ [b]" "py_succ E (index (head st)) = Inr (PInt n)"
  shows "\<exists>w. proposer_of E c st = Inr w \<and> seal_block E (PStr (block_hash E (head st))) (PInt n) w [] (PInt ts) (PInt 0) k = Inr b"
  using produce_parts(1) [OF assms(1,2)] assms(3) by (auto simp: proposer_of_def)

lemma gate_head_succ:
  assumes "gate_state E c st"
  shows "py_succ E (index (head st)) = Inr (PInt (int (length (chain st))))"
proof -
  obtain g where "pos_reachable E g st" using gate_reach [OF assms] by blast
  from heights_ok_last [OF reachable_heights [OF this]] show ?thesis by (simp add: head_def py_succ_int)
qed

theorem finalized_prefix_passes:
  assumes world: "finality_world E c"
  shows "gate_finalized_prefix E c ks = Some (Inr ())"
proof -
  obtain t0 g where t0: "block_tree_init E (gate_args E c 2 10) None = Inr t0" "tree_state E c t0 g" "length (chain g) = 1"
    "vote_state g = ([], [], [block_hash E (head g)], (block_hash E (head g), 0))" "genesis_hash t0 = block_hash E (head g)"
    using tree_starts [OF world] by blast
  have g: "gate_state E c g" "canonical t0 = g" using t0(2) by (simp_all add: tree_state_def)
  obtain t st c2 c4 where t: "tree_path E c ks t0 = Some (Inr (t, c2, c4))" "tree_state E c t st" "length (chain st) = 6" "chain st ! 0 = head g"
    "timestamp (chain st ! 1) = PInt (GATE_TS + 1)" "genesis_hash t = genesis_hash t0" "finalized_checkpoint st = (c2, 2)"
    using tree_path_ok [OF world t0(2-5)] by blast
  have ok: "nodes_ok E t" "frontier_ok E t" and canon: "canonical t = st" and st: "gate_state E c st" and
    fin: "(finalized_hash t, finalized_height t) = finalized_checkpoint st"
    and nodes: "\<And>h. dhas (weight t) h \<Longrightarrow> h \<in> block_hash E ` set (chain st)"
    using t(2) by (simp_all add: tree_state_def tree_ok_def)
  have len: "length (chain g) < 100" using t0(3) by simp
  obtain s1 b where b: "produce E c g [] (GATE_TS + 999) (ks 9) = Inr s1" "chain s1 = chain g @ [b]"
    using produce_empty_block [OF world g(1) len] by blast
  obtain w where w: "proposer_of E c g = Inr w" "seal_block E (PStr (genesis_hash t0)) (PInt 1) w [] (PInt (GATE_TS + 999)) (PInt 0) (ks 9) = Inr b"
    using proposer_produces [OF b gate_head_succ [OF g(1)]] t0(3,5) by auto
  note sealed = produced_sealed [OF g(1) b] and stamp = produce_parts(2,3) [OF b]
  have new: "\<not> dhas (weight t) (block_hash E b)"
  proof
    assume "dhas (weight t) (block_hash E b)"
    then obtain n where n: "n < 6" "block_hash E b = block_hash E (chain st ! n)" using nodes t(3) by (force simp: in_set_conv_nth)
    have "sealed E c (chain st ! n)" using st n(1) t(3) by (simp add: gate_state_def list_all_length)
    with finality_worldD(6) [OF world sealed(1) _ n(2)] have eq: "index b = index (chain st ! n)" "timestamp b = timestamp (chain st ! n)" by simp_all
    then have "n = 1" using gate_hashes(1) [OF world st, of n] n(1) t(3) sealed(2) t0(3) by simp
    with eq(2) stamp(1) t(5) show False by simp
  qed
  have g0: "dhas (weight t) (genesis_hash t)" using nodes_ok_maps(1) [OF ok(1)] .
  then obtain s0 where s0: "replay E t (genesis_hash t) s0" by (rule nodes_okD [OF ok(1)])
  have "dget (height t) (genesis_hash t) 0 = 0"
  proof -
    obtain g' where g': "new_chain E (genesis_args t) = Inr g'" using ok(1) by (auto simp: nodes_ok_def)
    then have "replay E t (genesis_hash t) g'" by (rule replay_genesis)
    with node_facts(2) [OF ok(1) this] g' show ?thesis
      by (cases "genesis_args t") (auto simp: new_chain_def elim!: pos_init_Inr)
  qed
  moreover have "dhas (height t) (genesis_hash t)" using g0 nodes_ok_maps(2) [OF ok(1)] by simp
  ultimately have h0: "dlookup (height t) (genesis_hash t) = Inr 0" by (auto simp: dlookup_def dget_def dhas_iff_map_of)
  have "block_hash E b \<noteq> finalized_hash t" using new ok(2) by (auto simp: frontier_ok_def)
  moreover have f2: "finalized_height t = 2" using fin t(7) by simp
  ultimately have "add_block E t b = Some (t, Inl (ValidationError ''block conflicts with the finalized prefix''))"
    using new g0 h0 stamp(2) t(6) t0(5) by (simp add: add_block_def Let_def known_parent_def check_frontier_def)
  moreover have "head st = chain st ! 5" using t(3) by (cases "chain st" rule: rev_cases) (auto simp: head_def nth_append)
  then have "index (head st) = PInt 5" using gate_hashes(1) [OF world st, of 5] t(3) by simp
  ultimately show ?thesis
    using t0(1) w t(1) f2 g(2) canon gate_supply [OF st] by (simp add: gate_finalized_prefix_def)
qed

text \<open>A tree with branches, before anything but genesis is final: \<open>P\<close> holds height and time of its blocks.\<close>

definition forked :: "env \<Rightarrow> cast \<Rightarrow> string \<Rightarrow> (pyval \<times> pyval) set \<Rightarrow> block_tree \<Rightarrow> bool" where
  "forked E c g P t \<longleftrightarrow> tree_ok E t \<and> ws_checkpoint t = None \<and> finalized_hash t = g \<and> finalized_height t = 0 \<and> genesis_hash t = g \<and>
     (\<forall>h. dhas (weight t) h \<longrightarrow> (\<exists>b. sealed E c b \<and> h = block_hash E b \<and> (index b, timestamp b) \<in> P))"

definition branch :: "env \<Rightarrow> cast \<Rightarrow> string \<Rightarrow> block_tree \<Rightarrow> pos_chain \<Rightarrow> bool" where
  "branch E c g t st \<longleftrightarrow> gate_state E c st \<and> replay E t (block_hash E (head st)) st \<and> finalized_checkpoint st = (g, 0) \<and>
     chain st \<noteq> [] \<and> block_hash E (chain st ! 0) = g"

lemma branch_grows:
  assumes world: "finality_world E c" and t: "forked E c g P t" and st: "branch E c g t st" and len: "length (chain st) < 100"
    and new: "(PInt (int (length (chain st))), PInt ts) \<notin> P"
  shows "\<exists>w b t' st'. proposer_of E c st = Inr w \<and>
    seal_block E (PStr (block_hash E (head st))) (PInt (int (length (chain st)))) w [] (PInt ts) (PInt 0) k = Inr b \<and>
    add_ok E t b = Some (Inr t') \<and> forked E c g (insert (PInt (int (length (chain st))), PInt ts) P) t' \<and> branch E c g t' st' \<and>
    chain st' = chain st @ [b] \<and> (\<forall>st. branch E c g t st \<longrightarrow> branch E c g t' st) \<and> \<not> dhas (weight t) (block_hash E b) \<and>
    weight t' = AList.update (block_hash E b) (dget (weight t) (block_hash E (head st)) 0 + GATE_STAKE) (weight t)"
proof -
  have gs: "gate_state E c st" and rep: "replay E t (block_hash E (head st)) st" and fin: "finalized_checkpoint st = (g, 0)"
    and ch: "chain st \<noteq> []" "block_hash E (chain st ! 0) = g" using st by (simp_all add: branch_def)
  have tr: "tree_ok E t" "ws_checkpoint t = None" "finalized_hash t = g" "finalized_height t = 0" "genesis_hash t = g"
    and keys: "\<And>h. dhas (weight t) h \<Longrightarrow> \<exists>b. sealed E c b \<and> h = block_hash E b \<and> (index b, timestamp b) \<in> P"
    using t by (simp_all add: forked_def)
  obtain st' b where b: "produce E c st [] ts k = Inr st'" "gate_state E c st'" "chain st' = chain st @ [b]" "vote_state st' = vote_state st"
    using produce_empty_block [OF world gs len] by blast
  note sealed = produced_sealed [OF gs b(1,3)] and parts = produce_parts [OF b(1,3)]
  obtain w where w: "proposer_of E c st = Inr w"
    "seal_block E (PStr (block_hash E (head st))) (PInt (int (length (chain st)))) w [] (PInt ts) (PInt 0) k = Inr b"
    using proposer_produces [OF b(1,3) gate_head_succ [OF gs]] by blast
  have fresh: "\<not> dhas (weight t) (block_hash E b)"
  proof
    assume "dhas (weight t) (block_hash E b)"
    then obtain b' where b': "sealed E c b'" "block_hash E b = block_hash E b'" "(index b', timestamp b') \<in> P" using keys by blast
    with finality_worldD(6) [OF world sealed(1) b'(1,2)] new sealed(2) parts(2) show False by simp
  qed
  obtain v where v: "next_validator E st = Inr v" "dlookup (vals E c) v = Inr w" using w(1) by (auto simp: proposer_of_def rbind_eq_Inr)
  have stake: "stake_of st (address E w) = GATE_STAKE"
  proof -
    have "w \<in> {V1 c, V2 c, V3 c}" using v(2) by (auto simp: vals_lookup(1) [OF world] dlookup_eq_Inr split: if_splits)
    then show ?thesis using gs finality_worldD(1) [OF world] by (auto simp: stake_of_def gate_state_def gate_stakes_def dget_def)
  qed
  have val: "validator b = PStr (address E w)" using w(2) by (auto simp: seal_block_def new_block_def rbind_eq_Inr Let_def)
  have on: "on_chain E (chain st) (finalized_hash t) (finalized_height t)" using ch tr(3,4) by (simp add: on_chain_def)
  have sub: "submit_block E (pos_hooks E) st b = Inr st'" using parts(1) by blast
  have fin': "finalized_checkpoint st' = (g, 0)" using b(4) fin by (simp add: vote_state_def finalized_checkpoint_def)
  obtain t' where t': "add_block E t b = Some (t', Inr True)" "tree_ok E t'" "replay E t' (block_hash E b) st'"
    "weight t' = AList.update (block_hash E b) (dget (weight t) (block_hash E (head st)) 0 + GATE_STAKE) (weight t)" "ws_checkpoint t' = None"
    "genesis_hash t' = g" "finalized_hash t' = g" "finalized_height t' = 0"
    using branch_add [OF tr(1,2) rep parts(3) on fresh sub val] tr(3-5) fin' stake by auto
  have "forked E c g (insert (PInt (int (length (chain st))), PInt ts) P) t'"
    using t'(2,4-8) keys sealed parts(2) by (auto simp: forked_def)
  moreover have "branch E c g t' st'" using t'(3) b(2,3) fin' ch by (simp add: branch_def head_def nth_append)
  moreover have "branch E c g t' s" if "branch E c g t s" for s
    using that add_block_replay [OF tr(1) t'(1)] by (auto simp: branch_def)
  moreover have "add_ok E t b = Some (Inr t')" using t'(1) by (simp add: add_ok_def)
  ultimately show ?thesis using w b(3) fresh t'(4) by blast
qed

lemma branch_at: "forked E c g P t \<Longrightarrow> branch E c g t st \<Longrightarrow> chain_at E t (block_hash E (head st)) = Some (Inr st)"
  using node_facts(4) by (auto simp: forked_def branch_def tree_ok_def)

theorem finality_beats_weight_passes:
  assumes world: "finality_world E c"
  shows "gate_finality_beats_weight E c ks = Some (Inr ())"
proof -
  obtain t0 s0 where t0: "block_tree_init E (gate_args E c 2 10) None = Inr t0" "tree_state E c t0 s0" "length (chain s0) = 1"
    "vote_state s0 = ([], [], [block_hash E (head s0)], (block_hash E (head s0), 0))" "genesis_hash t0 = block_hash E (head s0)"
    "weight t0 = [(block_hash E (head s0), 0)]" using tree_starts [OF world] by blast
  let ?g = "block_hash E (head s0)"
  obtain b0 where b0: "chain s0 = [b0]" "head s0 = b0" using t0(3) by (auto simp: length_Suc_conv head_def)
  have s0: "gate_state E c s0" "canonical t0 = s0" using t0(2) by (simp_all add: tree_state_def)
  have "sealed E c b0" "index b0 = PInt 0" using s0(1) gate_hashes(1) [OF world s0(1), of 0] b0 by (simp_all add: gate_state_def)
  then have f0: "forked E c ?g {(PInt 0, timestamp b0)} t0"
    using t0 b0 by (auto simp: forked_def tree_state_def finalized_checkpoint_def vote_state_def dhas_def)
  have br0: "branch E c ?g t0 s0"
    using tree_state_head(1,2) [OF t0(2)] s0(1) t0(4) b0 by (simp add: branch_def vote_state_def finalized_checkpoint_def)
  have l0: "length (chain s0) < 100" using t0(3) by simp
  obtain p1 a1 t1 s1 where a1: "proposer_of E c s0 = Inr p1" "seal_block E (PStr ?g) (PInt 1) p1 [] (PInt (GATE_TS + 1)) (PInt 0) (ks 10) = Inr a1"
    "add_ok E t0 a1 = Some (Inr t1)" "forked E c ?g {(PInt 1, PInt (GATE_TS + 1)), (PInt 0, timestamp b0)} t1" "branch E c ?g t1 s1"
    "chain s1 = [b0, a1]" "\<And>st. branch E c ?g t0 st \<Longrightarrow> branch E c ?g t1 st" "\<not> dhas (weight t0) (block_hash E a1)"
    "weight t1 = AList.update (block_hash E a1) GATE_STAKE (weight t0)"
    using branch_grows [OF world f0 br0 l0, of "GATE_TS + 1" "ks 10"] t0(3,6) b0 by (auto simp: dget_def)
  obtain b1 t2 s2 where b1: "seal_block E (PStr ?g) (PInt 1) p1 [] (PInt (GATE_TS + 2)) (PInt 0) (ks 11) = Inr b1"
    "add_ok E t1 b1 = Some (Inr t2)" "forked E c ?g {(PInt 1, PInt (GATE_TS + 2)), (PInt 1, PInt (GATE_TS + 1)), (PInt 0, timestamp b0)} t2"
    "branch E c ?g t2 s2" "chain s2 = [b0, b1]" "\<And>st. branch E c ?g t1 st \<Longrightarrow> branch E c ?g t2 st" "\<not> dhas (weight t1) (block_hash E b1)"
    "weight t2 = AList.update (block_hash E b1) (dget (weight t1) ?g 0 + GATE_STAKE) (weight t1)"
    using branch_grows [OF world a1(4) a1(7) [OF br0] l0, of "GATE_TS + 2" "ks 11"] a1(1) t0(3) b0 by auto
  have h2: "head s2 = b1" using b1(5) by (simp add: head_def)
  have l2: "length (chain s2) < 100" by (simp add: b1(5))
  obtain p2 b2 t3 s3 where b2: "proposer_of E c s2 = Inr p2" "seal_block E (PStr (block_hash E b1)) (PInt 2) p2 [] (PInt (GATE_TS + 3)) (PInt 0) (ks 12) = Inr b2"
    "add_ok E t2 b2 = Some (Inr t3)"
    "forked E c ?g {(PInt 2, PInt (GATE_TS + 3)), (PInt 1, PInt (GATE_TS + 2)), (PInt 1, PInt (GATE_TS + 1)), (PInt 0, timestamp b0)} t3"
    "branch E c ?g t3 s3" "chain s3 = [b0, b1, b2]" "\<And>st. branch E c ?g t2 st \<Longrightarrow> branch E c ?g t3 st" "\<not> dhas (weight t2) (block_hash E b2)"
    "weight t3 = AList.update (block_hash E b2) (dget (weight t2) (block_hash E b1) 0 + GATE_STAKE) (weight t2)"
    using branch_grows [OF world b1(3,4) l2, of "GATE_TS + 3" "ks 12"] by (auto simp: b1(5) h2)
  have h3: "head s3 = b2" using b2(6) by (simp add: head_def)
  have l3: "length (chain s3) < 100" by (simp add: b2(6))
  obtain p3 b3 t4 s4 where b3: "proposer_of E c s3 = Inr p3" "seal_block E (PStr (block_hash E b2)) (PInt 3) p3 [] (PInt (GATE_TS + 4)) (PInt 0) (ks 13) = Inr b3"
    "add_ok E t3 b3 = Some (Inr t4)" "forked E c ?g {(PInt 3, PInt (GATE_TS + 4)), (PInt 2, PInt (GATE_TS + 3)), (PInt 1, PInt (GATE_TS + 2)), (PInt 1, PInt (GATE_TS + 1)),
      (PInt 0, timestamp b0)} t4" "branch E c ?g t4 s4" "chain s4 = [b0, b1, b2, b3]"
    "\<And>st. branch E c ?g t3 st \<Longrightarrow> branch E c ?g t4 st" "\<not> dhas (weight t3) (block_hash E b3)"
    "weight t4 = AList.update (block_hash E b3) (dget (weight t3) (block_hash E b2) 0 + GATE_STAKE) (weight t3)"
    using branch_grows [OF world b2(4,5) l3, of "GATE_TS + 4" "ks 13"] by (auto simp: b2(6) h3)
  have h4: "head s4 = b3" "head s1 = a1" using b3(6) a1(6) by (simp_all add: head_def)
  have br: "branch E c ?g t4 s0" "branch E c ?g t4 s1" "branch E c ?g t4 s2" "branch E c ?g t4 s3" "branch E c ?g t4 s4"
    using br0 a1(5,7) b1(4,6) b2(5,7) b3(5,7) by blast+
  let ?h = "block_hash E"
  have distinct: "distinct [?g, ?h a1, ?h b1, ?h b2, ?h b3]"
    using a1(8) b1(7) b2(8) b3(8) by (auto simp: a1(9) b1(8) b2(9) t0(6) dhas_def)
  have wt: "dget (weight t4) ?g 0 = 0" "dget (weight t4) (?h a1) 0 = GATE_STAKE" "dget (weight t4) (?h b1) 0 = GATE_STAKE"
    "dget (weight t4) (?h b2) 0 = 2 * GATE_STAKE" "dget (weight t4) (?h b3) 0 = 3 * GATE_STAKE"
    "dhas (weight t4) x \<longleftrightarrow> x \<in> {?g, ?h a1, ?h b1, ?h b2, ?h b3}" for x
    using distinct by (auto simp: b3(9) b2(9) b1(8) a1(9) t0(6) dget_map_of dhas_def)
  have S: "0 < GATE_STAKE" by (simp add: gate_units)
  have t4: "tree_ok E t4" "finalized_hash t4 = ?g" "finalized_height t4 = 0" using b3(4) by (auto simp: forked_def)
  have rep: "replay E t4 ?g s0" "replay E t4 (?h a1) s1" "replay E t4 (?h b1) s2" "replay E t4 (?h b2) s3" "replay E t4 (?h b3) s4"
    using br h2 h3 h4 by (simp_all add: branch_def)
  have "eligible E t4 (?h b3)" using rep(5) wt(6) b3(6) b0 t4(2,3) by (auto simp: eligible_def on_chain_def)
  then have "preferred t4 (head_hash t4) (?h b3)" "dhas (weight t4) (head_hash t4)"
    using t4(1) by (auto simp: tree_ok_def head_ok_def eligible_def)
  then have head: "head_hash t4 = ?h b3" using wt S by (auto simp: preferred_def)
  let ?t = "t4\<lparr>finalized_hash := ?h a1, finalized_height := 1\<rparr>"
  have same: "replay E ?t = replay E t4" by simp
  have ok: "nodes_ok E ?t" using t4(1) by (simp add: tree_ok_def)
  have ok4: "nodes_ok E t4" using t4(1) by (simp add: tree_ok_def)
  have "dget (height t4) (?h a1) 0 = 1" using node_facts(2) [OF ok4 rep(2)] a1(6) by simp
  then have fr: "frontier_ok E ?t" using wt(6) by (simp add: frontier_ok_def)
  have "replay E ?t (head_hash ?t) (canonical ?t)" using t4(1) by (simp add: tree_ok_def head_ok_def)
  from update_head_spec [OF ok fr this] obtain x y where
    up: "update_head E ?t = Some (?t\<lparr>head_hash := x, canonical := y\<rparr>, Inr ())" "tree_ok E (?t\<lparr>head_hash := x, canonical := y\<rparr>)" by blast
  have "eligible E ?t x" using up(2) by (simp add: tree_ok_def head_ok_def)
  then obtain s where s: "dhas (weight t4) x" "replay E t4 x s" "on_chain E (chain s) (?h a1) 1" by (auto simp: eligible_def)
  have "x = ?h a1"
  proof (rule ccontr)
    assume "x \<noteq> ?h a1"
    then consider "x = ?g" | "x = ?h b1" | "x = ?h b2" | "x = ?h b3" using s(1) wt(6) by blast
    then have "s = s0 \<or> s = s2 \<or> s = s3 \<or> s = s4" using s(2) rep replay_det by cases blast+
    then show False using s(3) b0(1) b1(5) b2(6) b3(6) distinct by (auto simp: on_chain_def)
  qed
  moreover have "genesis_hash t1 = ?g" using a1(4) by (simp add: forked_def)
  ultimately show ?thesis
    using t0(1,5) s0(2) a1(1-3) b1(1,2) b2(1-3) b3(1-3) head up(1) branch_at [OF b1(3,4)] branch_at [OF b2(4,5)]
    by (simp add: gate_finality_beats_weight_def seal_on_def h2 h3)
qed

section \<open>The whole script\<close>

text \<open>The gates in the order of \<open>_demo\<close>: gate \<open>j\<close> draws its nonces from \<open>ks j\<close>.\<close>

definition finality_main :: "env \<Rightarrow> cast \<Rightarrow> (nat \<Rightarrow> nat \<Rightarrow> nat) \<Rightarrow> unit gate option" where
  "finality_main E c ks =
     ogbind (Some (gate_justify_finalize E c (ks 0))) (\<lambda>_.
     ogbind (gate_determinism E c (ks 1)) (\<lambda>_.
     ogbind (gate_irreversibility E c (ks 2)) (\<lambda>_.
     ogbind (Some (gate_vote_fault_slashing E c (ks 3))) (\<lambda>_.
     ogbind (Some (gate_liveness E c (ks 4))) (\<lambda>_.
     Some (gate_vote_admission E c (ks 5)))))))"

lemma irreversibility_passes:
  assumes "finality_world E c"
  shows "gate_irreversibility E c ks = Some (Inr ())"
  by (simp add: gate_irreversibility_def finalized_prefix_passes [OF assms] finality_beats_weight_passes [OF assms])

lemma finality_main_passes:
  assumes "finality_world E c" and "\<And>f. printable (float_repr E f)"
  shows "finality_main E c ks = Some (Inr ())"
  by (simp add: finality_main_def justify_finalize_passes [OF assms(1)] determinism_passes [OF assms] irreversibility_passes [OF assms(1)]
      vote_fault_slashing_passes [OF assms(1)] liveness_passes [OF assms(1)] vote_admission_passes [OF assms(1)])

end
