(* ===== verification/Client_Samples.thy ===== *)
theory Client_Samples
  imports Node_Samples Commands Tree_Gates
begin

text \<open>
  A toy cipher, a keystore, and the sample world of \<open>Samples\<close> seen by a wallet and by the driver, for
  the witnesses about clients; six wallets for the ones about the gates.
\<close>

section \<open>A keystore\<close>

text \<open>The key is the passphrase; a ciphertext is the key in front of the data.\<close>

definition toy_crypto :: crypto where
  "toy_crypto = \<lparr>scrypt = (\<lambda>salt n r p data. Inr data), aes_encrypt = (\<lambda>key nb d. key @ d),
     aes_decrypt = (\<lambda>key nb c. Inr (if take (length key) c = key then Some (drop (length key) c) else None))\<rparr>"

definition sample_keystore :: pyval where
  "sample_keystore = PDict
     [(''version'', PInt 1), (''kdf'', PStr ''scrypt''), (''n'', PInt 16384), (''r'', PInt 8), (''p'', PInt 1),
      (''salt'', PStr ''AQI=''), (''nonce'', PStr ''Aw==''), (''ciphertext'', PStr (b64 ([112, 119] @ replicate 31 0 @ [2])))]"

lemma toy_crypto_law: "aes_decrypt toy_crypto key n (aes_encrypt toy_crypto key n d) = Inr (Some d)"
  by (simp add: toy_crypto_def)

lemma sample_secret_text: "new_secret toy [0, 2] = Some (hex_pad 64 2)" "fromhex (hex_pad 64 2) = Some (replicate 31 0 @ [2])"
  by code_simp+

lemma sample_encrypt: "encrypt_secret toy_crypto [1, 2] [3] (hex_pad 64 2) ''pw'' = Inr sample_keystore"
proof -
  have "b64 [1, 2] = ''AQI=''" "b64 [3] = ''Aw==''" "utf8_encode ''pw'' = [112, 119]" by code_simp+
  then show ?thesis
    by (simp add: encrypt_secret_def sample_secret_text derive_def toy_crypto_def sample_keystore_def
        SCRYPT_N_def SCRYPT_R_def SCRYPT_P_def del: replicate.simps)
qed

section \<open>An amount and a command\<close>

lemma sample_decimal: "decimal_of ''1.5'' = Some (Finite False 15 (-1))" "decimal_of ''1e-8'' = Some (Finite False 1 (-8))"
    "decimal_of ''0'' = Some (Finite False 0 0)"
  by code_simp+

lemma sample_amount: "parse_amount ''1e-8'' = Inr 1" "parse_amount ''0'' = Inr 0"
  using parse_amount_exact [OF sample_decimal(2)] parse_amount_exact [OF sample_decimal(3)] by (simp_all add: units_exact_def)

lemma alice_secret: "int16 ''2'' = Inr 2" "from_secret toy 2 = Inr alice"
  by code_simp+

definition wallet_tx :: transaction where
  "wallet_tx = \<lparr>sender = PStr ''19r'', recipient = PStr ''1EG'', amount = PInt 1, fee = PInt 0,
     nonce = PInt 0, public_key = PStr ''0101'', signature = PStr ''0101'', evidence = PStr []\<rparr>"

lemma wallet_tx_built: "build_tx toy alice (Send ''1EG'') 1 0 0 0 = Inr wallet_tx"
  by code_simp

lemma wallet_bodies:
  "int (length (utf8_encode (json_default toy False (rpc_request ''nonce'' [(''address'', PStr (address toy alice))])))) \<le> MAX_RPC_BODY"
  "int (length (utf8_encode (json_default toy False (rpc_request ''submit_tx'' [(''tx'', encode_tx wallet_tx)])))) \<le> MAX_RPC_BODY"
proof -
  have "length (utf8_encode (json_default toy False (rpc_request ''nonce'' [(''address'', PStr (address toy alice))]))) < 1000"
    "length (utf8_encode (json_default toy False (rpc_request ''submit_tx'' [(''tx'', encode_tx wallet_tx)]))) < 1000"
    by code_simp+
  then show "int (length (utf8_encode (json_default toy False (rpc_request ''nonce'' [(''address'', PStr (address toy alice))])))) \<le> MAX_RPC_BODY"
    "int (length (utf8_encode (json_default toy False (rpc_request ''submit_tx'' [(''tx'', encode_tx wallet_tx)])))) \<le> MAX_RPC_BODY"
    by (simp_all only: MAX_RPC_BODY_def)
qed

lemma wallet_service: "dget (nonces (svc_chain sample_service)) (PStr (address toy alice)) 0 = 0"
    "length (pool (svc_mempool sample_service)) < MAX_POOL_SIZE" "\<not> svc_autoproduce sample_service"
  by (simp_all add: sample_addresses sample_service_def svc_chain_def sample_tree_def sample_genesis_def mempool_init_def
      MAX_POOL_SIZE_def)

section \<open>A cycle of the driver\<close>

definition open_tree :: block_tree where
  "open_tree = sample_tree\<lparr>ws_checkpoint := None\<rparr>"

definition driver_service :: node_service where
  "driver_service = sample_service\<lparr>svc_tree := open_tree\<rparr>"

lemma open_tree_init: "block_tree_init toy sample_args None = Inr open_tree"
  by (simp add: block_tree_init_def sample_init open_tree_def sample_tree_def Let_def)
    (simp add: sample_genesis_def head_def sample_hashes)

lemma driver_boots: "service_init toy fresh_store (Some alice) False None = Some (Inr driver_service)"
proof -
  obtain raw where "genesis_params fresh_store = Some (Inr raw)" "typed_args raw = Some sample_args"
    using sample_genesis_file [of fresh_store] by (auto simp: fresh_store_def)
  moreover have "iter_blocks toy fresh_store = []"
    by (simp add: iter_blocks_def committed_lines_def fresh_store_def)
  ultimately show ?thesis
    using open_tree_init by (simp add: service_init_def driver_service_def sample_service_def)
qed

lemma driver_nothing_to_vote: "driver_link toy driver_service = None"
proof -
  have "vote_target sample_genesis = None" by code_simp
  then show ?thesis
    by (simp add: driver_link_def Let_def svc_chain_def driver_service_def open_tree_def sample_tree_def split: option.split)
qed

lemma open_block_facts: "known_parent open_tree own_block = Inr ''9f''" "check_frontier open_tree ''5d'' ''9f'' 1 = Some (Inr ())"
  by code_simp+

lemma driver_block_added: "\<exists>t. add_block toy open_tree own_block = Some (t, Inr True) \<and> canonical t = own_chain"
proof -
  have fin: "finalized_checkpoint own_chain = (''9f'', 0)"
    by (simp add: finalized_checkpoint_def own_chain_def sample_genesis_def sample_aux_def)
  show ?thesis
    using open_block_facts own_block_facts(4) own_block_submit [folded own_chain_def]
    by (simp add: add_block_def Let_def own_block_facts(1) validate_on_def store_block_def advance_finality_def fin)
      (simp add: open_tree_def sample_tree_def dhas_def dlookup_def own_block_facts(1) validate_on_def
        insert_block_def store_block_def advance_finality_def fin Let_def)
qed

text \<open>One block, at time 7: the status is written at time 99.\<close>

lemma driver_produces_one:
  "\<exists>t. add_block toy open_tree own_block = Some (t, Inr True) \<and> canonical t = own_chain \<and>
    tick_loop toy 7 (\<lambda>_. 0) [0..<1] 0 driver_service =
      Some (driver_service\<lparr>svc_tree := t, svc_store := append_block toy own_block fresh_store\<rparr>, Inr 1)"
proof -
  obtain t where t: "add_block toy open_tree own_block = Some (t, Inr True)" "canonical t = own_chain"
    using driver_block_added by blast
  have turn: "is_our_turn toy driver_service = Inr True" "svc_validator driver_service = Some alice"
    by (simp_all add: is_our_turn_def driver_service_def open_tree_def sample_service_def svc_chain_def sample_tree_def
        sample_elect sample_addresses)
  have "svc_chain driver_service = svc_chain sample_service" "svc_mempool driver_service = svc_mempool sample_service"
    by (simp_all add: driver_service_def open_tree_def svc_chain_def sample_service_def)
  then have next_own: "next_block toy alice [(''timestamp'', PInt 7)] 7 0 driver_service = Inr own_block"
    using own_block_next by (simp add: next_block_def Let_def)
  have "tree_add_block toy own_block driver_service = Some (driver_service\<lparr>svc_tree := t\<rparr>, Inr True)"
    by (simp add: tree_add_block_def within_def driver_service_def t(1))
  with turn t(2) have "produce_block toy [(''timestamp'', PInt 7)] 7 0 driver_service =
      Some (driver_service\<lparr>svc_tree := t, svc_store := append_block toy own_block fresh_store\<rparr>, Inr (encode_block own_block))"
    using own_block_update [folded own_chain_def]
    by (simp add: produce_block_def mbind_def eval_def next_own store_append_def assign_def return_def pool_update_def
        svc_chain_def) (simp add: driver_service_def sample_service_def return_def)
  then show ?thesis
    using t turn(1) driver_nothing_to_vote
    by (simp add: mbind_def eval_def return_def driver_vote_def)
qed

definition driver_dir :: data_dir where
  "driver_dir = \<lparr>d_store = fresh_store, d_status = None\<rparr>"

lemma own_block_reads: "decode_block toy (encode_block own_block) = Inr own_block" "jsonable toy (encode_block own_block)"
  by (simp add: next_block_decodes [OF own_block_next]) (simp add: encode_block_def own_block_def)

lemma driver_ticks: "\<exists>d'. cmd_tick toy (Some ''2'') 1 7 99 (\<lambda>_. 0) driver_dir = Some (d', Inr 1)"
proof -
  obtain t where t: "add_block toy open_tree own_block = Some (t, Inr True)"
    and loop: "tick_loop toy 7 (\<lambda>_. 0) [0..<1] 0 driver_service =
      Some (driver_service\<lparr>svc_tree := t, svc_store := append_block toy own_block fresh_store\<rparr>, Inr 1)"
    using driver_produces_one by (elim exE conjE)
  let ?st = "append_block toy own_block fresh_store"
  have stored: "block_text ?st = block_lines toy [own_block]"
    by (simp add: block_text_append) (simp add: fresh_store_def block_text_def)
  obtain raw where "genesis_params ?st = Some (Inr raw)" "typed_args raw = Some sample_args"
    using sample_genesis_file [of ?st] by (auto simp: append_block_def fresh_store_def)
  moreover have "iter_blocks toy ?st = [Inr own_block]"
    using iter_block_text [OF sample_float_repr stored] own_block_reads by simp
  ultimately have "\<exists>svc. service_init toy ?st None False None = Some (Inr svc)"
    using open_tree_init t by (simp add: service_init_def)
  then show ?thesis
    using loop
    by (auto simp: cmd_tick_def alice_secret driver_dir_def driver_boots write_status_def Let_def simp del: tick_loop.simps upt_Suc)
qed

section \<open>A launch\<close>

lemma more_addresses: "address toy \<lparr>secret = 5\<rparr> = ''1P6''" "address toy \<lparr>secret = 10000\<rparr> = ''12De''"
proof -
  show "address toy \<lparr>secret = 5\<rparr> = ''1P6''" by code_simp
  have "address toy \<lparr>secret = 10000\<rparr> = address toy \<lparr>secret = 16\<rparr>"
  proof -
    have eq: "(10000 :: byte) = 16" by code_simp
    show ?thesis
      by (simp add: address_def address_from_public_key_def public_key_bytes_def toy_def sha256_def) (simp only: eq)
  qed
  moreover have "address toy \<lparr>secret = 16\<rparr> = ''12De''" by code_simp
  ultimately show "address toy \<lparr>secret = 10000\<rparr> = ''12De''" by simp
qed

text \<open>A key whose random number is drawn at once.\<close>

lemma toy_keystore:
  assumes "from_secret toy (int s) = Inr w"
  shows "\<exists>fs'. gen_keystore toy toy_crypto path ''pw'' ([s], [1, 2], [3]) fs = Some (fs', Inr (address toy w))"
proof -
  have t: "new_secret toy [s] = Some (hex_pad 64 s)" using assms by simp
  obtain bs where bs: "fromhex (hex_pad 64 s) = Some bs" using hex_fromhex new_secret_text [OF t] by blast
  have "int16 (hex_pad 64 s) = Inr (int s)" using new_secret_reads [OF t] by auto
  then show ?thesis
    using assms bs by (simp add: gen_keystore_def t encrypt_secret_def derive_def toy_crypto_def del: new_secret.simps hex_pad.simps)
qed

definition empty_store :: store where
  "empty_store = \<lparr>genesis_file = None, blocks_file = None\<rparr>"

lemma sample_launch:
  "\<exists>fs' d. launch_genesis toy toy_crypto (Some ''pw'') ''k'' ([3], [1, 2], [3]) ([5], [1, 2], [3]) ([2], [1, 2], [3])
     50000 50 500 100 4 (\<lambda>_. None) [empty_store, empty_store] = Some (fs', [d, d], Inr (''1EG'', ''1P6'', ''19r''))"
proof -
  have s: "from_secret toy (int 3) = Inr bob" "from_secret toy (int 5) = Inr \<lparr>secret = 5\<rparr>" "from_secret toy (int 2) = Inr alice"
    by (simp_all add: from_secret_def toy_def alice_def bob_def)
  obtain fs1 where k1: "gen_keystore toy toy_crypto (path_join ''k'' ''market.json'') ''pw'' ([3], [1, 2], [3]) (\<lambda>_. None) =
      Some (fs1, Inr ''1EG'')"
    using toy_keystore [OF s(1)] unfolding sample_addresses by blast
  obtain fs2 where k2: "gen_keystore toy toy_crypto (path_join ''k'' ''treasury.json'') ''pw'' ([5], [1, 2], [3]) fs1 =
      Some (fs2, Inr ''1P6'')"
    using toy_keystore [OF s(2)] unfolding more_addresses by blast
  obtain fs3 where k3: "gen_keystore toy toy_crypto (path_join ''k'' ''founder.json'') ''pw'' ([2], [1, 2], [3]) fs2 =
      Some (fs3, Inr ''19r'')"
    using toy_keystore [OF s(3)] unfolding sample_addresses by blast
  obtain al "is" gr where "build_genesis ''1EG'' ''19r'' 50000 50 500 = Inr (al, is, gr)"
    using build_genesis_total [of "''1EG''" "''19r''" 50000 50 500] by (auto simp: FOUNDER_SUPPLY_def)
  then show ?thesis
    by (simp add: launch_genesis_def k1 k2 k3 write_genesis_def empty_store_def del: json_default.simps)
qed

lemma sample_testnet:
  "\<exists>d. build_testnet toy [alice, bob] 100000 8 200 [empty_store, empty_store, empty_store] = ([d, d, d], Inr ())"
  by (simp add: build_testnet_def from_secret_def toy_def write_genesis_def empty_store_def del: json_default.simps)

lemma sample_node_serve:
  "node_serve toy toy_crypto (\<lambda>_. None) None (Some ''secret'') ''0.0.0.0'' None None None False fresh_store =
     Some (Inr (driver_service\<lparr>svc_validator := None\<rparr>, Some ''secret''))"
proof -
  have "service_init toy fresh_store None False None = Some (Inr (driver_service\<lparr>svc_validator := None\<rparr>))"
    using driver_boots unfolding service_init_replays by (auto simp: driver_service_def sample_service_def)
  then show ?thesis by (simp add: node_serve_def validator_arg_def)
qed

lemma sample_p2p_serve:
  "p2p_serve toy toy_crypto (\<lambda>_. None) None ''a:1'' None (Some ''2'') None None [''b:2''] fresh_store =
     Some (Inr ((peer_init driver_service ''a:1'')\<lparr>p_peers := [(''b'', 2)]\<rparr>))"
proof -
  have "validator_arg toy toy_crypto (\<lambda>_. None) None None (Some ''2'') = Inr (Some alice)"
    by (simp add: validator_arg_def alice_secret)
  moreover have "last_colon ''b:2'' = (''b'', ''2'')" "int10 ''2'' = Inr 2" by code_simp+
  ultimately show ?thesis
    by (simp add: p2p_serve_def driver_boots connect_def assign_def mbind_def return_def peer_init_def)
qed

section \<open>The world of the fuzz gate\<close>

lemma toy_laws: "0 < s \<Longrightarrow> ecdsa_laws toy s"
proof -
  assume "0 < s"
  then obtain n where n: "nat s = Suc n" by (cases "nat s") auto
  have "(1 :: byte) \<noteq> 255" by simp
  then have "replicate (nat s) (1 :: byte) \<noteq> []" "replicate (nat s) (1 :: byte) \<noteq> [255]" by (simp_all add: n)
  then show ?thesis by (simp add: ecdsa_laws_def toy_def SECP256K1_N_def)
qed

definition gate_wallets :: "wallet list" where
  "gate_wallets = map (\<lambda>s. \<lparr>secret = s\<rparr>) [1, 2, 3, 4, 5, 6]"

definition gate_pariah :: wallet where
  "gate_pariah = \<lparr>secret = 100\<rparr>"

lemma toy_address: "address toy \<lparr>secret = s\<rparr> = address toy \<lparr>secret = t\<rparr> \<longleftrightarrow> (of_nat (nat s) :: byte) = of_nat (nat t)"
proof -
  have eq: "address toy \<lparr>secret = s\<rparr> = b58check toy [0, of_nat (nat s)]" for s
    by (simp add: address_def address_from_public_key_def public_key_bytes_def sha256_def toy_def)
  have "b58check toy p = b58check toy q \<Longrightarrow> p @ take 4 (double_sha256 toy p) = q @ take 4 (double_sha256 toy q)" for p q
    unfolding b58check_def Let_def by (rule b58_text_inj)
  from this [of "[0, of_nat (nat s)]" "[0, of_nat (nat t)]"] show ?thesis by (auto simp: eq)
qed

lemma gate_world: "fuzz_world toy gate_wallets gate_pariah"
proof -
  have "distinct (map (address toy) (gate_pariah # gate_wallets))"
    by (simp add: gate_pariah_def gate_wallets_def toy_address)
  moreover have "fuzz_wallets toy = Inr gate_wallets" "fuzz_pariah toy = Inr gate_pariah"
    by (simp_all add: fuzz_wallets_def fuzz_pariah_def from_secret_def gate_wallets_def gate_pariah_def toy_def)
  moreover have "\<forall>w \<in> set (gate_pariah # gate_wallets). ecdsa_laws toy (secret w)"
    by (auto simp: gate_pariah_def gate_wallets_def toy_laws)
  ultimately show ?thesis by (simp add: fuzz_world_def)
qed

section \<open>The world of the finality gate\<close>

text \<open>A hash without collisions: the text itself.\<close>

definition clear :: env where
  "clear = toy\<lparr>hashlib_sha256 := id\<rparr>"

definition clear_cast :: cast where
  "clear_cast = \<lparr>V1 = \<lparr>secret = 1\<rparr>, V2 = \<lparr>secret = 2\<rparr>, V3 = \<lparr>secret = 3\<rparr>, ALICE = \<lparr>secret = 4\<rparr>, TREASURY = \<lparr>secret = 5\<rparr>\<rparr>"

lemma clear_laws: "0 < s \<Longrightarrow> ecdsa_laws clear s"
  using toy_laws [of s] by (simp add: ecdsa_laws_def clear_def)

lemma clear_address:
  assumes "address clear \<lparr>secret = s\<rparr> = address clear \<lparr>secret = t\<rparr>"
  shows "min 20 (nat s) = min 20 (nat t)"
proof -
  have eq: "address clear \<lparr>secret = s\<rparr> = b58check clear (0 # take 20 (replicate (nat s) 1))" for s
    by (simp add: address_def address_from_public_key_def public_key_bytes_def sha256_def clear_def toy_def)
  have "b58check clear p = b58check clear q \<Longrightarrow> p @ take 4 p = q @ take 4 q" for p q
    unfolding b58check_def Let_def using b58_text_inj
    by (fastforce simp: double_sha256_def sha256_def clear_def)
  from this [OF assms [unfolded eq]] have
    "length ((0 :: byte) # take 20 (replicate (nat s) 1) @ take 4 (0 # take 20 (replicate (nat s) 1))) =
     length ((0 :: byte) # take 20 (replicate (nat t) 1) @ take 4 (0 # take 20 (replicate (nat t) 1)))" by simp
  then show ?thesis by (simp add: min_def split: if_splits)
qed

lemma encode_str_inj: "encode_str s = encode_str t \<Longrightarrow> s = t"
proof -
  have "inj (\<lambda>c. of_nat (of_char c) :: byte)"
  proof (rule injI)
    fix c d :: char
    assume "(of_nat (of_char c) :: byte) = of_nat (of_char d)"
    then have "unat (of_nat (of_char c) :: byte) = unat (of_nat (of_char d) :: byte)" by simp
    then have "(of_char c :: nat) = of_char d" by (simp add: unat_of_nat)
    then show "c = d" by simp
  qed
  then show "encode_str s = encode_str t \<Longrightarrow> s = t" unfolding encode_str_def by (rule map_injective [rotated])
qed

lemma clear_hash:
  assumes "hex (sha256 clear (Encoding.canonical clear v)) = hex (sha256 clear (Encoding.canonical clear v'))" "jsonable clear v" "jsonable clear v'"
  shows "in_order True v = in_order True v'"
proof -
  have "Encoding.canonical clear v = Encoding.canonical clear v'"
    using arg_cong [OF assms(1), of fromhex] by (simp add: sha256_def clear_def)
  then have "json_dumps clear v = json_dumps clear v'" unfolding Encoding.canonical_def by (rule encode_str_inj)
  then show ?thesis using json_loads_dumps [OF assms(2)] json_loads_dumps [OF assms(3)] by simp
qed

lemma clear_block_hash:
  assumes "block_hash clear b = block_hash clear b'" "jsonable clear (header b)" "jsonable clear (header b')"
    and "index b = PInt i" "index b' = PInt i'" "timestamp b = PInt t" "timestamp b' = PInt t'"
  shows "i = i' \<and> t = t'"
  using clear_hash [OF assms(1) [unfolded block_hash_def] assms(2,3)] assms(4-)
  by (simp add: header_def sort_key_def)

lemma clear_not_NO_HASH: "block_hash clear b \<noteq> NO_HASH"
proof -
  have "hd (block_hash clear b) = CHR ''7''"
    by (simp add: block_hash_def sha256_def clear_def Encoding.canonical_def header_def encode_str_def hex_byte_def hex_digits_def)
  moreover have "hd NO_HASH = CHR ''f''" by (simp add: NO_HASH_def numeral_eq_Suc)
  ultimately have "hd (block_hash clear b) \<noteq> hd NO_HASH" by simp
  then show ?thesis by auto
qed

lemma sealed_header:
  assumes "sealed E c b"
  shows "jsonable E (header b)" "\<exists>i t. index b = PInt i \<and> timestamp b = PInt t"
proof -
  have "\<exists>i t p r v n. header b = PDict [(''index'', PInt i), (''previous_hash'', PStr p), (''timestamp'', PInt t),
      (''merkle_root'', PStr r), (''validator'', PStr v), (''nonce'', PInt n)]"
    using assms unfolding sealed_def
  proof (elim disjE exE conjE)
    fix g assume g: "make_chain E c = Inr g" "b = head g"
    then obtain base where "blockchain_init E (fst (gate_args E c 2 10)) (PInt GATE_TS) = Inr base" "chain g = chain base"
      by (auto simp: make_chain_def new_chain_def gate_args_def Let_def elim: pos_init_Inr)
    with g(2) show ?thesis
      by (auto simp: header_def blockchain_init_def head_def new_block_def rbind_eq_Inr Let_def split: if_splits)
  qed (auto simp: header_def seal_block_def new_block_def rbind_eq_Inr Let_def)
  then show "jsonable E (header b)" "\<exists>i t. index b = PInt i \<and> timestamp b = PInt t"
    by (auto simp: header_def)
qed

lemma clear_txid:
  assumes "vote_tx clear v s sh t th n 0 k = Inr x" "vote_tx clear w s sh t th n' 0 k' = Inr y" "txid clear x = txid clear y"
  shows "address clear v = address clear w"
proof -
  have "sender x = PStr (address clear v)" "sender y = PStr (address clear w)"
    "jsonable clear (encode_tx x)" "jsonable clear (encode_tx y)"
    using assms(1,2) vote_jsonable by (auto simp: vote_tx_def sign_tx_def new_tx_def rbind_eq_Inr Let_def split: if_splits)
  moreover from this have "in_order True (encode_tx x) = in_order True (encode_tx y)"
    using assms(3) unfolding txid_def encode_tx_def by (intro clear_hash)
  ultimately show ?thesis by (simp add: encode_tx_def sort_key_def del: json_ok.simps)
qed

lemma clear_world: "finality_world clear clear_cast"
proof -
  have "gate_cast clear = Inr clear_cast"
    by (simp add: gate_cast_def from_secret_def clear_cast_def clear_def toy_def)
  moreover have "distinct (map (address clear) [V1 clear_cast, V2 clear_cast, V3 clear_cast, ALICE clear_cast, TREASURY clear_cast])"
    by (auto simp: clear_cast_def dest!: clear_address)
  moreover have "collision_free clear clear_cast"
    unfolding collision_free_def
  proof (intro conjI allI impI)
    fix b b' assume b: "sealed clear clear_cast b" "sealed clear clear_cast b'" "block_hash clear b = block_hash clear b'"
    obtain i t i' t' where ix: "index b = PInt i" "index b' = PInt i'" "timestamp b = PInt t" "timestamp b' = PInt t'"
      using sealed_header(2) [OF b(1)] sealed_header(2) [OF b(2)] by blast
    with clear_block_hash [OF b(3) sealed_header(1) [OF b(1)] sealed_header(1) [OF b(2)] ix]
    show "index b = index b'" "timestamp b = timestamp b'" by simp_all
  qed (use clear_not_NO_HASH clear_txid in blast)+
  ultimately show ?thesis by (simp add: finality_world_def clear_laws clear_cast_def)
qed

end
