(* ===== verification/Justification.thy ===== *)
theory Justification
  imports Finality
begin

text \<open>
  Where finality votes come from: every voter a chain has recorded for a link voted for it in a transaction
  of the chain, the stake a link is measured against is the stake there was before its source, and a block
  justifies a target only from a source that was justified before the block.
\<close>

section \<open>Where a justification comes from\<close>

text \<open>A transaction by which \<open>a\<close> votes for the link from \<open>s\<close> to \<open>t\<close>.\<close>

definition casts_vote :: "env \<Rightarrow> string \<Rightarrow> string \<Rightarrow> string \<Rightarrow> transaction \<Rightarrow> bool" where
  "casts_vote E a s t tx \<longleftrightarrow> sender tx = PStr a \<and> recipient tx = PStr VOTE_SENTINEL \<and>
     (\<exists>d l. load_json E (evidence tx) = Inr d \<and> vote_link ''vote link missing field'' d = Inr l \<and>
        link_s l = PStr s \<and> link_t l = PStr t)"

text \<open>Every recorded voter has voted on the chain.\<close>

definition votes_cast :: "env \<Rightarrow> transaction list \<Rightarrow> pos_aux \<Rightarrow> bool" where
  "votes_cast E txs aux \<longleftrightarrow>
     (\<forall>s t. \<forall>a \<in> set (dget (ffg_votes aux) (s, t) []). list_ex (casts_vote E a s t) txs)"

lemma votes_cast_more: "votes_cast E txs aux \<Longrightarrow> votes_cast E (txs @ txs') aux"
  by (fastforce simp: votes_cast_def)

text \<open>The voter set after one more vote.\<close>

lemma pos_apply_tx_frame:
  assumes "pos_apply_tx E st tx b w = Inr w'" "is_valid E tx = Inr True" "votes_cast E txs (w_aux w)"
  shows "ffg_stake (w_aux w') = ffg_stake (w_aux w)" "ffg_height (w_aux w') = ffg_height (w_aux w)"
    "justified_parent (w_aux w') = justified_parent (w_aux w)" "set (slashed_addrs (w_aux w)) \<subseteq> set (slashed_addrs (w_aux w'))"
    "votes_cast E (txs @ [tx]) (w_aux w')"
proof -
  obtain a where a: "sender tx = PStr a" using is_valid_sender [OF assms(2)] by blast
  show "ffg_stake (w_aux w') = ffg_stake (w_aux w)" "ffg_height (w_aux w') = ffg_height (w_aux w)"
    "justified_parent (w_aux w') = justified_parent (w_aux w)"
    using assms(1) by (cases rule: pos_apply_tx_ffg; simp)+
  show "set (slashed_addrs (w_aux w)) \<subseteq> set (slashed_addrs (w_aux w'))"
    using assms(1)
    by (cases rule: pos_apply_tx_Inr)
      (auto elim!: apply_slash_Inr apply_vote_Inr apply_stake_Inr apply_unstake_Inr base_apply_tx_Inr)
  have other: "votes_cast E (txs @ [tx]) (w_aux w')" if "recipient tx \<noteq> PStr VOTE_SENTINEL"
    using assms(1)
  proof (cases rule: pos_apply_tx_ffg)
    case other
    then have "votes_cast E txs (w_aux w')" using assms(3) by (simp add: votes_cast_def)
    then show ?thesis by (rule votes_cast_more)
  qed (use that in simp)
  show "votes_cast E (txs @ [tx]) (w_aux w')"
    using assms(1)
  proof (cases rule: pos_apply_tx_Inr)
    case vote
    from vote(2) obtain d l v where d: "load_json E (evidence tx) = Inr d" "vote_link ''vote link missing field'' d = Inr l"
      and v: "check_vote st (w_aux w) (the_str (sender tx)) l = Inr v"
      and w': "w_aux w' = record_vote st (the_str (sender tx)) v (w_aux w)"
      by (rule apply_vote_Inr) simp
    from v obtain s sh t th where l: "v = (s, sh, t, th)" "link_s l = PStr s" "link_t l = PStr t"
      by (rule check_vote_Inr) simp
    have "casts_vote E a s t tx" using a vote(1) d l(2,3) by (auto simp: casts_vote_def)
    with assms(3) show ?thesis
      by (auto simp: votes_cast_def w' l(1) a record_vote_votes)
  qed (use other in \<open>simp_all add: image_iff SLASH_SENTINEL_def VOTE_SENTINEL_def STAKE_SENTINEL_def UNSTAKE_SENTINEL_def\<close>)
qed

lemma apply_txs_frame:
  "apply_txs E (pos_hooks E) st b seen w txs = Inr w' \<Longrightarrow> votes_cast E hist (w_aux w) \<Longrightarrow>
   ffg_stake (w_aux w') = ffg_stake (w_aux w) \<and> ffg_height (w_aux w') = ffg_height (w_aux w) \<and>
   justified_parent (w_aux w') = justified_parent (w_aux w) \<and> set (slashed_addrs (w_aux w)) \<subseteq> set (slashed_addrs (w_aux w')) \<and>
   votes_cast E (hist @ txs) (w_aux w')"
proof (induction txs arbitrary: seen w hist)
  case (Cons tx txs)
  then obtain w1 where w1: "is_valid E tx = Inr True" "pos_apply_tx E st tx b w = Inr w1"
    and rest: "apply_txs E (pos_hooks E) st b (txid E tx # seen) w1 txs = Inr w'"
    by (auto simp: rbind_eq_Inr pos_hooks_def split: if_splits)
  note frame = pos_apply_tx_frame [OF w1(2,1) Cons.prems(2)]
  from Cons.IH [OF rest frame(5)] frame(1-4) show ?case by auto
qed simp

text \<open>A target that is justified while a block is applied.\<close>

lemma apply_txs_justifies:
  "apply_txs E (pos_hooks E) st b seen w txs = Inr w' \<Longrightarrow> votes_cast E hist (w_aux w) \<Longrightarrow> snapshots_ok (w_aux w) \<Longrightarrow>
   t \<in> set (justified (w_aux w')) \<Longrightarrow> t \<notin> set (justified (w_aux w)) \<Longrightarrow>
   \<exists>s sh th vs out. s \<in> set (justified_parent (w_aux w)) \<and> sh < th \<and> sh mod epoch st = 0 \<and> th mod epoch st = 0 \<and>
     map_of (ffg_height (w_aux w)) s = Some sh \<and> map_of (ffg_height (w_aux w)) t = Some th \<and>
     dhas (ffg_stake (w_aux w)) s \<and> distinct vs \<and> list_all (\<lambda>a. list_ex (casts_vote E a s t) (hist @ txs)) vs \<and>
     set (slashed_addrs (w_aux w)) \<subseteq> set out \<and> set out \<subseteq> set (slashed_addrs (w_aux w')) \<and>
     supermajority (dget (ffg_stake (w_aux w)) s []) out vs"
proof (induction txs arbitrary: seen w hist)
  case (Cons tx txs)
  then obtain w1 where w1: "is_valid E tx = Inr True" "pos_apply_tx E st tx b w = Inr w1"
    and rest: "apply_txs E (pos_hooks E) st b (txid E tx # seen) w1 txs = Inr w'"
    by (auto simp: rbind_eq_Inr pos_hooks_def split: if_splits)
  note frame = pos_apply_tx_frame [OF w1(2,1) Cons.prems(2)]
  have snap: "snapshots_ok (w_aux w1)" using apply_txs_snapshots [of E st b _ w "[tx]" w1] Cons.prems(1,3) w1
    by (auto simp: pos_hooks_def split: if_splits)
  show ?case
  proof (cases "t \<in> set (justified (w_aux w1))")
    case False
    from Cons.IH [OF rest frame(5) snap Cons.prems(4) False, unfolded frame(1-3) append_assoc append_Cons append_Nil]
    show ?thesis
      by (elim exE conjE) (intro exI conjI; (assumption | erule subset_trans [OF frame(4)]))
  next
    case True
    note later = apply_txs_frame [OF rest frame(5)]
    from w1(2) show ?thesis
    proof (cases rule: pos_apply_tx_ffg)
      case (vote l v)
      from vote(2) obtain s sh t' th where v: "v = (s, sh, t', th)"
        and s: "s \<in> set (justified_parent (w_aux w))" "sh < th" "sh mod epoch st = 0" "th mod epoch st = 0"
          "map_of (ffg_height (w_aux w)) s = Some sh" "map_of (ffg_height (w_aux w)) t' = Some th" "dhas (ffg_stake (w_aux w)) s"
        by (rule check_vote_Inr)
      let ?vs = "dget (ffg_votes (w_aux w1)) (s, t') []"
      have t': "t' = t" and sup: "supermajority (dget (ffg_stake (w_aux w)) s []) (slashed_addrs (w_aux w)) ?vs"
        using record_vote_cases [of st "the_str (sender tx)" s sh t' th "w_aux w"] True Cons.prems(5)
        by (auto simp: vote(3) v record_vote_votes)
      have "distinct ?vs" using snap by (simp add: snapshots_ok_def)
      moreover have "list_all (\<lambda>a. list_ex (casts_vote E a s t) (hist @ tx # txs)) ?vs"
        using frame(5) by (auto simp: votes_cast_def t' list_all_iff)
      moreover have "set (slashed_addrs (w_aux w)) \<subseteq> set (slashed_addrs (w_aux w'))" using frame(4) later by blast
      ultimately show ?thesis
        using s sup unfolding t'
        by (intro exI [of _ s] exI [of _ sh] exI [of _ th] exI [of _ ?vs] exI [of _ "slashed_addrs (w_aux w)"]) (simp add: t')
    qed (use True Cons.prems(5) in simp)
  qed
qed simp

section \<open>Snapshots are the stakes before the checkpoint\<close>

definition snapshot_from :: "env \<Rightarrow> pos_chain \<Rightarrow> pos_chain \<Rightarrow> string \<Rightarrow> stake_map \<Rightarrow> bool" where
  "snapshot_from E g st h m \<longleftrightarrow> (\<exists>s0 n. reaches E (pos_hooks E) g s0 \<and> reaches E (pos_hooks E) s0 st \<and>
     m = stakes (pos s0) \<and> map_of (ffg_height (pos st)) h = Some n \<and> int (length (chain s0)) = max 1 n)"

lemma pre_vote_state:
  assumes "pos_apply_block_pre E st b (start_work (pos_hooks E) st) = Inr w1"
  shows "justified_parent (w_aux w1) = justified (pos st)" "justified (w_aux w1) = justified (pos st)"
    "ffg_votes (w_aux w1) = ffg_votes (pos st)" "slashed_addrs (w_aux w1) = slashed_addrs (pos st)"
    "ffg_stake (w_aux w1) = (if the_int (index b) mod epoch st = 0
       then AList.update (block_hash E b) (stakes (pos st)) (ffg_stake (pos st)) else ffg_stake (pos st))"
    "ffg_height (w_aux w1) = (if the_int (index b) mod epoch st = 0
       then AList.update (block_hash E b) (the_int (index b)) (ffg_height (pos st)) else ffg_height (pos st))"
  using assms by (auto simp: pos_apply_block_pre_def Let_def start_work_def pos_hooks_def pos_snapshot_aux_def split: prod.splits if_splits)

lemma reachable_votes_cast: "pos_reachable E g st \<Longrightarrow> votes_cast E (history st) (pos st)"
proof (induction rule: pos_reachable_induct)
  case (genesis al "is" ts gr ub tr ep)
  then obtain stk b where "pos g = \<lparr>stakes = stk, unbonding = [], slashed = [], slashed_addrs = [],
               ffg_stake = [(block_hash E b, stk)], ffg_height = [(block_hash E b, 0)],
               ffg_votes = [], ffg_seen_target = [], justified = [block_hash E b],
               justified_parent = [], finalized = (block_hash E b, 0)\<rparr>"
    by (rule pos_init_Inr)
  then show ?case by (simp add: votes_cast_def)
next
  case (step st b st')
  from step(2) obtain w1 w2 where
    w1: "pos_apply_block_pre E st b (start_work (pos_hooks E) st) = Inr w1"
    and w2: "apply_txs E (pos_hooks E) st b [] w1 (transactions b) = Inr w2"
    and st': "st' = st\<lparr>balances := w_balances w2, nonces := w_nonces w2, chain := chain st @ [b],
              pos := (w_aux w2)\<lparr>justified_parent := []\<rparr>\<rparr>"
    by (rule pos_submit_Inr)
  have "votes_cast E (history st) (w_aux w1)" using step(3) pre_vote_state(3) [OF w1] by (simp add: votes_cast_def)
  from apply_txs_frame [OF w2 this] show ?case by (simp add: st' votes_cast_def history_def)
qed

lemma reachable_snapshot_from:
  "pos_reachable E g st \<Longrightarrow> map_of (ffg_stake (pos st)) h = Some m \<Longrightarrow> snapshot_from E g st h m"
proof (induction arbitrary: h m rule: pos_reachable_induct)
  case (genesis al "is" ts gr ub tr ep)
  from genesis(1) obtain stk b where "chain g = [b]" "pos g = \<lparr>stakes = stk, unbonding = [], slashed = [], slashed_addrs = [],
               ffg_stake = [(block_hash E b, stk)], ffg_height = [(block_hash E b, 0)],
               ffg_votes = [], ffg_seen_target = [], justified = [block_hash E b],
               justified_parent = [], finalized = (block_hash E b, 0)\<rparr>"
    by (rule pos_init_Inr) simp
  with genesis(2) show ?case
    by (auto simp: snapshot_from_def reaches_start intro!: exI [of _ g] split: if_splits)
next
  case (step st b st')
  from step(2) obtain w1 w2 where
    w1: "pos_apply_block_pre E st b (start_work (pos_hooks E) st) = Inr w1"
    and w2: "apply_txs E (pos_hooks E) st b [] w1 (transactions b) = Inr w2"
    and st': "st' = st\<lparr>balances := w_balances w2, nonces := w_nonces w2, chain := chain st @ [b],
              pos := (w_aux w2)\<lparr>justified_parent := []\<rparr>\<rparr>"
    by (rule pos_submit_Inr)
  note pre = pre_vote_state [OF w1]
  have "votes_cast E (history st) (w_aux w1)" using reachable_votes_cast [OF step(1)] pre(3) by (simp add: votes_cast_def)
  then have same: "ffg_stake (pos st') = ffg_stake (w_aux w1)" "ffg_height (pos st') = ffg_height (w_aux w1)"
    using apply_txs_frame [OF w2] by (simp_all add: st')
  note heights = submit_block_heights [OF step(2) reachable_heights [OF step(1)]]
  obtain g0: "reaches E (pos_hooks E) g st" using step(1) by (auto simp: pos_reachable_def)
  have on: "reaches E (pos_hooks E) s0 st'" if "reaches E (pos_hooks E) s0 st" for s0 by (rule reaches_step [OF that step(2)])
  show ?case
  proof (cases "the_int (index b) mod epoch st = 0 \<and> h = block_hash E b")
    case True
    then have "m = stakes (pos st)" "map_of (ffg_height (pos st')) h = Some (the_int (index b))"
      using step(4) pre(5,6) by (auto simp: same update_conv')
    moreover have "int (length (chain st)) = max 1 (the_int (index b))"
      using heights(2) reachable_heights [OF step(1)] by (auto simp: heights_ok_def Suc_le_eq)
    ultimately show ?thesis using g0 on [OF reaches_start] by (auto simp: snapshot_from_def)
  next
    case False
    then have "map_of (ffg_stake (pos st)) h = Some m" "map_of (ffg_height (pos st')) h = map_of (ffg_height (pos st)) h"
      using step(4) pre(5,6) by (auto simp: same update_conv' split: if_splits)
    with step(3) on show ?thesis unfolding snapshot_from_def by fastforce
  qed
qed

text \<open>The block rule, with the snapshot and the voters traced to where they come from.\<close>

theorem block_justifies:
  assumes reach: "pos_reachable E g st" and sub: "submit_block E (pos_hooks E) st b = Inr st'"
    and new: "is_justified st' t" "\<not> is_justified st t"
  obtains s sh th s0 vs out where "is_justified st s" "sh < th" "sh mod epoch st = 0" "th mod epoch st = 0"
    "on_chain E (chain st') s sh" "on_chain E (chain st') t th"
    "reaches E (pos_hooks E) g s0" "reaches E (pos_hooks E) s0 st'" "int (length (chain s0)) = max 1 sh"
    "distinct vs" "\<And>a. a \<in> set vs \<Longrightarrow> \<exists>tx \<in> set (history st'). casts_vote E a s t tx"
    "set (slashed_addrs (pos st)) \<subseteq> set out" "set out \<subseteq> set (slashed_addrs (pos st'))"
    "supermajority (stakes (pos s0)) out vs"
proof -
  from sub obtain w1 w2 where
    w1: "pos_apply_block_pre E st b (start_work (pos_hooks E) st) = Inr w1"
    and w2: "apply_txs E (pos_hooks E) st b [] w1 (transactions b) = Inr w2"
    and st': "st' = st\<lparr>balances := w_balances w2, nonces := w_nonces w2, chain := chain st @ [b],
              pos := (w_aux w2)\<lparr>justified_parent := []\<rparr>\<rparr>"
    by (rule pos_submit_Inr)
  have reach': "pos_reachable E g st'" by (rule pos_reachable_step [OF reach sub])
  note pre = pre_vote_state [OF w1]
  have cast: "votes_cast E (history st) (w_aux w1)" using reachable_votes_cast [OF reach] pre(3) by (simp add: votes_cast_def)
  have "wf_dict (stakes (pos st))" "dall (\<lambda>v. 0 < v) (stakes (pos st))"
    using reachable_inv [OF reach] by (simp_all add: pos_inv_def)
  with reachable_snapshots [OF reach] have snap: "snapshots_ok (w_aux w1)"
    by (auto simp: snapshots_ok_def pre update_conv' split: if_splits)
  from apply_txs_justifies [OF w2 cast snap, of t] new obtain s sh th vs out where
    s: "s \<in> set (justified (pos st))" "sh < th" "sh mod epoch st = 0" "th mod epoch st = 0"
      "map_of (ffg_height (w_aux w1)) s = Some sh" "map_of (ffg_height (w_aux w1)) t = Some th" "dhas (ffg_stake (w_aux w1)) s"
    and vs: "distinct vs" "list_all (\<lambda>a. list_ex (casts_vote E a s t) (history st @ transactions b)) vs"
      "set (slashed_addrs (pos st)) \<subseteq> set out" "set out \<subseteq> set (slashed_addrs (pos st'))"
      "supermajority (dget (ffg_stake (w_aux w1)) s []) out vs"
    by (auto simp: st' is_justified_def pre)
  have same: "ffg_stake (pos st') = ffg_stake (w_aux w1)" "ffg_height (pos st') = ffg_height (w_aux w1)"
    using apply_txs_frame [OF w2 cast] by (simp_all add: st')
  obtain m where m: "map_of (ffg_stake (pos st')) s = Some m" using s(7) same by (auto simp: dhas_iff_map_of)
  with reachable_snapshot_from [OF reach' this] s(5) obtain s0 where
    s0: "reaches E (pos_hooks E) g s0" "reaches E (pos_hooks E) s0 st'" "m = stakes (pos s0)" "int (length (chain s0)) = max 1 sh"
    by (auto simp: snapshot_from_def same)
  have "on_chain E (chain st') s sh" "on_chain E (chain st') t th"
    using reachable_ffg [OF reach'] s(5,6) by (auto simp: ffg_inv_def same)
  moreover have "supermajority (stakes (pos s0)) out vs" using vs(5) m s0(3) same by (simp add: dget_map_of)
  moreover have "\<exists>tx \<in> set (history st'). casts_vote E a s t tx" if "a \<in> set vs" for a
    using vs(2) that by (auto simp: list_all_iff list_ex_iff st' history_def)
  ultimately show ?thesis
    by (intro that [of s sh th s0 vs out]) (use s s0 vs in \<open>simp_all add: is_justified_def\<close>)
qed

text \<open>Two thirds, in plain numbers.\<close>

lemma supermajority_sums:
  assumes "wf_dict m" "dall (\<lambda>v. 0 < v) m" "distinct vs" "supermajority m out vs"
  shows "0 < (\<Sum>a \<in> {a. 0 < dget m a 0} - set out. dget m a 0)"
    "2 * (\<Sum>a \<in> {a. 0 < dget m a 0} - set out. dget m a 0) \<le> 3 * (\<Sum>a \<in> set vs - set out. dget m a 0)"
proof -
  have pos: "0 < dget m a 0 \<longleftrightarrow> dhas m a" for a
    using assms(2) by (cases "map_of m a") (auto simp: dall_def list_all_iff dget_map_of dhas_iff_map_of dest!: map_of_SomeD bspec)
  have "quorum_stake m out = (\<Sum>a \<in> {a. dhas m a \<and> a \<notin> set out}. dget m a 0)"
    unfolding quorum_stake_sum [OF assms(1,2)] of_nat_sum using pos by (intro sum.cong) (auto intro: less_imp_le)
  moreover have "{a. dhas m a \<and> a \<notin> set out} = {a. 0 < dget m a 0} - set out" using pos by auto
  moreover have "voted_stake m out vs = (\<Sum>a \<in> set vs - set out. dget m a 0)"
    using assms(3) by (simp add: voted_stake_def sum_list_distinct_conv_sum_set set_diff_eq)
  ultimately show "0 < (\<Sum>a \<in> {a. 0 < dget m a 0} - set out. dget m a 0)"
    "2 * (\<Sum>a \<in> {a. 0 < dget m a 0} - set out. dget m a 0) \<le> 3 * (\<Sum>a \<in> set vs - set out. dget m a 0)"
    using assms(4) by (simp_all add: supermajority_def FFG_NUM_def FFG_DEN_def)
qed

end
