(* ===== verification/Spending.thy ===== *)
theory Spending
  imports Stake_Rules Signing
begin

text \<open>
  The estimate \<open>_cost\<close> of \<open>mempool.py\<close> against the ledger of \<open>consensus.py\<close>: for every kind of transaction
  the chain applies, its sender keeps at least what the estimate leaves, and exactly that when nothing in
  the block pays it. So what the pool selects is covered by the balances the chain has at that point.
\<close>

section \<open>What a transaction takes from its sender\<close>

text \<open>Nobody else loses coins, the sender loses no more than estimated, and no less if nothing is paid to it.\<close>

lemma cost_effect:
  assumes "pos_apply_tx E st tx b w = Inr w'" "is_valid E tx = Inr True" "pos_winv w"
  defines "c \<equiv> cost tx (unbonding_blocks st)"
  shows "fst c \<le> dget (w_balances w) (sender tx) 0 \<and>
    dget (w_balances w) a 0 + (if a = sender tx then snd c else 0) \<le> dget (w_balances w') a 0 \<and>
    (recipient tx \<noteq> PStr SLASH_SENTINEL \<longrightarrow> hash_key (validator b) \<noteq> Inr a \<longrightarrow> hash_key (recipient tx) \<noteq> Inr a \<longrightarrow>
       dget (w_balances w') a 0 = dget (w_balances w) a 0 + (if a = sender tx then snd c else 0))"
proof -
  note fee = is_valid_nonneg [OF assms(2)]
  note sentinels = SLASH_SENTINEL_def VOTE_SENTINEL_def STAKE_SENTINEL_def UNSTAKE_SENTINEL_def
  from assms(1) show ?thesis
  proof (cases rule: pos_apply_tx_Inr)
    case slash
    from slash(2) obtain t off x bal bal3 ben where
      x: "map_of (w_balances w) (sender tx) = Some x" "tx_fee tx \<le> x"
      and bal: "credit_validator b (tx_fee tx) (AList.update (sender tx) (x - tx_fee tx) (w_balances w)) = Inr bal"
      and bal3: "bal3 = AList.update ben (dget bal ben 0 + reporter_cut (bonded (w_aux w) (the_str off))) bal"
      and w': "w_balances w' = AList.update (PStr t) (dget bal3 (PStr t) 0 +
                (bonded (w_aux w) (the_str off) - reporter_cut (bonded (w_aux w) (the_str off)))) bal3"
      by (rule apply_slash_Inr) simp
    note cut = reporter_cut_bounds [OF bonded_nonneg [OF assms(3)], of "the_str off"]
    show ?thesis
      by (rule pay_balance [OF bal x(1)]) (use cut fee x slash(1) in \<open>simp add: w' bal3 c_def cost_def dget_map_of\<close>)
  next
    case vote
    from vote(2) obtain x bal where x: "map_of (w_balances w) (sender tx) = Some x" "tx_fee tx \<le> x"
      and bal: "credit_validator b (tx_fee tx) (AList.update (sender tx) (x - tx_fee tx) (w_balances w)) = Inr bal"
      and w': "w_balances w' = bal"
      by (rule apply_vote_Inr) simp
    show ?thesis
      by (rule pay_balance [OF bal x(1)]) (use fee x vote(1) in \<open>auto simp: w' c_def cost_def dget_map_of\<close>)
  next
    case stake
    from stake(2) obtain x bal where x: "map_of (w_balances w) (sender tx) = Some x" "tx_amount tx + tx_fee tx \<le> x"
      and bal: "credit_validator b (tx_fee tx) (AList.update (sender tx) (x - (tx_amount tx + tx_fee tx)) (w_balances w)) = Inr bal"
      and w': "w_balances w' = bal"
      by (rule apply_stake_Inr) simp
    show ?thesis
      by (rule pay_balance [OF bal x(1)]) (use fee x stake(1) in \<open>auto simp: w' c_def cost_def dget_map_of sentinels\<close>)
  next
    case unstake
    from unstake(2) obtain x bal where x: "map_of (w_balances w) (sender tx) = Some x" "tx_fee tx \<le> x"
      and bal: "credit_validator b (tx_fee tx)
         (AList.update (sender tx) (x - (tx_fee tx - (if 0 < unbonding_blocks st then 0 else tx_amount tx))) (w_balances w)) = Inr bal"
      and w': "w_balances w' = bal"
      by (rule apply_unstake_Inr) simp
    show ?thesis
      by (rule pay_balance [OF bal x(1)]) (use fee x unstake(1) in \<open>auto simp: w' c_def cost_def dget_map_of sentinels\<close>)
  next
    case transfer
    from transfer(2) obtain r v bal1 bal2 where
      bal: "tx_amount tx + tx_fee tx \<le> dget (w_balances w) (sender tx) 0" "hash_key (recipient tx) = Inr r" "hash_key (validator b) = Inr v"
        "bal1 = AList.update (sender tx) (dget (w_balances w) (sender tx) 0 - (tx_amount tx + tx_fee tx)) (w_balances w)"
        "bal2 = AList.update r (dget bal1 r 0 + tx_amount tx) bal1" "w_balances w' = AList.update v (dget bal2 v 0 + tx_fee tx) bal2"
      by (rule base_apply_tx_Inr) simp
    show ?thesis
      using transfer(1) fee by (auto simp: bal c_def cost_def)
  qed
qed

section \<open>A schedule against the chain\<close>

lemma schedule_covers:
  "apply_txs E (pos_hooks E) st b seen w pre = Inr w' \<Longrightarrow> schedule_ok (unbonding_blocks st) bal non (pre @ tx # post) \<Longrightarrow>
   (\<And>a. non a = dget (w_nonces w) a 0) \<Longrightarrow> (\<And>a. bal a \<le> dget (w_balances w) a 0) \<Longrightarrow> pos_winv w \<Longrightarrow>
   tx_nonce tx = dget (w_nonces w') (sender tx) 0 \<and> fst (cost tx (unbonding_blocks st)) \<le> dget (w_balances w') (sender tx) 0"
proof (induction pre arbitrary: seen w bal non)
  case Nil
  have "fst (cost tx (unbonding_blocks st)) \<le> bal (sender tx)" using Nil.prems(2) by simp
  with Nil.prems order_trans [OF this Nil.prems(4)] show ?case by simp
next
  case (Cons t ts)
  let ?bal = "bal(sender t := bal (sender t) + snd (cost t (unbonding_blocks st)))"
  let ?non = "non(sender t := non (sender t) + 1)"
  from Cons.prems(1) obtain w1 where w1: "is_valid E t = Inr True" "pos_apply_tx E st t b w = Inr w1"
    and rest: "apply_txs E (pos_hooks E) st b (txid E t # seen) w1 ts = Inr w'"
    by (auto simp: rbind_eq_Inr pos_hooks_def split: if_splits)
  show ?case
  proof (rule Cons.IH [OF rest])
    show "schedule_ok (unbonding_blocks st) ?bal ?non (ts @ tx # post)" using Cons.prems(2) by simp
    show "?non a = dget (w_nonces w1) a 0" for a
      using Cons.prems(2,3) by (simp add: pos_apply_tx_nonces [OF w1(2)])
    show "?bal a \<le> dget (w_balances w1) a 0" for a
      using cost_effect [OF w1(2,1) Cons.prems(5), of a] Cons.prems(4) [of a] by auto
    show "pos_winv w1" using pos_apply_tx_keeps [OF w1(2) Cons.prems(5) w1(1)] by simp
  qed
qed

lemma selected_covered:
  assumes "pos_inv st" "select m st (unbonding_blocks st) k = pre @ tx # post"
    and "pos_apply_block_pre E st b (start_work (pos_hooks E) st) = Inr w1"
    and "apply_txs E (pos_hooks E) st b [] w1 pre = Inr w"
  shows "tx_nonce tx = dget (w_nonces w) (sender tx) 0" "fst (cost tx (unbonding_blocks st)) \<le> dget (w_balances w) (sender tx) 0"
  using schedule_covers [OF assms(4) select_schedule [of "unbonding_blocks st" st m k, unfolded assms(2)]]
    pre_start [OF assms(1,3)] by simp_all

end
