(* ===== verification/Spec2Isabelle.thy ===== *)
theory Spec2Isabelle
  imports Client_Samples Justification Spending
begin

text \<open>
  A model of the Mindees proof-of-stake blockchain (a Python program) and what makes it correct.

  The program. A node keeps a \<^bold>\<open>chain\<close>: blocks, balances, nonces and, in the proof-of-stake
  layer, stakes, unbonding coins, votes and finality. A block is checked against the state of its
  parent (\<open>core.Blockchain._apply\<close> with the hooks of \<open>consensus.ProofOfStakeChain\<close>) and applied to
  copies that are committed at the end. The \<^bold>\<open>block tree\<close> keeps every accepted block, picks the
  heaviest branch that contains the finalized block, and rebuilds the canonical chain by replaying.
  The \<^bold>\<open>mempool\<close> collects signed transactions and selects what the next block takes. The \<^bold>\<open>store\<close>
  keeps the genesis arguments and the blocks as JSON text. Blocks and transactions travel as JSON.

  Theories, and the files under \<open>src/\<close> they model.
  \<^item> \<open>Py_Values\<close>: values, exceptions as values, dictionaries in insertion order. No file: the part
    of Python the sources use.
  \<^item> \<open>Encoding\<close>: the helpers of \<open>core.py\<close> (\<open>sha256\<close>, \<open>canonical\<close>, \<open>b58check\<close>), hexadecimal text, and
    the record \<open>env\<close> of what is not code of the repository.
  \<^item> \<open>Json\<close>: the scanner of Python's \<open>json\<close> package, and that what \<open>json.dumps\<close> prints reads back.
  \<^item> \<open>Vesting\<close>: \<open>vesting.py\<close>.
  \<^item> \<open>Core\<close>: \<open>core.py\<close>, with the method hooks of \<open>Blockchain\<close> as a record of functions.
  \<^item> \<open>Wire\<close>: the codec of \<open>network.py\<close>.
  \<^item> \<open>Consensus\<close>: \<open>consensus.py\<close>, definitions only.
  \<^item> \<open>Ledger\<close>: the contract of the hooks (locale \<open>ledger_hooks\<close>) and what \<open>_apply\<close> guarantees for
    every chain that keeps it; interpreted for the base chain here and for the proof-of-stake chain
    in \<open>Stake_Ledger\<close>.
  \<^item> \<open>Genesis\<close>: the constructors, the reachable chains (\<open>pos_reachable\<close>) and their invariant.
  \<^item> \<open>Election\<close>, \<open>Stake_Rules\<close>, \<open>Finality\<close>: lemmas on the election, on slashing, unbonding and
    vesting, and on votes; the locale \<open>weighted_quorum\<close> is interpreted on the vote snapshots.
  \<^item> \<open>Tokenomics\<close>: \<open>tokenomics.build_genesis\<close>.
  \<^item> \<open>Mempool\<close>: \<open>mempool.py\<close>.
  \<^item> \<open>Fork_Choice\<close>: \<open>forkchoice.py\<close>.
  \<^item> \<open>Storage\<close>: \<open>storage.py\<close>.
  \<^item> \<open>Signing\<close>: the laws asked of the signature scheme, and that honest transactions and blocks pass.
  \<^item> \<open>Procedures\<close>: methods that change their object and may raise, and the contracts they are proved
    to keep (locale \<open>contract\<close>, interpreted for the services, the peers and the driver).
  \<^item> \<open>Node_Service\<close>: \<open>node.py\<close>, the service and its JSON-RPC handler.
  \<^item> \<open>Peer_Node\<close>: \<open>p2p.py\<close>, and \<open>tcp_send\<close> of \<open>network.py\<close>; \<open>Peer_Rules\<close>, \<open>Auto_Vote\<close>: lemmas on relaying,
    on buffered blocks and on the votes a node casts.
  \<^item> \<open>Messages\<close>: the bytes of a message, and that both readers of lines get what was sent.
  \<^item> \<open>Tree_Runs\<close>: a block tree over many blocks; \<open>Node_Runs\<close>: the runs of a whole node, as a step
    relation over everything peers, clients and timers can make it do; \<open>Restart\<close>: what a store holds
    after a run and what booting on it gives.
  \<^item> \<open>Gossip\<close>: \<open>network.Node\<close>, nodes that call their peers directly, and its line reader; \<open>Gossip_Rules\<close>:
    messages flood the mesh and joiners catch up. The locale \<open>flooding\<close> holds what transactions and
    blocks share.
  \<^item> \<open>Keystore\<close>: \<open>keystore.py\<close>; \<open>Wallet_Client\<close>: \<open>wallet.py\<close> and \<open>rpc_call\<close> of \<open>node.py\<close>, against the handler of
    \<open>Node_Service\<close>; \<open>Chain_Driver\<close>: \<open>gh_chain.py\<close>, its cycles proved sound with a contract of their own
    (locale \<open>contract\<close> again); \<open>Commands\<close>: what the command lines of \<open>node.py\<close>, \<open>p2p.py\<close> and
    \<open>tokenomics.py\<close> do with parsed arguments, and the genesis files of the launch scripts.
  \<^item> \<open>Dict_Order\<close>: two chains that differ only in the order of their dictionaries accept the same blocks
    and stay so; the store writes its keys in order, so this is what loading gives.
  \<^item> \<open>Fuzz\<close>: the gate \<open>fuzz.py\<close>, and that it passes whatever its generator draws.
  \<^item> \<open>Justification\<close>: where the votes behind a justified checkpoint come from, and when the stake they are
    measured against was there; \<open>Spending\<close>: the estimate \<open>_cost\<close> of \<open>mempool.py\<close> against what the ledger takes.
  \<^item> \<open>Vote_Live\<close>: honest votes pass; \<open>Finality_Gates\<close>, \<open>Tree_Gates\<close>: the gates \<open>finality.py\<close> on a chain and on
    a block tree, and that they pass.
  \<^item> \<open>Samples\<close>, \<open>Node_Samples\<close>, \<open>Client_Samples\<close>: concrete states over a toy environment, for the witnesses.

  Correspondence. A class is a record, a method a definition that takes the record and returns it
  changed; an exception is \<open>Inl\<close> of a \<open>perror\<close>. A field of a transaction or block is a \<open>pyval\<close>, for
  the decoders do not check types; the \<open>TypeError\<close>s and \<open>KeyError\<close>s that follow are in the model.
  A \<open>dict\<close> is an association list, a \<open>set\<close> a list. Integers are unbounded, as in Python; bytes are
  \<open>8 word\<close> lists. Block hashes and addresses are computed, not postulated.

  Fuel. The walks up the block tree get one unit more than the number of its blocks; on every tree
  that \<open>add_block\<close> built this is enough (\<open>tree_add_total_atomic\<close>). The scanner gets two units for each character
  (\<open>scan_fuel\<close>: more changes nothing). Gossip (\<open>recv_tx\<close>, \<open>recv_block\<close>) gets one
  unit more than the mesh has nodes, for a node relays a message once (\<open>recv_tx_total\<close>,
  \<open>recv_block_total\<close>). Every other loop is
  structural or has a termination proof.

  Parameters. \<open>env\<close> stands for SHA-256, the \<open>cryptography\<close> package, and the reading and printing of
  floats, and for the recursion limit of the interpreter; \<open>crypto\<close> for scrypt and AES-GCM. Laws of these are hypotheses where a property needs them: a
  digest of 32 bytes, \<open>ecdsa_laws\<close>, decryption under the same key, floats printed on one line and read as printed,
  and for the finality gates that the hashes they take do not collide (\<open>collision_free\<close>).

  Not modelled. Characters have eight bits; the limit Python sets on the digits of an integer it
  converts is left out. \<open>None\<close> of \<open>load\<close> covers genesis arguments of other types
  than the constructor declares. The memory of the interpreter, file-system
  failures and threads are left out.
  The recursion limit of the interpreter is modelled where a peer can reach it: the brackets of a line from
  the network (\<open>json_within\<close>) and the nested calls of \<open>_drain_orphans\<close> (\<open>drain_loop\<close>), which raise
  \<open>RecursionError\<close> when the room \<open>env\<close> gives them is used up. Elsewhere it is left out.
  A method of the node runs as one step: the interleaving of server threads inside a call is left
  out, and so are sockets, HTTP framing and the texts of error messages. Of the command lines, what parses
  arguments and prints is left out; so are the processes that the launch scripts start, and the
  self-tests (\<open>_demo\<close>).
\<close>

section \<open>Money\<close>

text \<open>C1: On every chain built by the constructor and extended by accepted blocks, the liquid,
  staked and unbonding coins sum to exactly the supply cap.\<close>

theorem supply_conserved:
  "pos_reachable E g st \<Longrightarrow> pos_total_supply st = MAX_SUPPLY_UNITS"
  using reachable_inv by blast

theorem supply_conserved_witness:
  "pos_total_supply sample_chain = MAX_SUPPLY_UNITS"
  by (rule supply_conserved [OF sample_reachable])

text \<open>No coin is created or lost even without the run-time check: on a reachable chain the
  supply check never rejects a block that the rest of the rules accepts.\<close>

theorem supply_check_never_fires:
  "pos_reachable E g st \<Longrightarrow>
   apply_block E (pos_hooks E) st b = apply_block E ((pos_hooks E)\<lparr>check_supply := \<lambda>_. Inr ()\<rparr>) st b"
  using reachable_inv [of E g st]
  by (intro pos.supply_check_redundant) (simp_all add: pos_winv_start pos_wtotal_start)

theorem supply_check_never_fires_witness:
  "apply_block toy (pos_hooks toy) sample_chain sample_block =
   apply_block toy ((pos_hooks toy)\<lparr>check_supply := \<lambda>_. Inr ()\<rparr>) sample_chain sample_block"
  by (rule supply_check_never_fires [OF sample_reachable])

text \<open>C2: On a reachable chain no balance is negative or above the cap, nobody has negative coins
  unbonding, and every recorded stake is positive.\<close>

theorem ledger_bounds:
  assumes "pos_reachable E g st"
  shows "0 \<le> balance_of st x \<and> balance_of st x \<le> MAX_SUPPLY_UNITS \<and> 0 \<le> unbonding_of st a \<and>
    dall (\<lambda>s. 0 < s) (stakes (pos st))"
proof -
  have inv: "pos_inv st" and tot: "pos_total_supply st = MAX_SUPPLY_UNITS"
    using reachable_inv [OF assms] by simp_all
  then have nonneg: "dall (\<lambda>v. 0 \<le> v) (balances st)" "dall (\<lambda>v. 0 \<le> v) (stakes (pos st))"
      "0 \<le> unbonding_grand_total (unbonding (pos st))"
    by (auto simp: pos_inv_def dall_def list_all_iff less_imp_le grand_total_nonneg)
  from dget_le_dsum [OF nonneg(1), of x] dall_dget [OF nonneg(1), of 0 x] dsum_nonneg [OF nonneg(2)]
    nonneg(3) tot inv unbonding_total_nonneg [of "unbonding (pos st)" a]
  show ?thesis
    by (simp add: balance_of_def pos_total_supply_def unbonding_of_def pos_inv_def)
qed

theorem ledger_bounds_witness:
  "0 \<le> balance_of sample_chain (PStr ''19r'') \<and> balance_of sample_chain (PStr ''19r'') \<le> MAX_SUPPLY_UNITS \<and>
   0 \<le> unbonding_of sample_chain ''19r'' \<and> dall (\<lambda>s. 0 < s) (stakes (pos sample_chain))"
  by (rule ledger_bounds [OF sample_reachable])

text \<open>C3: No replay. The transactions of one sender on a chain carry the nonces 0, 1, 2, ... in
  order, up to the nonce the ledger expects next, so no signed transaction is ever applied twice.\<close>

theorem no_replay:
  assumes "pos_reachable E g st"
  shows "sender_nonces a (history st) = [0 .. dget (nonces st) a 0 - 1] \<and>
    distinct (map (\<lambda>tx. (sender tx, the_int (nonce tx))) (history st))"
  using reachable_nonces [OF assms] nonces_counted_distinct [OF reachable_nonces [OF assms]]
  by (simp add: nonces_counted_def)

theorem no_replay_witness:
  "sender_nonces (PStr ''19r'') (history sample_chain) = [0 .. dget (nonces sample_chain) (PStr ''19r'') 0 - 1] \<and>
   distinct (map (\<lambda>tx. (sender tx, the_int (nonce tx))) (history sample_chain))"
  by (rule no_replay [OF sample_reachable])

text \<open>C4: Chains are well typed: in a transaction on a reachable chain the sender, key, signature and
  evidence are strings, amount, fee and nonce are non-negative integers, and sender and signature belong
  to the key.\<close>

theorem transactions_typed:
  assumes "pos_reachable E g st" "tx \<in> set (history st)"
  shows "\<exists>a f n ev p s pub sig. amount tx = PInt a \<and> fee tx = PInt f \<and> nonce tx = PInt n \<and> 0 \<le> a \<and> 0 \<le> f \<and> 0 \<le> n \<and>
    evidence tx = PStr ev \<and> public_key tx = PStr p \<and> signature tx = PStr s \<and> fromhex p = Some pub \<and> fromhex s = Some sig \<and>
    sender tx = PStr (address_from_public_key E pub) \<and> verify_signature E pub (signing_payload E tx) sig"
proof -
  have str: "\<exists>s. v = PStr s \<and> fromhex s = Some bs" if "fromhex_val v = Inr bs" for v bs
    using that by (cases v) (auto split: option.splits)
  from reachable_txs_valid [OF assms] obtain a f n ev pub sig where
    "amount tx = PInt a" "0 \<le> a" "fee tx = PInt f" "0 \<le> f" "nonce tx = PInt n" "0 \<le> n" "evidence tx = PStr ev"
    "fromhex_val (public_key tx) = Inr pub" "fromhex_val (signature tx) = Inr sig"
    "sender tx = PStr (address_from_public_key E pub)" "verify_signature E pub (signing_payload E tx) sig"
    by (rule is_validE)
  with str [of "public_key tx" pub] str [of "signature tx" sig] show ?thesis by auto
qed

theorem transactions_typed_witness:
  "\<exists>pub. sender sample_tx = PStr (address_from_public_key toy pub)"
  using transactions_typed [OF sample_reachable, of sample_tx]
  by (auto simp: history_def sample_chain_def sample_block_def)

section \<open>Blocks and their proposers\<close>

text \<open>C5: An accepted block was proposed by the validator elected for its height, who has stake, and
  its hash is signed with the key behind that validator's address.\<close>

theorem accepted_block_authentic:
  assumes "pos_reachable E g st" "submit_block E (pos_hooks E) st b = Inr st'"
  shows "\<exists>v pub h sig.
    elect E st (PStr (block_hash E (head st))) (index b) = Inr v \<and> 0 < stake_of st v \<and>
    validator b = PStr v \<and> v = address_from_public_key E pub \<and>
    fromhex_val (proposer_pubkey b) = Inr pub \<and> fromhex_val (validator_sig b) = Inr sig \<and>
    fromhex (block_hash E b) = Some h \<and> verify_signature E pub h sig"
proof -
  from assms(2) have prev: "previous_hash b = PStr (block_hash E (head st))"
    by (auto simp: submit_block_Inr apply_block_Inr)
  from assms(2) have "pos_check_proposer E st b = Inr ()" by (rule pos_submit_Inr)
  then obtain v pub h sig where v: "elect E st (previous_hash b) (index b) = Inr v" "validator b = PStr v"
    "fromhex_val (proposer_pubkey b) = Inr pub" "v = address_from_public_key E pub"
    "fromhex (block_hash E b) = Some h" "fromhex_val (validator_sig b) = Inr sig"
    "verify_signature E pub h sig"
    by (rule pos_check_proposer_Inr)
  from v(1) have "0 < stake_of st v"
    using elect_validator_Inr [of "stakes (pos st)"] reachable_inv [OF assms(1)]
    by (auto simp: elect_def rbind_eq_Inr pos_inv_def stake_of_def)
  with v prev show ?thesis by auto
qed

theorem accepted_block_authentic_witness:
  "\<exists>v pub h sig.
    elect toy sample_genesis (PStr (block_hash toy (head sample_genesis))) (index sample_block) = Inr v \<and>
    0 < stake_of sample_genesis v \<and>
    validator sample_block = PStr v \<and> v = address_from_public_key toy pub \<and>
    fromhex_val (proposer_pubkey sample_block) = Inr pub \<and> fromhex_val (validator_sig sample_block) = Inr sig \<and>
    fromhex (block_hash toy sample_block) = Some h \<and> verify_signature toy pub h sig"
  by (rule accepted_block_authentic [OF sample_reachable_genesis sample_submit])

text \<open>C6: A reachable chain passes its own integrity check: every block carries the hash of the
  block before it, and the block at position n has height n.\<close>

theorem chain_linked:
  assumes "pos_reachable E g st"
  shows "is_valid_chain E st = Inr True \<and>
    map (\<lambda>b. the_int (index b)) (chain st) = map int [0 ..< length (chain st)]"
proof -
  have "heights_ok (chain st)" by (rule reachable_heights [OF assms])
  then have "map (\<lambda>b. the_int (index b)) (chain st) = map int [0 ..< length (chain st)]"
    by (intro nth_equalityI) (auto simp: heights_ok_def)
  with reachable_links(2) [OF assms] show ?thesis by (simp add: is_valid_chain_def)
qed

theorem chain_linked_witness:
  "is_valid_chain toy sample_chain = Inr True \<and>
   map (\<lambda>b. the_int (index b)) (chain sample_chain) = map int [0 ..< length (chain sample_chain)]"
  by (rule chain_linked [OF sample_reachable])

text \<open>C7: A validator whose turn it is, with a sound signature scheme, gets the block it builds from
  its mempool accepted, when the pool holds transfers and stakes of senders without a grant.\<close>

theorem honest_block_accepted:
  assumes "pos_reachable E g st" "ecdsa_laws E (secret w)" "next_validator E st = Inr (address E w)"
    and "pool_ok E m" "list_all (plain st) (map snd (pool m))"
  shows "\<exists>st'. pos_add_block E st (select m st (unbonding_blocks st) n) w ts non k = Inr st'"
  by (rule produce_accepted [OF assms(1-4)]) (use assms(5) in \<open>auto simp: list_all_iff\<close>)

theorem honest_block_accepted_witness:
  "\<exists>st'. pos_add_block toy sample_genesis
     (select \<lparr>pool = [(''74'', sample_tx)]\<rparr> sample_genesis (unbonding_blocks sample_genesis) MAX_TXS_PER_BLOCK)
     alice (PInt 7) (PInt 0) 0 = Inr st'"
proof (rule honest_block_accepted [OF sample_reachable_genesis sample_laws])
  show "next_validator toy sample_genesis = Inr (address toy alice)"
    by (simp add: sample_elect sample_addresses)
  show "pool_ok toy \<lparr>pool = [(''74'', sample_tx)]\<rparr>"
    by (simp add: pool_ok_def wf_dict_def sample_valid sample_hashes MAX_POOL_SIZE_def)
  show "list_all (plain sample_genesis) (map snd (pool \<lparr>pool = [(''74'', sample_tx)]\<rparr>))"
    by code_simp
qed

text \<open>C8: The fuzz gate cannot fail. With any seeds of its random numbers, every block the gate builds
  from its mempool is accepted, every block with a defect is rejected and leaves the chain as it was,
  and the supply, the signs of balances and stakes and the links hold after every round; the last
  chain, stored and loaded, passes the same assertions.\<close>

theorem fuzz_gate_passes:
  assumes "fuzz_world E ws pariah" "int iters < 2 ^ 64" "\<And>f. printable (float_repr E f)" "seeds \<noteq> []"
  shows "\<exists>st full. fuzz E ws pariah seeds iters =
      Inr (Some st, length seeds * ((iters + 1) div 2), full, length seeds * (iters div 2)) \<and>
    persistence_under_fuzz E ws st = Some (Inr ())"
proof -
  obtain st full g where "fuzz E ws pariah seeds iters =
      Inr (Some st, length seeds * ((iters + 1) div 2), full, length seeds * (iters div 2))" "fuzz_state E ws g st"
    using fuzz_seeds_pass [OF assms(1,2), of seeds None 0 0 0] assms(4) by (auto simp: fuzz_def)
  with persistence_passes [OF assms(1) _ assms(3)] show ?thesis by blast
qed

theorem fuzz_gate_passes_witness:
  "\<exists>st full. fuzz toy gate_wallets gate_pariah [[3, 1, 4], [1, 5, 9, 2, 6]] 500 = Inr (Some st, 500, full, 500) \<and>
    persistence_under_fuzz toy gate_wallets st = Some (Inr ())"
  using fuzz_gate_passes [OF gate_world _ sample_float_repr, of 500 "[[3, 1, 4], [1, 5, 9, 2, 6]]"] by simp

text \<open>The gate \<open>finality.py\<close> passes, whatever its signatures draw: justification and finalization, the
  same state on a reloaded chain, no reorganisation below what is final, not even for a heavier branch,
  the slashing of a double and of a surrounding vote, a stall without votes and recovery, and the rejection of
  malformed votes.\<close>

theorem finality_gate_passes:
  assumes "finality_world E c" and "\<And>f. printable (float_repr E f)"
  shows "finality_main E c ks = Some (Inr ())"
  using assms by (rule finality_main_passes)

theorem finality_gate_passes_witness: "finality_main clear clear_cast (\<lambda>_ _. 0) = Some (Inr ())"
  by (rule finality_gate_passes [OF clear_world]) (simp add: clear_def sample_float_repr)

text \<open>C9: Genesis does not depend on the order of its dictionaries: with the same allocations, stakes and
  grants in another order the constructor succeeds, too, and from then on the two chains reject the
  same blocks with the same exceptions and agree on every balance, stake and nonce, on the next
  validator and on what is final.\<close>

theorem genesis_order_irrelevant:
  assumes "pos_init E al is ts gr ub tr ep = Inr g"
    and "mset al' = mset al" "mset is' = mset is" "mset gr' = mset gr"
    and "distinct (map fst al)" "distinct (map fst is)" "distinct (map fst gr)"
  shows "\<exists>g'. pos_init E al' is' ts gr' ub tr ep = Inr g' \<and>
    (\<forall>bs. rel_sum (=)
      (\<lambda>s t. chain t = chain s \<and> balance_of t = balance_of s \<and> stake_of t = stake_of s \<and>
         (\<forall>a. dget (nonces t) a 0 = dget (nonces s) a 0) \<and>
         next_validator E t = next_validator E s \<and> finalized_checkpoint t = finalized_checkpoint s)
      (submit_all E g bs) (submit_all E g' bs))"
proof -
  obtain g' where g': "pos_init E al' is' ts gr' ub tr ep = Inr g'" "same_chain g g'"
    using same_genesis [OF assms] by blast
  show ?thesis
    by (intro exI conjI allI, rule g'(1), rule sum.rel_mono_strong [OF same_blocks [OF g'(2)]])
      (simp_all add: same_chain_observed)
qed

theorem genesis_order_irrelevant_witness:
  "\<exists>g'. new_chain toy ([(''1EG'', PInt 40000000000000), (''19r'', PInt 60000000000000)], snd sample_args) = Inr g' \<and>
    rel_sum (=) (\<lambda>s t. chain t = chain s \<and> balance_of t = balance_of s) (submit_all toy sample_genesis [sample_block]) (submit_all toy g' [sample_block])"
proof -
  obtain g' where g': "new_chain toy ([(''1EG'', PInt 40000000000000), (''19r'', PInt 60000000000000)], snd sample_args) = Inr g'"
    "\<And>bs. rel_sum (=) (\<lambda>s t. chain t = chain s \<and> balance_of t = balance_of s \<and> stake_of t = stake_of s \<and>
         (\<forall>a. dget (nonces t) a 0 = dget (nonces s) a 0) \<and>
         next_validator toy t = next_validator toy s \<and> finalized_checkpoint t = finalized_checkpoint s)
      (submit_all toy sample_genesis bs) (submit_all toy g' bs)"
    using genesis_order_irrelevant [of toy "fst sample_args" "fst (snd sample_args)" "PInt 0"
        "[(''1EG'', [PInt 5000, PInt 0, PInt 10, PInt 100])]" 10 "Some ''1EG''" 2 sample_genesis
        "[(''1EG'', PInt 40000000000000), (''19r'', PInt 60000000000000)]" "fst (snd sample_args)"
        "[(''1EG'', [PInt 5000, PInt 0, PInt 10, PInt 100])]"] sample_init
    by (auto simp: new_chain_def sample_args_def)
  show ?thesis by (intro exI conjI, rule g'(1), rule sum.rel_mono_strong [OF g'(2)]) simp_all
qed

section \<open>Election\<close>

text \<open>C10: The election is proportional to stake: of the numbers below the total stake that the seed
  is reduced to, exactly as many elect a validator as it has units of stake.\<close>

theorem election_proportional:
  assumes "wf_dict stk" "0 < dget stk a 0"
  defines "vs \<equiv> active_validators stk"
  defines "tot \<equiv> sum_list (map (\<lambda>v. dget stk v 0) vs)"
  shows "card {p. 0 \<le> p \<and> p < tot \<and> pick_validator stk p 0 (last vs) vs = a} = nat (dget stk a 0) \<and>
    elect_validator stk sd = Inr (pick_validator stk (int (from_bytes sd) mod tot) 0 (last vs) vs)"
  using elect_proportional [OF assms(1,2)] stake_sum_pos [OF assms(1,2)]
  by (simp add: vs_def tot_def elect_validator_def Let_def)

theorem election_proportional_witness:
  "card {p. 0 \<le> p \<and> p < 10 \<and> pick_validator [(''v'', 3), (''u'', 7)] p 0 ''v'' [''u'', ''v''] = ''v''} = 3"
  using election_proportional [of "[(''v'', 3), (''u'', 7)]" "''v''"]
  by (simp add: wf_dict_def active_validators_def)

text \<open>As long as somebody has stake, the election of the next proposer succeeds and elects
  someone with stake.\<close>

theorem election_live:
  assumes "pos_reachable E g st" "0 < stake_of st a" "int (length (chain st)) < 2 ^ 64"
  shows "\<exists>v. next_validator E st = Inr v \<and> 0 < stake_of st v"
  using next_validator_total [OF _ reachable_heights [OF assms(1)] assms(2,3)] reachable_inv [OF assms(1)]
  by blast

theorem election_live_witness:
  "\<exists>v. next_validator toy sample_chain = Inr v \<and> 0 < stake_of sample_chain v"
  by (rule election_live [OF sample_reachable, of "''19r''"])
    (simp_all add: sample_chain_def sample_genesis_def sample_aux_def stake_of_def)

section \<open>Slashing\<close>

text \<open>C11: An accepted slash takes everything the offender has bonded, stake and unbonding, records the
  offense and the offender, and pays it out without loss: five percent, rounded down, to the reporter
  (to the treasury when the offender reports itself), the rest to the treasury. Beside this only the
  fee moves, from the reporter to the block's validator.\<close>

theorem slash_confiscates:
  assumes "recipient tx = PStr SLASH_SENTINEL" "pos_apply_tx E st tx b w = Inr w'"
  shows "\<exists>t off key v.
    treasury_address st = Some t \<and> slashes E tx off \<and> hash_key (validator b) = Inr v \<and>
    key \<notin> set (slashed (w_aux w)) \<and> slashed (w_aux w') = key # slashed (w_aux w) \<and>
    off \<in> set (slashed_addrs (w_aux w')) \<and>
    (\<forall>a. bonded (w_aux w') a = (if a = off then 0 else bonded (w_aux w) a)) \<and>
    (\<forall>a. dget (w_balances w') a 0 = dget (w_balances w) a 0
        - (if a = sender tx then the_int (fee tx) else 0) + (if a = v then the_int (fee tx) else 0)
        + (if a = (if sender tx \<noteq> PStr off then sender tx else PStr t)
           then bonded (w_aux w) off * 500 div 10000 else 0)
        + (if a = PStr t then bonded (w_aux w) off - bonded (w_aux w) off * 500 div 10000 else 0))"
proof -
  from assms have "apply_slash E st tx b w = Inr w'" by (simp add: pos_apply_tx_def)
  then obtain t d off key v where
    e: "treasury_address st = Some t" "load_json E (evidence tx) = Inr d"
      "slash_evidence E d = Inr (PStr off, key)" "hash_key (validator b) = Inr v"
      "key \<notin> set (slashed (w_aux w))" "slashed (w_aux w') = key # slashed (w_aux w)"
      "off \<in> set (slashed_addrs (w_aux w'))"
      "\<And>a. bonded (w_aux w') a = (if a = off then 0 else bonded (w_aux w) a)"
      "\<And>a. dget (w_balances w') a 0 = dget (w_balances w) a 0
        - (if a = sender tx then the_int (fee tx) else 0) + (if a = v then the_int (fee tx) else 0)
        + (if a = (if sender tx \<noteq> PStr off then sender tx else PStr t)
           then reporter_cut (bonded (w_aux w) off) else 0)
        + (if a = PStr t then bonded (w_aux w) off - reporter_cut (bonded (w_aux w) off) else 0)"
    by (rule apply_slash_effect) blast
  have "slashes E tx off" using assms(1) e(2,3) by (auto simp: slashes_def)
  with e show ?thesis
    unfolding reporter_cut_def REPORTER_BPS_def by blast
qed

theorem slash_confiscates_witness:
  "\<exists>t off key v.
    treasury_address sample_chain = Some t \<and> slashes toy sample_slash off \<and>
    hash_key (validator sample_block) = Inr v \<and>
    key \<notin> set (slashed (w_aux sample_work)) \<and>
    slashed (w_aux sample_slashed) = key # slashed (w_aux sample_work) \<and>
    off \<in> set (slashed_addrs (w_aux sample_slashed)) \<and>
    (\<forall>a. bonded (w_aux sample_slashed) a = (if a = off then 0 else bonded (w_aux sample_work) a)) \<and>
    (\<forall>a. dget (w_balances sample_slashed) a 0 = dget (w_balances sample_work) a 0
        - (if a = sender sample_slash then the_int (fee sample_slash) else 0)
        + (if a = v then the_int (fee sample_slash) else 0)
        + (if a = (if sender sample_slash \<noteq> PStr off then sender sample_slash else PStr t)
           then bonded (w_aux sample_work) off * 500 div 10000 else 0)
        + (if a = PStr t then bonded (w_aux sample_work) off - bonded (w_aux sample_work) off * 500 div 10000 else 0))"
  by (rule slash_confiscates)
    (simp_all add: sample_slash_recipient pos_apply_tx_def sample_slash_applies)

text \<open>An offense is slashed once: after an accepted slash, every transaction that carries the same
  evidence is rejected.\<close>

theorem slash_once:
  assumes "apply_slash E st tx b w = Inr w'" "evidence tx' = evidence tx"
    and "set (slashed (w_aux w')) \<subseteq> set (slashed (w_aux w''))"
  shows "\<exists>e. apply_slash E st tx' b' w'' = Inl e"
  using assms(1)
proof (rule apply_slash_effect)
  fix t d off key
  assume "treasury_address st = Some t" "load_json E (evidence tx) = Inr d"
    "slash_evidence E d = Inr (PStr off, key)" "slashed (w_aux w') = key # slashed (w_aux w)"
  with assms(2,3) show ?thesis by (auto simp: apply_slash_def Let_def)
qed

theorem slash_once_witness:
  "\<exists>e. apply_slash toy sample_chain sample_self_slash sample_block sample_slashed = Inl e"
  by (rule slash_once [OF sample_slash_applies])
    (simp_all add: sample_slash_def sample_self_slash_def)

text \<open>Reporting oneself does not pay: an offender that is neither treasury nor the block's
  validator keeps its liquid balance less the fee, and nothing else.\<close>

theorem self_report_gains_nothing:
  assumes "recipient tx = PStr SLASH_SENTINEL" "pos_apply_tx E st tx b w = Inr w'"
    and "slashes E tx a" "sender tx = PStr a" "treasury_address st \<noteq> Some a"
    and "hash_key (validator b) \<noteq> Inr (PStr a)"
  shows "holding w' a = dget (w_balances w) (PStr a) 0 - the_int (fee tx)"
proof -
  from assms(1,2) have "apply_slash E st tx b w = Inr w'" by (simp add: pos_apply_tx_def)
  then show ?thesis
  proof (rule apply_slash_effect)
    fix t d off key v
    assume e: "treasury_address st = Some t" "load_json E (evidence tx) = Inr d"
      "slash_evidence E d = Inr (PStr off, key)" "hash_key (validator b) = Inr v"
      "\<And>a. bonded (w_aux w') a = (if a = off then 0 else bonded (w_aux w) a)"
      "\<And>a. dget (w_balances w') a 0 = dget (w_balances w) a 0
        - (if a = sender tx then the_int (fee tx) else 0) + (if a = v then the_int (fee tx) else 0)
        + (if a = (if sender tx \<noteq> PStr off then sender tx else PStr t)
           then reporter_cut (bonded (w_aux w) off) else 0)
        + (if a = PStr t then bonded (w_aux w) off - reporter_cut (bonded (w_aux w) off) else 0)"
    have "off = a" using assms(3) e(2,3) by (auto simp: slashes_def)
    with assms(4-6) e(1,4) show ?thesis by (auto simp: holding_def e(5,6))
  qed
qed

theorem self_report_gains_nothing_witness:
  "\<exists>w'. pos_apply_tx toy sample_chain sample_self_slash (sample_block\<lparr>validator := PStr ''miner''\<rparr>) sample_work = Inr w' \<and>
     holding w' ''19r'' = dget (w_balances sample_work) (PStr ''19r'') 0 - the_int (fee sample_self_slash)"
proof -
  let ?b = "sample_block\<lparr>validator := PStr ''miner''\<rparr>"
  obtain w' where w': "pos_apply_tx toy sample_chain sample_self_slash ?b sample_work = Inr w'"
    using sample_self_slash_applies by blast
  have "holding w' ''19r'' = dget (w_balances sample_work) (PStr ''19r'') 0 - the_int (fee sample_self_slash)"
    by (rule self_report_gains_nothing [OF sample_self_slash_facts(1) w' sample_self_slash_facts(2)])
      (simp_all add: sample_self_slash_def sample_chain_def sample_genesis_def)
  with w' show ?thesis by blast
qed

text \<open>Evidence of equivocation proves a fault: both blocks have the same height, parent and
  validator and different hashes, and the key behind that validator's address signed both hashes.\<close>

theorem equivocation_proof_sound:
  assumes "verify_equivocation E b1 b2 = Inr (off, h)"
  shows "off = validator b1 \<and> validator b2 = validator b1 \<and> py_eq (index b1) (index b2) \<and>
    py_eq (previous_hash b1) (previous_hash b2) \<and> block_hash E b1 \<noteq> block_hash E b2 \<and>
    (\<exists>pub1 pub2 h1 h2 sig1 sig2. validator b1 = PStr (address_from_public_key E pub1) \<and>
       validator b1 = PStr (address_from_public_key E pub2) \<and>
       fromhex (block_hash E b1) = Some h1 \<and> verify_signature E pub1 h1 sig1 \<and>
       fromhex (block_hash E b2) = Some h2 \<and> verify_signature E pub2 h2 sig2)"
  using assms by (rule verify_equivocation_Inr) blast

theorem equivocation_proof_sound_witness:
  "block_hash toy sample_block \<noteq> block_hash toy (sample_block\<lparr>timestamp := PInt 10\<rparr>)"
  using equivocation_proof_sound [OF sample_equivocation] by simp

section \<open>Staking, unbonding, vesting\<close>

text \<open>A delayed unstake moves the coins from the stake into the unbonding queue, to be released
  \<open>unbonding_blocks\<close> later, and leaves the liquid balance alone but for the fee.\<close>

theorem unstake_waits:
  assumes "apply_unstake st tx b w = Inr w'" "sender tx = PStr a" "0 < unbonding_blocks st"
    and "hash_key (validator b) \<noteq> Inr (PStr a)"
  shows "dget (unbonding (w_aux w')) a [] = dget (unbonding (w_aux w)) a [] @
      [(the_int (amount tx), the_int (index b), the_int (index b) + unbonding_blocks st)] \<and>
    dget (stakes (w_aux w')) a 0 = dget (stakes (w_aux w)) a 0 - the_int (amount tx) \<and>
    dget (w_balances w') (PStr a) 0 = dget (w_balances w) (PStr a) 0 - the_int (fee tx)"
  using assms(1) by (rule apply_unstake_Inr) (use assms(2-4) in
    \<open>auto simp: credit_validator_Inr dget_map_of\<close>)

theorem unstake_waits_witness:
  "\<exists>w'. apply_unstake sample_chain sample_unstake (sample_block\<lparr>validator := PStr ''miner''\<rparr>) sample_work = Inr w' \<and>
    dget (unbonding (w_aux w')) ''19r'' [] = [(60, 1, 11), (40, 2, 12), (300, 1, 11)]"
proof -
  let ?b = "sample_block\<lparr>validator := PStr ''miner''\<rparr>"
  obtain w' where w': "apply_unstake sample_chain sample_unstake ?b sample_work = Inr w'"
    using sample_unstake_other by blast
  have "dget (unbonding (w_aux w')) ''19r'' [] = dget (unbonding (w_aux sample_work)) ''19r'' [] @
      [(the_int (amount sample_unstake), the_int (index ?b), the_int (index ?b) + unbonding_blocks sample_chain)]"
    using unstake_waits [OF w', of "''19r''"]
    by (simp add: sample_unstake_def sample_chain_def sample_genesis_def)
  with w' show ?thesis
    by (simp add: sample_work_def sample_unstake_def sample_block_def sample_chain_def sample_genesis_def)
qed

text \<open>At the start of a block exactly the unbonding entries whose release height has come are
  credited to their owner; the others stay queued, in order.\<close>

theorem unbonding_released_on_time:
  assumes "pos_apply_block_pre E st b w = Inr w1" "wf_dict (unbonding (w_aux w))"
  shows "dget (unbonding (w_aux w1)) a [] =
      filter (\<lambda>(amt, bonded_at, release). the_int (index b) < release) (dget (unbonding (w_aux w)) a []) \<and>
    dget (w_balances w1) (PStr a) 0 = dget (w_balances w) (PStr a) 0 +
      unbonding_sum (filter (\<lambda>(amt, bonded_at, release). release \<le> the_int (index b))
        (dget (unbonding (w_aux w)) a []))"
  using pos_pre_release(1,2) [OF assms, of a] by (simp add: case_prod_beta')

theorem unbonding_released_on_time_witness:
  "\<exists>w1. pos_apply_block_pre toy sample_chain (sample_block\<lparr>index := PInt 11\<rparr>) sample_work = Inr w1 \<and>
     dget (unbonding (w_aux w1)) ''19r'' [] = [(40, 2, 12)]"
proof -
  obtain w1 where w1: "pos_apply_block_pre toy sample_chain (sample_block\<lparr>index := PInt 11\<rparr>) sample_work = Inr w1"
    using sample_pre_total by blast
  have "wf_dict (unbonding (w_aux sample_work))" by (simp add: sample_work_def wf_dict_def)
  from unbonding_released_on_time [OF w1 this, of "''19r''"] w1 show ?thesis
    by (auto simp: sample_work_def)
qed

text \<open>The set of validators is never emptied by the validators themselves: no accepted
  transaction other than a slash leaves the chain without a staker.\<close>

theorem validators_remain:
  assumes "pos_apply_tx E st tx b w = Inr w'" "pos_winv w" "recipient tx \<noteq> PStr SLASH_SENTINEL"
    and "stakes (w_aux w) \<noteq> []"
  shows "stakes (w_aux w') \<noteq> []"
  using assms(1)
proof (cases rule: pos_apply_tx_Inr)
  case stake
  have upd: "AList.update k v d \<noteq> []" for k :: string and v :: int and d by (cases d) auto
  from stake(2) show ?thesis by (rule apply_stake_Inr) (simp add: upd)
next
  case unstake
  with assms(2) apply_unstake_nonempty show ?thesis by (simp add: pos_winv_def)
qed (use assms(3,4) in \<open>auto elim!: apply_vote_Inr base_apply_tx_Inr\<close>)

theorem validators_remain_witness:
  "stakes (w_aux sample_unstaked) \<noteq> []"
  by (rule validators_remain [OF sample_unstake_applies(2) sample_winv])
    (simp_all add: sample_unstake_def sample_work_def)

text \<open>C12: Vesting holds on every chain: an address with a grant always keeps, as balance, stake and
  unbonding coins together, at least the part of the grant that is still locked at the chain's height,
  unless it was slashed or paid fees for finality votes or slash reports.\<close>

theorem vesting_retained:
  assumes "pos_reachable E g st" "map_of (vesting st) a = Some (tot, start, cliff, duration)"
    and "list_all (\<lambda>tx. \<not> unvested_exit E a tx) (history st)"
  shows "locked tot start cliff duration (the_int (index (head st))) \<le>
    balance_of st (PStr a) + stake_of st a + unbonding_of st a"
  using reachable_vesting [OF assms(1,2)] assms(3)
  by (auto simp: list_all_iff chain_holding_def balance_of_def)

theorem vesting_retained_witness:
  "locked 5000 0 10 100 (the_int (index (head sample_chain))) \<le>
     balance_of sample_chain (PStr ''1EG'') + stake_of sample_chain ''1EG'' + unbonding_of sample_chain ''1EG''"
  by (rule vesting_retained [OF sample_reachable])
    (simp_all add: sample_chain_def sample_genesis_def history_def sample_genesis_block_def
      sample_block_def sample_tx_def unvested_exit_def slashes_def SLASH_SENTINEL_def)

text \<open>The release schedule: what has vested lies between nothing and the whole grant, never
  shrinks as the chain grows, is nothing before the cliff and everything at the end.\<close>

theorem vesting_schedule:
  assumes "0 \<le> tot" "0 \<le> cliff" "0 < duration" "h \<le> h'"
  shows "0 \<le> vested tot start cliff duration h \<and>
    vested tot start cliff duration h \<le> vested tot start cliff duration h' \<and>
    vested tot start cliff duration h' \<le> tot \<and>
    (h < start + cliff \<longrightarrow> vested tot start cliff duration h = 0) \<and>
    (start + max cliff duration \<le> h \<longrightarrow> vested tot start cliff duration h = tot)"
proof (intro conjI)
  show "0 \<le> vested tot start cliff duration h" "vested tot start cliff duration h' \<le> tot"
    by (rule vested_bounds [OF assms(1,2)])+
  show "vested tot start cliff duration h \<le> vested tot start cliff duration h'"
    by (rule vested_mono [OF assms(1,2,4)])
qed (use assms(3) in \<open>auto simp: vested_def\<close>)

theorem vesting_schedule_witness:
  "vested 1000 0 10 100 50 \<le> vested 1000 0 10 100 60 \<and> vested 1000 0 10 100 60 \<le> 1000"
  using vesting_schedule [of 1000 10 100 50 60 0] by simp

section \<open>Finality\<close>

text \<open>Finality only advances: an accepted block never lowers the finalized height, and the block
  that was final stays where it was on the chain.\<close>

theorem finality_advances:
  assumes "pos_reachable E g st" "submit_block E (pos_hooks E) st b = Inr st'"
  shows "snd (finalized_checkpoint st) \<le> snd (finalized_checkpoint st') \<and>
    on_chain E (chain st') (fst (finalized_checkpoint st)) (snd (finalized_checkpoint st))"
proof -
  have ffg: "ffg_inv E (epoch st) (chain st) (pos st)" by (rule reachable_ffg [OF assms(1)])
  then have "on_chain E (chain st) (fst (finalized_checkpoint st)) (snd (finalized_checkpoint st))"
    by (simp add: ffg_inv_def finalized_checkpoint_def)
  with submit_block_ffg(2) [OF assms(2) reachable_heights [OF assms(1)] ffg] on_chain_snoc
  show ?thesis by (simp add: pos.submit_block_chain [OF assms(2)])
qed

theorem finality_advances_witness:
  "snd (finalized_checkpoint sample_genesis) \<le> snd (finalized_checkpoint sample_chain) \<and>
   on_chain toy (chain sample_chain) (fst (finalized_checkpoint sample_genesis)) (snd (finalized_checkpoint sample_genesis))"
  by (rule finality_advances [OF sample_reachable_genesis sample_submit])

text \<open>What a chain calls justified or finalized is its own: every justified hash is the hash of
  its block at some multiple of the epoch, and the finalized checkpoint is justified and is the hash
  of the block at the finalized height.\<close>

theorem finality_on_own_chain:
  assumes "pos_reachable E g st"
  shows "(\<forall>h. is_justified st h \<longrightarrow> (\<exists>n. on_chain E (chain st) h n \<and> n mod epoch st = 0)) \<and>
    is_justified st (fst (finalized_checkpoint st)) \<and>
    on_chain E (chain st) (fst (finalized_checkpoint st)) (snd (finalized_checkpoint st))"
proof -
  note ffg = reachable_ffg [OF assms, unfolded ffg_inv_def]
  have "\<exists>n. on_chain E (chain st) h n \<and> n mod epoch st = 0" if "h \<in> set (justified (pos st))" for h
  proof -
    have "dhas (ffg_height (pos st)) h" using ffg that by blast
    then obtain n where "map_of (ffg_height (pos st)) h = Some n" by (auto simp: dhas_iff_map_of)
    with ffg show ?thesis by blast
  qed
  with ffg show ?thesis by (simp add: is_justified_def finalized_checkpoint_def)
qed

theorem finality_on_own_chain_witness:
  "is_justified sample_chain (fst (finalized_checkpoint sample_chain))"
  using finality_on_own_chain [OF sample_reachable] by simp

text \<open>C13: A block justifies a checkpoint only through a link from a checkpoint that was justified before the
  block and lies on the chain an epoch boundary or more below. Two thirds, by stake, of the unslashed stakers
  there were just before the source block have voted for that link in transactions of the chain, and their
  stake is not nil.\<close>

theorem justification_needs_supermajority:
  assumes "pos_reachable E g st" "submit_block E (pos_hooks E) st b = Inr st'"
    and "is_justified st' t" "\<not> is_justified st t"
  shows "\<exists>s sh th s0 voters out. is_justified st s \<and>
    sh < th \<and> sh mod epoch st = 0 \<and> th mod epoch st = 0 \<and>
    on_chain E (chain st') s sh \<and> on_chain E (chain st') t th \<and>
    reaches E (pos_hooks E) g s0 \<and> reaches E (pos_hooks E) s0 st' \<and> int (length (chain s0)) = max 1 sh \<and>
    finite voters \<and> (\<forall>a \<in> voters. \<exists>tx \<in> set (history st'). casts_vote E a s t tx) \<and>
    set (slashed_addrs (pos st)) \<subseteq> out \<and> out \<subseteq> set (slashed_addrs (pos st')) \<and>
    0 < (\<Sum>a \<in> {a. 0 < stake_of s0 a} - out. stake_of s0 a) \<and>
    2 * (\<Sum>a \<in> {a. 0 < stake_of s0 a} - out. stake_of s0 a) \<le> 3 * (\<Sum>a \<in> voters - out. stake_of s0 a)"
  using assms
proof (rule block_justifies)
  fix s sh th s0 vs out
  assume s0: "reaches E (pos_hooks E) g s0" and vs: "distinct vs" "supermajority (stakes (pos s0)) out vs"
    and rest: "is_justified st s" "sh < th" "sh mod epoch st = 0" "th mod epoch st = 0"
      "on_chain E (chain st') s sh" "on_chain E (chain st') t th"
      "reaches E (pos_hooks E) s0 st'" "int (length (chain s0)) = max 1 sh"
      "\<And>a. a \<in> set vs \<Longrightarrow> \<exists>tx \<in> set (history st'). casts_vote E a s t tx"
      "set (slashed_addrs (pos st)) \<subseteq> set out" "set out \<subseteq> set (slashed_addrs (pos st'))"
  from s0 assms(1) have "pos_reachable E g s0" by (auto simp: pos_reachable_def)
  then have "pos_inv s0" using reachable_inv by blast
  then have "wf_dict (stakes (pos s0))" "dall (\<lambda>v. 0 < v) (stakes (pos s0))" by (simp_all add: pos_inv_def)
  from supermajority_sums [OF this vs] s0 rest show ?thesis
    by (intro exI [of _ s] exI [of _ sh] exI [of _ th] exI [of _ s0] exI [of _ "set vs"] exI [of _ "set out"])
      (simp add: stake_of_def)
qed

theorem justification_needs_supermajority_witness:
  "\<exists>s sh th. is_justified sample_chain2 s \<and> sh < th \<and> on_chain toy (chain vote_chain) s sh \<and>
    on_chain toy (chain vote_chain) ''5e'' th \<and> (\<exists>a. \<exists>tx \<in> set (history vote_chain). casts_vote toy a s ''5e'' tx)"
proof -
  have new: "is_justified vote_chain ''5e''" "\<not> is_justified sample_chain2 ''5e''"
    by (simp_all add: is_justified_def vote_chain_def sample_chain2_def idle_aux_def sample_aux_def)
  from justification_needs_supermajority [OF sample_long_reachable vote_submit new]
  obtain s sh th s0 and voters out :: "string set" where run: "is_justified sample_chain2 s" "sh < th" "on_chain toy (chain vote_chain) s sh"
    "on_chain toy (chain vote_chain) ''5e'' th" "\<forall>a \<in> voters. \<exists>tx \<in> set (history vote_chain). casts_vote toy a s ''5e'' tx"
    "0 < (\<Sum>a \<in> {a. 0 < stake_of s0 a} - out. stake_of s0 a)"
    "2 * (\<Sum>a \<in> {a. 0 < stake_of s0 a} - out. stake_of s0 a) \<le> 3 * (\<Sum>a \<in> voters - out. stake_of s0 a)"
    by blast
  then have "voters - out \<noteq> {}" by force
  with run(1-5) show ?thesis by blast
qed

text \<open>C14: A checkpoint becomes final only as the justified source of a supermajority link to the
  checkpoint one epoch above it, and only above the checkpoint that was final before.\<close>

theorem finalization_rule:
  assumes "pos_apply_tx E st tx b w = Inr w'" "finalized (w_aux w') \<noteq> finalized (w_aux w)"
  shows "\<exists>s sh t. finalized (w_aux w') = (s, sh) \<and> snd (finalized (w_aux w)) < sh \<and>
    s \<in> set (justified_parent (w_aux w)) \<and> map_of (ffg_height (w_aux w)) s = Some sh \<and>
    map_of (ffg_height (w_aux w)) t = Some (sh + epoch st) \<and>
    supermajority (dget (ffg_stake (w_aux w)) s []) (slashed_addrs (w_aux w))
      (dget (ffg_votes (w_aux w')) (s, t) [])"
  using assms(1)
proof (cases rule: pos_apply_tx_ffg)
  case (vote l v)
  from vote(2) obtain s sh t th where v: "v = (s, sh, t, th)" and s: "s \<in> set (justified_parent (w_aux w))"
      "map_of (ffg_height (w_aux w)) s = Some sh" "map_of (ffg_height (w_aux w)) t = Some th"
    by (rule check_vote_Inr)
  with record_vote_cases [of st "the_str (sender tx)" s sh t th "w_aux w"] assms(2) vote(3) show ?thesis
    by (intro exI [of _ s] exI [of _ sh] exI [of _ t]) (auto simp: record_vote_votes split: if_splits)
qed (use assms(2) in simp)

theorem finalization_rule_witness:
  "\<exists>s sh t. finalized (w_aux sample_voted) = (s, sh) \<and> snd (finalized (w_aux sample_vote_work)) < sh \<and>
    s \<in> set (justified_parent (w_aux sample_vote_work)) \<and> map_of (ffg_height (w_aux sample_vote_work)) s = Some sh \<and>
    map_of (ffg_height (w_aux sample_vote_work)) t = Some (sh + epoch sample_chain) \<and>
    supermajority (dget (ffg_stake (w_aux sample_vote_work)) s []) (slashed_addrs (w_aux sample_vote_work))
      (dget (ffg_votes (w_aux sample_voted)) (s, t) [])"
  by (rule finalization_rule [OF sample_vote_applies])
    (simp add: sample_voted_def sample_vote_work_def)

text \<open>Two supermajorities over one snapshot of a reachable chain overlap in voters that hold at
  least a third of the stake, the stake that conflicting finality would put at risk.\<close>

theorem supermajorities_overlap:
  fixes s :: string
  assumes "pos_reachable E g st" "distinct A" "distinct B"
  defines "m \<equiv> dget (ffg_stake (pos st)) s []"
  assumes "supermajority m out A" "supermajority m out B"
  shows "quorum_stake m out \<le> 3 * voted_stake m out (filter (\<lambda>v. v \<in> set B) A)"
proof -
  have "wf_dict m \<and> dall (\<lambda>v. 0 < v) m"
    using reachable_snapshots [OF assms(1)]
    by (cases "map_of (ffg_stake (pos st)) s") (auto simp: snapshots_ok_def m_def dget_def)
  then show ?thesis using assms(2,3,5,6) by (blast intro: quorums_intersect)
qed

theorem supermajorities_overlap_witness:
  "quorum_stake (dget (ffg_stake (pos sample_chain)) ''9f'' []) [] \<le>
   3 * voted_stake (dget (ffg_stake (pos sample_chain)) ''9f'' []) [] (filter (\<lambda>v. v \<in> set [''19r'']) [''19r'', ''1EG''])"
  by (rule supermajorities_overlap [OF sample_reachable]) (simp, simp, code_simp, code_simp)

section \<open>Encodings and signatures\<close>

text \<open>A transaction survives the wire: decoding what was encoded gives it back.\<close>

theorem tx_codec_roundtrip: "decode_tx (encode_tx tx) = Inr tx"
  by (rule decode_encode_tx)

text \<open>A block whose Merkle root is set survives the wire, its hash included.\<close>

theorem block_codec_roundtrip:
  "truthy (block_merkle_root b) \<Longrightarrow> decode_block E (encode_block b) = Inr b"
  by (rule decode_encode_block)

theorem block_codec_roundtrip_witness:
  "decode_block toy (encode_block sample_block) = Inr sample_block"
  by (rule block_codec_roundtrip) (simp add: sample_block_def)

text \<open>Whatever JSON value arrives, the decoders raise nothing but a validation error.\<close>

theorem decoders_raise_only_validation:
  "only_validation (decode_tx v) \<and> only_validation (decode_block E v)"
  by (simp add: decode_tx_errors decode_block_errors)

text \<open>An address determines the truncated digest of its public key, for a digest of 32 bytes:
  Base58Check drops nothing, leading zero bytes included.\<close>

theorem address_determines_key_hash:
  assumes "\<And>x. length (sha256 E x) = 32" "address_from_public_key E p = address_from_public_key E q"
  shows "take 20 (sha256 E p) = take 20 (sha256 E q)"
  using b58check_inj [OF assms(1) [unfolded sha256_def]] assms(2) by (fastforce simp: address_from_public_key_def)

theorem address_determines_key_hash_witness:
  "take 20 (sha256 (toy\<lparr>hashlib_sha256 := \<lambda>bs. replicate 32 0\<rparr>) [1]) =
   take 20 (sha256 (toy\<lparr>hashlib_sha256 := \<lambda>bs. replicate 32 0\<rparr>) [2])"
  by (rule address_determines_key_hash) (simp_all add: sha256_def address_from_public_key_def)

text \<open>A transaction of the right shape, signed with the wallet of its sender, is valid.\<close>

theorem signed_transaction_valid:
  assumes "ecdsa_laws E (secret w)" "0 \<le> f" "0 \<le> n"
    and "if to = SLASH_SENTINEL \<or> to = VOTE_SENTINEL then amt = 0 \<and> ev \<noteq> [] else 0 < amt"
  shows "\<exists>tx. sign_tx E w k (new_tx (address E w) to amt f n ev) = Inr tx \<and> is_valid E tx = Inr True \<and>
    sender tx = PStr (address E w) \<and> recipient tx = PStr to \<and> amount tx = PInt amt"
proof -
  let ?tx = "new_tx (address E w) to amt f n ev"
  obtain tx where tx: "sign_tx E w k ?tx = Inr tx" "is_valid E tx = Inr True"
    "tx = ?tx\<lparr>public_key := public_key tx, signature := signature tx\<rparr>"
    using sign_tx_valid [OF assms(1), of ?tx amt f n ev k] assms(2-4) by (auto simp: new_tx_def)
  from tx(3) have "sender tx = PStr (address E w)" "recipient tx = PStr to" "amount tx = PInt amt"
    by (metis new_tx_def transaction.select_convs transaction.simps)+
  with tx(1,2) show ?thesis by blast
qed

theorem signed_transaction_valid_witness:
  "\<exists>tx. sign_tx toy alice 0 (new_tx (address toy alice) ''1EG'' 5 1 0 []) = Inr tx \<and> is_valid toy tx = Inr True \<and>
    sender tx = PStr (address toy alice) \<and> recipient tx = PStr ''1EG'' \<and> amount tx = PInt 5"
  by (rule signed_transaction_valid [OF sample_laws]) (simp_all add: SLASH_SENTINEL_def VOTE_SENTINEL_def)

section \<open>The mempool and the genesis policy\<close>

text \<open>The pool holds only valid transactions, each under its own id, and never more than its
  bound; a transaction is admitted only with a nonce that is still open, and a full pool lets one in
  only in place of a cheapest one that it outbids.\<close>

theorem mempool_admission:
  assumes "pool_ok E m" "mempool_add E tx st m = Inr (True, m')"
  shows "pool_ok E m' \<and> is_valid E tx = Inr True \<and> dget (nonces st) (sender tx) 0 \<le> the_int (nonce tx) \<and>
    map_of (pool m') (txid E tx) = Some tx \<and>
    (MAX_POOL_SIZE \<le> length (pool m) \<longrightarrow> (\<exists>c \<in> snd ` set (pool m). the_int (fee c) < the_int (fee tx) \<and>
       (\<forall>t \<in> snd ` set (pool m). the_int (fee c) \<le> the_int (fee t)) \<and>
       pool m' = AList.update (txid E tx) tx (AList.delete (txid E c) (pool m))))"
proof -
  note add = mempool_add_Inr [OF assms(2)]
  have upd: "map_of (pool m') (txid E tx) = Some tx"
    using add(5,6) by (cases "length (pool m) < MAX_POOL_SIZE") (auto simp: update_conv')
  have full: "\<exists>c \<in> snd ` set (pool m). the_int (fee c) < the_int (fee tx) \<and>
       (\<forall>t \<in> snd ` set (pool m). the_int (fee c) \<le> the_int (fee t)) \<and>
       pool m' = AList.update (txid E tx) tx (AList.delete (txid E c) (pool m))"
    if "MAX_POOL_SIZE \<le> length (pool m)"
  proof -
    have "pool m \<noteq> []" using that by (auto simp: MAX_POOL_SIZE_def)
    then have set: "insert (snd (hd (pool m))) (set (map snd (tl (pool m)))) = snd ` set (pool m)"
      by (cases "pool m") auto
    from add(6) [OF TrueI that] obtain c where
      c: "c = cheapest (snd (hd (pool m))) (map snd (tl (pool m)))" "the_int (fee c) < the_int (fee tx)"
        "pool m' = AList.update (txid E tx) tx (AList.delete (txid E c) (pool m))" by blast
    from cheapest_spec [of "snd (hd (pool m))" "map snd (tl (pool m))", unfolded set, folded c(1)] c(2,3)
    show ?thesis by blast
  qed
  with upd add(1,2) mempool_add_ok [OF assms] show ?thesis by blast
qed

theorem mempool_admission_witness:
  "\<exists>m'. mempool_add toy sample_tx sample_genesis mempool_init = Inr (True, m') \<and> pool_ok toy m'"
proof -
  obtain m' where m': "mempool_add toy sample_tx sample_genesis mempool_init = Inr (True, m')"
    using sample_pool_add by blast
  with mempool_admission [OF pool_ok_init m'] show ?thesis by blast
qed

text \<open>C15: What \<open>select\<close> returns can be spent. In any block on the chain that takes a selection in its order,
  once the transactions before are applied the next one is valid and new, carries its sender's next nonce,
  and its sender holds what it is about to pay: the fee for evidence, votes and unstaking (whose coins
  come back later), the amount and the fee for everything else. A transfer or a stake of a
  sender without a grant is then applied too. A selection fits the block.\<close>

theorem selection_affordable:
  assumes "pos_reachable E g st" "pool_ok E m"
    and "select m st (unbonding_blocks st) k = pre @ tx # post"
    and "pos_apply_block_pre E st b (start_work (pos_hooks E) st) = Inr w0"
    and "apply_txs E (pos_hooks E) st b [] w0 pre = Inr w"
  shows "int (length (pre @ tx # post)) \<le> max 0 k \<and> is_valid E tx = Inr True \<and> txid E tx \<notin> txid E ` set pre \<and>
    nonce tx = PInt (dget (w_nonces w) (sender tx) 0) \<and>
    (if recipient tx \<in> {PStr SLASH_SENTINEL, PStr VOTE_SENTINEL, PStr UNSTAKE_SENTINEL}
     then tx_fee tx else tx_amount tx + tx_fee tx) \<le> dget (w_balances w) (sender tx) 0 \<and>
    (plain st tx \<longrightarrow> is_str (validator b) \<longrightarrow> (\<exists>w'. pos_apply_tx E st tx b w = Inr w'))"
proof -
  have inv: "pos_inv st" using reachable_inv [OF assms(1)] by simp
  have valid: "is_valid E tx = Inr True" "distinct (map (txid E) (pre @ tx # post))"
    using select_txids [OF assms(2), where st = st and ub = "unbonding_blocks st" and k = k] by (simp_all add: assms(3))
  from valid(1) have int: "nonce tx = PInt (tx_nonce tx)" by (rule is_validE) simp
  note covered = selected_covered [OF inv assms(3-5)]
  have fee: "(if recipient tx \<in> {PStr SLASH_SENTINEL, PStr VOTE_SENTINEL, PStr UNSTAKE_SENTINEL}
      then tx_fee tx else tx_amount tx + tx_fee tx) = fst (cost tx (unbonding_blocks st))"
    by (auto simp: cost_def)
  have "\<exists>w'. pos_apply_tx E st tx b w = Inr w'" if "plain st tx" "is_str (validator b)"
  proof -
    from that obtain s where "hash_key (validator b) = Inr (PStr s)" by (auto simp: is_str_iff)
    from plain_applies [OF valid(1) that(1) this] covered(2) that(1) show ?thesis by (auto simp: plain_cost)
  qed
  moreover have "int (length (pre @ tx # post)) \<le> max 0 k"
    using select_length [of m st "unbonding_blocks st" k] by (simp add: assms(3))
  ultimately show ?thesis using valid covered int fee by auto
qed

theorem selection_affordable_witness:
  "\<exists>w0 w'. pos_apply_block_pre toy sample_genesis sample_block (start_work (pos_hooks toy) sample_genesis) = Inr w0 \<and>
     6 \<le> dget (w_balances w0) (PStr ''19r'') 0 \<and> pos_apply_tx toy sample_genesis sample_tx sample_block w0 = Inr w'"
proof -
  let ?m = "\<lparr>pool = [(''74'', sample_tx)]\<rparr>"
  have m: "pool_ok toy ?m"
    by (simp add: pool_ok_def wf_dict_def sample_valid sample_hashes MAX_POOL_SIZE_def)
  have sel: "select ?m sample_genesis (unbonding_blocks sample_genesis) 5 = [] @ sample_tx # []"
    by code_simp
  obtain w0 where w0: "pos_apply_block_pre toy sample_genesis sample_block (start_work (pos_hooks toy) sample_genesis) = Inr w0"
    using sample_submit by (rule pos_submit_Inr)
  have plain: "plain sample_genesis sample_tx" "is_str (validator sample_block)"
    by code_simp+
  have "apply_txs toy (pos_hooks toy) sample_genesis sample_block [] w0 [] = Inr w0" by simp
  note spent = selection_affordable [OF sample_reachable_genesis m sel w0 this]
  have "sender sample_tx = PStr ''19r''" "tx_amount sample_tx + tx_fee sample_tx = 6"
    "recipient sample_tx \<notin> {PStr SLASH_SENTINEL, PStr VOTE_SENTINEL, PStr UNSTAKE_SENTINEL}"
    by code_simp+
  with spent plain have "6 \<le> dget (w_balances w0) (PStr ''19r'') 0"
    "\<exists>w'. pos_apply_tx toy sample_genesis sample_tx sample_block w0 = Inr w'" by simp_all
  with w0 show ?thesis by blast
qed

text \<open>The fee market: at every position of the selection the transaction taken pays at least as
  much as the next runnable transaction of any sender.\<close>

theorem selection_takes_highest_fee:
  assumes "select m st ub k = pre @ tx # post"
    and "j = length (filter (\<lambda>t. sender t = s) pre)" "j < length (sender_run m st ub s)"
  shows "the_int (fee (sender_run m st ub s ! j)) \<le> the_int (fee tx)"
  by (rule select_priority [OF assms])

theorem selection_takes_highest_fee_witness:
  "the_int (fee (sender_run \<lparr>pool = [(''74'', sample_tx)]\<rparr> sample_genesis 10 (PStr ''19r'') ! 0)) \<le> the_int (fee sample_tx)"
proof (rule selection_takes_highest_fee)
  show "select \<lparr>pool = [(''74'', sample_tx)]\<rparr> sample_genesis 10 5 = [] @ sample_tx # []"
    by code_simp
  show "0 < length (sender_run \<lparr>pool = [(''74'', sample_tx)]\<rparr> sample_genesis 10 (PStr ''19r''))"
    by code_simp
qed simp

text \<open>Nothing runnable is left out while there is room: of each sender an initial part of its
  run is taken, and all of it when the block is not full.\<close>

theorem selection_fills_block:
  assumes "pool_ok E m"
  shows "\<exists>j. filter (\<lambda>t. sender t = s) (select m st ub k) = take j (sender_run m st ub s) \<and>
    (length (select m st ub k) < nat k \<longrightarrow> filter (\<lambda>t. sender t = s) (select m st ub k) = sender_run m st ub s)"
proof -
  have fees: "0 \<le> the_int (fee t)" if "t \<in> snd ` set (pool m)" for t
    using that assms is_valid_nonneg(2) by (fastforce simp: pool_ok_def list_all_iff)
  obtain j where j: "filter (\<lambda>t. sender t = s) (select m st ub k) = take j (sender_run m st ub s)"
    "length (select m st ub k) < nat k \<longrightarrow> length (sender_run m st ub s) \<le> j"
    using select_taken [where s = s and st = st and ub = ub and k = k, OF fees] by blast
  then show ?thesis by (intro exI [of _ j]) auto
qed

theorem selection_fills_block_witness:
  "\<exists>j. filter (\<lambda>t. sender t = PStr ''19r'') (select mempool_init sample_genesis 10 5) =
      take j (sender_run mempool_init sample_genesis 10 (PStr ''19r''))"
  using selection_fills_block [OF pool_ok_init [of toy], of "PStr ''19r''" sample_genesis 10 5] by blast

text \<open>The genesis the policy computes is accepted, and holds 750,000 coins for the market and
  250,000 for the founder, the staked part included; the founder's grant locks what the schedule says.\<close>

theorem genesis_split_accepted:
  assumes "market \<noteq> founder" "0 \<le> s" "s \<le> FOUNDER_SUPPLY" "0 \<le> cliff" "0 < ep"
  shows "\<exists>al is gr g. build_genesis market founder s cliff duration = Inr (al, is, gr) \<and>
    pos_init E al is ts gr ub tr ep = Inr g \<and>
    balance_of g (PStr market) = 750000 * COIN \<and>
    balance_of g (PStr founder) + stake_of g founder = 250000 * COIN \<and> stake_of g founder = s * COIN \<and>
    locked_of g founder (Some h) = (if 0 < duration then locked (250000 * COIN) 0 cliff duration h else 0)"
proof -
  obtain al "is" gr where b: "build_genesis market founder s cliff duration = Inr (al, is, gr)"
    using build_genesis_total [OF assms(1-3)] by blast
  obtain g where g: "pos_init E al is ts gr ub tr ep = Inr g"
    "balance_of g (PStr market) = 750000 * COIN" "balance_of g (PStr founder) + stake_of g founder = 250000 * COIN"
    "stakes (pos g) = (if s \<noteq> 0 then [(founder, s * COIN)] else [])"
    "locked_of g founder (Some h) = (if 0 < duration then locked (250000 * COIN) 0 cliff duration h else 0)"
    using build_genesis_accepted [OF b assms(4,5) disjI1 [OF refl], of E ts ub tr h]
    unfolding balance_of_def MARKET_SUPPLY_def FOUNDER_SUPPLY_def by blast
  moreover have "stake_of g founder = s * COIN" using g(4) by (simp add: stake_of_def)
  ultimately show ?thesis using b by blast
qed

theorem genesis_split_accepted_witness:
  "\<exists>al is gr g. build_genesis ''market'' ''founder'' 1000 10 100 = Inr (al, is, gr) \<and>
    pos_init toy al is (PInt 0) gr 10 None 32 = Inr g \<and>
    balance_of g (PStr ''market'') = 750000 * COIN \<and>
    balance_of g (PStr ''founder'') + stake_of g ''founder'' = 250000 * COIN \<and>
    stake_of g ''founder'' = 1000 * COIN \<and>
    locked_of g ''founder'' (Some 5) = (if 0 < (100 :: int) then locked (250000 * COIN) 0 10 100 5 else 0)"
  by (rule genesis_split_accepted) (simp_all add: FOUNDER_SUPPLY_def)

section \<open>Fork choice\<close>

text \<open>C16: Adding a block to a tree always returns, and an exception leaves the tree as it was; so the
  conflicting-finality error, raised after the block is stored, is never raised.\<close>

theorem tree_add_total_atomic:
  assumes "block_tree_init E args cp = Inr t0" "tree_reaches E t0 t"
  shows "\<exists>t' r. add_block E t b = Some (t', r) \<and> (isl r \<longrightarrow> t' = t)"
  using add_block_spec [OF tree_reaches_ok [OF assms(2) block_tree_init_ok [OF assms(1)]], of b]
  by (auto simp: isl_def)

theorem tree_add_total_atomic_witness:
  "\<exists>t' r. add_block toy sample_tree sample_block = Some (t', r) \<and> (isl r \<longrightarrow> t' = sample_tree)"
  by (rule tree_add_total_atomic [OF sample_tree_init tree_start])

text \<open>C17: The canonical chain that \<open>add_block\<close> keeps incrementally is the chain that replaying the
  blocks from genesis to the head gives.\<close>

theorem canonical_is_replay:
  assumes "block_tree_init E args cp = Inr t0" "tree_reaches E t0 t"
  shows "chain_at E t (head_hash t) = Some (Inr (canonical t))"
  using tree_reaches_ok [OF assms(2) block_tree_init_ok [OF assms(1)]]
  by (auto simp: tree_ok_def head_ok_def intro: node_facts(4))

theorem canonical_is_replay_witness:
  "chain_at toy sample_tree1 (head_hash sample_tree1) = Some (Inr (canonical sample_tree1))"
  by (rule canonical_is_replay [OF sample_tree_init tree_add [OF tree_start sample_tree_add]])

text \<open>C18: Convergence: the head is the heaviest block whose branch contains the finalized block, the
  smallest hash among equals, also when the fast path skipped the scan.\<close>

theorem head_is_heaviest:
  assumes "block_tree_init E args cp = Inr t0" "tree_reaches E t0 t"
  shows "eligible E t (head_hash t) \<and> (\<forall>h. eligible E t h \<longrightarrow>
    dget (weight t) h 0 < dget (weight t) (head_hash t) 0 \<or>
    dget (weight t) h 0 = dget (weight t) (head_hash t) 0 \<and> head_hash t \<le> h)"
  using tree_reaches_ok [OF assms(2) block_tree_init_ok [OF assms(1)]]
  by (auto simp: tree_ok_def head_ok_def preferred_def)

theorem head_is_heaviest_witness:
  "eligible toy sample_tree1 (head_hash sample_tree1)"
  using head_is_heaviest [OF sample_tree_init tree_add [OF tree_start sample_tree_add]] by blast

text \<open>C19: Finality is never reverted: whatever blocks arrive, in whatever order, the finalized height
  does not fall and the block that was final stays at its height on the canonical chain.\<close>

theorem finality_never_reverted:
  assumes "block_tree_init E args cp = Inr t0" "tree_reaches E t0 t" "tree_reaches E t t'"
  shows "finalized_height t \<le> finalized_height t' \<and>
    on_chain E (chain (canonical t')) (finalized_hash t) (finalized_height t)"
  using finality_for_ever [OF assms(3) tree_reaches_ok [OF assms(2) block_tree_init_ok [OF assms(1)]]] by blast

theorem finality_never_reverted_witness:
  "finalized_height sample_tree \<le> finalized_height sample_tree1 \<and>
   on_chain toy (chain (canonical sample_tree1)) (finalized_hash sample_tree) (finalized_height sample_tree)"
  by (rule finality_never_reverted [OF sample_tree_init tree_start tree_add [OF tree_start sample_tree_add]])

text \<open>The trusted checkpoint is respected: the tree never holds another block at its height.\<close>

theorem checkpoint_respected:
  assumes "block_tree_init E args cp = Inr t0" "tree_reaches E t0 t"
    and "ws_checkpoint t = Some (ch, n)" "dhas (weight t) h" "h \<noteq> genesis_hash t" "dget (height t) h 0 = n"
  shows "h = ch"
  using nodes_ok_ws [of E t h] tree_reaches_ok [OF assms(2) block_tree_init_ok [OF assms(1)]] assms(3-6)
  by (simp add: tree_ok_def ws_allows_def)

theorem checkpoint_respected_witness:
  "head_hash sample_tree1 = ''5d''"
  by (rule checkpoint_respected [OF sample_tree_init tree_add [OF tree_start sample_tree_add]])
    (simp_all add: sample_tree1_def sample_tree_def dhas_def)

section \<open>Storage\<close>

text \<open>Whatever the files of a store hold, what loads from it is a chain that the constructor and
  the consensus rules accept, so its supply is intact.\<close>

theorem load_only_valid_chains:
  assumes "load E s = Some (Inr st)"
  shows "(\<exists>g. pos_reachable E g st) \<and> pos_total_supply st = MAX_SUPPLY_UNITS"
  using load_reachable [OF assms] reachable_inv by blast

theorem load_only_valid_chains_witness:
  "(\<exists>g. pos_reachable toy g sample_chain) \<and> pos_total_supply sample_chain = MAX_SUPPLY_UNITS"
  by (rule load_only_valid_chains [OF sample_load])

text \<open>With keys already in order the chain itself comes back: after the genesis arguments were written and blocks
  appended, loading gives the chain of these arguments, in the order of their keys, with those
  blocks; also when a crash left an unfinished line behind them.\<close>

theorem store_roundtrip:
  assumes "\<And>f. printable (float_repr E f)" "printable part"
    and "write_genesis E args \<lparr>genesis_file = None, blocks_file = None\<rparr> = Inr s0"
    and "json_ok reject_float E (genesis_payload args)"
    and "list_all (\<lambda>b. truthy (block_merkle_root b) \<and> jsonable E (encode_block b)) bs"
    and "new_chain E (sorted_args args) = Inr g" "submit_all E g bs = Inr st"
    and "s = fold (append_block E) bs s0"
  shows "load E (s\<lparr>blocks_file := Some (block_text s @ part)\<rparr>) = Some (Inr st)"
proof -
  have gf: "genesis_file s = Some (json_default E True (genesis_payload args))" and tx: "block_text s = block_lines E bs"
    using assms(3,8) stored_text_fold [of E bs s0] by (auto simp: write_genesis_def block_text_def)
  from written_genesis_params [OF gf assms(4)] obtain raw
    where raw: "genesis_params (s\<lparr>blocks_file := Some (block_text s @ part)\<rparr>) = Some (Inr raw)"
      "typed_args raw = Some (sorted_args args)" by auto
  have "load_lines E g (map (block_line E) bs) = Inr st"
    using load_lines_blocks [OF assms(7)] assms(5) by (simp add: list_all_iff block_line_reads decode_encode_block)
  moreover have "committed_lines (s\<lparr>blocks_file := Some (block_text s @ part)\<rparr>) = map (block_line E) bs"
    by (rule committed_lines_appended [OF assms(1,2)]) (simp add: tx block_lines_def)
  ultimately show ?thesis using raw assms(6) by (simp add: load_def)
qed

theorem store_roundtrip_witness:
  "load toy sample_store = Some (Inr sample_chain)"
proof -
  let ?s0 = "\<lparr>genesis_file = Some (json_default toy True (genesis_payload sample_args)), blocks_file = None\<rparr>"
  let ?s = "fold (append_block toy) [sample_block] ?s0"
  have "load toy (?s\<lparr>blocks_file := Some (block_text ?s @ ''{'')\<rparr>) = Some (Inr sample_chain)"
  proof (rule store_roundtrip [OF _ _ _ _ _ _ _ refl])
    show "list_all (\<lambda>b. truthy (block_merkle_root b) \<and> jsonable toy (encode_block b)) [sample_block]"
      by (simp add: sample_jsonable del: json_ok.simps) (simp add: sample_block_def)
    show "submit_all toy sample_genesis [sample_block] = Inr sample_chain" by (simp add: sample_submit)
    show "json_ok reject_float toy (genesis_payload sample_args)" by (rule sample_args_ok)
  qed (simp_all add: sample_float_repr write_genesis_def sample_args_ok(1) sample_init)
  moreover have "?s\<lparr>blocks_file := Some (block_text ?s @ ''{'')\<rparr> = sample_store"
    by (simp add: sample_store_def append_block_def block_text_def block_line_def)
  ultimately show ?thesis by simp
qed

text \<open>C20: What was stored loads back: after the genesis arguments were written, with their keys in any
  order, and the accepted blocks of a chain appended, loading gives the same chain, even when a crash left an
  unfinished line behind them. It has the same blocks, balances, stakes, votes and finality, and it
  accepts the same blocks from then on.\<close>

theorem stored_chain_reloads:
  assumes "\<And>f. printable (float_repr E f)" "printable part"
    and "write_genesis E args \<lparr>genesis_file = None, blocks_file = None\<rparr> = Inr s0"
    and "json_ok reject_float E (genesis_payload args)" "in_order True (fst (snd (snd args))) = fst (snd (snd args))"
    and "new_chain E args = Inr g" "reaches E (pos_hooks E) g st"
    and "list_all (\<lambda>b. jsonable E (encode_block b)) (tl (chain st))"
    and "s = fold (append_block E) (tl (chain st)) s0"
  shows "\<exists>st'. load E (s\<lparr>blocks_file := Some (block_text s @ part)\<rparr>) = Some (Inr st') \<and>
    same_chain st st' \<and> (\<forall>bs. rel_sum (=) same_chain (submit_all E st bs) (submit_all E st' bs))"
  using stored_chain_loads [OF assms] same_blocks unfolding block_text_def by blast

theorem stored_chain_reloads_witness:
  "\<exists>st'. load toy sample_store = Some (Inr st') \<and> same_chain sample_chain st' \<and>
    rel_sum (=) same_chain (submit_all toy sample_chain [sample_block]) (submit_all toy st' [sample_block])"
proof -
  let ?s0 = "\<lparr>genesis_file = Some (json_default toy True (genesis_payload sample_args)), blocks_file = None\<rparr>"
  let ?s = "fold (append_block toy) (tl (chain sample_chain)) ?s0"
  have tl: "tl (chain sample_chain) = [sample_block]" by (simp add: sample_chain_def sample_genesis_def)
  have store: "?s\<lparr>blocks_file := Some (block_text ?s @ ''{'')\<rparr> = sample_store"
    by (simp add: tl sample_store_def append_block_def block_text_def block_line_def)
  have "\<exists>st'. load toy (?s\<lparr>blocks_file := Some (block_text ?s @ ''{'')\<rparr>) = Some (Inr st') \<and> same_chain sample_chain st' \<and>
    (\<forall>bs. rel_sum (=) same_chain (submit_all toy sample_chain bs) (submit_all toy st' bs))"
  proof (rule stored_chain_reloads [OF sample_float_repr _ _ sample_args_ok(2) _ sample_init _ _ refl])
    show "reaches toy (pos_hooks toy) sample_genesis sample_chain" by (rule reaches_step [OF reaches_start sample_submit])
    show "list_all (\<lambda>b. jsonable toy (encode_block b)) (tl (chain sample_chain))"
      by (simp add: tl sample_jsonable del: json_ok.simps)
    show "in_order True (fst (snd (snd sample_args))) = fst (snd (snd sample_args))" by (simp add: sample_args_def)
  qed (simp_all add: write_genesis_def sample_args_ok(1))
  then show ?thesis unfolding store by blast
qed

text \<open>C21: A restart loses nothing: a node that booted on a store of complete lines and ran, taking lines
  from peers and requests in any order, has written behind them the lines of the blocks it accepted,
  and when these are values JSON can hold, booting again on its store gives the same tree: the same blocks, weights,
  head, chain and finality.\<close>

theorem restart_rebuilds_tree:
  assumes "\<And>f. printable (float_repr E f)"
    and "node_boots E st w cp adv seeds s0" "peer_runs E s0 s"
    and "block_text st = block_lines E bs0"
    and "list_all (\<lambda>b. decode_block E (encode_block b) = Inr b \<and> jsonable E (encode_block b)) bs0"
  shows "\<exists>bs. block_text (svc_store (p_service s)) = block_lines E (bs0 @ bs) \<and>
    (list_all (\<lambda>b. jsonable E (encode_block b)) bs \<longrightarrow>
      (\<exists>svc. service_init E (svc_store (p_service s)) w auto cp = Some (Inr svc) \<and>
        svc_tree svc = svc_tree (p_service s)))"
  using restart [OF assms, of w auto] by blast

theorem restart_rebuilds_tree_witness:
  "\<exists>svc. service_init toy (svc_store (p_service stored_peer)) (Some alice) False (Some (''5d'', 1)) =
      Some (Inr svc) \<and> svc_tree svc = svc_tree (p_service stored_peer)"
proof -
  obtain bs where bs: "block_text (svc_store (p_service stored_peer)) = block_lines toy ([sample_block] @ bs)"
    "list_all (\<lambda>b. jsonable toy (encode_block b)) bs \<longrightarrow>
      (\<exists>svc. service_init toy (svc_store (p_service stored_peer)) (Some alice) False (Some (''5d'', 1)) =
        Some (Inr svc) \<and> svc_tree svc = svc_tree (p_service stored_peer))"
    using restart_rebuilds_tree [OF sample_float_repr stored_boots run_start stored_text stored_reads, of False] by blast
  have "block_lines toy bs = []"
    using bs(1) stored_text by (simp add: stored_peer_def peer_init_def block_lines_def)
  with bs(2) show ?thesis by (simp add: block_lines_Nil_iff)
qed

text \<open>C22: The store is not crash-proof: when a crash left the beginning of a line, the next block is
  written on the same line; unless that line happens to be JSON, no node boots on the store again,
  although the block was reported as stored.\<close>

theorem torn_line_unbootable:
  assumes "\<And>f. printable (float_repr E f)" "printable (CHR ''{'' # m)"
    and "block_text s = block_lines E bs @ CHR ''{'' # m"
    and "json_loads E (CHR ''{'' # m @ block_line E b) = None"
  shows "committed_lines s = map (block_line E) bs \<and>
    service_init E (append_block E b s) w auto cp \<noteq> Some (Inr svc)"
  using torn_skipped [OF assms(1-3)] torn_boot_fails [OF assms] by blast

theorem torn_line_unbootable_witness:
  "service_init toy (append_block toy sample_block sample_store) None False None \<noteq> Some (Inr sample_service)"
proof -
  have "block_text sample_store = block_lines toy [sample_block] @ ''{''"
    by (simp add: sample_store_def block_text_def block_lines_def)
  moreover have "json_loads toy (''{'' @ block_line toy sample_block) = None"
    using sample_torn by simp
  ultimately show ?thesis
    using torn_line_unbootable [OF sample_float_repr, where m = "[]" and s = sample_store and bs = "[sample_block]"]
    by simp
qed

section \<open>The running node\<close>

text \<open>C23: A node answers. In every state of a run, any request over HTTP, however malformed, ends with a
  reply and no exception, and leaves a chain with the full supply and a pool of valid transactions.\<close>

theorem rpc_answered:
  assumes "node_boots E st w cp adv seeds s0" "peer_runs E s0 s"
  shows "\<exists>s' reply. on_service (do_POST E rpc_token auth len body now k) s = Some (s', Inr reply) \<and>
    pos_total_supply (svc_chain (p_service s')) = MAX_SUPPLY_UNITS \<and> pool_ok E (svc_mempool (p_service s'))"
proof -
  from on_rpc_ok run_facts(1) [OF assms] obtain s' r where
    s': "on_service (do_POST E rpc_token auth len body now k) s = Some (s', r)" "peer_ok E s'"
    by (rule ensuresE)
  then obtain reply where "r = Inr reply"
    using do_POST_replies by (fastforce simp: on_service_def within_def split: option.splits)
  moreover have "peer_runs E s0 s'" using s'(1) by (blast intro: run_step assms step_rpc)
  then obtain g where "pos_reachable E g (svc_chain (p_service s'))" using run_chain [OF assms(1)] by blast
  ultimately show ?thesis using s' reachable_inv by (auto simp: peer_ok_def service_ok_def)
qed

theorem rpc_answered_witness:
  "\<exists>s' reply. on_service (do_POST toy None [] (Inr 6) submit_text 7 0) sample_peer1 = Some (s', Inr reply) \<and>
    pos_total_supply (svc_chain (p_service s')) = MAX_SUPPLY_UNITS \<and> pool_ok toy (svc_mempool (p_service s'))"
  by (rule rpc_answered [OF sample_boots sample_run])

text \<open>When the server has a token, a request without it cannot change anything: it is answered, and
  the tree, the pool and the store stay as they were.\<close>

theorem rpc_write_needs_token:
  assumes "t \<noteq> []" "bearer_token auth \<noteq> t"
  shows "\<exists>reply. do_POST E (Some t) auth len body now k s = Some (s, Inr reply)"
proof -
  obtain r where r: "do_POST E (Some t) auth len body now k s = Some (s, r)"
    using ensuresE [OF do_POST_reads [OF assms], where s = s] by blast
  with do_POST_replies [OF r] show ?thesis by blast
qed

theorem rpc_write_needs_token_witness:
  "\<exists>reply. do_POST toy (Some ''secret'') ''Bearer guess'' (Inr 6) submit_text 7 0 sample_service =
    Some (sample_service, Inr reply)"
  by (rule rpc_write_needs_token) (simp_all add: bearer_token_def)

text \<open>C24: Receiving a block is atomic: an exception leaves the node as it was, a block it knows changes
  nothing, and any other block that is accepted is in the tree and is the one line the store gains.\<close>

theorem receive_block_atomic:
  assumes "node_boots E st w cp adv seeds s0" "peer_runs E s0 s"
  shows "\<exists>svc r. receive_block E params (p_service s) = Some (svc, r) \<and> (isl r \<longrightarrow> svc = p_service s) \<and>
    (\<not> isl r \<longrightarrow> (\<exists>b. rbind (param params ''block'') (decode_block E) = Inr b \<and>
      dhas (weight (svc_tree svc)) (block_hash E b) \<and>
      (if dhas (weight (svc_tree (p_service s))) (block_hash E b) then svc = p_service s
       else block_text (svc_store svc) = block_text (svc_store (p_service s)) @ block_lines E [b])))"
proof -
  have "service_ok E (p_service s)" using run_facts(1) [OF assms] by (simp add: peer_ok_def)
  then show ?thesis
    by (cases rule: receive_block_cases [where params = params]) (auto simp: block_text_append)
qed

theorem receive_block_atomic_witness:
  "\<exists>svc r. receive_block toy (PDict [(''block'', encode_block sample_block)]) (p_service sample_peer) = Some (svc, r) \<and>
    (isl r \<longrightarrow> svc = p_service sample_peer)"
  using receive_block_atomic [OF sample_boots run_start, of "PDict [(''block'', encode_block sample_block)]"] by blast

text \<open>A node only produces in its turn: the block it returns is proposed by its own validator, which
  the chain elected, on the head of its chain, and is in its tree and in its store.\<close>

theorem only_elected_produces:
  assumes "node_boots E st w cp adv seeds s0" "peer_runs E s0 s"
    and "produce_block E params now k (p_service s) = Some (svc, Inr v)"
  shows "\<exists>wal b. svc_validator (p_service s) = Some wal \<and>
    next_validator E (svc_chain (p_service s)) = Inr (address E wal) \<and>
    decode_block E v = Inr b \<and> validator b = PStr (address E wal) \<and>
    previous_hash b = PStr (block_hash E (head (svc_chain (p_service s)))) \<and>
    dhas (weight (svc_tree svc)) (block_hash E b) \<and>
    block_text (svc_store svc) = block_text (svc_store (p_service s)) @ block_lines E [b]"
proof -
  have "service_ok E (p_service s)" using run_facts(1) [OF assms(1,2)] by (simp add: peer_ok_def)
  then show ?thesis
  proof (cases rule: produce_block_cases [where params = params and now = now and k = k])
    case (produced wal b t new m)
    with assms(3) next_block_decodes [OF produced(3)] next_block_fields [OF produced(3)]
    show ?thesis by (auto simp: block_text_append)
  qed (use assms(3) in simp)
qed

theorem only_elected_produces_witness:
  "\<exists>wal (b :: block). svc_validator (p_service sample_peer) = Some wal \<and>
    next_validator toy (svc_chain (p_service sample_peer)) = Inr (address toy wal) \<and>
    validator b = PStr (address toy wal)"
proof -
  obtain svc v where "produce_block toy [] 7 0 (p_service sample_peer) = Some (svc, Inr v)"
    using sample_produce by blast
  from only_elected_produces [OF sample_boots run_start this] show ?thesis by blast
qed

text \<open>C25: A message arrives as it was sent: the line \<open>tcp_send\<close> writes for a message JSON can hold, when it is
  not too long and not nested deeper than the receiving interpreter's stack, is handled as that message,
  and a block sent by one node is the block, hash included, that the other takes out of it.\<close>

theorem message_roundtrip:
  assumes "jsonable E (PDict d)" "nesting (PDict d) \<le> json_room E"
    and "length (wire_line E (PDict d)) \<le> MAX_MSG_BYTES"
  shows "handle E up ip (wire_line E (PDict d)) s =
      (case on_message E up (Some ip) d s of
         None \<Rightarrow> None
       | Some (s', Inr u) \<Rightarrow> Some (s', Inr ())
       | Some (s', Inl e) \<Rightarrow> Some (s', if handler_catches e then Inr () else Inl e)) \<and>
    (\<forall>b. dget d ''data'' PNone = encode_block b \<longrightarrow> truthy (block_merkle_root b) \<longrightarrow>
      decode_block E (dget d ''data'' PNone) = Inr b)"
  unfolding handle_wire_line [OF assms]
  by (auto simp: attempt_def return_def decode_encode_block split: option.split sum.split)

theorem message_roundtrip_witness:
  "handle toy sample_up ''b'' sample_gossip sample_peer = Some (sample_peer1, Inr ()) \<and>
    decode_block toy (dget sample_msg ''data'' PNone) = Inr sample_block"
proof -
  have "truthy (block_merkle_root sample_block)" by (simp add: sample_block_def)
  with message_roundtrip [OF sample_msg_jsonable sample_msg_nesting sample_line_ends, of sample_up "''b''" sample_peer] show ?thesis
    by (simp add: sample_message)
qed

text \<open>C26: A node takes any line from a peer: the handler ends, an exception that leaves it is one of
  the three kinds it does not catch (\<open>AttributeError\<close>, \<open>OverflowError\<close>, \<open>RecursionError\<close>), and the tables
  it fills from the network stay within their bounds. Of the buffered blocks the bound is on the parents
  they wait for: \<open>_MAX_ORPHANS\<close> counts the keys of \<open>orphans\<close>, and how many blocks wait for the same
  parent is not limited.\<close>

theorem peer_line_handled:
  assumes "node_boots E st w cp adv seeds s0" "peer_runs E s0 s"
  shows "\<exists>s' r. handle E up client_ip line s = Some (s', r) \<and>
    (\<forall>e. r = Inl e \<longrightarrow> (\<exists>m. e = AttributeError m \<or> e = OverflowError m \<or> e = RecursionError m)) \<and>
    length (p_seen_tx s') \<le> SEEN_CAP \<and> length (p_seen_block s') \<le> SEEN_CAP \<and>
    length (map fst (p_orphans s')) \<le> MAX_ORPHANS \<and> length (p_peers s') \<le> max (length (p_peers s)) MAX_PEERS \<and>
    length (pool (svc_mempool (p_service s'))) \<le> MAX_POOL_SIZE"
proof -
  from handle_ok run_facts(1) [OF assms] obtain s' r where
    s': "handle E up client_ip line s = Some (s', r)" "peer_ok E s'" "peer_grows E s s'"
    by (rule ensuresE)
  have "\<exists>m. e = AttributeError m \<or> e = OverflowError m \<or> e = RecursionError m" if "r = Inl e" for e
    using handle_escapes [of E up client_ip line s s' e] s'(1) that by (cases e) auto
  with s' show ?thesis
    by (auto simp: peer_ok_def peer_grows_def service_ok_def pool_ok_def)
qed

theorem peer_line_handled_witness:
  "\<exists>s' r. handle toy sample_up ''c'' [123, 10] sample_peer1 = Some (s', r) \<and> length (p_orphans s') \<le> MAX_ORPHANS"
  using peer_line_handled [OF sample_boots sample_run, of sample_up "''c''" "[123, 10]"] by auto

text \<open>The third kind is reached by a line of opening brackets, one more than the stack has room for: it is
  raised while the line is read, and the node is as it was.\<close>

theorem deep_line_escapes:
  assumes "json_room E < m" "m < MAX_MSG_BYTES"
  shows "handle E up client_ip (utf8_encode (replicate m (CHR ''['') @ [newline])) s =
    Some (s, Inl (RecursionError ''maximum recursion depth exceeded''))"
  using handle_deep_line [OF assms] .

theorem deep_line_escapes_witness:
  "handle toy sample_up ''c'' (utf8_encode (replicate 1001 (CHR ''['') @ [newline])) sample_peer =
    Some (sample_peer, Inl (RecursionError ''maximum recursion depth exceeded''))"
  by (rule deep_line_escapes) (simp_all add: toy_def MAX_MSG_BYTES_def)

text \<open>A node does not relay junk: every block it ever sent to a peer decodes to a block of its
  tree, and every transaction it sent is valid.\<close>

theorem relays_only_valid:
  assumes "node_boots E st w cp adv seeds s0" "peer_runs E s0 s"
    and "(a, PDict d) \<in> set (p_sent s)"
  shows "(dget d ''type'' PNone = PStr ''block'' \<longrightarrow> (\<exists>b. decode_block E (dget d ''data'' PNone) = Inr b \<and>
      dhas (weight (svc_tree (p_service s))) (block_hash E b))) \<and>
    (dget d ''type'' PNone = PStr ''tx'' \<longrightarrow> (\<exists>tx. decode_tx (dget d ''data'' PNone) = Inr tx \<and> is_valid E tx = Inr True))"
  using run_facts(2) [OF assms(1,2)] node_boots_ok(2) [OF assms(1)] assms(3)
  by (force simp: peer_grows_def sound_msg_def)

theorem relays_only_valid_witness:
  "\<exists>b. decode_block toy (encode_block sample_block) = Inr b \<and>
    dhas (weight (svc_tree (p_service sample_peer1))) (block_hash toy b)"
  using relays_only_valid [OF sample_boots sample_run, of "(''b'', 2)" "[(''type'', PStr ''block''), (''data'', encode_block sample_block)]"]
  by (simp add: sample_peer1_def block_msg_def)

text \<open>Gossip stops: a transaction or block that has just been handled is dropped when it comes
  again, from whichever peer; nothing changes and nothing is sent.\<close>

theorem handled_once:
  assumes "node_boots E st w cp adv seeds s0" "peer_runs E s0 s"
    and "dget d ''type'' PNone = PStr ''tx'' \<and> decode_tx (dget d ''data'' PNone) = Inr tx \<or>
      dget d ''type'' PNone = PStr ''block'' \<and> decode_block E (dget d ''data'' PNone) = Inr b \<and> block_wire_id E b = Inr i"
    and "on_message E up ip d s = Some (s', r)"
  shows "on_message E up' ip' d s' = Some (s', Inr ())"
  using assms(3)
proof
  assume d: "dget d ''type'' PNone = PStr ''tx'' \<and> decode_tx (dget d ''data'' PNone) = Inr tx"
  with assms(4) show ?thesis
    using on_tx_again [OF run_facts(1) [OF assms(1,2)], of d tx] by (simp add: on_message_def)
next
  assume "dget d ''type'' PNone = PStr ''block'' \<and> decode_block E (dget d ''data'' PNone) = Inr b \<and> block_wire_id E b = Inr i"
  with assms(4) show ?thesis
    using on_block_again [OF run_facts(1) [OF assms(1,2)], of d b i] by (simp add: on_message_def)
qed

theorem handled_once_witness:
  "on_message toy sample_up (Some ''c'') [(''type'', PStr ''block''), (''data'', encode_block sample_block)] sample_peer1 =
    Some (sample_peer1, Inr ())"
  by (rule handled_once [OF sample_boots run_start _ sample_message, where b = sample_block and i = "''0a''"])
    (simp add: sample_decode sample_wire_id)

text \<open>C27: Buffered blocks do not get stuck: if no block is waiting for a parent the tree already has,
  this is still so after a block message was handled to its end, however long the chain of waiting
  descendants.\<close>

theorem orphans_drained:
  assumes "node_boots E st w cp adv seeds s0" "peer_runs E s0 s"
    and "\<forall>h. \<not> (dhas (p_orphans s) (PStr h) \<and> dhas (weight (svc_tree (p_service s))) h)"
    and "on_block E up d s = Some (s', Inr ())"
  shows "\<forall>h. \<not> (dhas (p_orphans s') (PStr h) \<and> dhas (weight (svc_tree (p_service s'))) h)"
proof -
  have "overdue s \<subseteq> {}" using assms(3) by (auto simp: overdue_def)
  with on_block_overdue run_facts(1) [OF assms(1,2)] obtain s1 r where
    "on_block E up d s = Some (s1, r)" "\<And>x. r = Inr x \<Longrightarrow> overdue s1 \<subseteq> {}"
    by (rule achievesE) blast
  with assms(4) have "overdue s' \<subseteq> {}" by simp
  then show ?thesis by (auto simp: overdue_def)
qed

theorem orphans_drained_witness:
  "\<forall>h. \<not> (dhas (p_orphans sample_peer1) (PStr h) \<and> dhas (weight (svc_tree (p_service sample_peer1))) h)"
  by (rule orphans_drained [OF sample_boots run_start _ sample_on_block])
    (simp add: sample_peer_def peer_init_def dhas_def)

text \<open>C28: A validator does not slash itself: two votes it casts on a growing chain, the target of the
  first being remembered, are neither a double nor a surround vote.\<close>

theorem auto_votes_no_fault:
  assumes "pos_reachable E g (svc_chain (p_service s))"
    and "reaches E (pos_hooks E) (svc_chain (p_service s)) (svc_chain (p_service s'))"
    and "own_vote E s = Some (v, a, ah, t, th)" "own_vote E s' = Some (v', a', ah', t', th')"
    and "th \<in> set (p_voted s')"
  shows "\<not> double_vote (int_link a ah t th) (int_link a' ah' t' th') \<and>
    surround_vote (int_link a ah t th) (int_link a' ah' t' th') = Inr False"
  using own_votes_rise [OF assms] by (intro rising_links) simp_all

theorem auto_votes_no_fault_witness:
  "\<not> double_vote (int_link ''9f'' 0 ''5e'' 2) (int_link ''9f'' 0 ''5e'' 4) \<and>
    surround_vote (int_link ''9f'' 0 ''5e'' 2) (int_link ''9f'' 0 ''5e'' 4) = Inr False"
  by (rule auto_votes_no_fault [OF _ _ sample_own_votes, where g = sample_genesis])
    (simp_all add: sample_long_reachable sample_long_reaches)

text \<open>C29: Finality survives: at every later moment of a run, whatever peers and clients send, the block
  that was final is still at its height on the chain the node serves, and the supply is intact.\<close>

theorem node_keeps_finality:
  assumes "node_boots E st w cp adv seeds s0" "peer_runs E s0 s" "peer_runs E s s'"
  shows "on_chain E (chain (svc_chain (p_service s'))) (finalized_hash (svc_tree (p_service s)))
      (finalized_height (svc_tree (p_service s))) \<and>
    finalized_height (svc_tree (p_service s)) \<le> finalized_height (svc_tree (p_service s')) \<and>
    pos_total_supply (svc_chain (p_service s')) = MAX_SUPPLY_UNITS"
proof -
  note ok = run_facts(1) [OF assms(1,2)]
  have "tree_reaches E (svc_tree (p_service s)) (svc_tree (p_service s'))"
    using peer_runs_ok [OF assms(3) ok] by (simp add: peer_grows_def service_grows_def)
  moreover have "tree_ok E (svc_tree (p_service s))" using ok by (simp add: peer_ok_def service_ok_def)
  ultimately have "on_chain E (chain (svc_chain (p_service s'))) (finalized_hash (svc_tree (p_service s)))
      (finalized_height (svc_tree (p_service s)))"
    "finalized_height (svc_tree (p_service s)) \<le> finalized_height (svc_tree (p_service s'))"
    using finality_for_ever by (simp_all add: svc_chain_def)
  moreover have "peer_runs E s0 s'" by (rule peer_runs_trans [OF assms(3,2)])
  then obtain g where "pos_reachable E g (svc_chain (p_service s'))" using run_chain [OF assms(1)] by blast
  ultimately show ?thesis using reachable_inv by blast
qed

theorem node_keeps_finality_witness:
  "on_chain toy (chain (svc_chain (p_service sample_peer1))) (finalized_hash (svc_tree (p_service sample_peer)))
    (finalized_height (svc_tree (p_service sample_peer)))"
  using node_keeps_finality [OF sample_boots run_start sample_run] by blast

section \<open>Clients\<close>

text \<open>C30: A wallet is not lost: a secret that was generated, encrypted and saved is what the commands unlock
  with the passphrase, and it is the number that was drawn, of a valid key. A crash while it is saved
  leaves what was at the path before, or the whole keystore.\<close>

theorem keystore_unlocks:
  assumes "new_secret E draws = Some t" "encrypt_secret C salt nonce_bytes t passphrase = Inr ks" "path \<noteq> []"
    and "\<And>key n d. aes_decrypt C key n (aes_encrypt C key n d) = Inr (Some d)"
  shows "resolve_secret E C (save_keystore E ks path fs) (Some passphrase) (Some path) inline_secret = Inr t \<and>
    (\<exists>s \<in> set draws. int16 t = Inr (int s) \<and> (\<exists>w. from_secret E (int s) = Inr w)) \<and>
    (\<forall>fs' \<in> set (saving E ks path fs). fs' path = fs path \<or> fs' path = save_keystore E ks path fs path)"
proof -
  have "\<forall>fs' \<in> set (saving E ks path fs). fs' path = fs path \<or> fs' path = save_keystore E ks path fs path"
    using saving_old_or_new by (simp add: save_keystore_def)
  with resolve_saved [OF assms(1,2,4,3)] new_secret_reads [OF assms(1)] show ?thesis by blast
qed

theorem keystore_unlocks_witness:
  "resolve_secret toy toy_crypto (save_keystore toy sample_keystore ''k'' (\<lambda>_. None)) (Some ''pw'') (Some ''k'') None =
    Inr (hex_pad 64 2)"
  using keystore_unlocks [OF sample_secret_text(1) sample_encrypt, where path = "''k''"] toy_crypto_law by blast

text \<open>C31: Amounts are exact: text with at most 20 significant digits, of any exponent a supply could have,
  is converted to \<open>n\<close> units exactly when it denotes \<open>n\<close> units, that is \<open>c * 10 ^ e = n / 10 ^ 8\<close>;
  otherwise the wallet refuses it.\<close>

theorem amounts_exact:
  assumes "decimal_of s = Some (Finite False c e)" "c < 10 ^ 20" "-999999 \<le> e" "e \<le> 999000"
  shows "parse_amount s = Inr n \<longleftrightarrow> n * 10 ^ nat (- (e + 8)) = int c * 10 ^ nat (e + 8)"
  using parse_amount_exact [OF assms] by (simp add: units_exact_def)

theorem amounts_exact_witness:
  "parse_amount ''1.5'' = Inr 150000000"
  using amounts_exact [OF sample_decimal(1)] by simp

text \<open>C32: What the wallet submits arrives: a command of a wallet with sound signatures, against a node that
  asks for no token and has room, signs a valid transaction and ends with it in the pool of the node;
  the chain, the store and everything else of the node stay as they were.\<close>

theorem wallet_command_pooled:
  assumes "int16 secret_text = Inr s" "from_secret E s = Inr w" "ecdsa_laws E (secret w)"
    and "parse_amount amount_text = Inr a" "0 < a" "parse_amount fee_text = Inr f" "MIN_FEE \<le> f"
    and "command_recipient cmd \<notin> {SLASH_SENTINEL, VOTE_SENTINEL}"
    and "n = dget (nonces (svc_chain svc)) (PStr (address E w)) 0" "0 \<le> n"
    and "length (pool (svc_mempool svc)) < MAX_POOL_SIZE" "\<not> svc_autoproduce svc"
    and "int (length (utf8_encode (json_default E False (rpc_request ''nonce'' [(''address'', PStr (address E w))])))) \<le> MAX_RPC_BODY"
    and "\<And>tx. build_tx E w cmd a f n k = Inr tx \<Longrightarrow>
      int (length (utf8_encode (json_default E False (rpc_request ''submit_tx'' [(''tx'', encode_tx tx)])))) \<le> MAX_RPC_BODY"
  shows "\<exists>tx m. build_tx E w cmd a f n k = Inr tx \<and> is_valid E tx = Inr True \<and>
    wallet_command E None secret_text cmd amount_text fee_text now k k' svc =
      Some (svc\<lparr>svc_mempool := m\<rparr>, Inr (PDict [(''txid'', PStr (txid E tx)), (''mined'', PNone)])) \<and>
    dhas (pool m) (txid E tx)"
  by (rule wallet_command_pools [OF assms])

theorem wallet_command_pooled_witness:
  "\<exists>m. wallet_command toy None ''2'' (Send ''1EG'') ''1e-8'' ''0'' 7 0 0 sample_service =
      Some (sample_service\<lparr>svc_mempool := m\<rparr>, Inr (PDict [(''txid'', PStr (txid toy wallet_tx)), (''mined'', PNone)])) \<and>
    dhas (pool m) (txid toy wallet_tx)"
proof -
  have cmd: "command_recipient (Send ''1EG'') \<notin> {SLASH_SENTINEL, VOTE_SENTINEL}" by code_simp
  have "int (length (utf8_encode (json_default toy False (rpc_request ''submit_tx'' [(''tx'', encode_tx tx)])))) \<le> MAX_RPC_BODY"
    if "build_tx toy alice (Send ''1EG'') 1 0 0 0 = Inr tx" for tx
    using that wallet_bodies(2) unfolding wallet_tx_built by (simp only: sum.inject)
  from wallet_command_pooled [OF alice_secret sample_laws sample_amount(1) _ sample_amount(2) _ cmd wallet_service(1) [symmetric]
      _ wallet_service(2,3) wallet_bodies(1) this, where now = 7 and k = 0 and k' = 0]
  show ?thesis unfolding wallet_tx_built by (auto simp: MIN_FEE_def)
qed

text \<open>C33: A cycle of the driver is accounted for. The number it reports is the number of lines it added to the
  store behind the old ones; each of them is a block by the driver's key that loads again, and all are
  blocks of the tree, which is the old tree with these blocks added in order. When their hashes are new, the chain
  is the old one with these blocks at its end. A node booted on the directory afterwards has this tree, and
  the status file describes it: its head and height, the supply intact, and a finalized block that is at or above the
  one before the cycle; that one is still at its height.\<close>

theorem driver_cycle:
  assumes "\<And>f. printable (float_repr E f)"
    and "block_text (d_store d) = block_lines E bs0"
    and "list_all (\<lambda>b. decode_block E (encode_block b) = Inr b \<and> jsonable E (encode_block b)) bs0"
    and "cmd_tick E sec n base now ks d = Some (d', Inr produced)"
  shows "\<exists>w svc svc' bs doc. validator_wallet E sec = Inr w \<and>
    service_init E (d_store d) (Some w) False None = Some (Inr svc) \<and>
    length bs = produced \<and> block_text (d_store d') = block_lines E (bs0 @ bs) \<and>
    (\<forall>b \<in> set bs. validator b = PStr (address E w) \<and> decode_block E (encode_block b) = Inr b \<and> jsonable E (encode_block b)) \<and>
    replay_blocks E (svc_tree svc) (map Inr bs) = Some (Inr (svc_tree svc')) \<and>
    (distinct (map (block_hash E) bs) \<and> (\<forall>b \<in> set bs. \<not> dhas (weight (svc_tree svc)) (block_hash E b)) \<longrightarrow>
      chain (svc_chain svc') = chain (svc_chain svc) @ bs) \<and>
    service_init E (d_store d') None False None = Some (Inr svc') \<and>
    d_status d' = Some (PDict doc) \<and> dget doc ''supply_ok'' PNone = PBool True \<and>
    dget doc ''height'' PNone = index (head (svc_chain svc')) \<and>
    dget doc ''head'' PNone = PStr (block_hash E (head (svc_chain svc'))) \<and>
    dget doc ''finalized_height'' PNone = PInt (finalized_height (svc_tree svc')) \<and>
    finalized_height (svc_tree svc) \<le> finalized_height (svc_tree svc') \<and>
    on_chain E (chain (svc_chain svc')) (finalized_hash (svc_tree svc)) (finalized_height (svc_tree svc))"
proof -
  obtain w svc svc1 svc' bs where run: "validator_wallet E sec = Inr w"
    "service_init E (d_store d) (Some w) False None = Some (Inr svc)"
    and made: "made E w bs svc svc1" "produced = length bs" "svc_tree svc' = svc_tree svc1"
    and after: "service_init E (d_store d') None False None = Some (Inr svc')"
      "tree_reaches E (svc_tree svc) (svc_tree svc')" "service_ok E svc" "service_ok E svc'"
      "block_text (d_store d') = block_lines E (bs0 @ bs)" "d_status d' = Some (status_doc E now svc')"
    by (rule tick_reports [OF assms(1,4,2,3)])
  obtain doc where doc: "status_doc E now svc' = PDict doc" by (simp add: status_doc_def Let_def)
  then have "dget doc ''head'' PNone = PStr (block_hash E (head (svc_chain svc')))"
    "dget doc ''height'' PNone = index (head (svc_chain svc'))"
    by (auto simp: status_doc_def Let_def)
  moreover have "\<forall>b \<in> set bs. validator b = PStr (address E w) \<and> decode_block E (encode_block b) = Inr b \<and> jsonable E (encode_block b)"
    "replay_blocks E (svc_tree svc) (map Inr bs) = Some (Inr (svc_tree svc'))"
    "distinct (map (block_hash E) bs) \<and> (\<forall>b \<in> set bs. \<not> dhas (weight (svc_tree svc)) (block_hash E b)) \<longrightarrow>
      chain (svc_chain svc') = chain (svc_chain svc) @ bs"
    using made by (auto simp: made_def persists_def list_all_iff svc_chain_def simp del: json_ok.simps)
  moreover have "finalized_height (svc_tree svc) \<le> finalized_height (svc_tree svc')"
    "on_chain E (chain (svc_chain svc')) (finalized_hash (svc_tree svc)) (finalized_height (svc_tree svc))"
    using finality_for_ever [OF after(2)] after(3) by (simp_all add: service_ok_def svc_chain_def)
  ultimately show ?thesis
    using run made(2) after doc status_doc_fields [OF after(4) doc]
    by (intro exI [of _ w] exI [of _ svc] exI [of _ svc'] exI [of _ bs] exI [of _ doc]) (simp del: json_ok.simps)
qed

theorem driver_cycle_witness:
  "\<exists>d' b. cmd_tick toy (Some ''2'') 1 7 99 (\<lambda>_. 0) driver_dir = Some (d', Inr 1) \<and>
    block_text (d_store d') = block_lines toy [b]"
proof -
  obtain d' where d': "cmd_tick toy (Some ''2'') 1 7 99 (\<lambda>_. 0) driver_dir = Some (d', Inr 1)"
    using driver_ticks by blast
  have "block_text (d_store driver_dir) = block_lines toy []"
    by (simp add: driver_dir_def fresh_store_def block_text_def block_lines_def)
  from driver_cycle [OF sample_float_repr this _ d'] obtain bs where
    "length bs = 1" "block_text (d_store d') = block_lines toy bs" by (auto simp del: json_ok.simps)
  with d' show ?thesis by (cases bs) auto
qed

section \<open>Launching and serving\<close>

text \<open>C34: A launched network can start: the data directories the launch script wrote all boot, with the
  key unlocked from the keystore of the founder, on a chain where the market has its 750000 coins, the
  founder his 250000 with the stake among them, and the founder is elected for the first block.\<close>

theorem launch_ready:
  assumes "launch_genesis E C (Some passphrase) keys r1 r2 r3 founder_stake cliff duration ub ep fs dirs =
      Some (fs', dirs', Inr (market, treasury, founder))"
    and "\<And>key n d. aes_decrypt C key n (aes_encrypt C key n d) = Inr (Some d)"
    and "0 < founder_stake" "0 \<le> cliff" "0 < ep" "\<forall>d \<in> set dirs. blocks_file d = None" "d \<in> set dirs'"
  shows "\<exists>w svc. validator_arg E C fs' (Some passphrase) (Some (path_join keys ''founder.json'')) None = Inr (Some w) \<and>
    service_init E d (Some w) False None = Some (Inr svc) \<and> is_our_turn E svc = Inr True \<and> address E w = founder \<and>
    balance_of (svc_chain svc) (PStr market) = 750000 * COIN \<and>
    balance_of (svc_chain svc) (PStr founder) + stake_of (svc_chain svc) founder = 250000 * COIN \<and>
    stake_of (svc_chain svc) founder = founder_stake * COIN"
proof -
  obtain w t g where run: "validator_arg E C fs' (Some passphrase) (Some (path_join keys ''founder.json'')) None = Inr (Some w)"
    "address E w = founder" "service_init E d (Some w) False None = Some (Inr (fresh_service d (Some w) t))"
    "canonical t = g" "is_our_turn E (fresh_service d (Some w) t) = Inr True"
    "balance_of g (PStr market) = MARKET_SUPPLY * COIN"
    "balance_of g (PStr founder) + stake_of g founder = FOUNDER_SUPPLY * COIN" "stake_of g founder = founder_stake * COIN"
    by (rule launched_node [OF assms])
  have "svc_chain (fresh_service d (Some w) t) = g" using run(4) by (simp add: svc_chain_def fresh_service_def)
  with run show ?thesis unfolding MARKET_SUPPLY_def FOUNDER_SUPPLY_def by metis
qed

theorem launch_ready_witness:
  "\<exists>fs' d w svc. launch_genesis toy toy_crypto (Some ''pw'') ''k'' ([3], [1, 2], [3]) ([5], [1, 2], [3]) ([2], [1, 2], [3])
     50000 50 500 100 4 (\<lambda>_. None) [empty_store, empty_store] = Some (fs', [d, d], Inr (''1EG'', ''1P6'', ''19r'')) \<and>
    service_init toy d (Some w) False None = Some (Inr svc) \<and> is_our_turn toy svc = Inr True"
proof -
  obtain fs' d where run: "launch_genesis toy toy_crypto (Some ''pw'') ''k'' ([3], [1, 2], [3]) ([5], [1, 2], [3]) ([2], [1, 2], [3])
     50000 50 500 100 4 (\<lambda>_. None) [empty_store, empty_store] = Some (fs', [d, d], Inr (''1EG'', ''1P6'', ''19r''))"
    using sample_launch by blast
  from launch_ready [OF this toy_crypto_law, of d] obtain w svc where
    "service_init toy d (Some w) False None = Some (Inr svc)" "is_our_turn toy svc = Inr True"
    by (auto simp: empty_store_def)
  with run show ?thesis by blast
qed

text \<open>C35: A test network agrees from the start: with distinct addresses and stakes within the supply, every
  node boots with the same block tree, every validator has its stake, and the first block is the turn
  of the validators with one address among them, on whichever node.\<close>

theorem testnet_agrees:
  assumes "build_testnet E vs stake_coins ep ub dirs = (dirs', Inr ())" "from_secret E 10000 = Inr w0"
    and "distinct (address E w0 # map (address E) vs)" "0 < stake_coins" "int (length vs) * stake_coins \<le> MAX_SUPPLY" "0 < ep"
    and "\<forall>d \<in> set dirs. blocks_file d = None" "vs \<noteq> []"
  shows "\<exists>t v. v \<in> set vs \<and> length dirs' = length dirs \<and> (\<forall>d \<in> set dirs'. \<forall>w. \<exists>svc.
      service_init E d w False None = Some (Inr svc) \<and> svc_tree svc = t \<and>
      (\<forall>u \<in> set vs. stake_of (svc_chain svc) (address E u) = stake_coins * COIN \<and>
        (w = Some u \<longrightarrow> is_our_turn E svc = Inr (u = v))))"
proof -
  obtain t v where run: "v \<in> set vs"
    "\<forall>d \<in> set dirs'. \<forall>w. service_init E d w False None = Some (Inr (fresh_service d w t))"
    "\<forall>d u. is_our_turn E (fresh_service d (Some u) t) = Inr (address E u = address E v)"
    "\<forall>u \<in> set vs. stake_of (canonical t) (address E u) = stake_coins * COIN"
    using testnet_nodes [OF assms] by blast
  have "u = v \<longleftrightarrow> address E u = address E v" if "u \<in> set vs" for u
    using assms(3) run(1) that by (auto simp: distinct_map inj_on_def)
  with run have core: "svc_tree (fresh_service d w t) = t \<and>
      (\<forall>u \<in> set vs. stake_of (svc_chain (fresh_service d w t)) (address E u) = stake_coins * COIN \<and>
        (w = Some u \<longrightarrow> is_our_turn E (fresh_service d w t) = Inr (u = v)))" for d w
    by (simp add: fresh_service_def svc_chain_def)
  have "length dirs' = length dirs"
    using assms(1,2) write_all_length by (simp add: build_testnet_def)
  moreover have "\<forall>d \<in> set dirs'. \<forall>w. \<exists>svc. service_init E d w False None = Some (Inr svc) \<and> svc_tree svc = t \<and>
      (\<forall>u \<in> set vs. stake_of (svc_chain svc) (address E u) = stake_coins * COIN \<and>
        (w = Some u \<longrightarrow> is_our_turn E svc = Inr (u = v)))"
  proof (intro ballI allI)
    fix d w assume d: "d \<in> set dirs'"
    show "\<exists>svc. service_init E d w False None = Some (Inr svc) \<and> svc_tree svc = t \<and>
        (\<forall>u \<in> set vs. stake_of (svc_chain svc) (address E u) = stake_coins * COIN \<and>
          (w = Some u \<longrightarrow> is_our_turn E svc = Inr (u = v)))"
      by (rule exI [of _ "fresh_service d w t"], rule conjI [OF run(2) [rule_format, OF d, of w] core [of d w]])
  qed
  ultimately show ?thesis by (intro exI [of _ t] exI [of _ v] conjI run(1))
qed

theorem testnet_agrees_witness:
  "\<exists>d t. build_testnet toy [alice, bob] 100000 8 200 [empty_store, empty_store, empty_store] = ([d, d, d], Inr ()) \<and>
    (\<exists>svc. service_init toy d (Some alice) False None = Some (Inr svc) \<and> svc_tree svc = t) \<and>
    (\<exists>svc. service_init toy d (Some bob) False None = Some (Inr svc) \<and> svc_tree svc = t)"
proof -
  obtain d where run: "build_testnet toy [alice, bob] 100000 8 200 [empty_store, empty_store, empty_store] = ([d, d, d], Inr ())"
    using sample_testnet by blast
  have key: "from_secret toy 10000 = Inr \<lparr>secret = 10000\<rparr>" by (simp add: from_secret_def toy_def)
  have args: "distinct (address toy \<lparr>secret = 10000\<rparr> # map (address toy) [alice, bob])" "(0 :: int) < 100000"
    "int (length [alice, bob]) * 100000 \<le> MAX_SUPPLY" "(0 :: int) < 8"
    "\<forall>d \<in> set [empty_store, empty_store, empty_store]. blocks_file d = None" "[alice, bob] \<noteq> []"
    by (simp_all add: more_addresses sample_addresses MAX_SUPPLY_def empty_store_def)
  from testnet_agrees [OF run key args] show ?thesis
  proof (elim exE conjE)
    fix t v
    assume nodes: "\<forall>d' \<in> set [d, d, d]. \<forall>w. \<exists>svc. service_init toy d' w False None = Some (Inr svc) \<and> svc_tree svc = t \<and>
      (\<forall>u \<in> set [alice, bob]. stake_of (svc_chain svc) (address toy u) = 100000 * COIN \<and>
        (w = Some u \<longrightarrow> is_our_turn toy svc = Inr (u = v)))"
    have "d \<in> set [d, d, d]" by simp
    then have "\<exists>svc. service_init toy d w False None = Some (Inr svc) \<and> svc_tree svc = t" for w
      using nodes by blast
    with run show ?thesis by blast
  qed
qed

text \<open>C36: An RPC server that others can reach is closed: when \<open>node.py serve\<close> gets as far as serving on an
  address that is not the loopback, every request without its token leaves the node as it was, whatever
  state it is in by then, and is answered.\<close>

theorem open_rpc_refused:
  assumes "node_serve E C fs passphrase token host keystore_path inline_secret checkpoint auto st = Some (Inr (svc, tok))"
    and "host \<notin> set LOOPBACK"
  shows "\<exists>t. tok = Some t \<and> (bearer_token auth = t \<or>
    (\<exists>reply. do_POST E tok auth len body now k s = Some (s, Inr reply)))"
proof -
  obtain t where t: "tok = Some t" "t \<noteq> []" using node_serve_token [OF assms] by blast
  show ?thesis
  proof (cases "bearer_token auth = t")
    case False
    then obtain r where r: "do_POST E (Some t) auth len body now k s = Some (s, r)"
      using ensuresE [OF do_POST_reads [OF t(2) False], where s = s] by blast
    with do_POST_replies [OF r] t(1) show ?thesis by blast
  qed (simp add: t(1))
qed

theorem open_rpc_refused_witness:
  "\<exists>reply. do_POST toy (Some ''secret'') ''Bearer guess'' (Inr 6) submit_text 7 0 sample_service =
    Some (sample_service, Inr reply)"
  using open_rpc_refused [OF sample_node_serve, of "''Bearer guess''" "Inr 6" submit_text 7 0 sample_service]
  by (simp add: LOOPBACK_def bearer_token_def)

text \<open>C37: The program \<open>p2p.py serve\<close> stays within the runs all other properties are about: it boots as
  they assume, and a round of its loop, at any moment of a run, ends, by an exception or not, in a state
  of that run, with the finalized block still in place and the validator key unchanged.\<close>

theorem main_loop_sound:
  assumes "p2p_serve E C fs passphrase bound keystore_path inline_secret checkpoint advertise seeds st = Some (Inr s0)"
    and "peer_runs E s0 s"
  shows "\<exists>w cp adv ps s' r. validator_arg E C fs passphrase keystore_path inline_secret = Inr w \<and>
    node_boots E st w cp adv ps s0 \<and> p2p_round E ups slot now k k' s = Some (s', r) \<and> peer_runs E s0 s' \<and>
    on_chain E (chain (svc_chain (p_service s'))) (finalized_hash (svc_tree (p_service s)))
      (finalized_height (svc_tree (p_service s))) \<and> svc_validator (p_service s') = w"
proof -
  obtain w cp adv ps where boot: "validator_arg E C fs passphrase keystore_path inline_secret = Inr w"
    "node_boots E st w cp adv ps s0"
    using p2p_serve_boots [OF assms(1)] by blast
  note ok = run_facts(1) [OF boot(2) assms(2)]
  from p2p_round_ok ok obtain s' r where s': "p2p_round E ups slot now k k' s = Some (s', r)" "peer_grows E s s'"
    by (rule ensuresE)
  have run: "peer_runs E s0 s'" by (rule peer_runs_trans [OF p2p_round_runs [OF s'(1)] assms(2)])
  have "svc_validator (p_service s') = w"
    using run_facts(2) [OF boot(2) run] node_boots_ok(4) [OF boot(2)] by (simp add: peer_grows_def service_grows_def)
  moreover have "on_chain E (chain (svc_chain (p_service s'))) (finalized_hash (svc_tree (p_service s)))
      (finalized_height (svc_tree (p_service s)))"
    using finality_for_ever s'(2) ok by (simp add: peer_grows_def service_grows_def peer_ok_def service_ok_def svc_chain_def)
  ultimately show ?thesis using boot s'(1) run by blast
qed

theorem main_loop_sound_witness:
  "\<exists>s' r. p2p_round toy (\<lambda>_. sample_up) 7 7 0 0 ((peer_init driver_service ''a:1'')\<lparr>p_peers := [(''b'', 2)]\<rparr>) = Some (s', r) \<and>
    svc_validator (p_service s') = Some alice"
  using main_loop_sound [OF sample_p2p_serve run_start, of "\<lambda>_. sample_up" 7 7 0 0]
  by (auto simp: validator_arg_def alice_secret)

section \<open>The in-process mesh\<close>

text \<open>C38: Agreement: in a mesh whose nodes have the same chain, production ends without an exception, and
  afterwards every node connected to the producer, over however many hops, has the producer's new
  chain, balances, stakes and finality included.\<close>

theorem mesh_agrees:
  assumes "closed_mesh N s" "i \<in> N" "card N \<le> n"
    and "\<forall>j \<in> N. g_chain (s j) = c \<and> pool_ok E (g_pool (s j)) \<and> block_hash E (head c') \<notin> set (g_seen_block (s j))"
    and "pos_add_block E c (select (g_pool (s i)) c (unbonding_blocks c) MAX_TXS_PER_BLOCK) w ts (PInt 0) k = Inr c'"
  shows "\<exists>s'. g_produce n E w ts k i s = Some (s', Inr (head c')) \<and>
    (\<forall>j. (i, j) \<in> {(a, b). b \<in> set (g_peers (s a))}\<^sup>* \<longrightarrow> g_chain (s' j) = c')"
proof -
  obtain s' where run: "g_produce n E w ts k i s = Some (s', Inr (head c'))"
    using g_produce_returns [OF assms(1-3,5)] assms(4) by blast
  have "j \<in> N" if "(i, j) \<in> {(a, b). b \<in> set (g_peers (s a))}\<^sup>*" for j
    using that assms(1,2) by (induction rule: rtrancl_induct) (auto simp: closed_mesh_def)
  with run g_produce_agree [OF run assms(5)] assms(4) show ?thesis by blast
qed

theorem mesh_agrees_witness:
  "\<exists>s'. g_produce 3 toy alice (PInt 7) 0 0 sample_mesh = Some (s', Inr (head own_chain)) \<and> g_chain (s' 2) = own_chain"
  using mesh_agrees [OF sample_mesh_closed, of 0 3 sample_genesis toy own_chain alice "PInt 7" 0]
    own_chain_added sample_mesh_path
  by (simp add: pool_ok_init) blast

text \<open>C39: Gossip floods: a transaction new to the mesh reaches every node connected to the sender over
  nodes that accept it; a node that accepts it has it in its pool, as if it had been submitted there.\<close>

theorem tx_floods:
  assumes "closed_mesh N s" "i \<in> N" "card N < n"
    and "\<forall>j. txid E tx \<notin> set (g_seen_tx (s j))"
    and "\<forall>j \<in> N. \<forall>e. mempool_add E tx (g_chain (s j)) (g_pool (s j)) = Inl e \<longrightarrow> is_validation e"
  shows "\<exists>s'. broadcast_tx n E tx i s = Some (s', Inr ()) \<and>
    (\<forall>j new m. (i, j) \<in> {(a, b). takes_tx E tx (s a) \<and> b \<in> set (g_peers (s a))}\<^sup>* \<longrightarrow>
      mempool_add E tx (g_chain (s j)) (g_pool (s j)) = Inr (new, m) \<longrightarrow> g_pool (s' j) = m)"
proof -
  obtain s' where run: "broadcast_tx n E tx i s = Some (s', Inr ())"
    using broadcast_tx_returns [OF assms(1-3)] assms(4,5) by blast
  with broadcast_tx_reaches [OF run assms(4)] show ?thesis by fastforce
qed

theorem tx_floods_witness:
  "\<exists>s' m. broadcast_tx 4 toy sample_tx 0 sample_mesh = Some (s', Inr ()) \<and>
    mempool_add toy sample_tx sample_genesis mempool_init = Inr (True, m) \<and> g_pool (s' 2) = m"
proof -
  obtain m where m: "mempool_add toy sample_tx sample_genesis mempool_init = Inr (True, m)"
    using sample_pool_add by blast
  have path: "(0, 2) \<in> {(a, b). takes_tx toy sample_tx (sample_mesh a) \<and> b \<in> set (g_peers (sample_mesh a))}\<^sup>*"
    using sample_mesh_path sample_takes by simp
  have "0 \<in> {0, 1, 2 :: nat}" "card {0, 1, 2 :: nat} < 4" "\<forall>j. txid toy sample_tx \<notin> set (g_seen_tx (sample_mesh j))"
    "\<forall>j \<in> {0, 1, 2 :: nat}. \<forall>e. mempool_add toy sample_tx (g_chain (sample_mesh j)) (g_pool (sample_mesh j)) = Inl e \<longrightarrow>
      is_validation e"
    by (simp_all add: m)
  from tx_floods [OF sample_mesh_closed this] obtain s' where s': "broadcast_tx 4 toy sample_tx 0 sample_mesh = Some (s', Inr ())"
    "\<forall>j new m. (0, j) \<in> {(a, b). takes_tx toy sample_tx (sample_mesh a) \<and> b \<in> set (g_peers (sample_mesh a))}\<^sup>* \<longrightarrow>
      mempool_add toy sample_tx (g_chain (sample_mesh j)) (g_pool (sample_mesh j)) = Inr (new, m) \<longrightarrow> g_pool (s' j) = m"
    by (elim exE conjE)
  have "g_pool (s' 2) = m" by (rule s'(2) [rule_format, OF path, of True]) (simp add: m)
  with s'(1) m show ?thesis by blast
qed

text \<open>C40: A late joiner catches up: synchronising with a node whose chain extends one's own applies
  exactly the missing blocks and gives the same chain; no other node changes.\<close>

theorem sync_catches_up:
  assumes "pos_reachable E g (g_chain (s i))" "reaches E (pos_hooks E) (g_chain (s i)) (g_chain (s j))"
    and "pool_ok E (g_pool (s i))"
  shows "\<exists>s'. sync_from E i j s = Some (s', Inr (length (chain (g_chain (s j))) - length (chain (g_chain (s i))))) \<and>
    g_chain (s' i) = g_chain (s j) \<and> (\<forall>k. k \<noteq> i \<longrightarrow> s' k = s k)"
  by (rule sync_from_catches_up [OF assms])

theorem sync_catches_up_witness:
  "\<exists>s'. sync_from toy 1 0 late_mesh = Some (s', Inr 1) \<and> g_chain (s' 1) = sample_chain"
  using sync_catches_up [of toy sample_genesis late_mesh 1 0] sample_reachable_genesis
    reaches_step [OF reaches_start sample_submit]
  by (auto simp: late_mesh_def g_init_def pool_ok_init) (auto simp: sample_chain_def sample_genesis_def)

end
